(* ===== verification/Prelude.thy ===== *)
theory Prelude
  imports Main "HOL-Library.Word"
begin

text \<open>
  Shared vocabulary of the development: the machine integers of the C++ code as words,
  byte strings, the little-endian field accessors that every wire format of the stack is
  made of, the ordered map that stands for \<^verbatim>\<open>std::map\<close>, and the two interfaces that
  several components implement: \<open>wire_codec\<close> (an encoder with its decoder) and
  \<open>keyed_store\<close> (a table with insert, erase and find). Facts that the component proofs
  need again and again are collected in \<open>wire_simps\<close> (byte-level rewriting) and
  \<open>state_defs\<close> (definitions a handler proof unfolds).
\<close>

unbundle bit_operations_syntax

named_theorems wire_simps "byte-level round trips of the field accessors"
named_theorems state_defs "definitions that a proof about a handler unfolds"

subsection \<open>Machine integers and byte strings\<close>

type_synonym u8 = "8 word"
type_synonym u16 = "16 word"
type_synonym u32 = "32 word"
type_synonym u64 = "64 word"
type_synonym bytes = "8 word list"

text \<open>
  \<open>byte_at i x\<close> is \<^verbatim>\<open>static_cast<uint8_t>((x >> (8 * i)) & 0xFF)\<close>, the expression by which
  every encoder of the stack takes the \<open>i\<close>-th byte of a field.
\<close>

definition byte_at :: "nat \<Rightarrow> 'a::len word \<Rightarrow> u8" where
  "byte_at i x = ucast (drop_bit (8 * i) x AND 0xFF)"

definition put16 :: "u16 \<Rightarrow> bytes" where
  "put16 x = [byte_at 0 x, byte_at 1 x]"

definition put32 :: "u32 \<Rightarrow> bytes" where
  "put32 x = [byte_at 0 x, byte_at 1 x, byte_at 2 x, byte_at 3 x]"

definition get16 :: "u8 \<Rightarrow> u8 \<Rightarrow> u16" where
  "get16 b0 b1 = ucast b0 OR push_bit 8 (ucast b1)"

definition get32 :: "u8 \<Rightarrow> u8 \<Rightarrow> u8 \<Rightarrow> u8 \<Rightarrow> u32" where
  "get32 b0 b1 b2 b3 =
     ucast b0 OR push_bit 8 (ucast b1) OR push_bit 16 (ucast b2) OR push_bit 24 (ucast b3)"

text \<open>
  Reads at an offset of a vector. Every caller of the source compares the size first; the
  model keeps those comparisons, so the offsets are in range wherever these are evaluated.
\<close>

definition get16_at :: "bytes \<Rightarrow> nat \<Rightarrow> u16" where
  "get16_at v off = get16 (v ! off) (v ! (off + 1))"

definition get32_at :: "bytes \<Rightarrow> nat \<Rightarrow> u32" where
  "get32_at v off = get32 (v ! off) (v ! (off + 1)) (v ! (off + 2)) (v ! (off + 3))"

lemma bit_byte_at: "bit (byte_at i x) n \<longleftrightarrow> n < 8 \<and> bit x (8 * i + n)"
proof -
  have m: "(0xFF :: 'a word) = mask 8" by (simp add: mask_eq_exp_minus_1)
  have "bit (byte_at i x) n \<longleftrightarrow> n < LENGTH('a) \<and> n < 8 \<and> bit x (8 * i + n)"
    by (simp only: byte_at_def m) (auto simp: bit_simps)
  then show ?thesis
    using bit_imp_le_length [of x "8 * i + n"] by auto
qed

lemma byte_at_ucast: "byte_at i x = ucast (drop_bit (8 * i) x)"
  by (rule bit_word_eqI) (auto simp: bit_byte_at bit_simps)

lemma unat_byte_at: "unat (byte_at i x) = unat x div 2 ^ (8 * i) mod 256"
proof -
  have "unat (byte_at i x) = take_bit 8 (unat (drop_bit (8 * i) x))"
    by (simp only: byte_at_ucast unsigned_ucast_eq unsigned_take_bit_eq) simp
  also have "unat (drop_bit (8 * i) x) = drop_bit (8 * i) (unat x)"
    by (rule unat_drop_bit_eq)
  finally show ?thesis
    by (simp only: take_bit_eq_mod drop_bit_eq_div) simp
qed

text \<open>The bits of the flag and mask constants of the wire formats.\<close>

lemma flag_bits [wire_simps]:
  "bit (0x02 :: int) n \<longleftrightarrow> n = 1"
  "bit (0x08 :: int) n \<longleftrightarrow> n = 3"
  "bit (0x10 :: int) n \<longleftrightarrow> n = 4"
  "bit (0x20 :: int) n \<longleftrightarrow> n = 5"
  "bit (0x40 :: int) n \<longleftrightarrow> n = 6"
  "bit (0x80 :: int) n \<longleftrightarrow> n = 7"
proof -
  have e: "bit (2 ^ k :: int) n \<longleftrightarrow> n = k" for k
    by (auto simp: bit_exp_iff)
  show "bit (0x02 :: int) n \<longleftrightarrow> n = 1" "bit (0x08 :: int) n \<longleftrightarrow> n = 3"
    "bit (0x10 :: int) n \<longleftrightarrow> n = 4" "bit (0x20 :: int) n \<longleftrightarrow> n = 5"
    "bit (0x40 :: int) n \<longleftrightarrow> n = 6" "bit (0x80 :: int) n \<longleftrightarrow> n = 7"
    using e [of 1] e [of 3] e [of 4] e [of 5] e [of 6] e [of 7] by simp_all
qed

lemma mask_bits [wire_simps]:
  "bit (0x0F :: int) n \<longleftrightarrow> n < 4"
  "bit (0x1F :: int) n \<longleftrightarrow> n < 5"
  "bit (0x3F :: int) n \<longleftrightarrow> n < 6"
  "bit (0x7F :: int) n \<longleftrightarrow> n < 7"
  "bit (0xFF :: int) n \<longleftrightarrow> n < 8"
proof -
  have e: "bit (2 ^ k - 1 :: int) n \<longleftrightarrow> n < k" for k
    by (simp add: bit_mask_iff flip: mask_eq_exp_minus_1)
  show "bit (0x0F :: int) n \<longleftrightarrow> n < 4" "bit (0x1F :: int) n \<longleftrightarrow> n < 5"
    "bit (0x3F :: int) n \<longleftrightarrow> n < 6" "bit (0x7F :: int) n \<longleftrightarrow> n < 7"
    "bit (0xFF :: int) n \<longleftrightarrow> n < 8"
    using e [of 4] e [of 5] e [of 6] e [of 7] e [of 8] by simp_all
qed

lemma and_mask_small: "unat x < 2 ^ k \<Longrightarrow> take_bit k x = x"
  by (rule unsigned_word_eqI [where 'a = nat])
    (simp add: unsigned_take_bit_eq take_bit_nat_eq_self_iff)

lemma bit_get16: "bit (get16 a b) n \<longleftrightarrow> (if n < 8 then bit a n else bit b (n - 8))"
  using bit_imp_le_length [of b "n - 8"] bit_imp_le_length [of a n]
  by (auto simp: get16_def bit_simps)

lemma bit_get32:
  "bit (get32 a b c d) n \<longleftrightarrow>
     (if n < 8 then bit a n else if n < 16 then bit b (n - 8)
      else if n < 24 then bit c (n - 16) else bit d (n - 24))"
  using bit_imp_le_length [of a n] bit_imp_le_length [of b "n - 8"]
    bit_imp_le_length [of c "n - 16"] bit_imp_le_length [of d "n - 24"]
  by (auto simp: get32_def bit_simps)

lemma get16_byte_at [wire_simps]: "get16 (byte_at 0 x) (byte_at (Suc 0) x) = x"
  by (rule bit_word_eqI) (auto simp: bit_get16 bit_byte_at)

lemma get32_byte_at [wire_simps]:
  "get32 (byte_at 0 x) (byte_at (Suc 0) x) (byte_at 2 x) (byte_at 3 x) = x"
  by (rule bit_word_eqI) (auto simp: bit_get32 bit_byte_at)

lemma byte_at_get16 [wire_simps]:
  "byte_at 0 (get16 a b) = a" "byte_at (Suc 0) (get16 a b) = b"
  using bit_imp_le_length [of a] bit_imp_le_length [of b]
  by (auto intro!: bit_word_eqI simp: bit_get16 bit_byte_at)

lemma get16_at_put16 [wire_simps]:
  "get16_at (put16 x @ ys) 0 = x"
  by (simp add: get16_at_def put16_def wire_simps)

lemma get32_at_put32 [wire_simps]:
  "get32_at (put32 x @ ys) 0 = x"
  by (simp add: get32_at_def put32_def wire_simps)

lemma get16_at_drop: "n \<le> length v \<Longrightarrow> get16_at v n = get16_at (drop n v) 0"
  by (simp add: get16_at_def)

lemma get32_at_drop: "n \<le> length v \<Longrightarrow> get32_at v n = get32_at (drop n v) 0"
  by (simp add: get32_at_def)

lemma length_put16 [simp]: "length (put16 x) = 2"
  by (simp add: put16_def)

lemma length_put32 [simp]: "length (put32 x) = 4"
  by (simp add: put32_def)

text \<open>The length field of a vector, \<^verbatim>\<open>static_cast<uint16_t>(v.size())\<close>, truncates.\<close>

definition size16 :: "'a list \<Rightarrow> u16" where
  "size16 v = word_of_nat (length v)"

lemma unat_size16: "unat (size16 v) = length v mod 65536"
  by (simp add: size16_def unat_of_nat)

lemma unat_size16_small [simp]: "length v < 65536 \<Longrightarrow> unat (size16 v) = length v"
  by (simp add: unat_size16)

text \<open>
  A \<^verbatim>\<open>std::string\<close> is a sequence of bytes; literals are given by their character codes.
\<close>

type_synonym cstring = "8 word list"

definition cstr :: "string \<Rightarrow> cstring" where
  "cstr s = map of_char s"

text \<open>
  The envelope \<^verbatim>\<open>[type:1][len:2 LE][value]\<close> that RRC, NAS and core-network messages share.
\<close>

definition tlv :: "u8 \<Rightarrow> bytes \<Rightarrow> bytes" where
  "tlv t v = t # put16 (size16 v) @ v"

lemma tlv_fields:
  "length (tlv t v) = 3 + length v"
  "tlv t v ! 0 = t"
  "length v < 65536 \<Longrightarrow> unat (get16 (tlv t v ! Suc 0) (tlv t v ! 2)) = length v"
  "drop 3 (tlv t v) = v"
  by (simp_all add: tlv_def put16_def wire_simps)

subsection \<open>The interface of a wire format\<close>

text \<open>
  What the receiver of a message relies on: decoding what the peer encoded gives the
  message back, whenever the message is one the format can carry. From that law alone two
  different messages never share an encoding, and the decoder never reports an error for a
  frame the encoder made.
\<close>

locale wire_codec =
  fixes enc :: "'a \<Rightarrow> bytes"
    and dec :: "bytes \<Rightarrow> 'a option"
    and carries :: "'a \<Rightarrow> bool"
  assumes dec_enc: "carries x \<Longrightarrow> dec (enc x) = Some x"
begin

lemma enc_inj: "carries x \<Longrightarrow> carries y \<Longrightarrow> enc x = enc y \<Longrightarrow> x = y"
  by (metis dec_enc option.inject)

lemma enc_never_refused: "carries x \<Longrightarrow> dec (enc x) \<noteq> None"
  by (simp add: dec_enc)

lemma dec_image: "\<forall>x \<in> set xs. carries x \<Longrightarrow> map dec (map enc xs) = map Some xs"
  by (induction xs) (simp_all add: dec_enc)

end

subsection \<open>Ordered maps\<close>

text \<open>
  \<^verbatim>\<open>std::map\<close> as the list of its entries in iteration order, which is the ascending order
  of the keys. The operations keep the list strictly ascending, so equal maps are equal
  lists and \<^verbatim>\<open>begin()\<close> is the head.
\<close>

type_synonym ('k, 'v) omap = "('k \<times> 'v) list"

definition om_ok :: "('k::linorder, 'v) omap \<Rightarrow> bool" where
  "om_ok m \<longleftrightarrow> sorted_wrt (<) (map fst m)"

fun om_insert :: "'k::linorder \<Rightarrow> 'v \<Rightarrow> ('k, 'v) omap \<Rightarrow> ('k, 'v) omap" where
  "om_insert k v [] = [(k, v)]"
| "om_insert k v ((k', v') # m) =
     (if k < k' then (k, v) # (k', v') # m
      else if k = k' then (k, v) # m
      else (k', v') # om_insert k v m)"

definition om_erase :: "'k \<Rightarrow> ('k, 'v) omap \<Rightarrow> ('k, 'v) omap" where
  "om_erase k m = filter (\<lambda>p. fst p \<noteq> k) m"

abbreviation om_find :: "('k, 'v) omap \<Rightarrow> 'k \<Rightarrow> 'v option" where
  "om_find m k \<equiv> map_of m k"

lemma om_ok_Nil [simp]: "om_ok []"
  by (simp add: om_ok_def)

lemma om_ok_Cons: "om_ok (p # m) \<longleftrightarrow> (\<forall>q \<in> set m. fst p < fst q) \<and> om_ok m"
  by (simp add: om_ok_def)

lemma om_ok_distinct: "om_ok m \<Longrightarrow> distinct (map fst m)"
  by (simp add: om_ok_def strict_sorted_iff)

lemma set_om_insert: "fst ` set (om_insert k v m) = insert k (fst ` set m)"
  by (induction k v m rule: om_insert.induct) auto

lemma om_ok_insert [simp]: "om_ok m \<Longrightarrow> om_ok (om_insert k v m)"
proof (induction k v m rule: om_insert.induct)
  case (2 k v k' v' m)
  have "\<forall>q \<in> set (om_insert k v m). k' < fst q" if "k' < k" "\<not> k < k'" "k \<noteq> k'"
    using "2.prems" that set_om_insert [of k v m] by (fastforce simp: om_ok_Cons)
  with 2 show ?case by (fastforce simp: om_ok_Cons)
qed (simp add: om_ok_Cons)

lemma om_find_insert [simp]: "om_find (om_insert k v m) = (om_find m)(k \<mapsto> v)"
  by (induction k v m rule: om_insert.induct) auto

lemma om_find_erase [simp]: "om_find (om_erase k m) = (om_find m)(k := None)"
  by (induction m) (auto simp: om_erase_def)

lemma om_ok_erase [simp]: "om_ok m \<Longrightarrow> om_ok (om_erase k m)"
  by (induction m) (auto simp: om_erase_def om_ok_Cons)

lemma om_find_Some_iff: "om_ok m \<Longrightarrow> om_find m k = Some v \<longleftrightarrow> (k, v) \<in> set m"
  by (simp add: om_ok_distinct)

lemma om_find_None_iff: "om_find m k = None \<longleftrightarrow> k \<notin> fst ` set m"
  by (simp add: map_of_eq_None_iff)

lemma length_om_erase:
  "om_ok m \<Longrightarrow> om_find m k = Some v \<Longrightarrow> length m = Suc (length (om_erase k m))"
proof (induction m)
  case (Cons p m)
  show ?case
  proof (cases "fst p = k")
    case True
    with Cons.prems have "om_erase k m = m"
      by (auto simp: om_erase_def om_ok_Cons intro!: filter_True)
    with True show ?thesis by (simp add: om_erase_def)
  next
    case False
    with Cons show ?thesis by (cases p) (auto simp: om_erase_def om_ok_Cons)
  qed
qed simp

lemma length_om_erase_less [termination_simp]:
  "om_find m k = Some v \<Longrightarrow> length (om_erase k m) < length m"
  by (induction m) (auto simp: om_erase_def le_imp_less_Suc split: if_splits)

lemma om_erase_absent: "om_find m k = None \<Longrightarrow> om_erase k m = m"
  by (induction m) (auto simp: om_erase_def split: if_splits)

lemma length_om_insert:
  "length (om_insert k v m) \<le> Suc (length m)"
  by (induction k v m rule: om_insert.induct) auto

lemma om_begin_least: "om_ok (p # m) \<Longrightarrow> q \<in> set m \<Longrightarrow> fst p < fst q"
  by (auto simp: om_ok_Cons)

lemma om_insert_last: "\<forall>q \<in> set m. fst q < k \<Longrightarrow> om_insert k v m = m @ [(k, v)]"
  by (induction k v m rule: om_insert.induct) auto

lemma om_ext:
  "om_ok m \<Longrightarrow> om_ok m' \<Longrightarrow> om_find m = om_find m' \<Longrightarrow> m = m'"
proof -
  assume ok: "om_ok m" "om_ok m'" and eq: "om_find m = om_find m'"
  have "set m = set m'"
    using eq om_find_Some_iff [OF ok(1)] om_find_Some_iff [OF ok(2)] by auto
  moreover have "inj_on fst (set m \<union> set m')"
    using om_ok_distinct [OF ok(2)] calculation by (simp add: distinct_map)
  ultimately show "m = m'"
    using ok by (intro map_sorted_distinct_set_unique [where f = fst])
      (auto simp: om_ok_def strict_sorted_iff)
qed

text \<open>
  The contract of a key-value table as its clients use it, for the tables the components
  keep in a \<^verbatim>\<open>std::map\<close>.
\<close>

locale keyed_store =
  fixes ins :: "'k \<Rightarrow> 'v \<Rightarrow> 'm \<Rightarrow> 'm"
    and del :: "'k \<Rightarrow> 'm \<Rightarrow> 'm"
    and find :: "'m \<Rightarrow> 'k \<Rightarrow> 'v option"
    and ok :: "'m \<Rightarrow> bool"
  assumes find_ins: "ok m \<Longrightarrow> find (ins k v m) = (find m)(k \<mapsto> v)"
    and find_del: "ok m \<Longrightarrow> find (del k m) = (find m)(k := None)"
    and ok_ins: "ok m \<Longrightarrow> ok (ins k v m)"
    and ok_del: "ok m \<Longrightarrow> ok (del k m)"
begin

lemma find_move:
  "ok m \<Longrightarrow> old \<noteq> new \<Longrightarrow>
     find (ins new v (del old m)) new = Some v \<and> find (ins new v (del old m)) old = None"
  by (simp add: find_ins find_del ok_del)

lemma find_ins_fold:
  "ok m \<Longrightarrow> distinct (map fst kvs) \<Longrightarrow> (k, v) \<in> set kvs \<Longrightarrow>
     find (fold (\<lambda>(k, v). ins k v) kvs m) k = Some v"
proof (induction kvs arbitrary: m)
  case (Cons p kvs)
  have keep: "find (fold (\<lambda>(k, v). ins k v) l m') k = find m' k"
    if "ok m'" "k \<notin> fst ` set l" for l m'
    using that by (induction l arbitrary: m') (auto simp: find_ins ok_ins)
  show ?case
  proof (cases "(k, v) = p")
    case True
    with Cons.prems show ?thesis
      by (auto simp: keep find_ins ok_ins)
  next
    case False
    with Cons show ?thesis by (cases p) (auto simp: ok_ins)
  qed
qed simp

end

interpretation omap: keyed_store om_insert om_erase om_find om_ok
  by unfold_locales auto

subsection \<open>Functional refinement\<close>

text \<open>
  A component implements an abstract machine when every step it takes on states of its
  invariant commutes with the abstraction function. Then whole runs commute.
\<close>

locale simulation =
  fixes step :: "'op \<Rightarrow> 's \<Rightarrow> 's"
    and spec :: "'op \<Rightarrow> 'a \<Rightarrow> 'a"
    and abs :: "'s \<Rightarrow> 'a"
    and inv :: "'s \<Rightarrow> bool"
    and legal :: "'op \<Rightarrow> bool"
  assumes inv_step: "inv s \<Longrightarrow> legal op \<Longrightarrow> inv (step op s)"
    and sim_step: "inv s \<Longrightarrow> legal op \<Longrightarrow> abs (step op s) = spec op (abs s)"
begin

lemma sim_run:
  "inv s \<Longrightarrow> \<forall>op \<in> set ops. legal op \<Longrightarrow>
     abs (fold step ops s) = fold spec ops (abs s) \<and> inv (fold step ops s)"
  by (induction ops arbitrary: s) (simp_all add: inv_step sim_step)

end

end
