(* ===== verification/MacPdu.thy ===== *)
theory MacPdu
  imports Prelude
begin

text \<open>
  The MAC PDU codec of \<^verbatim>\<open>stack/mac/src/mac_pdu.cpp\<close>: logical channel identifiers,
  \<open>build_pdu\<close> (multiplexing) and \<open>parse_pdu\<close> (demultiplexing, written as the source's
  scan over a position). The lemmas show that the demultiplexer inverts the multiplexer for
  every list of SDUs the subheader can carry, in front of any padding, that it never yields
  more bytes than it was given, and what happens at the edge of the length field.
\<close>

subsection \<open>Logical channels\<close>

definition LCID_CCCH :: u8 where "LCID_CCCH = 0"
definition LCID_NAS_DCCH :: u8 where "LCID_NAS_DCCH = 1"
definition LCID_APP_DTCH :: u8 where "LCID_APP_DTCH = 2"
definition LCID_APP_SIG :: u8 where "LCID_APP_SIG = 3"
definition LCID_APP_VOICE :: u8 where "LCID_APP_VOICE = 4"
definition LCID_APP_VIDEO :: u8 where "LCID_APP_VIDEO = 5"
definition LCID_TPC :: u8 where "LCID_TPC = 55"
definition LCID_CQI_REPORT :: u8 where "LCID_CQI_REPORT = 56"
definition LCID_RLC_STATUS_SIG :: u8 where "LCID_RLC_STATUS_SIG = 57"
definition LCID_PAGING :: u8 where "LCID_PAGING = 58"
definition LCID_RLC_STATUS :: u8 where "LCID_RLC_STATUS = 59"
definition LCID_HARQ_ACK :: u8 where "LCID_HARQ_ACK = 60"
definition LCID_SIB1 :: u8 where "LCID_SIB1 = 61"
definition LCID_MIB :: u8 where "LCID_MIB = 62"
definition LCID_PADDING :: u8 where "LCID_PADDING = 63"
definition RNTI_BROADCAST :: u16 where "RNTI_BROADCAST = 0xFFFF"

lemmas lcid_defs = LCID_CCCH_def LCID_NAS_DCCH_def LCID_APP_DTCH_def LCID_APP_SIG_def
  LCID_APP_VOICE_def LCID_APP_VIDEO_def LCID_TPC_def LCID_CQI_REPORT_def
  LCID_RLC_STATUS_SIG_def LCID_PAGING_def LCID_RLC_STATUS_def LCID_HARQ_ACK_def
  LCID_SIB1_def LCID_MIB_def LCID_PADDING_def

subsection \<open>Multiplexing\<close>

text \<open>
  One subheader: the length is the SDU's size cast to 16 bits; lengths up to 255 take the
  short form, longer ones set the F bit (0x40) and carry two bytes, most significant first.
\<close>

definition mac_subheader :: "u8 \<Rightarrow> bytes \<Rightarrow> bytes" where
  "mac_subheader lcid sdu =
     (let len = size16 sdu in
      if len \<le> 255 then [lcid AND 0x3F, byte_at 0 len]
      else [0x40 OR (lcid AND 0x3F), byte_at 1 len, byte_at 0 len])"

fun build_pdu :: "(u8 \<times> bytes) list \<Rightarrow> bytes" where
  "build_pdu [] = []"
| "build_pdu ((lcid, sdu) # sdus) = mac_subheader lcid sdu @ sdu @ build_pdu sdus"

subsection \<open>Demultiplexing\<close>

text \<open>
  The loop of \<open>parse_pdu\<close>, with the position as an argument. \<open>parse_pdu_hd\<close> is the part
  that reads one subheader: the position behind it, the channel and the declared length, or
  nothing where the source leaves the loop.
\<close>

definition parse_pdu_hd :: "bytes \<Rightarrow> nat \<Rightarrow> (nat \<times> u8 \<times> nat) option" where
  "parse_pdu_hd pdu pos =
     (if pos + 1 \<ge> length pdu then None
      else
        let header_byte = pdu ! pos; lcid = header_byte AND 0x3F in
        if lcid = LCID_PADDING then None
        else if header_byte AND 0x40 \<noteq> 0 then
          (if pos + 1 + 2 > length pdu then None
           else Some (pos + 3, lcid, unat (get16 (pdu ! (pos + 2)) (pdu ! (pos + 1)))))
        else Some (pos + 2, lcid, unat (pdu ! (pos + 1))))"

function parse_pdu_from :: "bytes \<Rightarrow> nat \<Rightarrow> (u8 \<times> bytes) list" where
  "parse_pdu_from pdu pos =
     (case parse_pdu_hd pdu pos of
        None \<Rightarrow> []
      | Some (p, lcid, len) \<Rightarrow>
          if p + len > length pdu then []
          else (lcid, take len (drop p pdu)) # parse_pdu_from pdu (p + len))"
  by pat_completeness auto
termination
  by (relation "measure (\<lambda>(pdu, pos). length pdu - pos)")
    (auto simp: parse_pdu_hd_def Let_def split: if_splits)

declare parse_pdu_from.simps [simp del]

definition parse_pdu :: "bytes \<Rightarrow> (u8 \<times> bytes) list" where
  "parse_pdu pdu = parse_pdu_from pdu 0"

subsection \<open>Correctness\<close>

lemma lcid_short_form: "(lcid AND 0x3F) AND 0x40 = (0 :: u8)"
  by (rule bit_word_eqI) (auto simp: bit_and_iff wire_simps)

lemma lcid_long_form:
  "(0x40 OR (lcid AND 0x3F)) AND 0x3F = lcid AND (0x3F :: u8)"
  "(0x40 OR (lcid AND 0x3F)) AND 0x40 = (0x40 :: u8)"
  by (rule bit_word_eqI, auto simp: bit_and_iff bit_or_iff wire_simps)+

lemma lcid_and_idem: "(lcid AND 0x3F) AND 0x3F = lcid AND (0x3F :: u8)"
  by (simp add: and.assoc)

lemma lcid_and_small: "lcid < 64 \<Longrightarrow> lcid AND 0x3F = (lcid :: u8)"
proof -
  assume "lcid < 64"
  moreover have "lcid AND 0x3F = take_bit 6 lcid"
    by (rule bit_word_eqI) (auto simp: bit_and_iff bit_take_bit_iff wire_simps)
  ultimately show ?thesis by (simp add: and_mask_small word_less_nat_alt)
qed

lemma parse_pdu_hd_shift:
  "parse_pdu_hd (pre @ rest) (length pre + k) =
     map_option (\<lambda>(p, l, n). (length pre + p, l, n)) (parse_pdu_hd rest k)"
  by (simp add: parse_pdu_hd_def nth_append Let_def)

lemma parse_pdu_from_shift:
  "parse_pdu_from (pre @ rest) (length pre + k) = parse_pdu_from rest k"
proof (induction rest k rule: parse_pdu_from.induct)
  case (1 rest k)
  then show ?case
    by (subst (1 2) parse_pdu_from.simps)
      (auto simp: parse_pdu_hd_shift add.assoc split: option.splits)
qed

lemma size16_bytes:
  assumes "length sdu < 65536"
  shows "size16 sdu \<le> 255 \<longleftrightarrow> length sdu \<le> 255"
    and "size16 sdu \<le> 255 \<Longrightarrow> unat (byte_at 0 (size16 sdu)) = length sdu"
    and "unat (get16 (byte_at 0 (size16 sdu)) (byte_at (Suc 0) (size16 sdu))) = length sdu"
proof -
  show le: "size16 sdu \<le> 255 \<longleftrightarrow> length sdu \<le> 255"
    using assms by (simp add: word_le_nat_alt)
  show "unat (get16 (byte_at 0 (size16 sdu)) (byte_at (Suc 0) (size16 sdu))) = length sdu"
    using assms by (simp add: wire_simps)
  assume "size16 sdu \<le> 255"
  with le have "length sdu < 256" by simp
  then show "unat (byte_at 0 (size16 sdu)) = length sdu"
    by (simp add: unat_byte_at)
qed

text \<open>One subheader and its SDU are read back, whatever follows them.\<close>

lemma parse_pdu_step:
  assumes "length sdu < 65536" and "lcid AND 0x3F \<noteq> LCID_PADDING"
  shows "parse_pdu (mac_subheader lcid sdu @ sdu @ rest) = (lcid AND 0x3F, sdu) # parse_pdu rest"
proof -
  let ?pdu = "mac_subheader lcid sdu @ sdu @ rest"
  have "parse_pdu_hd ?pdu 0 = Some (length (mac_subheader lcid sdu), lcid AND 0x3F, length sdu)"
    using assms(2) size16_bytes [OF assms(1)]
    by (auto simp: parse_pdu_hd_def mac_subheader_def Let_def lcid_and_idem lcid_short_form
        lcid_long_form)
  then have "parse_pdu ?pdu =
      (lcid AND 0x3F, sdu) # parse_pdu_from ?pdu (length (mac_subheader lcid sdu) + length sdu)"
    unfolding parse_pdu_def by (subst parse_pdu_from.simps) simp
  also have "parse_pdu_from ?pdu (length (mac_subheader lcid sdu) + length sdu) = parse_pdu rest"
    using parse_pdu_from_shift [of "mac_subheader lcid sdu @ sdu" rest 0]
    by (simp add: parse_pdu_def)
  finally show ?thesis .
qed

text \<open>A padding subheader ends the scan, and so does a single trailing byte.\<close>

lemma parse_pdu_padding: "pad = [] \<or> hd pad AND 0x3F = LCID_PADDING \<or> length pad = 1 \<Longrightarrow> parse_pdu pad = []"
  unfolding parse_pdu_def
  by (subst parse_pdu_from.simps) (cases pad, auto simp: parse_pdu_hd_def Let_def)

definition mac_carries :: "(u8 \<times> bytes) list \<Rightarrow> bool" where
  "mac_carries sdus \<longleftrightarrow> (\<forall>(lcid, sdu) \<in> set sdus. lcid < LCID_PADDING \<and> length sdu < 65536)"

lemma parse_build_append:
  "mac_carries sdus \<Longrightarrow> parse_pdu (build_pdu sdus @ rest) = sdus @ parse_pdu rest"
proof (induction sdus)
  case (Cons p sdus)
  obtain lcid sdu where p: "p = (lcid, sdu)" by (cases p)
  from Cons.prems have lc: "lcid < 63" and len: "length sdu < 65536"
    by (auto simp: mac_carries_def p LCID_PADDING_def)
  have "lcid < 64" using lc by (rule less_trans) simp
  with lc have "lcid AND 0x3F = lcid" and "lcid AND 0x3F \<noteq> LCID_PADDING"
    by (auto simp: lcid_and_small LCID_PADDING_def)
  with Cons len show ?case
    by (simp add: p parse_pdu_step mac_carries_def)
qed simp

interpretation mac_codec: wire_codec build_pdu "\<lambda>b. Some (parse_pdu b)" mac_carries
  by unfold_locales (use parse_build_append [of _ "[]"] in \<open>simp add: parse_pdu_padding\<close>)

text \<open>
  C27. Demultiplexing inverts multiplexing: for every list of SDUs on data or control
  channels (LCID below 63) of at most 65535 bytes each, parsing the built PDU followed by
  padding returns exactly those SDUs with their channels, in order.
\<close>

theorem parse_pdu_inverts_build_pdu:
  assumes "mac_carries sdus"
    and "pad = [] \<or> hd pad AND 0x3F = LCID_PADDING"
  shows "parse_pdu (build_pdu sdus @ pad) = sdus"
  using parse_build_append [OF assms(1), of pad] parse_pdu_padding [of pad] assms(2) by auto

theorem parse_pdu_inverts_build_pdu_witness:
  "parse_pdu (build_pdu [(1, [7, 8]), (60, [])] @ [63, 0, 0]) = [(1, [7, 8]), (60, [])]"
  by (rule parse_pdu_inverts_build_pdu) (simp_all add: mac_carries_def LCID_PADDING_def)

lemma parse_pdu_hd_bounds:
  "parse_pdu_hd pdu pos = Some (p, l, n) \<Longrightarrow> pos + 2 \<le> p \<and> p \<le> length pdu"
  by (auto simp: parse_pdu_hd_def Let_def split: if_splits)

lemma parse_pdu_from_bounds:
  "sum_list (map (\<lambda>(l, sdu). 2 + length sdu) (parse_pdu_from pdu pos)) \<le> length pdu - pos"
proof (induction pdu pos rule: parse_pdu_from.induct)
  case (1 pdu pos)
  show ?case
  proof (cases "parse_pdu_hd pdu pos")
    case None
    then show ?thesis by (simp add: parse_pdu_from.simps)
  next
    case (Some r)
    obtain p l n where r: "r = (p, l, n)" by (cases r)
    from Some r have b: "pos + 2 \<le> p \<and> p \<le> length pdu" using parse_pdu_hd_bounds by blast
    show ?thesis
    proof (cases "p + n > length pdu")
      case True
      then show ?thesis using Some r by (simp add: parse_pdu_from.simps)
    next
      case False
      with 1 [OF Some r [symmetric]] have
        "sum_list (map (\<lambda>(l, sdu). 2 + length sdu) (parse_pdu_from pdu (p + n))) \<le> length pdu - (p + n)"
        using r by auto
      with False b Some r show ?thesis
        by (subst parse_pdu_from.simps) auto
    qed
  qed
qed

text \<open>
  On any received byte string, well formed or not, the SDUs that \<open>parse_pdu\<close> hands up
  and their (at least two-byte) subheaders fit inside the string: nothing is read past its
  end and no byte is delivered twice.
\<close>

theorem parse_pdu_within_input:
  "sum_list (map (\<lambda>(lcid, sdu). 2 + length sdu) (parse_pdu pdu)) \<le> length pdu"
  using parse_pdu_from_bounds [of pdu 0] by (simp add: parse_pdu_def)

end
