(* ===== verification/RrcMessages.thy ===== *)
theory RrcMessages
  imports Prelude
begin

text \<open>
  The RRC message formats of \<^verbatim>\<open>stack/rrc/src/rrc_messages.cpp\<close>: the MIB and SIB1 broadcasts and
  the \<^verbatim>\<open>[type][len][value]\<close> signalling message, with their message-type codes. An
  \<^verbatim>\<open>enum class : uint8_t\<close> obtained by \<^verbatim>\<open>static_cast\<close> from a received byte can hold any byte, so
  a message type is a byte here and its enumerators are constants.
\<close>

definition RRC_SETUP_REQUEST :: u8 where "RRC_SETUP_REQUEST = 1"
definition RRC_SETUP :: u8 where "RRC_SETUP = 2"
definition RRC_SETUP_COMPLETE :: u8 where "RRC_SETUP_COMPLETE = 3"
definition RRC_RELEASE :: u8 where "RRC_RELEASE = 4"
definition RRC_MIB_BROADCAST :: u8 where "RRC_MIB_BROADCAST = 10"
definition RRC_SIB1_BROADCAST :: u8 where "RRC_SIB1_BROADCAST = 11"
definition RRC_REESTABLISHMENT_REQUEST :: u8 where "RRC_REESTABLISHMENT_REQUEST = 23"
definition RRC_REESTABLISHMENT_OK :: u8 where "RRC_REESTABLISHMENT_OK = 24"
definition RRC_REESTABLISHMENT_FAILURE :: u8 where "RRC_REESTABLISHMENT_FAILURE = 25"
definition RRC_RESUME_REQUEST :: u8 where "RRC_RESUME_REQUEST = 30"
definition RRC_RESUME_OK :: u8 where "RRC_RESUME_OK = 31"
definition RRC_RESUME_FAILURE :: u8 where "RRC_RESUME_FAILURE = 32"

definition RRC_MEAS_REPORT :: u8 where "RRC_MEAS_REPORT = 20"
definition RRC_HO_COMMAND :: u8 where "RRC_HO_COMMAND = 21"
definition RRC_HO_COMPLETE :: u8 where "RRC_HO_COMPLETE = 22"

lemmas rrc_ho_type_defs = RRC_MEAS_REPORT_def RRC_HO_COMMAND_def RRC_HO_COMPLETE_def

lemmas rrc_type_defs = RRC_SETUP_REQUEST_def RRC_SETUP_def RRC_SETUP_COMPLETE_def
  RRC_RELEASE_def RRC_MIB_BROADCAST_def RRC_SIB1_BROADCAST_def
  RRC_REESTABLISHMENT_REQUEST_def RRC_REESTABLISHMENT_OK_def RRC_REESTABLISHMENT_FAILURE_def
  RRC_RESUME_REQUEST_def RRC_RESUME_OK_def RRC_RESUME_FAILURE_def

subsection \<open>Broadcast blocks\<close>

record mib =
  mib_sfn :: u16
  mib_dl_bandwidth :: u8
  mib_phich_config :: u8

record sib1 =
  sib1_plmn_id :: cstring
  sib1_tac :: u16
  sib1_cell_id :: u16

definition mib_default :: mib where
  "mib_default = \<lparr>mib_sfn = 0, mib_dl_bandwidth = 50, mib_phich_config = 0\<rparr>"

definition sib1_default :: sib1 where
  "sib1_default = \<lparr>sib1_plmn_id = cstr ''46001'', sib1_tac = 1, sib1_cell_id = 1\<rparr>"

definition mib_encode :: "mib \<Rightarrow> bytes" where
  "mib_encode m =
     RRC_MIB_BROADCAST # put16 (mib_sfn m) @ [mib_dl_bandwidth m, mib_phich_config m]"

definition mib_decode :: "bytes \<Rightarrow> mib" where
  "mib_decode data =
     (if length data < 5 then mib_default
      else \<lparr>mib_sfn = get16 (data ! 1) (data ! 2),
            mib_dl_bandwidth = data ! 3,
            mib_phich_config = data ! 4\<rparr>)"

definition sib1_encode :: "sib1 \<Rightarrow> bytes" where
  "sib1_encode s =
     RRC_SIB1_BROADCAST # sib1_plmn_id s @ [0] @ put16 (sib1_tac s) @ put16 (sib1_cell_id s)"

text \<open>
  \<open>Sib1::decode\<close>: the PLMN is the bytes up to the first zero byte; the two fields behind it
  keep their default values when fewer than four bytes are left.
\<close>

definition sib1_decode :: "bytes \<Rightarrow> sib1" where
  "sib1_decode data =
     (let dflt = sib1_default\<lparr>sib1_plmn_id := []\<rparr> in
      if length data < 7 then dflt
      else
        let plmn = takeWhile (\<lambda>b. b \<noteq> 0) (drop 1 data);
            pos0 = 1 + length plmn;
            pos = (if pos0 < length data then pos0 + 1 else pos0);
            s = dflt\<lparr>sib1_plmn_id := plmn\<rparr>
        in if pos + 3 < length data
           then s\<lparr>sib1_tac := get16 (data ! pos) (data ! (pos + 1)),
                  sib1_cell_id := get16 (data ! (pos + 2)) (data ! (pos + 3))\<rparr>
           else s)"

definition generate_mib :: "u16 \<Rightarrow> mib" where
  "generate_mib sfn = \<lparr>mib_sfn = sfn, mib_dl_bandwidth = 50, mib_phich_config = 0\<rparr>"

definition generate_sib1 :: sib1 where
  "generate_sib1 = \<lparr>sib1_plmn_id = cstr ''46001'', sib1_tac = 1, sib1_cell_id = 1\<rparr>"

subsection \<open>Signalling messages\<close>

record rrc_message =
  rrc_type :: u8
  rrc_value :: bytes

definition rrc_encode :: "rrc_message \<Rightarrow> bytes" where
  "rrc_encode m = tlv (rrc_type m) (rrc_value m)"

text \<open>
  A frame of fewer than three bytes decodes to the default message, an empty
  \<open>SETUP_REQUEST\<close>; a frame shorter than its length field says keeps its type and loses its
  value.
\<close>

definition rrc_decode :: "bytes \<Rightarrow> rrc_message" where
  "rrc_decode data =
     (if length data < 3 then \<lparr>rrc_type = RRC_SETUP_REQUEST, rrc_value = []\<rparr>
      else
        let len = unat (get16 (data ! 1) (data ! 2)) in
        \<lparr>rrc_type = data ! 0,
         rrc_value = (if length data \<ge> 3 + len then take len (drop 3 data) else [])\<rparr>)"

abbreviation rrc_msg :: "u8 \<Rightarrow> bytes \<Rightarrow> rrc_message" where
  "rrc_msg t v \<equiv> \<lparr>rrc_type = t, rrc_value = v\<rparr>"

subsection \<open>Round trips\<close>

lemma rrc_decode_encode [simp]: "length (rrc_value m) < 65536 \<Longrightarrow> rrc_decode (rrc_encode m) = m"
  by (simp add: rrc_decode_def rrc_encode_def tlv_fields Let_def)

interpretation rrc_codec: wire_codec rrc_encode "\<lambda>b. Some (rrc_decode b)"
    "\<lambda>m. length (rrc_value m) < 65536"
  by unfold_locales simp

lemma mib_decode_encode: "mib_decode (mib_encode m) = m"
  by (simp add: mib_decode_def mib_encode_def put16_def wire_simps)

interpretation mib_codec: wire_codec mib_encode "\<lambda>b. Some (mib_decode b)" "\<lambda>_. True"
  by unfold_locales (simp add: mib_decode_encode)

lemma sib1_decode_encode:
  assumes "0 \<notin> set (sib1_plmn_id s)" "sib1_plmn_id s \<noteq> []"
  shows "sib1_decode (sib1_encode s) = s"
proof -
  let ?p = "sib1_plmn_id s" and ?tail = "put16 (sib1_tac s) @ put16 (sib1_cell_id s)"
  let ?d = "sib1_encode s"
  have d: "?d = (RRC_SIB1_BROADCAST # ?p @ [0]) @ ?tail"
    by (simp add: sib1_encode_def)
  have tw: "takeWhile (\<lambda>b. b \<noteq> 0) (drop 1 ?d) = ?p"
  proof -
    have "x \<noteq> 0" if "x \<in> set ?p" for x using that assms(1) by metis
    then show ?thesis by (subst sib1_encode_def) (simp add: takeWhile_append2)
  qed
  have len: "length ?d = length ?p + 6" by (simp add: sib1_encode_def)
  have nth: "?d ! (2 + length ?p + i) = ?tail ! i" if "i < 4" for i
    using that nth_append_length_plus [of "RRC_SIB1_BROADCAST # ?p @ [0]" ?tail i] by (simp add: d)
  have "length ?p > 0" using assms by simp
  with tw len nth [of 0] nth [of 1] nth [of 2] nth [of 3] show ?thesis
    by (simp add: sib1_decode_def Let_def put16_def wire_simps sib1_default_def numeral_eq_Suc)
qed

interpretation sib1_codec: wire_codec sib1_encode "\<lambda>b. Some (sib1_decode b)"
    "\<lambda>s. 0 \<notin> set (sib1_plmn_id s) \<and> sib1_plmn_id s \<noteq> []"
  by unfold_locales (simp add: sib1_decode_encode)

text \<open>
  A receiver gets back every RRC block the sender encoded: signalling messages of at
  most 65535 value bytes, every MIB, and every SIB1 whose PLMN is a non-empty string without
  a zero byte.
\<close>

theorem rrc_blocks_round_trip:
  "(length (rrc_value m) < 65536 \<longrightarrow> rrc_decode (rrc_encode m) = m) \<and>
   mib_decode (mib_encode mb) = mb \<and>
   (0 \<notin> set (sib1_plmn_id s) \<and> sib1_plmn_id s \<noteq> [] \<longrightarrow> sib1_decode (sib1_encode s) = s)"
  by (simp add: mib_decode_encode sib1_decode_encode)

theorem rrc_blocks_round_trip_witness:
  "rrc_decode (rrc_encode (rrc_msg RRC_SETUP [5, 0])) = rrc_msg RRC_SETUP [5, 0] \<and>
   sib1_decode (sib1_encode generate_sib1) = generate_sib1"
  using rrc_blocks_round_trip [of "rrc_msg RRC_SETUP [5, 0]" mib_default generate_sib1]
  by (simp add: generate_sib1_def cstr_def)

end
