(* ===== verification/NasMessages.thy ===== *)
theory NasMessages
  imports Prelude
begin

text \<open>
  The NAS message format of \<^verbatim>\<open>stack/nas/src/nas_messages.cpp\<close>, the same envelope as an RRC
  message with its own type codes.
\<close>

definition NAS_ATTACH_REQUEST :: u8 where "NAS_ATTACH_REQUEST = 1"
definition NAS_ATTACH_ACCEPT :: u8 where "NAS_ATTACH_ACCEPT = 2"
definition NAS_ATTACH_REJECT :: u8 where "NAS_ATTACH_REJECT = 3"
definition NAS_DETACH :: u8 where "NAS_DETACH = 4"
definition NAS_AUTH_REQUEST :: u8 where "NAS_AUTH_REQUEST = 5"
definition NAS_AUTH_RESPONSE :: u8 where "NAS_AUTH_RESPONSE = 6"
definition NAS_AUTH_FAILURE :: u8 where "NAS_AUTH_FAILURE = 7"

lemmas nas_type_defs = NAS_ATTACH_REQUEST_def NAS_ATTACH_ACCEPT_def NAS_ATTACH_REJECT_def
  NAS_DETACH_def NAS_AUTH_REQUEST_def NAS_AUTH_RESPONSE_def NAS_AUTH_FAILURE_def

record nas_message =
  nas_type :: u8
  nas_value :: bytes

abbreviation nas_msg :: "u8 \<Rightarrow> bytes \<Rightarrow> nas_message" where
  "nas_msg t v \<equiv> \<lparr>nas_type = t, nas_value = v\<rparr>"

definition nas_encode :: "nas_message \<Rightarrow> bytes" where
  "nas_encode m = tlv (nas_type m) (nas_value m)"

definition nas_decode :: "bytes \<Rightarrow> nas_message" where
  "nas_decode data =
     (if length data < 3 then \<lparr>nas_type = NAS_ATTACH_REQUEST, nas_value = []\<rparr>
      else
        let len = unat (get16 (data ! 1) (data ! 2)) in
        \<lparr>nas_type = data ! 0,
         nas_value = (if length data \<ge> 3 + len then take len (drop 3 data) else [])\<rparr>)"

lemma nas_decode_encode [simp]: "length (nas_value m) < 65536 \<Longrightarrow> nas_decode (nas_encode m) = m"
  by (simp add: nas_decode_def nas_encode_def tlv_fields Let_def)

lemma length_nas_encode [simp]: "length (nas_encode m) = 3 + length (nas_value m)"
  by (simp add: nas_encode_def tlv_fields)

interpretation nas_codec: wire_codec nas_encode "\<lambda>b. Some (nas_decode b)"
    "\<lambda>m. length (nas_value m) < 65536"
  by unfold_locales simp

end
