(* ===== verification/CnMessages.thy ===== *)
theory CnMessages
  imports Prelude
begin

text \<open>
  The core-network envelope of \<^verbatim>\<open>stack/cn/src/cn_messages.cpp\<close>. Unlike the RRC and NAS decoders,
  this one keeps what is there of a truncated value.
\<close>

definition CN_NG_SETUP :: u8 where "CN_NG_SETUP = 1"
definition CN_NG_SETUP_OK :: u8 where "CN_NG_SETUP_OK = 2"
definition CN_INITIAL_UE_MSG :: u8 where "CN_INITIAL_UE_MSG = 3"
definition CN_UPLINK_NAS :: u8 where "CN_UPLINK_NAS = 4"
definition CN_DOWNLINK_NAS :: u8 where "CN_DOWNLINK_NAS = 5"
definition CN_SESSION_KEY :: u8 where "CN_SESSION_KEY = 6"
definition CN_HO_REQUIRED :: u8 where "CN_HO_REQUIRED = 9"
definition CN_HO_COMMAND :: u8 where "CN_HO_COMMAND = 10"
definition CN_HO_NOTIFY :: u8 where "CN_HO_NOTIFY = 11"
definition CN_HO_PREPARED :: u8 where "CN_HO_PREPARED = 12"
definition CN_UL_DATA :: u8 where "CN_UL_DATA = 32"
definition CN_DL_DATA :: u8 where "CN_DL_DATA = 33"
definition CN_PATH_SWITCH :: u8 where "CN_PATH_SWITCH = 34"

definition CN_PAGING_REQ :: u8 where "CN_PAGING_REQ = 7"
definition CN_UE_CTX_RELEASE :: u8 where "CN_UE_CTX_RELEASE = 8"
definition CN_XN_HO_PREPARE :: u8 where "CN_XN_HO_PREPARE = 40"
definition CN_XN_HO_PREPARE_ACK :: u8 where "CN_XN_HO_PREPARE_ACK = 41"
definition CN_XN_FWD_DATA :: u8 where "CN_XN_FWD_DATA = 42"
definition CN_XN_HO_COMPLETE :: u8 where "CN_XN_HO_COMPLETE = 43"

lemmas xn_type_defs = CN_UE_CTX_RELEASE_def CN_XN_HO_PREPARE_def CN_XN_HO_PREPARE_ACK_def CN_XN_FWD_DATA_def CN_XN_HO_COMPLETE_def

lemmas cn_type_defs = CN_NG_SETUP_def CN_NG_SETUP_OK_def CN_INITIAL_UE_MSG_def
  CN_UPLINK_NAS_def CN_DOWNLINK_NAS_def CN_SESSION_KEY_def CN_HO_REQUIRED_def
  CN_HO_COMMAND_def CN_HO_NOTIFY_def CN_HO_PREPARED_def CN_UL_DATA_def CN_DL_DATA_def
  CN_PATH_SWITCH_def

record cn_message =
  cn_type :: u8
  cn_value :: bytes

abbreviation cn_msg :: "u8 \<Rightarrow> bytes \<Rightarrow> cn_message" where
  "cn_msg t v \<equiv> \<lparr>cn_type = t, cn_value = v\<rparr>"

definition cn_encode :: "cn_message \<Rightarrow> bytes" where
  "cn_encode m = tlv (cn_type m) (cn_value m)"

definition cn_decode :: "bytes \<Rightarrow> cn_message" where
  "cn_decode data =
     (if length data < 3 then \<lparr>cn_type = CN_NG_SETUP, cn_value = []\<rparr>
      else
        let len = unat (get16 (data ! 1) (data ! 2)) in
        \<lparr>cn_type = data ! 0,
         cn_value = take (min len (length data - 3)) (drop 3 data)\<rparr>)"

lemma cn_decode_encode [simp]: "length (cn_value m) < 65536 \<Longrightarrow> cn_decode (cn_encode m) = m"
  by (simp add: cn_decode_def cn_encode_def tlv_fields Let_def)

interpretation cn_codec: wire_codec cn_encode "\<lambda>b. Some (cn_decode b)"
    "\<lambda>m. length (cn_value m) < 65536"
  by unfold_locales simp

end
