(* ===== verification/U2u.thy ===== *)
theory U2u
  imports Prelude
begin

text \<open>
  The UE-to-UE application formats of \<^verbatim>\<open>stack/app/src/u2u.cpp\<close>: SIP-lite signalling payloads and
  the U2U packet header, with the media profiles and the synthetic media payload. The lemmas
  show that both decoders invert their encoders, and that the strict parse of \<open>decode_u2u\<close>
  accepts nothing whose fields do not fit in the packet.
\<close>

subsection \<open>Media kinds and signalling methods\<close>

datatype media_kind = MSG | VOICE | VIDEO | SIG

fun media_code :: "media_kind \<Rightarrow> u8" where
  "media_code MSG = 0"
| "media_code VOICE = 1"
| "media_code VIDEO = 2"
| "media_code SIG = 3"

definition media_of_code :: "u8 \<Rightarrow> media_kind" where
  "media_of_code b = (if b = 0 then MSG else if b = 1 then VOICE else if b = 2 then VIDEO else SIG)"

fun media_kind_name :: "media_kind \<Rightarrow> string" where
  "media_kind_name MSG = ''msg''"
| "media_kind_name VOICE = ''voice''"
| "media_kind_name VIDEO = ''video''"
| "media_kind_name SIG = ''sig''"

datatype sig_method = INVITE | RINGING_180 | OK_200 | ACK | BYE | OK_BYE | BUSY_486
  | DECLINE_603 | CANCEL

fun sig_code :: "sig_method \<Rightarrow> u8" where
  "sig_code INVITE = 1"
| "sig_code RINGING_180 = 2"
| "sig_code OK_200 = 3"
| "sig_code ACK = 4"
| "sig_code BYE = 5"
| "sig_code OK_BYE = 6"
| "sig_code BUSY_486 = 7"
| "sig_code DECLINE_603 = 8"
| "sig_code CANCEL = 9"

definition sig_of_code :: "u8 \<Rightarrow> sig_method" where
  "sig_of_code b =
     (if b = 1 then INVITE else if b = 2 then RINGING_180 else if b = 3 then OK_200
      else if b = 4 then ACK else if b = 5 then BYE else if b = 6 then OK_BYE
      else if b = 7 then BUSY_486 else if b = 8 then DECLINE_603 else CANCEL)"

lemma media_of_code_code [simp]: "media_of_code (media_code k) = k"
  by (cases k) (simp_all add: media_of_code_def)

lemma sig_of_code_code [simp]: "sig_of_code (sig_code m) = m"
  by (cases m) (simp_all add: sig_of_code_def)

subsection \<open>Signalling payloads\<close>

record sig_message =
  sm_method :: sig_method
  sm_call_id :: u32
  sm_media :: media_kind
  sm_conf_id :: u32

definition encode_sig :: "sig_message \<Rightarrow> bytes" where
  "encode_sig m =
     [sig_code (sm_method m)] @ put32 (sm_call_id m) @ [media_code (sm_media m)] @
     (if sm_conf_id m \<noteq> 0 then put32 (sm_conf_id m) else [])"

definition decode_sig :: "bytes \<Rightarrow> sig_message option" where
  "decode_sig p =
     (if length p < 6 then None
      else if p ! 0 < sig_code INVITE \<or> p ! 0 > sig_code CANCEL then None
      else Some \<lparr>sm_method = sig_of_code (p ! 0),
                 sm_call_id = get32_at p 1,
                 sm_media = (if p ! 5 \<le> media_code VIDEO then media_of_code (p ! 5) else VOICE),
                 sm_conf_id = (if length p \<ge> 10 then get32_at p 6 else 0)\<rparr>)"

lemma sig_code_range: "\<not> sig_code m < 1" "\<not> 9 < sig_code m" "sig_code m \<noteq> 0"
  by (cases m; simp)+

text \<open>A SIG media field does not survive: the decoder maps it to VOICE.\<close>

lemma decode_encode_sig:
  "decode_sig (encode_sig m) =
     Some (if sm_media m = SIG then m\<lparr>sm_media := VOICE\<rparr> else m)"
  by (cases m, cases "sm_media m")
    (simp_all add: decode_sig_def encode_sig_def put32_def get32_at_def wire_simps sig_code_range
      media_of_code_def)

interpretation sig_codec: wire_codec encode_sig decode_sig "\<lambda>m. sm_media m \<noteq> SIG"
  by unfold_locales (simp add: decode_encode_sig)

subsection \<open>U2U packets\<close>

record u2u_packet =
  up_kind :: media_kind
  up_ack :: bool
  up_end :: bool
  up_seq :: u32
  up_timestamp_ms :: u32
  up_src_imsi :: cstring
  up_dst_imsi :: cstring
  up_conf_id :: u32
  up_payload :: bytes

definition kU2uMagic :: u8 where "kU2uMagic = 0xA5"
definition kU2uMaxImsiLen :: nat where "kU2uMaxImsiLen = 32"

definition u2u_kind_byte :: "u2u_packet \<Rightarrow> u8" where
  "u2u_kind_byte p =
     (media_code (up_kind p) AND 0x0F)
       OR (if up_conf_id p \<noteq> 0 then 0x20 else 0)
       OR (if up_end p then 0x40 else 0)
       OR (if up_ack p then 0x80 else 0)"

definition encode_u2u :: "u2u_packet \<Rightarrow> bytes" where
  "encode_u2u p =
     [kU2uMagic, u2u_kind_byte p] @ put32 (up_seq p) @ put32 (up_timestamp_ms p) @
     [word_of_nat (length (up_src_imsi p))] @ up_src_imsi p @
     [word_of_nat (length (up_dst_imsi p))] @ up_dst_imsi p @
     (if up_conf_id p \<noteq> 0 then put32 (up_conf_id p) else []) @
     up_payload p"

definition decode_u2u :: "bytes \<Rightarrow> u2u_packet option" where
  "decode_u2u data =
     (if length data < 12 \<or> data ! 0 \<noteq> kU2uMagic then None
      else
        let kind_byte = data ! 1;
            kind_nibble = kind_byte AND 0x0F;
            has_conf = (kind_byte AND 0x20 \<noteq> 0);
            src_len = unat (data ! 10)
        in
        if kind_nibble > media_code SIG then None
        else if src_len = 0 \<or> src_len > kU2uMaxImsiLen then None
        else if length data < 12 + src_len then None
        else
          let dst_len = unat (data ! (11 + src_len)) in
          if dst_len = 0 \<and> \<not> has_conf then None
          else if dst_len > kU2uMaxImsiLen then None
          else if length data < 12 + src_len + dst_len + (if has_conf then 4 else 0) then None
          else
            let off = 12 + src_len + dst_len in
            Some \<lparr>up_kind = media_of_code kind_nibble,
                  up_ack = (kind_byte AND 0x80 \<noteq> 0),
                  up_end = (kind_byte AND 0x40 \<noteq> 0),
                  up_seq = get32_at data 2,
                  up_timestamp_ms = get32_at data 6,
                  up_src_imsi = take src_len (drop 11 data),
                  up_dst_imsi = take dst_len (drop (12 + src_len) data),
                  up_conf_id = (if has_conf then get32_at data off else 0),
                  up_payload = drop (if has_conf then off + 4 else off) data\<rparr>)"

subsection \<open>Media profiles\<close>

text \<open>Payload bytes and interval; \<open>MSG\<close> is one-shot and \<open>SIG\<close> falls through the switch.\<close>

fun media_profile :: "media_kind \<Rightarrow> nat \<times> u32" where
  "media_profile VOICE = (160, 30)"
| "media_profile VIDEO = (512, 50)"
| "media_profile MSG = (0, 0)"
| "media_profile SIG = (0, 0)"

text \<open>
  \<^verbatim>\<open>(i + seq * 7) % 26\<close> with \<^verbatim>\<open>seq\<close> a \<^verbatim>\<open>uint32_t\<close>: the product wraps at 32 bits, the sum with the
  \<^verbatim>\<open>size_t\<close> index does not.
\<close>

definition make_media_payload :: "media_kind \<Rightarrow> u32 \<Rightarrow> bytes" where
  "make_media_payload kind seq =
     (let base = (if kind = VIDEO then 0x30 else 0x60) :: u8 in
      map (\<lambda>i. base + word_of_nat ((i + unat (seq * 7)) mod 26)) [0..<fst (media_profile kind)])"

subsection \<open>Round trips\<close>

text \<open>The flag bits and the kind nibble of the kind byte do not interfere.\<close>

lemma u2u_kind_byte_fields:
  "u2u_kind_byte p AND 0x0F = media_code (up_kind p)"
  "u2u_kind_byte p AND 0x20 = (if up_conf_id p \<noteq> 0 then 0x20 else 0)"
  "u2u_kind_byte p AND 0x40 = (if up_end p then 0x40 else 0)"
  "u2u_kind_byte p AND 0x80 = (if up_ack p then 0x80 else 0)"
  by (cases "up_kind p"; simp add: u2u_kind_byte_def)+

lemma media_code_le: "\<not> 3 < media_code k"
  by (cases k) simp_all

definition u2u_carries :: "u2u_packet \<Rightarrow> bool" where
  "u2u_carries p \<longleftrightarrow>
     up_src_imsi p \<noteq> [] \<and> length (up_src_imsi p) \<le> kU2uMaxImsiLen \<and>
     length (up_dst_imsi p) \<le> kU2uMaxImsiLen \<and>
     (up_dst_imsi p = [] \<longrightarrow> up_conf_id p \<noteq> 0)"

lemma decode_encode_u2u:
  assumes "u2u_carries p"
  shows "decode_u2u (encode_u2u p) = Some p"
proof -
  let ?s = "up_src_imsi p" and ?d = "up_dst_imsi p" and ?c = "up_conf_id p"
  let ?tail = "(if ?c \<noteq> 0 then put32 ?c else []) @ up_payload p"
  let ?h = "[kU2uMagic, u2u_kind_byte p] @ put32 (up_seq p) @ put32 (up_timestamp_ms p)"
  let ?e = "encode_u2u p"
  have ls: "length ?s \<le> 32" "?s \<noteq> []" and ld: "length ?d \<le> 32"
    and dst: "?d = [] \<Longrightarrow> ?c \<noteq> 0"
    using assms by (auto simp: u2u_carries_def kU2uMaxImsiLen_def)
  have e: "?e = ?h @ [word_of_nat (length ?s)] @ ?s @ [word_of_nat (length ?d)] @ ?d @ ?tail"
    by (simp add: encode_u2u_def)
  have us: "unat (word_of_nat (length ?s) :: u8) = length ?s"
    and ud: "unat (word_of_nat (length ?d) :: u8) = length ?d"
    using ls ld by (simp_all add: unat_of_nat)
  have lh: "length ?h = 10" by simp
  have f0: "?e ! 0 = kU2uMagic" "?e ! 1 = u2u_kind_byte p"
    "get32_at ?e 2 = up_seq p" "get32_at ?e 6 = up_timestamp_ms p"
    by (simp_all add: e put32_def get32_at_def wire_simps)
  have f10: "?e ! 10 = word_of_nat (length ?s)"
    unfolding e by (simp add: put32_def)
  have d11: "drop 11 ?e = ?s @ [word_of_nat (length ?d)] @ ?d @ ?tail"
    unfolding e by (simp add: put32_def)
  have fd: "?e ! (11 + length ?s) = word_of_nat (length ?d)"
    using nth_drop [of 11 ?e "length ?s"] d11 by (simp add: e)
  have d12: "drop (12 + length ?s) ?e = ?d @ ?tail"
    using arg_cong [OF d11, of "drop (Suc (length ?s))"] by (simp add: add.commute)
  have doff: "drop (12 + length ?s + length ?d) ?e = ?tail"
    using arg_cong [OF d12, of "drop (length ?d)"] by (simp add: add.commute add.left_commute)
  have len: "length ?e = 12 + length ?s + length ?d + length ?tail"
    by (simp add: e)
  have conf: "get32_at ?e (12 + length ?s + length ?d) = ?c" if "?c \<noteq> 0"
    using that by (subst get32_at_drop) (simp_all only: len doff, simp_all add: wire_simps)
  have dpay: "drop (12 + length ?s + length ?d + 4) ?e = up_payload p" if "?c \<noteq> 0"
    using arg_cong [OF doff, of "drop 4"] that by (simp add: add.commute add.left_commute put32_def)
  note fields = f0 f10 [unfolded One_nat_def] us fd ud d11 d12 len u2u_kind_byte_fields media_code_le
  show ?thesis
  proof (cases "?c = 0")
    case True
    with dst have "?d \<noteq> []" by blast
    with True ls ld doff show ?thesis
      by (simp only: decode_u2u_def Let_def fields) (simp add: kU2uMaxImsiLen_def media_code_le)
  next
    case False
    with ls ld conf dpay show ?thesis
      by (simp only: decode_u2u_def Let_def fields) (simp add: kU2uMaxImsiLen_def media_code_le)
  qed
qed

interpretation u2u_codec: wire_codec encode_u2u decode_u2u u2u_carries
  by unfold_locales (rule decode_encode_u2u)

text \<open>
  Call control survives the user plane: a SIP-lite message for a voice, video or message
  dialog, encoded into a U2U packet between two subscribers, is read back unchanged by the
  peer, together with every header field of the packet (kind, flags, sequence number, time
  stamp, both identities, conference id).
\<close>

theorem u2u_signalling_round_trip:
  assumes "u2u_carries p" and "sm_media m \<noteq> SIG" and "up_payload p = encode_sig m"
  shows "decode_u2u (encode_u2u p) = Some p \<and> decode_sig (up_payload p) = Some m"
  using assms by (simp add: decode_encode_u2u decode_encode_sig)

theorem u2u_signalling_round_trip_witness:
  "let m = \<lparr>sm_method = INVITE, sm_call_id = 77, sm_media = VIDEO, sm_conf_id = 0\<rparr>;
       p = \<lparr>up_kind = SIG, up_ack = False, up_end = False, up_seq = 9, up_timestamp_ms = 1000,
            up_src_imsi = cstr ''001'', up_dst_imsi = cstr ''002'', up_conf_id = 0,
            up_payload = encode_sig m\<rparr>
   in decode_u2u (encode_u2u p) = Some p \<and> decode_sig (up_payload p) = Some m"
  unfolding Let_def
  by (rule u2u_signalling_round_trip)
    (simp_all add: u2u_carries_def kU2uMaxImsiLen_def cstr_def)

text \<open>
  The strict parse: whatever bytes arrive, a packet that \<open>decode_u2u\<close> accepts names a
  source of 1 to 32 bytes and a destination of at most 32 bytes (empty only with the
  conference flag), and header, identities, conference field and payload account for
  exactly the received bytes.
\<close>

theorem decode_u2u_strict:
  assumes "decode_u2u data = Some p"
  shows "1 \<le> length (up_src_imsi p) \<and> length (up_src_imsi p) \<le> 32 \<and>
         length (up_dst_imsi p) \<le> 32 \<and>
         (up_dst_imsi p = [] \<longrightarrow> data ! 1 AND 0x20 \<noteq> 0) \<and>
         length data = 12 + length (up_src_imsi p) + length (up_dst_imsi p)
           + (if data ! 1 AND 0x20 \<noteq> 0 then 4 else 0) + length (up_payload p)"
  using assms
  by (auto simp: decode_u2u_def Let_def kU2uMaxImsiLen_def split: if_splits)

theorem decode_u2u_strict_witness:
  "\<exists>p. decode_u2u [0xA5, 0, 1, 0, 0, 0, 2, 0, 0, 0, 1, 49, 1, 50, 7] = Some p \<and>
       15 = 12 + length (up_src_imsi p) + length (up_dst_imsi p) + length (up_payload p)"
proof -
  let ?d = "[0xA5, 0, 1, 0, 0, 0, 2, 0, 0, 0, 1, 49, 1, 50, 7] :: bytes"
  obtain p where p: "decode_u2u ?d = Some p"
    by (simp add: decode_u2u_def Let_def kU2uMagic_def kU2uMaxImsiLen_def)
  from decode_u2u_strict [OF p] p show ?thesis by auto
qed

end
