(* ===== verification/Rlc.thy ===== *)
theory Rlc
  imports Prelude "HOL-Library.Sublist"
begin

text \<open>
  What the RLC entities share: transparent mode (\<^verbatim>\<open>stack/rlc/src/rlc_tm.cpp\<close>), the segmentation
  loop and the reassembly of segments (both UM and AM contain the same two pieces of code),
  and the contract of an in-order receiver. The contract is a locale: a receiver is fed the
  PDUs of a stream in any order and with repetitions, and what it must do at each step is
  determined by the set of positions received so far. From the step law alone the locale
  derives what the upper layer sees: the SDUs of the stream, once each and in order.
\<close>

subsection \<open>Transparent mode\<close>

definition tm_tx :: "bytes \<Rightarrow> bytes" where "tm_tx sdu = sdu"

definition tm_rx :: "bytes \<Rightarrow> bytes" where "tm_rx pdu = pdu"

subsection \<open>Segmentation and reassembly\<close>

text \<open>
  The segments of an SDU with their framing info: 0x00 complete, 0x10 first, 0x20 last,
  0x30 middle. (The code divides by \<^verbatim>\<open>max_pdu_payload\<close>; a configuration of 0 would be a
  division by zero and is excluded by the hypotheses that use this function.)
\<close>

definition seg_fi :: "nat \<Rightarrow> nat \<Rightarrow> u8" where
  "seg_fi segments seg =
     (if segments > 1 then (if seg = 0 then 0x10 else if seg = segments - 1 then 0x20 else 0x30)
      else 0x00)"

definition seg_payload :: "nat \<Rightarrow> nat \<Rightarrow> nat \<Rightarrow> bytes \<Rightarrow> bytes" where
  "seg_payload maxp segments seg sdu =
     (if seg = segments - 1 then drop (seg * maxp) sdu else take maxp (drop (seg * maxp) sdu))"

definition rlc_segments :: "nat \<Rightarrow> bytes \<Rightarrow> (u8 \<times> bytes) list" where
  "rlc_segments maxp sdu =
     (let segments = (length sdu + maxp - 1) div maxp
      in map (\<lambda>seg. (seg_fi segments seg, seg_payload maxp segments seg sdu)) [0..<segments])"

text \<open>The reassembly state (\<^verbatim>\<open>collecting_\<close>, \<^verbatim>\<open>partial_\<close>) and one in-order segment.\<close>

fun reasm :: "bool \<times> bytes \<Rightarrow> u8 \<times> bytes \<Rightarrow> (bool \<times> bytes) \<times> bytes list" where
  "reasm (collecting, part) (fi, payload) =
     (if fi = 0x00 then ((collecting, part), [payload])
      else if fi = 0x10 then ((True, payload), [])
      else if fi = 0x20 then
        (if collecting then ((False, []), [part @ payload]) else ((collecting, part), []))
      else
        (if collecting then ((collecting, part @ payload), []) else ((collecting, part), [])))"

fun reasm_all :: "bool \<times> bytes \<Rightarrow> (u8 \<times> bytes) list \<Rightarrow> (bool \<times> bytes) \<times> bytes list" where
  "reasm_all st [] = (st, [])"
| "reasm_all st (x # xs) =
     (let (st1, out1) = reasm st x; (st2, out2) = reasm_all st1 xs in (st2, out1 @ out2))"

lemma reasm_all_append:
  "reasm_all st (xs @ ys) =
     (let (st1, out1) = reasm_all st xs; (st2, out2) = reasm_all st1 ys in (st2, out1 @ out2))"
  by (induction xs arbitrary: st) (auto simp: Let_def split: prod.splits)

lemma reasm_all_snoc:
  "reasm_all st (xs @ [x]) =
     (let (st1, out1) = reasm_all st xs; (st2, out2) = reasm st1 x in (st2, out1 @ out2))"
  by (simp add: reasm_all_append Let_def split: prod.splits)

lemma reasm_middles:
  "\<forall>x \<in> set xs. fst x = 0x30 \<Longrightarrow>
     reasm_all (True, part) xs = ((True, part @ concat (map snd xs)), [])"
proof (induction xs arbitrary: part)
  case (Cons x xs)
  then show ?case by (cases x) simp
qed simp

lemma concat_chunks:
  "m * k \<le> length xs \<Longrightarrow> concat (map (\<lambda>i. take k (drop (i * k) xs)) [0..<m]) = take (m * k) xs"
proof (induction m)
  case (Suc m)
  then have "concat (map (\<lambda>i. take k (drop (i * k) xs)) [0..<Suc m]) = take (m * k + k) xs"
    by (simp add: take_add)
  then show ?case by (simp add: add.commute)
qed simp

text \<open>The number of segments leaves at least one byte for the last one.\<close>

lemma segment_count:
  assumes "0 < maxp" "sdu \<noteq> []" "n = (length sdu + maxp - 1) div maxp"
  shows "0 < n" "(n - 1) * maxp < length sdu" "length sdu \<le> n * maxp"
proof -
  have l: "0 < length sdu" using assms by simp
  have q: "(length sdu + maxp - 1) mod maxp < maxp" using assms by simp
  have e: "n * maxp + (length sdu + maxp - 1) mod maxp = length sdu + maxp - 1"
    using assms by simp
  show "0 < n"
  proof (rule ccontr)
    assume "\<not> 0 < n"
    then have "n * maxp = 0" by simp
    with e q l show False by linarith
  qed
  then have "(n - 1) * maxp = n * maxp - maxp" by (simp add: diff_mult_distrib)
  moreover have "maxp \<le> n * maxp" using \<open>0 < n\<close> by simp
  ultimately show "(n - 1) * maxp < length sdu" "length sdu \<le> n * maxp"
    using e q l by linarith+
qed

text \<open>Reassembling the segments of one SDU gives the SDU and leaves nothing behind.\<close>

lemma reasm_segments:
  assumes "0 < maxp" "sdu \<noteq> []"
  shows "reasm_all (False, []) (rlc_segments maxp sdu) = ((False, []), [sdu])"
proof -
  define n where "n = (length sdu + maxp - 1) div maxp"
  let ?s = "\<lambda>seg. (seg_fi n seg, seg_payload maxp n seg sdu)"
  note N = segment_count [OF assms n_def]
  have segs: "rlc_segments maxp sdu = map ?s [0..<n]"
    by (simp add: rlc_segments_def n_def Let_def)
  show ?thesis
  proof (cases "n = 1")
    case True
    then show ?thesis by (simp add: segs seg_fi_def seg_payload_def)
  next
    case False
    with N(1) have n2: "2 \<le> n" by simp
    have up: "[0..<n] = 0 # [1..<n - 1] @ [n - 1]"
      using n2 by (metis One_nat_def Suc_diff_1 N(1) upt_Suc_append upt_conv_Cons zero_less_diff
          less_eq_Suc_le numeral_2_eq_2 le_add_diff_inverse diff_le_self append_Cons zero_le)
    have mid: "reasm_all (True, p) (map ?s [1..<n - 1]) =
        ((True, p @ concat (map (\<lambda>seg. take maxp (drop (seg * maxp) sdu)) [1..<n - 1])), [])" for p
    proof -
      have "map snd (map ?s [1..<n - 1]) = map (\<lambda>seg. take maxp (drop (seg * maxp) sdu)) [1..<n - 1]"
        by (auto simp: seg_payload_def)
      then show ?thesis
        by (subst reasm_middles) (use n2 in \<open>auto simp: seg_fi_def simp del: map_map map_eq_conv\<close>)
    qed
    have "take maxp sdu @ concat (map (\<lambda>seg. take maxp (drop (seg * maxp) sdu)) [1..<n - 1]) =
        concat (map (\<lambda>seg. take maxp (drop (seg * maxp) sdu)) [0..<n - 1])"
      using n2 by (subst (2) upt_conv_Cons) simp_all
    also have "\<dots> = take ((n - 1) * maxp) sdu"
      using N by (intro concat_chunks) simp
    finally have "take maxp sdu @ concat (map (\<lambda>seg. take maxp (drop (seg * maxp) sdu)) [1..<n - 1])
        @ drop ((n - 1) * maxp) sdu = sdu"
      by (metis append.assoc append_take_drop_id)
    moreover have "?s 0 = (0x10, take maxp sdu)" "?s (n - 1) = (0x20, drop ((n - 1) * maxp) sdu)"
      using n2 by (simp_all add: seg_fi_def seg_payload_def)
    ultimately show ?thesis
      by (simp only: segs up list.map map_append) (simp add: reasm_all_append mid [unfolded One_nat_def])
  qed
qed

lemma reasm_segments_all:
  assumes "0 < maxp" "\<forall>sdu \<in> set sdus. sdu \<noteq> []"
  shows "reasm_all (False, []) (concat (map (rlc_segments maxp) sdus)) = ((False, []), sdus)"
  using assms(2)
  by (induction sdus) (simp_all add: reasm_all_append reasm_segments [OF assms(1)])

lemma rlc_segments_shape:
  assumes "0 < maxp" "sdu \<noteq> []" "(fi, p) \<in> set (rlc_segments maxp sdu)"
  shows "p \<noteq> []" "length p \<le> maxp" "fi \<in> {0x00, 0x10, 0x20, 0x30}"
proof -
  define n where "n = (length sdu + maxp - 1) div maxp"
  note N = segment_count [OF assms(1,2) n_def]
  obtain seg where seg: "seg < n" "fi = seg_fi n seg" "p = seg_payload maxp n seg sdu"
    using assms(3) by (auto simp: rlc_segments_def Let_def n_def)
  have "seg * maxp \<le> (n - 1) * maxp" using seg by (intro mult_le_mono1) simp
  then have "seg * maxp < length sdu" using N(2) by linarith
  then show "p \<noteq> []" using assms(1) by (auto simp: seg seg_payload_def)
  have "n * maxp = (n - 1) * maxp + maxp" using N(1) by (simp add: diff_mult_distrib)
  then show "length p \<le> maxp" using N(3) by (auto simp: seg seg_payload_def)
  show "fi \<in> {0x00, 0x10, 0x20, 0x30}" by (simp add: seg seg_fi_def)
qed

text \<open>The SDUs completed by the first \<open>m\<close> segments, and the reassembly state there.\<close>

definition sdus_upto :: "(u8 \<times> bytes) list \<Rightarrow> nat \<Rightarrow> bytes list" where
  "sdus_upto segs m = snd (reasm_all (False, []) (take m segs))"

definition reasm_upto :: "(u8 \<times> bytes) list \<Rightarrow> nat \<Rightarrow> bool \<times> bytes" where
  "reasm_upto segs m = fst (reasm_all (False, []) (take m segs))"

lemma upto_0 [simp]: "sdus_upto segs 0 = []" "reasm_upto segs 0 = (False, [])"
  by (simp_all add: sdus_upto_def reasm_upto_def)

lemma upto_Suc:
  assumes "m < length segs" "reasm (reasm_upto segs m) (segs ! m) = (st, out)"
  shows "reasm_upto segs (Suc m) = st" "sdus_upto segs (Suc m) = sdus_upto segs m @ out"
  using assms
  by (cases "reasm_all (False, []) (take m segs)",
      simp add: sdus_upto_def reasm_upto_def take_Suc_conv_app_nth reasm_all_snoc)+

lemma sdus_upto_all:
  assumes "0 < maxp" "\<forall>sdu \<in> set sdus. sdu \<noteq> []" "segs = concat (map (rlc_segments maxp) sdus)"
  shows "sdus_upto segs (length segs) = sdus"
  using reasm_segments_all [OF assms(1,2)] by (simp add: sdus_upto_def assms(3))

lemma sdus_upto_prefix: "\<exists>r. sdus_upto segs m @ r = sdus_upto segs (length segs)"
  using reasm_all_append [of "(False, [])" "take m segs" "drop m segs"]
  by (auto simp: sdus_upto_def split: prod.splits)

lemma sdus_upto_mono: "m \<le> n \<Longrightarrow> prefix (sdus_upto segs m) (sdus_upto segs n)"
proof -
  assume "m \<le> n"
  then have "take n segs = take m segs @ drop m (take n segs)"
    by (metis append_take_drop_id min.absorb1 take_take)
  then show ?thesis
    using reasm_all_append [of "(False, [])" "take m segs" "drop m (take n segs)"]
    by (auto simp: sdus_upto_def split: prod.splits)
qed

lemma upto_append:
  "m \<le> length segs \<Longrightarrow> sdus_upto (segs @ more) m = sdus_upto segs m"
  "m \<le> length segs \<Longrightarrow> reasm_upto (segs @ more) m = reasm_upto segs m"
  by (simp_all add: sdus_upto_def reasm_upto_def)

subsection \<open>Sequence numbers\<close>

text \<open>
  Both receivers remember the sequence numbers they have seen and drop the smallest once
  there are more than 8192: \<^verbatim>\<open>if (seen_.size() > 8192) seen_.erase(seen_.begin())\<close>.
\<close>

definition bound_seen :: "u16 set \<Rightarrow> u16 set" where
  "bound_seen seen = (if 8192 < card seen then seen - {Min seen} else seen)"

lemma bound_seen_subset: "bound_seen seen \<subseteq> seen"
  by (auto simp: bound_seen_def)

lemma card_u16_window: "card {x :: u16. m \<le> unat x \<and> unat x < m + w} \<le> w"
proof -
  have "card {x :: u16. m \<le> unat x \<and> unat x < m + w} \<le> card {m..<m + w}"
  proof (rule card_inj_on_le)
    show "inj_on unat {x :: u16. m \<le> unat x \<and> unat x < m + w}"
      by (rule inj_onI) (rule unsigned_word_eqI)
  qed auto
  then show ?thesis by simp
qed

text \<open>
  What is forgotten lies behind the delivery edge \<open>m\<close>, as long as at most 8192 positions
  ahead of it can have been seen.
\<close>

lemma bound_seen_ahead:
  assumes "x \<in> seen" "m \<le> unat x" "w \<le> 8192"
    and ahead: "\<And>y. y \<in> seen \<Longrightarrow> m \<le> unat y \<Longrightarrow> unat y < m + w"
  shows "x \<in> bound_seen seen"
proof (cases "8192 < card seen")
  case True
  have "\<exists>y \<in> seen. unat y < m"
  proof (rule ccontr)
    assume "\<not> ?thesis"
    then have "seen \<subseteq> {x. m \<le> unat x \<and> unat x < m + w}" using ahead by (auto simp: not_less)
    then have "card seen \<le> card {x :: u16. m \<le> unat x \<and> unat x < m + w}"
      by (rule card_mono [OF finite])
    also have "\<dots> \<le> w" by (rule card_u16_window)
    finally have "card seen \<le> w" .
    with True assms(3) show False by simp
  qed
  then obtain y where y: "y \<in> seen" "unat y < m" by blast
  then have "Min seen \<le> y" by (intro Min_le) simp_all
  then have "unat (Min seen) < m" using y(2) by (simp add: word_le_nat_alt)
  with assms(1,2) show ?thesis by (auto simp: bound_seen_def)
qed (simp add: bound_seen_def assms(1))

lemma unat_sn [simp]: "k < 65536 \<Longrightarrow> unat (word_of_nat k :: u16) = k"
  by (simp add: unat_of_nat)

lemma unat_eq_sn: "m < 65536 \<Longrightarrow> unat (x :: u16) = m \<longleftrightarrow> x = word_of_nat m"
  by (auto intro: unsigned_word_eqI)

lemma sn_image: "b \<le> 65536 \<Longrightarrow> (x :: u16) \<in> word_of_nat ` {a..<b} \<longleftrightarrow> a \<le> unat x \<and> unat x < b"
  by (auto simp: image_iff) (metis atLeastLessThan_iff order.strict_trans2 unat_eq_sn)

lemma sint_sn_distance:
  assumes "k < 32768" "m \<le> 32768"
  shows "sint (word_of_nat k - word_of_nat m :: u16) = int k - int m"
proof -
  have "(word_of_nat k - word_of_nat m :: u16) = word_of_int (int k - int m)" by simp
  then have "sint (word_of_nat k - word_of_nat m :: u16) = signed_take_bit 15 (int k - int m)"
    by (simp only: sint_sbintrunc') simp
  also have "\<dots> = int k - int m"
    using assms by (subst signed_take_bit_int_eq_self_iff) simp
  finally show ?thesis .
qed

text \<open>
  The duplicate memory of a receiver that has delivered up to position \<open>m\<close>: it knows only
  received positions, and all of those from \<open>m\<close> on, which lie within the window \<open>w\<close>.
\<close>

definition seen_ok :: "nat \<Rightarrow> nat set \<Rightarrow> nat \<Rightarrow> u16 set \<Rightarrow> bool" where
  "seen_ok w got m seen \<longleftrightarrow>
     (\<forall>x \<in> seen. unat x \<in> got) \<and> (\<forall>x. unat x \<in> got \<and> m \<le> unat x \<longrightarrow> x \<in> seen) \<and>
     (\<forall>j \<in> got. j < m + w)"

lemma seen_ok_insert:
  assumes ok: "seen_ok w got m seen" and k: "k < m + w" "k < 65536" and w: "w \<le> 8192" and m': "m \<le> m'"
  shows "seen_ok w (insert k got) m' (bound_seen (insert (word_of_nat k) seen))"
proof -
  let ?seen = "insert (word_of_nat k) seen"
  have sub: "unat x \<in> insert k got" if "x \<in> ?seen" for x
    using that ok k by (auto simp: seen_ok_def)
  have "x \<in> bound_seen ?seen" if "unat x \<in> insert k got" "m' \<le> unat x" for x
  proof (rule bound_seen_ahead [OF _ _ w])
    show "x \<in> ?seen" using that ok k m' by (auto simp: seen_ok_def unat_eq_sn)
    show "m \<le> unat x" using that m' by simp
    show "unat y < m + w" if "y \<in> ?seen" for y
      using sub [OF that] ok k by (auto simp: seen_ok_def)
  qed
  then show ?thesis
    using sub bound_seen_subset [of ?seen] ok k m' by (fastforce simp: seen_ok_def)
qed

subsection \<open>The duplicate memory after the sequence numbers wrap\<close>

text \<open>What both receivers do to the memory with each PDU, whatever else they do with it.\<close>

definition seen_step :: "u16 \<Rightarrow> u16 set \<Rightarrow> u16 set" where
  "seen_step sn seen = (if sn \<in> seen then seen else bound_seen (insert sn seen))"

definition last_seen :: "nat \<Rightarrow> u16 set" where
  "last_seen n = {x. unat x < n \<and> n \<le> unat x + 8192}"

lemma card_last_seen:
  assumes "n \<le> 65536"
  shows "card (last_seen n) = min n 8192"
proof -
  have "card (last_seen n) = card {n - 8192..<n}"
  proof (rule bij_betw_same_card, rule bij_betw_byWitness [where f' = "word_of_nat :: nat \<Rightarrow> u16"])
    show "unat ` last_seen n \<subseteq> {n - 8192..<n}" by (auto simp: last_seen_def)
    show "word_of_nat ` {n - 8192..<n} \<subseteq> last_seen n" using assms by (auto simp: last_seen_def)
  qed (use assms in \<open>auto simp: last_seen_def\<close>)
  then show ?thesis by auto
qed

lemma seen_step_first_pass:
  assumes "n < 65536"
  shows "seen_step (word_of_nat n) (last_seen n) = last_seen (Suc n)"
proof -
  have new: "word_of_nat n \<notin> last_seen n" using assms by (simp add: last_seen_def)
  have ins: "insert (word_of_nat n) (last_seen n) = {x. unat x \<le> n \<and> n \<le> unat x + 8192}"
    using assms by (auto simp: last_seen_def le_less unat_eq_sn)
  have c: "card (insert (word_of_nat n) (last_seen n)) = Suc (min n 8192)"
    using new assms by (simp add: card_last_seen)
  show ?thesis
  proof (cases "n < 8192")
    case True
    then have "seen_step (word_of_nat n) (last_seen n) = {x. unat x \<le> n \<and> n \<le> unat x + 8192}"
      using new c unfolding ins [symmetric] by (simp add: seen_step_def bound_seen_def)
    then show ?thesis using True by (auto simp: last_seen_def)
  next
    case False
    then obtain k where k: "k + 8192 = n" by (metis add.commute le_add_diff_inverse not_less)
    with assms have m: "(word_of_nat k :: u16) \<in> insert (word_of_nat n) (last_seen n)"
      using assms unfolding ins by simp
    have "Min (insert (word_of_nat n) (last_seen n)) = word_of_nat k"
      using assms k m by (intro Min_eqI) (auto simp: ins word_le_nat_alt)
    with False new c have "seen_step (word_of_nat n) (last_seen n) =
        {x. unat x \<le> n \<and> n \<le> unat x + 8192} - {word_of_nat k}"
      unfolding ins [symmetric] by (simp add: seen_step_def bound_seen_def)
    also have "\<dots> = last_seen (Suc n)"
      using assms k by (auto simp: last_seen_def unat_eq_sn [symmetric])
    finally show ?thesis .
  qed
qed

lemma seen_first_pass:
  "n \<le> 65536 \<Longrightarrow> fold seen_step (map word_of_nat [0..<n]) {} = last_seen n"
proof (induction n)
  case 0
  show ?case by (simp add: last_seen_def)
next
  case (Suc n)
  then show ?case by (simp add: seen_step_first_pass)
qed

lemma seen_second_pass:
  assumes "n \<le> 57344"
  shows "fold seen_step (map word_of_nat [0..<n]) (last_seen 65536) = last_seen 65536"
  using assms
proof (induction n)
  case (Suc n)
  have new: "word_of_nat n \<notin> last_seen 65536" using Suc.prems by (simp add: last_seen_def)
  have "Min (insert (word_of_nat n) (last_seen 65536)) = word_of_nat n"
    using Suc.prems by (intro Min_eqI) (auto simp: last_seen_def word_le_nat_alt)
  moreover have "card (insert (word_of_nat n) (last_seen 65536)) = 8193"
    using new by (simp add: card_last_seen)
  ultimately have "seen_step (word_of_nat n) (last_seen 65536) = last_seen 65536"
    using new by (auto simp: seen_step_def bound_seen_def)
  with Suc show ?case by simp
qed simp

text \<open>
  After one pass over the sequence space and most of a second one, the memory still holds
  the top 8192 numbers of the first pass, so their second use looks like a duplicate.
\<close>

lemma seen_wrap:
  assumes "first = 65536" "second = 57344" "second \<le> i" "i < first"
  shows "word_of_nat i \<in> fold seen_step (map word_of_nat [0..<first + second]) {}"
proof -
  have "[0..<first + second] = [0..<first] @ [first..<first + second]"
    by (rule upt_add_eq_append) simp
  moreover have "map word_of_nat [first..<first + second] = (map word_of_nat [0..<second] :: u16 list)"
    using assms(1) by (intro nth_equalityI) auto
  ultimately have "fold seen_step (map word_of_nat [0..<first + second]) {} =
      fold seen_step (map word_of_nat [0..<second]) (fold seen_step (map word_of_nat [0..<first]) {})"
    by (simp only: map_append fold_append comp_def)
  also have "\<dots> = last_seen 65536"
    using assms(1,2) seen_first_pass [of first] seen_second_pass [of second] by (simp only: order_refl)
  finally show ?thesis using assms by (simp add: last_seen_def)
qed

subsection \<open>The contract of an in-order receiver\<close>

text \<open>The first position that has not been received.\<close>

definition first_missing :: "nat set \<Rightarrow> nat" where
  "first_missing got = (LEAST n. n \<notin> got)"

lemma first_missing_notin: "finite got \<Longrightarrow> first_missing got \<notin> got"
  unfolding first_missing_def by (rule LeastI_ex) (rule ex_new_if_finite [OF infinite_UNIV_nat])

lemma below_first_missing: "m < first_missing got \<Longrightarrow> m \<in> got"
  unfolding first_missing_def using not_less_Least by blast

lemma first_missing_eqI: "m \<notin> got \<Longrightarrow> (\<And>j. j < m \<Longrightarrow> j \<in> got) \<Longrightarrow> first_missing got = m"
  unfolding first_missing_def by (rule Least_equality) (auto simp: not_less [symmetric])

lemma first_missing_empty [simp]: "first_missing {} = 0"
  by (rule first_missing_eqI) auto

lemma first_missing_bound: "got \<subseteq> {..<n} \<Longrightarrow> first_missing got \<le> n"
  using below_first_missing [of n got] by (auto simp: not_less [symmetric])

lemma first_missing_insert_other:
  assumes "finite got" "k \<noteq> first_missing got"
  shows "first_missing (insert k got) = first_missing got"
  using assms first_missing_notin [OF assms(1)] below_first_missing
  by (intro first_missing_eqI) auto

lemma first_missing_mono: "finite got \<Longrightarrow> first_missing got \<le> first_missing (insert k got)"
  using first_missing_notin [of "insert k got"] below_first_missing [of "first_missing (insert k got)" got]
  by (auto simp: not_less [symmetric])

lemma first_missing_all: "first_missing {..<n} = n"
  by (rule first_missing_eqI) auto

text \<open>
  \<open>rx s t k\<close> feeds the PDU at position \<open>k\<close> of the stream at time \<open>t\<close> and returns the SDUs it releases;
  \<open>done m\<close> is what the first \<open>m\<close> positions amount to; \<open>adm got k\<close> says that the network may
  hand the receiver position \<open>k\<close> now (its distance from the first missing position is within
  the receiver's window); \<open>inv s got\<close> relates the state to the positions received.
\<close>

locale in_order_receiver =
  fixes rx :: "'s \<Rightarrow> 't \<Rightarrow> nat \<Rightarrow> 's \<times> bytes list"
    and start :: 's
    and inv :: "'s \<Rightarrow> nat set \<Rightarrow> bool"
    and size_of :: nat
    and adm :: "nat set \<Rightarrow> nat \<Rightarrow> bool"
    and complete :: "nat \<Rightarrow> bytes list"
  assumes inv_start: "inv start {}"
    and complete_0: "complete 0 = []"
    and rx_step: "inv s got \<Longrightarrow> got \<subseteq> {..<size_of} \<Longrightarrow> k < size_of \<Longrightarrow> adm got k \<Longrightarrow>
      rx s t k = (s', out) \<Longrightarrow>
      inv s' (insert k got) \<and> complete (first_missing got) @ out = complete (first_missing (insert k got))"
begin

fun rx_all :: "'s \<Rightarrow> ('t \<times> nat) list \<Rightarrow> 's \<times> bytes list" where
  "rx_all s [] = (s, [])"
| "rx_all s ((t, k) # ks) = (let (s1, o1) = rx s t k; (s2, o2) = rx_all s1 ks in (s2, o1 @ o2))"

fun adm_all :: "nat set \<Rightarrow> ('t \<times> nat) list \<Rightarrow> bool" where
  "adm_all got [] = True"
| "adm_all got ((t, k) # ks) = (k < size_of \<and> adm got k \<and> adm_all (insert k got) ks)"

lemma rx_all_inv:
  "inv s got \<Longrightarrow> got \<subseteq> {..<size_of} \<Longrightarrow> adm_all got ks \<Longrightarrow> rx_all s ks = (s'', out) \<Longrightarrow>
     inv s'' (got \<union> snd ` set ks) \<and>
     complete (first_missing got) @ out = complete (first_missing (got \<union> snd ` set ks))"
proof (induction ks arbitrary: s got out s'')
  case (Cons p ks)
  obtain t k where p: "p = (t, k)" by fastforce
  obtain s1 o1 where r: "rx s t k = (s1, o1)" by fastforce
  obtain s2 o2 where rs: "rx_all s1 ks = (s2, o2)" by fastforce
  have step: "inv s1 (insert k got)" "complete (first_missing got) @ o1 = complete (first_missing (insert k got))"
    using rx_step [OF Cons.prems(1,2) _ _ r] Cons.prems(3) by (simp_all add: p)
  have "s'' = s2" "out = o1 @ o2" using Cons.prems(4) r rs by (simp_all add: p)
  with Cons.IH [OF step(1) _ _ rs] step(2) Cons.prems(2,3) show ?case
    by (simp add: p flip: append_assoc)
qed simp

text \<open>Any arrival order: what was delivered is what the received prefix amounts to.\<close>

lemma delivered_prefix:
  "adm_all {} ks \<Longrightarrow> snd (rx_all start ks) = complete (first_missing (snd ` set ks))"
  using rx_all_inv [OF inv_start, of ks] complete_0 by (cases "rx_all start ks") simp

lemma delivered_all:
  assumes "adm_all {} ks" "{..<size_of} \<subseteq> snd ` set ks"
  shows "snd (rx_all start ks) = complete size_of"
proof -
  have bound: "adm_all got js \<Longrightarrow> snd ` set js \<subseteq> {..<size_of}" for got js
    by (induction got js rule: adm_all.induct) auto
  have "snd ` set ks = {..<size_of}" using bound [OF assms(1)] assms(2) by auto
  then show ?thesis using delivered_prefix [OF assms(1)] first_missing_all by simp
qed

end

end
