(* ===== verification/RlcUm.thy ===== *)
theory RlcUm
  imports Rlc
begin

text \<open>
  RLC unacknowledged mode, \<^verbatim>\<open>stack/rlc/src/rlc_um.cpp\<close>: the transmitter that segments SDUs,
  and the receiver with its reorder buffer, duplicate memory, reordering timer and
  resynchronisation. \<^verbatim>\<open>std::set\<close> is a finite set whose \<^verbatim>\<open>begin()\<close> is the minimum. The receiver
  implements the in-order contract of theory \<open>Rlc\<close> for any arrival order inside its window;
  the timer theorem says what a lost PDU costs.
\<close>

record um_config =
  uc_max_pdu_payload :: nat
  uc_window :: u16
  uc_t_reorder_ms :: u32

definition um_default_config :: um_config where
  "um_default_config = \<lparr>uc_max_pdu_payload = 256, uc_window = 64, uc_t_reorder_ms = 40\<rparr>"

subsection \<open>Transmitter\<close>

record um_tx_state =
  ut_cfg :: um_config
  ut_next_sn :: u16

definition um_tx_init :: "um_config \<Rightarrow> um_tx_state" where
  "um_tx_init cfg = \<lparr>ut_cfg = cfg, ut_next_sn = 0\<rparr>"

definition um_pdu :: "u16 \<Rightarrow> u8 \<times> bytes \<Rightarrow> bytes" where
  "um_pdu sn = (\<lambda>(fi, payload). [fi, byte_at 0 sn, byte_at 1 sn] @ payload)"

fun um_emit :: "u16 \<Rightarrow> (u8 \<times> bytes) list \<Rightarrow> u16 \<times> bytes list" where
  "um_emit sn [] = (sn, [])"
| "um_emit sn (s # segs) = (let (sn', out) = um_emit (sn + 1) segs in (sn', um_pdu sn s # out))"

definition um_tx :: "bytes \<Rightarrow> um_tx_state \<Rightarrow> um_tx_state \<times> bytes list" where
  "um_tx sdu tx =
     (if sdu = [] then (tx, [])
      else let (sn, out) = um_emit (ut_next_sn tx) (rlc_segments (uc_max_pdu_payload (ut_cfg tx)) sdu)
           in (tx\<lparr>ut_next_sn := sn\<rparr>, out))"

definition um_tx_reset :: "um_tx_state \<Rightarrow> um_tx_state" where
  "um_tx_reset tx = tx\<lparr>ut_next_sn := 0\<rparr>"

subsection \<open>Receiver\<close>

record um_rx_state =
  ur_cfg :: um_config
  ur_vr_next :: u16
  ur_buffer :: "(u16, u8 \<times> bytes) omap"
  ur_seen :: "u16 set"
  ur_ready :: "bytes list"
  ur_collecting :: bool
  ur_partial :: bytes
  ur_timer_running :: bool
  ur_timer_deadline :: u32
  ur_dropped :: u32
  ur_duplicates :: u32

definition um_rx_init :: "um_config \<Rightarrow> um_rx_state" where
  "um_rx_init cfg = \<lparr>ur_cfg = cfg, ur_vr_next = 0, ur_buffer = [], ur_seen = {}, ur_ready = [],
     ur_collecting = False, ur_partial = [], ur_timer_running = False, ur_timer_deadline = 0,
     ur_dropped = 0, ur_duplicates = 0\<rparr>"

definition um_distance :: "u16 \<Rightarrow> um_rx_state \<Rightarrow> int" where
  "um_distance sn st = sint (sn - ur_vr_next st)"

definition um_ahead :: "u16 \<Rightarrow> um_rx_state \<Rightarrow> int" where
  "um_ahead sn st =
     (let d = um_distance sn st in if 0 \<le> d \<and> d < uint (uc_window (ur_cfg st)) then d else -1)"

definition um_accept_in_order :: "u8 \<times> bytes \<Rightarrow> um_rx_state \<Rightarrow> um_rx_state" where
  "um_accept_in_order h st =
     (let (fi, payload) = h;
          st1 =
            (if fi = 0x00 then st\<lparr>ur_ready := ur_ready st @ [payload]\<rparr>
             else if fi = 0x10 then st\<lparr>ur_collecting := True, ur_partial := payload\<rparr>
             else if fi = 0x20 then
               (if ur_collecting st
                then st\<lparr>ur_ready := ur_ready st @ [ur_partial st @ payload],
                        ur_collecting := False, ur_partial := []\<rparr>
                else st)
             else
               (if ur_collecting st then st\<lparr>ur_partial := ur_partial st @ payload\<rparr> else st))
      in st1\<lparr>ur_vr_next := ur_vr_next st + 1\<rparr>)"

lemma um_accept_buffer [simp]: "ur_buffer (um_accept_in_order h st) = ur_buffer st"
  by (cases h) (simp add: um_accept_in_order_def)

function um_deliver_loop :: "um_rx_state \<Rightarrow> um_rx_state" where
  "um_deliver_loop st =
     (case om_find (ur_buffer st) (ur_vr_next st) of
        None \<Rightarrow> st
      | Some h \<Rightarrow>
          um_deliver_loop
            ((um_accept_in_order h st)\<lparr>ur_buffer := om_erase (ur_vr_next st) (ur_buffer st)\<rparr>))"
  by auto
termination
  by (relation "measure (\<lambda>st. length (ur_buffer st))") (auto simp: termination_simp)

declare um_deliver_loop.simps [simp del]

definition um_deliver_ready :: "um_rx_state \<Rightarrow> um_rx_state" where
  "um_deliver_ready st =
     (let st1 = um_deliver_loop st
      in if ur_buffer st1 = [] then st1\<lparr>ur_timer_running := False\<rparr> else st1)"

definition um_rx :: "u32 \<Rightarrow> bytes \<Rightarrow> um_rx_state \<Rightarrow> um_rx_state" where
  "um_rx now_ms pdu st =
     (if length pdu < 4 then st
      else
        let fi = pdu ! 0 AND 0x30; sn = get16 (pdu ! 1) (pdu ! 2); payload = drop 3 pdu in
        if sn \<in> ur_seen st then st\<lparr>ur_duplicates := ur_duplicates st + 1\<rparr>
        else
          let st = st\<lparr>ur_seen := bound_seen (insert sn (ur_seen st))\<rparr>; d = um_ahead sn st in
          if d < 0 then
            (if um_distance sn st \<ge> uint (uc_window (ur_cfg st)) then
               um_deliver_ready (um_accept_in_order (fi, payload)
                 (st\<lparr>ur_dropped := ur_dropped st + ucast (sn - ur_vr_next st), ur_vr_next := sn,
                     ur_buffer := [], ur_collecting := False, ur_partial := [],
                     ur_timer_running := False\<rparr>))
             else st\<lparr>ur_duplicates := ur_duplicates st + 1\<rparr>)
          else if d = 0 then um_deliver_ready (um_accept_in_order (fi, payload) st)
          else
            let st = st\<lparr>ur_buffer := om_insert sn (fi, payload) (ur_buffer st)\<rparr> in
            if \<not> ur_timer_running st
            then st\<lparr>ur_timer_running := True, ur_timer_deadline := now_ms + uc_t_reorder_ms (ur_cfg st)\<rparr>
            else st)"

definition um_on_reorder_timeout :: "u32 \<Rightarrow> um_rx_state \<Rightarrow> um_rx_state" where
  "um_on_reorder_timeout now_ms st =
     (case ur_buffer st of
        [] \<Rightarrow> st
      | (resume, _) # _ \<Rightarrow>
          let skipped = resume - ur_vr_next st;
              st1 = (if skipped > 0
                     then st\<lparr>ur_dropped := ur_dropped st + ucast skipped, ur_vr_next := resume,
                             ur_collecting := False, ur_partial := []\<rparr>
                     else st);
              st2 = um_deliver_ready st1
          in if ur_buffer st2 \<noteq> []
             then st2\<lparr>ur_timer_running := True, ur_timer_deadline := now_ms + uc_t_reorder_ms (ur_cfg st)\<rparr>
             else st2)"

definition um_tick :: "u32 \<Rightarrow> um_rx_state \<Rightarrow> um_rx_state" where
  "um_tick now_ms st =
     (if ur_timer_running st \<and> 0 \<le> sint (now_ms - ur_timer_deadline st)
      then um_on_reorder_timeout now_ms (st\<lparr>ur_timer_running := False\<rparr>)
      else st)"

definition um_poll :: "um_rx_state \<Rightarrow> um_rx_state \<times> bytes list" where
  "um_poll st = (st\<lparr>ur_ready := []\<rparr>, ur_ready st)"

definition um_rx_reset :: "um_rx_state \<Rightarrow> um_rx_state" where
  "um_rx_reset st = st\<lparr>ur_vr_next := 0, ur_buffer := [], ur_seen := {}, ur_ready := [],
     ur_collecting := False, ur_partial := [], ur_timer_running := False,
     ur_dropped := 0, ur_duplicates := 0\<rparr>"

subsection \<open>Transmitter lemmas\<close>

lemma um_emit_eq:
  "um_emit sn segs = (sn + word_of_nat (length segs),
     map (\<lambda>i. um_pdu (sn + word_of_nat i) (segs ! i)) [0..<length segs])"
proof (induction segs arbitrary: sn)
  case (Cons s segs)
  have "map (\<lambda>i. um_pdu (sn + word_of_nat i) ((s # segs) ! i)) [0..<Suc (length segs)] =
      um_pdu sn s # map (\<lambda>i. um_pdu (sn + 1 + word_of_nat i) (segs ! i)) [0..<length segs]"
    by (simp add: upt_conv_Cons map_Suc_upt [symmetric] o_def ac_simps del: upt_Suc)
  then show ?case by (simp add: Cons.IH add.assoc add.commute)
qed simp

text \<open>Submitting a list of SDUs one after the other.\<close>

fun um_tx_all :: "bytes list \<Rightarrow> um_tx_state \<Rightarrow> um_tx_state \<times> bytes list" where
  "um_tx_all [] tx = (tx, [])"
| "um_tx_all (sdu # sdus) tx =
     (let (tx1, out1) = um_tx sdu tx; (tx2, out2) = um_tx_all sdus tx1 in (tx2, out1 @ out2))"

definition um_stream :: "(u8 \<times> bytes) list \<Rightarrow> nat \<Rightarrow> bytes" where
  "um_stream segs k = um_pdu (word_of_nat k) (segs ! k)"

lemma um_tx_cfg [simp]: "ut_cfg (fst (um_tx sdu tx)) = ut_cfg tx"
  by (simp add: um_tx_def split: prod.splits)

lemma um_tx_all_eq:
  assumes "\<forall>sdu \<in> set sdus. sdu \<noteq> []"
  shows "um_tx_all sdus tx =
    (let segs = concat (map (rlc_segments (uc_max_pdu_payload (ut_cfg tx))) sdus)
     in (tx\<lparr>ut_next_sn := ut_next_sn tx + word_of_nat (length segs)\<rparr>,
         map (\<lambda>i. um_pdu (ut_next_sn tx + word_of_nat i) (segs ! i)) [0..<length segs]))"
  using assms
proof (induction sdus arbitrary: tx)
  case (Cons sdu sdus)
  let ?s = "rlc_segments (uc_max_pdu_payload (ut_cfg tx)) sdu"
  let ?r = "concat (map (rlc_segments (uc_max_pdu_payload (ut_cfg tx))) sdus)"
  have split: "map (\<lambda>i. um_pdu (sn + word_of_nat i) ((?s @ ?r) ! i)) [0..<length ?s + length ?r] =
      map (\<lambda>i. um_pdu (sn + word_of_nat i) (?s ! i)) [0..<length ?s] @
      map (\<lambda>i. um_pdu (sn + word_of_nat (length ?s) + word_of_nat i) (?r ! i)) [0..<length ?r]" for sn
    by (rule nth_equalityI) (auto simp: nth_append ac_simps)
  have t: "um_tx sdu tx = (tx\<lparr>ut_next_sn := ut_next_sn tx + word_of_nat (length ?s)\<rparr>,
      map (\<lambda>i. um_pdu (ut_next_sn tx + word_of_nat i) (?s ! i)) [0..<length ?s])"
    using Cons.prems by (simp add: um_tx_def um_emit_eq)
  show ?case
    using Cons by (simp add: t Let_def split add.assoc)
qed (simp add: Let_def)

subsection \<open>Receiver lemmas\<close>

lemma um_accept_reasm:
  assumes "reasm (ur_collecting st, ur_partial st) h = ((c, p), out)"
  shows "um_accept_in_order h st =
    st\<lparr>ur_vr_next := ur_vr_next st + 1, ur_collecting := c, ur_partial := p, ur_ready := ur_ready st @ out\<rparr>"
  using assms by (cases h) (auto simp: um_accept_in_order_def split: if_splits)

text \<open>
  The state of the receiver between two calls, seen from the stream: delivery has reached
  position \<open>m\<close>, the buffer holds exactly the received positions from \<open>m\<close> on.
\<close>

definition um_at :: "um_config \<Rightarrow> (u8 \<times> bytes) list \<Rightarrow> nat set \<Rightarrow> nat \<Rightarrow> bytes list \<Rightarrow> um_rx_state \<Rightarrow> bool" where
  "um_at cfg segs got m pre st \<longleftrightarrow>
     ur_cfg st = cfg \<and> ur_vr_next st = word_of_nat m \<and> (\<forall>j < m. j \<in> got) \<and>
     om_ok (ur_buffer st) \<and>
     (\<forall>x. om_find (ur_buffer st) x = (if m \<le> unat x \<and> unat x \<in> got then Some (segs ! unat x) else None)) \<and>
     (ur_collecting st, ur_partial st) = reasm_upto segs m \<and>
     pre @ ur_ready st = sdus_upto segs m"

lemma um_at_accept:
  assumes at: "um_at cfg segs got m pre st" and m: "m < length segs" "length segs \<le> 32768"
  shows "um_at cfg segs (insert m got) (Suc m) pre
    ((um_accept_in_order (segs ! m) st)\<lparr>ur_buffer := om_erase (word_of_nat m) (ur_buffer st)\<rparr>)"
proof -
  obtain c p out where r: "reasm (reasm_upto segs m) (segs ! m) = ((c, p), out)"
    by (metis prod.exhaust)
  note U = upto_Suc [OF m(1) r]
  have s: "um_accept_in_order (segs ! m) st = st\<lparr>ur_vr_next := ur_vr_next st + 1, ur_collecting := c,
      ur_partial := p, ur_ready := ur_ready st @ out\<rparr>"
    using at r by (intro um_accept_reasm) (simp add: um_at_def)
  have f: "(unat x = m) = (x = word_of_nat m)" for x :: u16
    using m by (intro unat_eq_sn) simp
  have "om_find (om_erase (word_of_nat m) (ur_buffer st)) x =
      (if Suc m \<le> unat x \<and> unat x \<in> insert m got then Some (segs ! unat x) else None)" for x
    using at f [of x] by (auto simp: um_at_def)
  with at U m show ?thesis
    by (simp add: um_at_def s less_Suc_eq)
qed

lemma um_at_accept_new:
  assumes "um_at cfg segs got m pre st" "m \<notin> got" "m < length segs" "length segs \<le> 32768"
  shows "um_at cfg segs (insert m got) (Suc m) pre (um_accept_in_order (segs ! m) st)"
proof -
  have "om_find (ur_buffer st) (word_of_nat m) = None"
    using assms by (simp add: um_at_def)
  then have "om_erase (word_of_nat m) (ur_buffer st) = ur_buffer st"
    by (rule om_erase_absent)
  then show ?thesis
    using um_at_accept [OF assms(1,3,4)] by (metis um_accept_buffer um_rx_state.surjective um_rx_state.update_convs(3))
qed

lemma um_deliver_loop_at:
  assumes "um_at cfg segs got m pre st" "got \<subseteq> {..<length segs}" "length segs \<le> 32768"
  shows "um_at cfg segs got (first_missing got) pre (um_deliver_loop st) \<and>
         ur_seen (um_deliver_loop st) = ur_seen st"
  using assms(1)
proof (induction st arbitrary: m rule: um_deliver_loop.induct)
  case (1 st)
  show ?case
  proof (cases "m \<in> got")
    case False
    then have "first_missing got = m"
      using 1(2) by (intro first_missing_eqI) (auto simp: um_at_def)
    moreover have "om_find (ur_buffer st) (ur_vr_next st) = None"
      using False 1(2) assms(2,3) first_missing_bound [OF assms(2)] calculation by (auto simp: um_at_def)
    ultimately show ?thesis using 1(2) by (subst (1 2) um_deliver_loop.simps) simp
  next
    case True
    with assms(2) have m: "m < length segs" by auto
    then have f: "om_find (ur_buffer st) (ur_vr_next st) = Some (segs ! m)" "ur_vr_next st = word_of_nat m"
      using True 1(2) assms(3) by (simp_all add: um_at_def)
    let ?st = "(um_accept_in_order (segs ! m) st)\<lparr>ur_buffer := om_erase (word_of_nat m) (ur_buffer st)\<rparr>"
    have "insert m got = got" using True by auto
    then have at: "um_at cfg segs got (Suc m) pre ?st"
      using um_at_accept [OF 1(2) m assms(3)] by simp
    have seen: "ur_seen (um_accept_in_order (segs ! m) st) = ur_seen st"
      by (simp add: um_accept_in_order_def split: prod.splits)
    have "um_deliver_loop st = um_deliver_loop ?st"
      using f by (subst um_deliver_loop.simps) simp
    with 1(1) [OF f(1)] at f seen show ?thesis by (simp add: f)
  qed
qed

lemma um_at_fields [simp]:
  "um_at cfg segs got m pre (st\<lparr>ur_seen := S\<rparr>) = um_at cfg segs got m pre st"
  "um_at cfg segs got m pre (st\<lparr>ur_duplicates := d\<rparr>) = um_at cfg segs got m pre st"
  "um_at cfg segs got m pre (st\<lparr>ur_timer_running := b\<rparr>) = um_at cfg segs got m pre st"
  "um_at cfg segs got m pre (st\<lparr>ur_timer_deadline := t\<rparr>) = um_at cfg segs got m pre st"
  by (simp_all add: um_at_def)

abbreviation um_seen_ok :: "um_config \<Rightarrow> nat set \<Rightarrow> nat \<Rightarrow> u16 set \<Rightarrow> bool" where
  "um_seen_ok cfg \<equiv> seen_ok (unat (uc_window cfg))"

text \<open>The streams considered: at most half the sequence space, segments as the sender makes them.\<close>

definition um_stream_ok :: "um_config \<Rightarrow> (u8 \<times> bytes) list \<Rightarrow> bool" where
  "um_stream_ok cfg segs \<longleftrightarrow>
     0 < unat (uc_window cfg) \<and> unat (uc_window cfg) \<le> 8192 \<and> length segs \<le> 32768 \<and>
     (\<forall>(fi, p) \<in> set segs. p \<noteq> [] \<and> fi \<in> {0x00, 0x10, 0x20, 0x30})"

definition um_adm :: "um_config \<Rightarrow> (u8 \<times> bytes) list \<Rightarrow> nat set \<Rightarrow> nat \<Rightarrow> bool" where
  "um_adm cfg segs got k \<longleftrightarrow>
     um_stream_ok cfg segs \<and> k < first_missing got + unat (uc_window cfg)"

definition um_inv :: "um_config \<Rightarrow> (u8 \<times> bytes) list \<Rightarrow> um_rx_state \<Rightarrow> nat set \<Rightarrow> bool" where
  "um_inv cfg segs st got \<longleftrightarrow>
     (let m = first_missing got in
      um_at cfg segs got m (sdus_upto segs m) st \<and> um_seen_ok cfg got m (ur_seen st))"

text \<open>One arrival at the receiver, with the SDUs the upper layer then polls.\<close>

definition um_arrival :: "(u8 \<times> bytes) list \<Rightarrow> um_rx_state \<Rightarrow> u32 \<Rightarrow> nat \<Rightarrow> um_rx_state \<times> bytes list" where
  "um_arrival segs st now_ms k = um_poll (um_rx now_ms (um_stream segs k) st)"

lemma um_rx_stream:
  assumes "um_stream_ok cfg segs" "k < length segs"
  shows "um_rx now (um_stream segs k) st =
    (let sn = word_of_nat k in
     if sn \<in> ur_seen st then st\<lparr>ur_duplicates := ur_duplicates st + 1\<rparr>
     else
       let st = st\<lparr>ur_seen := bound_seen (insert sn (ur_seen st))\<rparr>; d = um_ahead sn st in
       if d < 0 then
         (if um_distance sn st \<ge> uint (uc_window (ur_cfg st)) then
            um_deliver_ready (um_accept_in_order (segs ! k)
              (st\<lparr>ur_dropped := ur_dropped st + ucast (sn - ur_vr_next st), ur_vr_next := sn,
                  ur_buffer := [], ur_collecting := False, ur_partial := [],
                  ur_timer_running := False\<rparr>))
          else st\<lparr>ur_duplicates := ur_duplicates st + 1\<rparr>)
       else if d = 0 then um_deliver_ready (um_accept_in_order (segs ! k) st)
       else
         let st = st\<lparr>ur_buffer := om_insert sn (segs ! k) (ur_buffer st)\<rparr> in
         if \<not> ur_timer_running st
         then st\<lparr>ur_timer_running := True, ur_timer_deadline := now + uc_t_reorder_ms (ur_cfg st)\<rparr>
         else st)"
proof -
  obtain fi p where seg: "segs ! k = (fi, p)" by fastforce
  then have "(fi, p) \<in> set segs" using assms(2) by (metis nth_mem)
  then have "p \<noteq> []" "fi \<in> {0x00, 0x10, 0x20, 0x30}" using assms(1) by (auto simp: um_stream_ok_def)
  then have "um_stream segs k ! 0 AND 0x30 = fi" "\<not> length (um_stream segs k) < 4"
      "get16 (um_stream segs k ! 1) (um_stream segs k ! 2) = word_of_nat k" "drop 3 (um_stream segs k) = p"
    by (auto simp: um_stream_def um_pdu_def seg wire_simps Suc_le_eq numeral_3_eq_3 [symmetric])
  then show ?thesis by (simp only: um_rx_def seg if_False Let_def)
qed

lemma um_ready_at:
  assumes "um_at cfg segs got m pre st" "got \<subseteq> {..<length segs}" "length segs \<le> 32768"
  shows "um_at cfg segs got (first_missing got) pre (um_deliver_ready st) \<and>
         ur_seen (um_deliver_ready st) = ur_seen st"
  using um_deliver_loop_at [OF assms] by (simp add: um_deliver_ready_def Let_def)

text \<open>Every arrival keeps the relation to the stream, whatever case of \<^verbatim>\<open>UmRx::rx\<close> it takes.\<close>

lemma um_rx_at:
  assumes inv: "um_inv cfg segs st got" and got: "got \<subseteq> {..<length segs}"
    and k: "k < length segs" and adm: "um_adm cfg segs got k"
    and st': "st' = um_rx now (um_stream segs k) st"
  shows "um_at cfg segs (insert k got) (first_missing (insert k got)) (sdus_upto segs (first_missing got)) st' \<and>
         um_seen_ok cfg (insert k got) (first_missing (insert k got)) (ur_seen st')"
proof -
  let ?m = "first_missing got" and ?sn = "word_of_nat k :: u16"
  let ?pre = "sdus_upto segs ?m"
  define S where "S = bound_seen (insert ?sn (ur_seen st))"
  let ?st = "st\<lparr>ur_seen := S\<rparr>"
  have ok: "um_stream_ok cfg segs" and kw: "k < ?m + unat (uc_window cfg)" using adm by (simp_all add: um_adm_def)
  have at: "um_at cfg segs got ?m ?pre st" and so: "um_seen_ok cfg got ?m (ur_seen st)"
    using inv by (simp_all add: um_inv_def Let_def)
  have n: "length segs \<le> 32768" "unat (uc_window cfg) \<le> 8192" "k < 65536" using ok k by (auto simp: um_stream_ok_def)
  have fin: "finite got" using got finite_subset by blast
  have mle: "?m \<le> length segs" by (rule first_missing_bound [OF got])
  have vr: "ur_vr_next st = word_of_nat ?m" "ur_cfg st = cfg" using at by (simp_all add: um_at_def)
  have dist: "um_distance ?sn ?st = int k - int ?m"
    unfolding um_distance_def using vr k n mle by (simp del: of_nat_diff add: sint_sn_distance)
  have ahead: "um_ahead ?sn ?st = (if ?m \<le> k then int k - int ?m else -1)"
  proof -
    have "int k - int ?m < int (unat (uc_window cfg))" using kw by linarith
    then have "int k - int ?m < uint (uc_window cfg)" by (simp only: uint_nat)
    then show ?thesis using vr by (simp add: um_ahead_def dist Let_def)
  qed
  have S: "um_seen_ok cfg (insert k got) (first_missing (insert k got)) S"
    unfolding S_def by (rule seen_ok_insert [OF so kw n(3,2) first_missing_mono [OF fin]])
  note rx = um_rx_stream [OF ok k, of now st, folded S_def, unfolded Let_def, folded S_def]
  consider "k \<in> got" "?sn \<in> ur_seen st" | "k \<in> got" "?sn \<notin> ur_seen st" | "k = ?m" | "k \<notin> got" "?m < k"
    using below_first_missing [of k got] by fastforce
  then show ?thesis
  proof cases
    case 1
    then have "insert k got = got" by auto
    then show ?thesis using 1 at so by (simp add: st' rx)
  next
    case 2
    then have g: "insert k got = got" by auto
    have "k < ?m" using 2 so n by (force simp: seen_ok_def not_less [symmetric])
    then have "\<not> uint (uc_window cfg) \<le> int k - int ?m" using uint_ge_0 [of "uc_window cfg"] by linarith
    with \<open>k < ?m\<close> show ?thesis using 2 at S ahead dist vr by (simp add: st' rx g)
  next
    case 3
    have notin: "?m \<notin> got" by (rule first_missing_notin [OF fin])
    then have "?sn \<notin> ur_seen st" using so 3 n by (auto simp: seen_ok_def)
    moreover have "um_ahead ?sn ?st = 0" using ahead 3 by simp
    ultimately have s: "st' = um_deliver_ready (um_accept_in_order (segs ! k) ?st)"
      by (simp add: st' rx)
    have "um_at cfg segs (insert k got) (Suc k) ?pre (um_accept_in_order (segs ! k) ?st)"
      using um_at_accept_new [of cfg segs got ?m ?pre ?st] at notin k n 3 by simp
    from um_ready_at [OF this _ n(1)] got k S show ?thesis
      by (simp add: s um_accept_in_order_def split: prod.splits)
  next
    case 4
    then have f: "first_missing (insert k got) = ?m" using fin by (intro first_missing_insert_other) auto
    have "?sn \<notin> ur_seen st" using so 4 n by (auto simp: seen_ok_def)
    moreover have "um_at cfg segs (insert k got) ?m ?pre (?st\<lparr>ur_buffer := om_insert ?sn (segs ! k) (ur_buffer st)\<rparr>)"
      using at 4 n by (auto simp: um_at_def unat_eq_sn [of k])
    ultimately show ?thesis using ahead 4 S by (simp add: st' rx f)
  qed
qed

interpretation um: in_order_receiver "um_arrival segs" "um_rx_init cfg" "um_inv cfg segs"
    "length segs" "um_adm cfg segs" "sdus_upto segs" for cfg segs
proof unfold_locales
  show "um_inv cfg segs (um_rx_init cfg) {}"
    by (simp add: um_inv_def um_at_def seen_ok_def um_rx_init_def Let_def)
  fix s got k t s' out
  assume "um_inv cfg segs s got" "got \<subseteq> {..<length segs}" "k < length segs" "um_adm cfg segs got k"
    "um_arrival segs s t k = (s', out)"
  with um_rx_at [of cfg segs s got k _ t] show
    "um_inv cfg segs s' (insert k got) \<and>
      sdus_upto segs (first_missing got) @ out = sdus_upto segs (first_missing (insert k got))"
    by (auto simp: um_arrival_def um_poll_def um_inv_def Let_def) (auto simp: um_at_def)
qed simp

subsection \<open>Properties\<close>

lemma um_stream_ok_segments:
  assumes "0 < maxp" "\<forall>sdu \<in> set sdus. sdu \<noteq> []" "0 < unat (uc_window cfg)" "unat (uc_window cfg) \<le> 8192"
    "length (concat (map (rlc_segments maxp) sdus)) \<le> 32768"
  shows "um_stream_ok cfg (concat (map (rlc_segments maxp) sdus))"
  using assms rlc_segments_shape [OF assms(1)] by (fastforce simp: um_stream_ok_def)

text \<open>
  The arrivals of a reordering network: each is a PDU of the transmitted list, at a time, and
  it is never further ahead of the first missing PDU than the reorder window.
\<close>

fun um_arrivals_ok :: "um_config \<Rightarrow> nat \<Rightarrow> nat set \<Rightarrow> (u32 \<times> nat) list \<Rightarrow> bool" where
  "um_arrivals_ok cfg n got [] = True"
| "um_arrivals_ok cfg n got ((t, k) # ks) =
     (k < n \<and> k < first_missing got + unat (uc_window cfg) \<and> um_arrivals_ok cfg n (insert k got) ks)"

fun um_receive_all :: "bytes list \<Rightarrow> um_rx_state \<Rightarrow> (u32 \<times> nat) list \<Rightarrow> um_rx_state \<times> bytes list" where
  "um_receive_all pdus st [] = (st, [])"
| "um_receive_all pdus st ((t, k) # ks) =
     (let (st1, out1) = um_poll (um_rx t (pdus ! k) st);
          (st2, out2) = um_receive_all pdus st1 ks
      in (st2, out1 @ out2))"

lemma um_receive_all_eq:
  assumes "um_arrivals_ok cfg (length segs) got ks"
    and "pdus = map (\<lambda>i. um_pdu (word_of_nat i) (segs ! i)) [0..<length segs]"
  shows "um_receive_all pdus st ks = um.rx_all segs st ks"
  using assms(1)
proof (induction ks arbitrary: got st)
  case (Cons p ks)
  obtain t k where p: "p = (t, k)" by fastforce
  have e: "um_receive_all pdus s ks = um.rx_all segs s ks" for s
    using Cons.IH [of "insert k got"] Cons.prems by (simp add: p)
  have "pdus ! k = um_stream segs k"
    using Cons.prems by (simp add: p assms(2) um_stream_def)
  then show ?case by (simp add: p e flip: um_arrival_def)
qed simp

lemma um_adm_all_eq:
  "um_stream_ok cfg segs \<Longrightarrow> um.adm_all segs cfg got ks = um_arrivals_ok cfg (length segs) got ks"
  by (induction ks arbitrary: got) (auto simp: um_adm_def)


definition um_demo_config :: um_config where
  "um_demo_config = \<lparr>uc_max_pdu_payload = 2, uc_window = 64, uc_t_reorder_ms = 40\<rparr>"



subsection \<open>The reordering timer\<close>

text \<open>Whatever is received, a held-back PDU has the timer running: delivery cannot stall.\<close>

definition um_timer_inv :: "um_rx_state \<Rightarrow> bool" where
  "um_timer_inv st \<longleftrightarrow> (ur_buffer st \<noteq> [] \<longrightarrow> ur_timer_running st)"

lemma um_accept_timer [simp]:
  "ur_timer_running (um_accept_in_order h st) = ur_timer_running st"
  "ur_seen (um_accept_in_order h st) = ur_seen st"
  "ur_dropped (um_accept_in_order h st) = ur_dropped st"
  by (cases h, simp add: um_accept_in_order_def)+

lemma um_deliver_loop_timer:
  "ur_timer_running (um_deliver_loop st) = ur_timer_running st \<and>
   ur_dropped (um_deliver_loop st) = ur_dropped st \<and>
   (ur_buffer st = [] \<longrightarrow> ur_buffer (um_deliver_loop st) = [])"
proof (induction st rule: um_deliver_loop.induct)
  case (1 st)
  then show ?case
    by (subst (1 2 3) um_deliver_loop.simps) (auto simp: om_erase_def split: option.splits)
qed

lemma um_timer_inv_ready: "um_timer_inv st \<Longrightarrow> um_timer_inv (um_deliver_ready st)"
  using um_deliver_loop_timer [of st] by (auto simp: um_timer_inv_def um_deliver_ready_def Let_def)

lemma um_timer_inv_rx:
  assumes "um_timer_inv st"
  shows "um_timer_inv (um_rx now pdu st)"
proof -
  have "um_timer_inv (um_accept_in_order h s)" if "um_timer_inv s" for h s
    using that by (simp add: um_timer_inv_def)
  moreover have "um_timer_inv (st\<lparr>ur_seen := S\<rparr>)" for S
    using assms by (simp add: um_timer_inv_def)
  ultimately show ?thesis
    using assms um_timer_inv_ready by (auto simp: um_rx_def Let_def) (auto simp: um_timer_inv_def)
qed

lemma um_timer_inv_tick: "um_timer_inv st \<Longrightarrow> um_timer_inv (um_tick now st)"
  by (auto simp: um_tick_def um_on_reorder_timeout_def um_timer_inv_def Let_def split: list.splits)

lemma um_timer_inv_receive:
  "um_timer_inv st \<Longrightarrow> um_timer_inv (fst (um_receive_all pdus st ks))"
proof (induction ks arbitrary: st)
  case (Cons p ks)
  obtain t k where p: "p = (t, k)" by fastforce
  obtain st1 out1 where r: "um_poll (um_rx t (pdus ! k) st) = (st1, out1)" by fastforce
  have "um_timer_inv st1"
    using um_timer_inv_rx [OF Cons.prems, of t "pdus ! k"] r by (auto simp: um_poll_def um_timer_inv_def)
  from Cons.IH [OF this] show ?case by (simp add: p r split_beta)
qed simp

text \<open>Resuming at a buffered position that starts an SDU re-establishes the in-order relation.\<close>

lemma um_tick_at:
  assumes inv: "um_inv cfg segs st got" and got: "got \<subseteq> {..<length segs}" and n: "length segs \<le> 32768"
    and t: "um_timer_inv st" "0 \<le> sint (now - ur_timer_deadline st)"
    and k: "k \<in> got" "first_missing got < k" "\<And>j. j \<in> got \<Longrightarrow> first_missing got < j \<Longrightarrow> k \<le> j"
    and boundary: "reasm_upto segs k = (False, [])"
    and tick: "um_poll (um_tick now st) = (st', out)"
  shows "um_inv cfg segs st' (got \<union> {..<k}) \<and>
    sdus_upto segs k @ out = sdus_upto segs (first_missing (got \<union> {..<k}))"
proof -
  let ?m = "first_missing got" and ?got = "got \<union> {..<k}"
  have at: "um_at cfg segs got ?m (sdus_upto segs ?m) st" and so: "um_seen_ok cfg got ?m (ur_seen st)"
    using inv by (simp_all add: um_inv_def Let_def)
  have fin: "finite got" using got finite_subset by blast
  have kl: "k < length segs" "k < 65536" "?m < 65536" using k got n by auto
  have find: "om_find (ur_buffer st) x = (if ?m \<le> unat x \<and> unat x \<in> got then Some (segs ! unat x) else None)" for x
    using at by (simp add: um_at_def)
  have "om_find (ur_buffer st) (word_of_nat k) = Some (segs ! k)" using k kl by (simp add: find)
  then obtain r v rest where buf: "ur_buffer st = (r, v) # rest"
    by (metis list.exhaust map_of.simps(1) option.distinct(1) prod.exhaust)
  have "om_find (ur_buffer st) r = Some v" by (simp add: buf)
  then have "?m \<le> unat r" "unat r \<in> got" by (auto simp: find split: if_splits)
  then have "?m < unat r" using first_missing_notin [OF fin] by (metis le_neq_implies_less)
  then have "k \<le> unat r" using k(3) \<open>unat r \<in> got\<close> by blast
  moreover have "r \<le> word_of_nat k"
  proof -
    have "om_ok ((r, v) # rest)" using at buf by (simp add: um_at_def)
    moreover have "(word_of_nat k, segs ! k) \<in> set ((r, v) # rest)"
      using \<open>om_find (ur_buffer st) (word_of_nat k) = Some (segs ! k)\<close> buf by (metis map_of_SomeD)
    ultimately show ?thesis by (auto simp: om_ok_Cons)
  qed
  ultimately have r: "r = word_of_nat k" using kl by (simp add: word_le_nat_alt unat_eq_sn [symmetric])
  have vr: "ur_vr_next st = word_of_nat ?m" "ur_ready st = []" "om_ok (ur_buffer st)" "ur_cfg st = cfg"
    using at by (simp_all add: um_at_def)
  have "r - ur_vr_next st \<noteq> 0"
    using k(2) kl by (metis eq_iff_diff_eq_0 less_irrefl r unat_sn vr(1))
  then have sk: "r - ur_vr_next st > 0" by (simp only: word_neq_0_conv)
  let ?s1 = "st\<lparr>ur_timer_running := False, ur_dropped := ur_dropped st + ucast (r - ur_vr_next st),
      ur_vr_next := r, ur_collecting := False, ur_partial := []\<rparr>"
  have a1: "um_at cfg segs ?got k (sdus_upto segs k) ?s1"
    using vr k boundary first_missing_notin [OF fin]
    by (auto simp: um_at_def r find not_less [symmetric] dest: below_first_missing)
      (metis k(3) le_neq_implies_less leI le_less_trans not_less_iff_gr_or_eq)+
  have gs: "?got \<subseteq> {..<length segs}" using got kl by auto
  note R = um_ready_at [OF a1 gs n]
  have run: "ur_timer_running st" using t(1) buf by (simp add: um_timer_inv_def)
  have tk: "um_tick now st = (let s2 = um_deliver_ready ?s1 in
      if ur_buffer s2 \<noteq> [] then s2\<lparr>ur_timer_running := True, ur_timer_deadline := now + uc_t_reorder_ms cfg\<rparr> else s2)"
    using run t(2) sk vr by (simp add: um_tick_def um_on_reorder_timeout_def buf Let_def)
  have mle: "?m \<le> first_missing ?got"
    by (metis Un_iff below_first_missing first_missing_notin finite_Un fin finite_lessThan not_le_imp_less)
  then have "um_seen_ok cfg ?got (first_missing ?got) (ur_seen st)"
    using so first_missing_notin [of ?got] fin below_first_missing [of _ ?got]
    by (auto simp: seen_ok_def)
  with R tick show ?thesis
    by (auto simp: tk Let_def um_poll_def um_inv_def split: if_splits) (auto simp: um_at_def)
qed

text \<open>
  What a lost PDU costs: SDUs are sent, some PDUs arrive (in any admissible order), and
  the reordering timer expires while PDU \<open>k\<close>, the first PDU of the \<open>i\<close>-th SDU, is the lowest
  one held back. If the PDUs from \<open>k\<close> on then arrive in any admissible order, the upper layer
  gets, after a prefix of the first \<open>i\<close> SDUs, all the remaining SDUs, complete and in order.
\<close>

theorem um_gap_skip:
  assumes "um_tx_all sdus (um_tx_init cfg) = (tx', pdus)" and "\<forall>sdu \<in> set sdus. sdu \<noteq> []"
    and "0 < uc_max_pdu_payload cfg" and "0 < unat (uc_window cfg)" and "unat (uc_window cfg) \<le> 8192"
    and "length pdus \<le> 32768"
    and "um_arrivals_ok cfg (length pdus) {} ks1"
    and "um_receive_all pdus (um_rx_init cfg) ks1 = (st, out1)"
    and "0 \<le> sint (now - ur_timer_deadline st)"
    and "k = length (concat (map (rlc_segments (uc_max_pdu_payload cfg)) (take i sdus)))"
    and "k \<in> snd ` set ks1" and "first_missing (snd ` set ks1) < k"
    and "\<forall>j \<in> snd ` set ks1. first_missing (snd ` set ks1) < j \<longrightarrow> k \<le> j"
    and "um_poll (um_tick now st) = (st1, out2)"
    and "um_arrivals_ok cfg (length pdus) (snd ` set ks1 \<union> {..<k}) ks2"
    and "{k..<length pdus} \<subseteq> snd ` set ks1 \<union> snd ` set ks2"
    and "um_receive_all pdus st1 ks2 = (st2, out3)"
  shows "(\<exists>r. out1 @ r = take i sdus) \<and> out2 @ out3 = drop i sdus"
proof -
  let ?seg = "\<lambda>sdus. concat (map (rlc_segments (uc_max_pdu_payload cfg)) sdus)"
  define segs where "segs = ?seg sdus"
  let ?got = "snd ` set ks1"
  have pdus: "pdus = map (\<lambda>i. um_pdu (word_of_nat i) (segs ! i)) [0..<length segs]"
    using assms(1) by (simp add: um_tx_all_eq [OF assms(2)] um_tx_init_def segs_def Let_def)
  then have len: "length pdus = length segs" by simp
  have ok: "um_stream_ok cfg segs"
    unfolding segs_def using assms(2-6) len by (intro um_stream_ok_segments) (simp_all add: segs_def)
  then have n: "length segs \<le> 32768" by (simp add: um_stream_ok_def)
  have adm: "um.adm_all segs cfg {} ks1" and adm2: "um.adm_all segs cfg (?got \<union> {..<k}) ks2"
    using assms(7,15) by (simp_all add: um_adm_all_eq [OF ok] len)
  have rx1: "um.rx_all segs (um_rx_init cfg) ks1 = (st, out1)"
    using um_receive_all_eq [OF _ pdus] assms(7,8) len by simp
  have rx2: "um.rx_all segs st1 ks2 = (st2, out3)"
    using um_receive_all_eq [OF _ pdus] assms(15,17) len by simp
  have bound: "um_arrivals_ok cfg m g js \<Longrightarrow> snd ` set js \<subseteq> {..<m}" for m g js
    by (induction cfg m g js rule: um_arrivals_ok.induct) auto
  have got: "?got \<subseteq> {..<length segs}" using bound [OF assms(7)] len by simp
  have "\<forall>sdu \<in> set (take i sdus). sdu \<noteq> []" using assms(2) by (auto dest: in_set_takeD)
  then have "reasm_all (False, []) (?seg (take i sdus)) = ((False, []), take i sdus)"
    by (rule reasm_segments_all [OF assms(3)])
  moreover have "take k segs = ?seg (take i sdus)"
    unfolding segs_def assms(10) by (metis append_eq_conv_conj append_take_drop_id concat_append map_append)
  ultimately have bnd: "reasm_upto segs k = (False, [])" "sdus_upto segs k = take i sdus"
    by (simp_all add: reasm_upto_def sdus_upto_def)
  have inv1: "um_inv cfg segs st ?got" and o1: "out1 = sdus_upto segs (first_missing ?got)"
    using um.rx_all_inv [OF um.inv_start _ adm rx1] by simp_all
  have "um_timer_inv st"
    using um_timer_inv_receive [of "um_rx_init cfg" pdus ks1] assms(8)
    by (simp add: um_timer_inv_def um_rx_init_def)
  from um_tick_at [OF inv1 got n this assms(9,11,12) _ bnd(1) assms(14)] assms(13)
  have T: "um_inv cfg segs st1 (?got \<union> {..<k})" "take i sdus @ out2 = sdus_upto segs (first_missing (?got \<union> {..<k}))"
    by (simp_all add: bnd)
  have got2: "?got \<union> {..<k} \<subseteq> {..<length segs}" using got assms(11) by auto
  have "{..<length segs} \<subseteq> ?got \<union> {..<k} \<union> snd ` set ks2"
    using assms(16) len by (fastforce simp: not_less [symmetric])
  then have "?got \<union> {..<k} \<union> snd ` set ks2 = {..<length segs}"
    using got2 bound [OF assms(15)] len by auto
  with um.rx_all_inv [OF T(1) got2 adm2 rx2] T(2)
  have "(take i sdus @ out2) @ out3 = sdus_upto segs (length segs)"
    by (simp only: first_missing_all)
  also have "\<dots> = take i sdus @ drop i sdus" unfolding append_take_drop_id using sdus_upto_all [OF assms(3,2) segs_def] by simp
  finally have fin: "out2 @ out3 = drop i sdus" by (simp only: append_assoc same_append_eq)
  have "\<exists>r. out1 @ r = take i sdus"
  proof -
    have "first_missing ?got \<le> k" using assms(12) by simp
    then have "take k segs = take (first_missing ?got) segs @ take (k - first_missing ?got) (drop (first_missing ?got) segs)"
      by (metis le_add_diff_inverse take_add)
    then show ?thesis
      using bnd(2) o1 by (auto simp: sdus_upto_def reasm_all_append split: prod.splits)
  qed
  with fin show ?thesis by blast
qed

theorem um_gap_skip_witness:
  "let pdus = [[0x10, 0, 0, 1, 2], [0x20, 1, 0, 3], [0x00, 2, 0, 4], [0x00, 3, 0, 5]];
       (st, out1) = um_receive_all pdus (um_rx_init um_demo_config) [(0, 0), (5, 2)];
       (st1, out2) = um_poll (um_tick 45 st);
       (st2, out3) = um_receive_all pdus st1 [(50, 3)]
   in out1 = [] \<and> out2 @ out3 = [[4], [5]]"
proof -
  let ?pdus = "[[0x10, 0, 0, 1, 2], [0x20, 1, 0, 3], [0x00, 2, 0, 4], [0x00, 3, 0, 5]] :: bytes list"
  obtain st out1 where s: "um_receive_all ?pdus (um_rx_init um_demo_config) [(0, 0), (5, 2)] = (st, out1)"
      by fastforce
  obtain st1 out2 where s1: "um_poll (um_tick 45 st) = (st1, out2)" by fastforce
  obtain st2 out3 where s2: "um_receive_all ?pdus st1 [(50, 3)] = (st2, out3)" by fastforce
  have tx: "um_tx_all [[1, 2, 3], [4], [5]] (um_tx_init um_demo_config) =
      (\<lparr>ut_cfg = um_demo_config, ut_next_sn = 4\<rparr>, ?pdus)" by code_simp
  have "ur_timer_deadline (fst (um_receive_all ?pdus (um_rx_init um_demo_config) [(0, 0), (5, 2)])) = 45 \<and>
      snd (um_receive_all ?pdus (um_rx_init um_demo_config) [(0, 0), (5, 2)]) = []" by code_simp
  then have d: "ur_timer_deadline st = 45" "out1 = []" unfolding s by simp_all
  have f: "first_missing {0, 2} = 1" "first_missing {0, 2, Suc 0} = 3"
    by (rule first_missing_eqI; force simp: less_Suc_eq numeral_3_eq_3)+
  have l: "length (concat (map (rlc_segments (uc_max_pdu_payload um_demo_config)) (take 1 [[1, 2, 3], [4], [5]]))) = 2"
    by code_simp
  have g: "{0, 2} \<union> {..<2} = {0, 2, Suc 0}" "snd ` set [(0 :: u32, 0 :: nat), (5, 2)] = {0, 2}" by auto
  have "(\<exists>r. out1 @ r = take 1 [[1, 2, 3], [4], [5]]) \<and> out2 @ out3 = drop 1 [[1, 2, 3], [4], [5]]"
  proof (rule um_gap_skip [OF tx _ _ _ _ _ _ s _ l [symmetric] _ _ _ s1 _ _ s2])
    show "um_arrivals_ok um_demo_config (length ?pdus) {} [(0, 0), (5, 2)]"
      by (simp add: um_demo_config_def)
    show "um_arrivals_ok um_demo_config (length ?pdus) (snd ` set [(0 :: u32, 0 :: nat), (5, 2)] \<union> {..<2}) [(50, 3)]"
      unfolding g by (simp add: um_demo_config_def f)
    show "{2..<length ?pdus} \<subseteq> snd ` set [(0 :: u32, 0 :: nat), (5, 2)] \<union> snd ` set [(50 :: u32, 3 :: nat)]"
      by auto
  qed (simp_all only: g f d, simp_all add: um_demo_config_def)
  then show ?thesis
    unfolding Let_def s prod.case s1 s2 d by simp
qed

subsection \<open>Sequence number wrap\<close>

lemma um_deliver_seen [simp]: "ur_seen (um_deliver_ready st) = ur_seen st"
proof -
  have "ur_seen (um_deliver_loop st) = ur_seen st"
    by (induction st rule: um_deliver_loop.induct)
      (subst um_deliver_loop.simps, auto split: option.splits)
  then show ?thesis by (simp add: um_deliver_ready_def Let_def)
qed

lemma um_rx_seen:
  "4 \<le> length pdu \<Longrightarrow> ur_seen (um_rx now pdu st) = seen_step (get16 (pdu ! 1) (pdu ! 2)) (ur_seen st)"
  by (simp add: um_rx_def seen_step_def Let_def)

lemma um_rx_all_seen:
  "\<forall>p \<in> set pdus. 4 \<le> length (snd p) \<Longrightarrow>
     ur_seen (fold (\<lambda>(t, p). um_rx t p) pdus st) =
       fold seen_step (map (\<lambda>(t, p). get16 (p ! 1) (p ! 2)) pdus) (ur_seen st)"
  by (induction pdus arbitrary: st) (auto simp: um_rx_seen split_beta)

text \<open>
  The duplicate memory is wrong after a wrap: it forgets its smallest numbers, not its
  oldest. After the sequence numbers were received once completely and a second time up to
  57343, every PDU of the second round from 57344 on is discarded as a duplicate, with no
  effect but the counter.
\<close>

theorem um_wrap_drops_fresh_pdus:
  assumes "n = 65536 + 57344" and "map (\<lambda>(t, p). get16 (p ! 1) (p ! 2)) pdus = map word_of_nat [0..<n]"
    and "\<forall>p \<in> set pdus. 4 \<le> length (snd p)" and "57344 \<le> i" and "i < 65536"
    and "4 \<le> length pdu" and "get16 (pdu ! 1) (pdu ! 2) = word_of_nat i"
    and "st = fold (\<lambda>(t, p). um_rx t p) pdus (um_rx_init cfg)"
  shows "um_rx now pdu st = st\<lparr>ur_duplicates := ur_duplicates st + 1\<rparr>"
proof -
  have "ur_seen (um_rx_init cfg) = {}" by (simp add: um_rx_init_def)
  then have "ur_seen st = fold seen_step (map word_of_nat [0..<n]) {}"
    unfolding assms(8) um_rx_all_seen [OF assms(3)] assms(2) by simp
  moreover have "word_of_nat i \<in> fold seen_step (map word_of_nat [0..<n]) {}"
    unfolding assms(1) by (rule seen_wrap [OF refl refl assms(4,5)])
  ultimately show ?thesis using assms(6,7) by (simp add: um_rx_def Let_def)
qed

lemma um_pdu_sn: "get16 (um_pdu sn (fi, p) ! 1) (um_pdu sn (fi, p) ! 2) = sn"
  by (simp add: um_pdu_def wire_simps)

lemma um_numbered:
  "map (\<lambda>(t, p). get16 (p ! 1) (p ! 2)) (map (\<lambda>i. (0 :: u32, um_pdu (word_of_nat i) (0, [1]))) [0..<n]) =
     map word_of_nat [0..<n]"
  "\<forall>p \<in> set (map (\<lambda>i. (0 :: u32, um_pdu (word_of_nat i) (0, [1]))) [0..<n]). 4 \<le> length (snd p)"
  by (simp_all add: um_pdu_sn [unfolded One_nat_def] um_pdu_sn) (simp add: um_pdu_def)

theorem um_wrap_drops_fresh_pdus_witness:
  "\<exists>st. st = fold (\<lambda>(t, p). um_rx t p) (map (\<lambda>i. (0, um_pdu (word_of_nat i) (0, [1]))) [0..<65536 + 57344])
           (um_rx_init um_default_config) \<and>
     um_rx 0 (um_pdu 57344 (0, [1])) st = st\<lparr>ur_duplicates := ur_duplicates st + 1\<rparr>"
proof (intro exI conjI, rule refl,
    rule um_wrap_drops_fresh_pdus [OF refl um_numbered(1) um_numbered(2) _ _ _ _ refl, of 57344])
  show "4 \<le> length (um_pdu 57344 (0, [1]))" by (simp add: um_pdu_def)
  show "get16 (um_pdu 57344 (0, [1]) ! 1) (um_pdu 57344 (0, [1]) ! 2) = word_of_nat 57344"
    unfolding um_pdu_sn by simp
qed simp_all

end
