(* ===== verification/RlcAm.thy ===== *)
theory RlcAm
  imports Rlc
begin

text \<open>
  RLC acknowledged mode, \<^verbatim>\<open>stack/rlc/src/rlc_am.cpp\<close>: the transmitter with its buffer of
  unacknowledged PDUs, backpressure, STATUS handling and probe; the receiver with its holes,
  hold area, reordering timeout and STATUS reports. Timestamps of type \<^verbatim>\<open>int64_t\<close> are integers,
  \<^verbatim>\<open>size_t\<close> counters are naturals. The receiver implements the in-order contract of theory
  \<open>Rlc\<close>; the ARQ invariant says that the transmitter never lets go of a PDU the receiver is
  still missing.
\<close>

record am_config =
  ac_max_pdu_payload :: nat
  ac_tx_buffer_limit :: nat
  ac_poll_every :: u8
  ac_t_poll_ms :: u32
  ac_probe_batch :: nat
  ac_t_reorder_ms :: u32

definition am_default_config :: am_config where
  "am_default_config = \<lparr>ac_max_pdu_payload = 256, ac_tx_buffer_limit = 512, ac_poll_every = 4,
     ac_t_poll_ms = 1000, ac_probe_batch = 8, ac_t_reorder_ms = 1000\<rparr>"

definition am_node_bearer_config :: am_config where
  "am_node_bearer_config = am_default_config\<lparr>ac_tx_buffer_limit := 64\<rparr>"

subsection \<open>Transmitter\<close>

record am_tx_state =
  at_cfg :: am_config
  at_buffer :: "(u16, bytes) omap"
  at_next_sn :: u16
  at_since_poll :: u8
  at_retxs :: u32
  at_dropped :: nat
  at_last_progress_ms :: int
  at_last_nack_burst_ms :: int

definition am_tx_init :: "am_config \<Rightarrow> am_tx_state" where
  "am_tx_init cfg = \<lparr>at_cfg = cfg, at_buffer = [], at_next_sn = 0, at_since_poll = 0, at_retxs = 0,
     at_dropped = 0, at_last_progress_ms = -1, at_last_nack_burst_ms = -1\<rparr>"

definition am_build_pdu :: "u16 \<Rightarrow> u8 \<Rightarrow> bytes \<Rightarrow> bytes" where
  "am_build_pdu seq fi_with_poll payload = (0x80 OR fi_with_poll) # put16 seq @ payload"

text \<open>One turn of the segmentation loop: poll bit, PDU, buffer, sequence number.\<close>

definition am_tx_segment :: "u8 \<times> bytes \<Rightarrow> am_tx_state \<times> bytes list \<Rightarrow> am_tx_state \<times> bytes list" where
  "am_tx_segment s = (\<lambda>(tx, out).
     let (fi, payload) = s;
         since = at_since_poll tx + 1;
         poll = (since \<ge> ac_poll_every (at_cfg tx));
         pdu = am_build_pdu (at_next_sn tx) (if poll then fi OR 0x08 else fi) payload
     in (tx\<lparr>at_since_poll := (if poll then 0 else since),
            at_buffer := om_insert (at_next_sn tx) pdu (at_buffer tx),
            at_next_sn := at_next_sn tx + 1\<rparr>,
         out @ [pdu]))"

definition am_tx :: "u32 \<Rightarrow> bytes \<Rightarrow> bool \<Rightarrow> am_tx_state \<Rightarrow> am_tx_state \<times> bytes list" where
  "am_tx now_ms sdu force tx =
     (if sdu = [] then (tx, [])
      else
        let limit = ac_tx_buffer_limit (at_cfg tx) + (if force then 4 else 0) in
        if length (at_buffer tx) \<ge> limit then (tx\<lparr>at_dropped := at_dropped tx + 1\<rparr>, [])
        else fold am_tx_segment (rlc_segments (ac_max_pdu_payload (at_cfg tx)) sdu)
               (tx\<lparr>at_last_progress_ms := uint now_ms\<rparr>, []))"

definition am_tx_reset :: "am_tx_state \<Rightarrow> am_tx_state" where
  "am_tx_reset tx = tx\<lparr>at_buffer := [], at_next_sn := 0, at_since_poll := 0,
     at_last_progress_ms := -1, at_last_nack_burst_ms := -1\<rparr>"

definition am_tx_tick :: "u32 \<Rightarrow> am_tx_state \<Rightarrow> am_tx_state \<times> bytes list" where
  "am_tx_tick now_ms tx =
     (if ac_t_poll_ms (at_cfg tx) = 0 \<or> at_buffer tx = [] then (tx, [])
      else if at_last_progress_ms tx \<ge> 0 \<and>
              uint now_ms - at_last_progress_ms tx < uint (ac_t_poll_ms (at_cfg tx)) then (tx, [])
      else
        let out = take (ac_probe_batch (at_cfg tx)) (map snd (at_buffer tx))
        in (tx\<lparr>at_last_progress_ms := uint now_ms, at_retxs := at_retxs tx + word_of_nat (length out)\<rparr>, out))"

text \<open>The retransmission loop over the reported holes, bounded by the probe batch.\<close>

fun am_nack_burst :: "nat \<Rightarrow> (u16, bytes) omap \<Rightarrow> u16 list \<Rightarrow> bytes list" where
  "am_nack_burst budget buffer [] = []"
| "am_nack_burst budget buffer (nack # nacks) =
     (if budget = 0 then []
      else case om_find buffer nack of
             None \<Rightarrow> am_nack_burst budget buffer nacks
           | Some pdu \<Rightarrow> pdu # am_nack_burst (budget - 1) buffer nacks)"

definition status_nacks :: "bytes \<Rightarrow> u16 list" where
  "status_nacks status =
     map (\<lambda>i. get16_at status (4 + 2 * i))
       (takeWhile (\<lambda>i. 4 + 2 * i + 1 < length status) [0..<unat (status ! 3)])"

definition am_on_status :: "u32 \<Rightarrow> bytes \<Rightarrow> am_tx_state \<Rightarrow> am_tx_state \<times> bytes list" where
  "am_on_status now_ms status tx =
     (if length status < 4 \<or> status ! 0 \<noteq> 0x40 then (tx, [])
      else
        let ack_sn = get16_at status 1;
            buffer = filter (\<lambda>(sn, pdu). \<not> sn < ack_sn) (at_buffer tx);
            count = unat (status ! 3);
            now = uint now_ms;
            burst_allowed = (at_last_nack_burst_ms tx < 0 \<or>
              now - at_last_nack_burst_ms tx \<ge> uint (ac_t_poll_ms (at_cfg tx)));
            retx = (if burst_allowed \<and> count > 0
                    then am_nack_burst (ac_probe_batch (at_cfg tx)) buffer (status_nacks status) else [])
        in (tx\<lparr>at_buffer := buffer,
               at_last_nack_burst_ms := (if burst_allowed \<and> count > 0 then now else at_last_nack_burst_ms tx),
               at_retxs := at_retxs tx + word_of_nat (length retx),
               at_last_progress_ms := now\<rparr>,
            retx))"

subsection \<open>Receiver\<close>

record am_rx_state =
  ar_cfg :: am_config
  ar_vr_next :: u16
  ar_seen :: "u16 set"
  ar_holes :: "u16 set"
  ar_reorder :: "(u16, u8 \<times> bytes) omap"
  ar_collecting :: bool
  ar_partial :: bytes
  ar_gaps :: nat
  ar_overflows :: nat
  ar_accepts :: u64
  ar_tick_accepts :: u64
  ar_last_progress_ms :: int

record am_outcome =
  ao_delivered :: "bytes list"
  ao_status_needed :: bool

definition am_no_outcome :: am_outcome where
  "am_no_outcome = \<lparr>ao_delivered = [], ao_status_needed = False\<rparr>"

definition am_rx_init :: "am_config \<Rightarrow> am_rx_state" where
  "am_rx_init cfg = \<lparr>ar_cfg = cfg, ar_vr_next = 0, ar_seen = {}, ar_holes = {}, ar_reorder = [],
     ar_collecting = False, ar_partial = [], ar_gaps = 0, ar_overflows = 0, ar_accepts = 0,
     ar_tick_accepts = 0, ar_last_progress_ms = -1\<rparr>"

definition am_accept_in_order :: "u16 \<Rightarrow> u8 \<times> bytes \<Rightarrow> am_rx_state \<Rightarrow> am_rx_state \<times> bytes list" where
  "am_accept_in_order sn h st =
     (let (fi, payload) = h;
          st = st\<lparr>ar_holes := ar_holes st - {sn}, ar_accepts := ar_accepts st + 1\<rparr>;
          kind = fi AND 0x30;
          (st1, out) =
            (if kind = 0x00 then (st, [payload])
             else if kind = 0x10 then (st\<lparr>ar_collecting := True, ar_partial := payload\<rparr>, [])
             else if kind = 0x20 then
               (if ar_collecting st
                then (st\<lparr>ar_collecting := False, ar_partial := []\<rparr>, [ar_partial st @ payload])
                else (st, []))
             else
               (if ar_collecting st then (st\<lparr>ar_partial := ar_partial st @ payload\<rparr>, []) else (st, [])))
      in (st1\<lparr>ar_vr_next := ar_vr_next st + 1\<rparr>, out))"

lemma am_accept_reorder [simp]: "ar_reorder (fst (am_accept_in_order sn h st)) = ar_reorder st"
  by (cases h) (simp add: am_accept_in_order_def Let_def)

function am_drain_reorder :: "am_rx_state \<Rightarrow> am_rx_state \<times> bytes list" where
  "am_drain_reorder st =
     (case om_find (ar_reorder st) (ar_vr_next st) of
        None \<Rightarrow> (st, [])
      | Some h \<Rightarrow>
          let (st1, out1) = am_accept_in_order (ar_vr_next st) h st;
              (st2, out2) = am_drain_reorder (st1\<lparr>ar_reorder := om_erase (ar_vr_next st) (ar_reorder st)\<rparr>)
          in (st2, out1 @ out2))"
  by auto
termination
  by (relation "measure (\<lambda>st. length (ar_reorder st))") (auto simp: termination_simp)

declare am_drain_reorder.simps [simp del]

definition am_rx_tick :: "u32 \<Rightarrow> am_rx_state \<Rightarrow> am_rx_state \<times> am_outcome" where
  "am_rx_tick now_ms st =
     (if ac_t_reorder_ms (ar_cfg st) = 0 then (st, am_no_outcome)
      else
        let now = uint now_ms;
            st = (if ar_accepts st \<noteq> ar_tick_accepts st
                  then st\<lparr>ar_tick_accepts := ar_accepts st, ar_last_progress_ms := now\<rparr> else st) in
        if ar_holes st = {} \<or> ar_last_progress_ms st < 0 \<or>
           now - ar_last_progress_ms st < uint (ac_t_reorder_ms (ar_cfg st)) then (st, am_no_outcome)
        else
          let (st', out) = am_drain_reorder
                (st\<lparr>ar_vr_next := Max (ar_holes st) + 1, ar_holes := {}, ar_collecting := False,
                    ar_partial := [], ar_last_progress_ms := now\<rparr>)
          in (st', \<lparr>ao_delivered = out, ao_status_needed = True\<rparr>))"

text \<open>
  The loop that records every skipped number as a hole, until there are 256 of them:
  \<^verbatim>\<open>for (uint32_t sn = vr_next_; sn < seq && holes_.size() < kMaxHoles; ++sn)\<close>. It returns the
  holes and the number of turns.
\<close>

function am_record_holes :: "nat \<Rightarrow> nat \<Rightarrow> u16 set \<Rightarrow> u16 set \<times> nat" where
  "am_record_holes sn seq holes =
     (if sn < seq \<and> card holes < 256
      then let (holes', turns) = am_record_holes (sn + 1) seq (insert (word_of_nat sn) holes)
           in (holes', turns + 1)
      else (holes, 0))"
  by auto
termination
  by (relation "measure (\<lambda>(sn, seq, holes). seq - sn)") auto

declare am_record_holes.simps [simp del]

definition am_rx :: "bytes \<Rightarrow> am_rx_state \<Rightarrow> am_rx_state \<times> am_outcome" where
  "am_rx pdu st =
     (if length pdu < 3 then (st, am_no_outcome)
      else if pdu ! 0 AND 0xC0 \<noteq> 0x80 then (st, am_no_outcome)
      else
        let b0 = pdu ! 0; fi = b0 AND 0x30; poll = (b0 AND 0x08 \<noteq> 0);
            seq = get16_at pdu 1; payload = drop 3 pdu in
        if seq \<in> ar_seen st then (st, am_no_outcome)
        else
          let st = st\<lparr>ar_seen := bound_seen (insert seq (ar_seen st))\<rparr> in
          if seq < ar_vr_next st then (st, am_no_outcome)
          else if seq > ar_vr_next st then
            let (holes, turns) = am_record_holes (unat (ar_vr_next st)) (unat seq) (ar_holes st);
                st = st\<lparr>ar_holes := holes, ar_gaps := ar_gaps st + turns\<rparr>;
                st = (if length (ar_reorder st) < 512
                      then st\<lparr>ar_reorder := om_insert seq (fi, payload) (ar_reorder st)\<rparr>
                      else st\<lparr>ar_overflows := ar_overflows st + 1\<rparr>)
            in (st, \<lparr>ao_delivered = [], ao_status_needed = (turns > 0) \<or> poll\<rparr>)
          else
            let (st1, out1) = am_accept_in_order seq (fi, payload) st;
                (st2, out2) = am_drain_reorder st1
            in (st2, \<lparr>ao_delivered = out1 @ out2, ao_status_needed = poll\<rparr>))"

definition am_rx_reset :: "am_rx_state \<Rightarrow> am_rx_state" where
  "am_rx_reset st = st\<lparr>ar_vr_next := 0, ar_seen := {}, ar_holes := {}, ar_reorder := [],
     ar_collecting := False, ar_partial := [], ar_accepts := 0, ar_tick_accepts := 0,
     ar_last_progress_ms := -1\<rparr>"

definition am_build_status :: "am_rx_state \<Rightarrow> bytes" where
  "am_build_status st =
     0x40 # put16 (ar_vr_next st) @ word_of_nat (card (ar_holes st))
       # concat (map put16 (sorted_list_of_set (ar_holes st)))"

subsection \<open>In-order delivery\<close>

definition am_stream :: "(u8 \<times> bytes) list \<Rightarrow> (nat \<Rightarrow> bool) \<Rightarrow> nat \<Rightarrow> bytes" where
  "am_stream segs polls k =
     am_build_pdu (word_of_nat k) (if polls k then fst (segs ! k) OR 0x08 else fst (segs ! k)) (snd (segs ! k))"

lemma am_stream_fields:
  assumes "fst (segs ! k) \<in> {0x00, 0x10, 0x20, 0x30}"
  shows "\<not> length (am_stream segs polls k) < 3" "am_stream segs polls k ! 0 AND 0xC0 = 0x80"
    "am_stream segs polls k ! 0 AND 0x30 = fst (segs ! k)" "am_stream segs polls k ! 0 AND 0x08 \<noteq> 0 \<longleftrightarrow> polls k"
    "get16_at (am_stream segs polls k) 1 = word_of_nat k" "drop 3 (am_stream segs polls k) = snd (segs ! k)"
proof -
  show "am_stream segs polls k ! 0 AND 0xC0 = 0x80"
    "am_stream segs polls k ! 0 AND 0x30 = fst (segs ! k)" "am_stream segs polls k ! 0 AND 0x08 \<noteq> 0 \<longleftrightarrow> polls k"
    using assms by (auto simp: am_stream_def am_build_pdu_def)
qed (simp_all add: am_stream_def am_build_pdu_def put16_def get16_at_def wire_simps)

lemma am_accept_reasm:
  assumes "reasm (ar_collecting st, ar_partial st) (fi AND 0x30, p) = ((c, q), out)"
  shows "am_accept_in_order sn (fi, p) st =
    (st\<lparr>ar_vr_next := ar_vr_next st + 1, ar_holes := ar_holes st - {sn}, ar_accepts := ar_accepts st + 1,
        ar_collecting := c, ar_partial := q\<rparr>, out)"
  using assms by (auto simp: am_accept_in_order_def split: if_splits)

definition am_at :: "(u8 \<times> bytes) list \<Rightarrow> nat set \<Rightarrow> nat \<Rightarrow> am_rx_state \<Rightarrow> bool" where
  "am_at segs got m st \<longleftrightarrow>
     ar_vr_next st = word_of_nat m \<and> (\<forall>j < m. j \<in> got) \<and> om_ok (ar_reorder st) \<and>
     (\<forall>x. om_find (ar_reorder st) x = (if m \<le> unat x \<and> unat x \<in> got then Some (segs ! unat x) else None)) \<and>
     (ar_collecting st, ar_partial st) = reasm_upto segs m"

text \<open>The streams considered: fewer PDUs than sequence numbers, segments as the sender makes them.\<close>

definition am_stream_ok :: "(u8 \<times> bytes) list \<Rightarrow> bool" where
  "am_stream_ok segs \<longleftrightarrow> length segs \<le> 65535 \<and> (\<forall>(fi, p) \<in> set segs. fi \<in> {0x00, 0x10, 0x20, 0x30})"

lemma am_stream_ok_fi: "am_stream_ok segs \<Longrightarrow> k < length segs \<Longrightarrow> fst (segs ! k) \<in> {0x00, 0x10, 0x20, 0x30}"
  unfolding am_stream_ok_def by (metis (no_types, lifting) case_prod_beta nth_mem)

lemma am_fi_kept: "fi \<in> {0x00, 0x10, 0x20, 0x30} \<Longrightarrow> fi AND 0x30 = (fi :: u8)"
  by auto

lemma am_at_accept:
  assumes at: "am_at segs got m st" and ok: "am_stream_ok segs" and m: "m < length segs"
    and acc: "am_accept_in_order (word_of_nat m) (segs ! m) st = (st1, out)"
  shows "am_at segs (insert m got) (Suc m) (st1\<lparr>ar_reorder := om_erase (word_of_nat m) (ar_reorder st)\<rparr>)"
    "sdus_upto segs m @ out = sdus_upto segs (Suc m)" "ar_seen st1 = ar_seen st" "ar_reorder st1 = ar_reorder st"
    "ar_holes st1 = ar_holes st - {word_of_nat m}"
proof -
  obtain fi p where seg: "segs ! m = (fi, p)" by fastforce
  obtain c q out' where r: "reasm (reasm_upto segs m) (segs ! m) = ((c, q), out')" by (metis prod.exhaust)
  note U = upto_Suc [OF m r]
  have "fi AND 0x30 = fi" using am_stream_ok_fi [OF ok m] seg by (intro am_fi_kept) simp
  then have a: "am_accept_in_order (word_of_nat m) (segs ! m) st =
    (st\<lparr>ar_vr_next := ar_vr_next st + 1, ar_holes := ar_holes st - {word_of_nat m},
        ar_accepts := ar_accepts st + 1, ar_collecting := c, ar_partial := q\<rparr>, out')"
    unfolding seg using at r seg by (intro am_accept_reasm) (simp add: am_at_def)
  then have s: "st1 = st\<lparr>ar_vr_next := ar_vr_next st + 1, ar_holes := ar_holes st - {word_of_nat m},
      ar_accepts := ar_accepts st + 1, ar_collecting := c, ar_partial := q\<rparr>" "out = out'"
    using acc by simp_all
  have "m < 65536" using m ok by (simp add: am_stream_ok_def)
  then have f: "(unat x = m) = (x = word_of_nat m)" for x :: u16 by (intro unat_eq_sn)
  have "om_find (om_erase (word_of_nat m) (ar_reorder st)) x =
      (if Suc m \<le> unat x \<and> unat x \<in> insert m got then Some (segs ! unat x) else None)" for x
    using at f [of x] by (auto simp: am_at_def)
  with at U show "am_at segs (insert m got) (Suc m) (st1\<lparr>ar_reorder := om_erase (word_of_nat m) (ar_reorder st)\<rparr>)"
    by (simp add: am_at_def s less_Suc_eq)
  show "sdus_upto segs m @ out = sdus_upto segs (Suc m)" using U s by simp
  show "ar_seen st1 = ar_seen st" "ar_reorder st1 = ar_reorder st"
    "ar_holes st1 = ar_holes st - {word_of_nat m}" by (simp_all add: s)
qed

lemma am_drain_at:
  assumes "am_at segs got m st" "got \<subseteq> {..<length segs}" "am_stream_ok segs" "am_drain_reorder st = (st', out)"
  shows "am_at segs got (first_missing got) st' \<and> sdus_upto segs m @ out = sdus_upto segs (first_missing got) \<and>
    ar_seen st' = ar_seen st \<and> ar_holes st' = ar_holes st - word_of_nat ` {m..<first_missing got} \<and>
    m \<le> first_missing got"
  using assms(1,4)
proof (induction st arbitrary: m st' out rule: am_drain_reorder.induct)
  case (1 st)
  have n: "length segs \<le> 65535" using assms(3) by (simp add: am_stream_ok_def)
  show ?case
  proof (cases "m \<in> got")
    case False
    then have f: "first_missing got = m"
      using 1(2) by (intro first_missing_eqI) (auto simp: am_at_def)
    have "om_find (ar_reorder st) (ar_vr_next st) = None"
      using False 1(2) n first_missing_bound [OF assms(2)] f by (auto simp: am_at_def)
    then show ?thesis using 1(2,3) f by (simp add: am_drain_reorder.simps [of st])
  next
    case True
    with assms(2) have m: "m < length segs" by auto
    then have f: "om_find (ar_reorder st) (ar_vr_next st) = Some (segs ! m)" "ar_vr_next st = word_of_nat m"
      using True 1(2) n by (simp_all add: am_at_def)
    obtain st1 o1 where a: "am_accept_in_order (word_of_nat m) (segs ! m) st = (st1, o1)" by fastforce
    let ?st = "st1\<lparr>ar_reorder := om_erase (word_of_nat m) (ar_reorder st)\<rparr>"
    obtain st2 o2 where d: "am_drain_reorder ?st = (st2, o2)" by fastforce
    have r: "st' = st2" "out = o1 @ o2"
      using 1(3) f a d by (simp_all add: am_drain_reorder.simps [of st])
    have "insert m got = got" using True by auto
    with am_at_accept [OF 1(2) assms(3) m a] have
      A: "am_at segs got (Suc m) ?st" "sdus_upto segs m @ o1 = sdus_upto segs (Suc m)"
        "ar_seen st1 = ar_seen st" "ar_holes st1 = ar_holes st - {word_of_nat m}" by simp_all
    have B: "am_at segs got (first_missing got) st2 \<and> sdus_upto segs (Suc m) @ o2 = sdus_upto segs (first_missing got) \<and>
        ar_seen st2 = ar_seen ?st \<and> ar_holes st2 = ar_holes ?st - word_of_nat ` {Suc m..<first_missing got} \<and>
        Suc m \<le> first_missing got"
      using 1(1) [OF f(1) refl, of st1 o1 "Suc m" st2 o2] A(1) a d f(2) by simp
    then have "{m..<first_missing got} = insert m {Suc m..<first_missing got}" by auto
    then have "word_of_nat ` {m..<first_missing got} =
        insert (word_of_nat m :: u16) (word_of_nat ` {Suc m..<first_missing got})"
      by (simp only: image_insert)
    then have "ar_holes st - word_of_nat ` {m..<first_missing got} =
        ar_holes st - {word_of_nat m} - word_of_nat ` {Suc m..<first_missing got}"
      by blast
    moreover have "sdus_upto segs m @ (o1 @ o2) = sdus_upto segs (first_missing got)"
      using A(2) B by (metis append_assoc)
    ultimately show ?thesis unfolding r using A B by simp
  qed
qed

definition am_adm :: "nat \<Rightarrow> (u8 \<times> bytes) list \<Rightarrow> nat set \<Rightarrow> nat \<Rightarrow> bool" where
  "am_adm w segs got k \<longleftrightarrow> am_stream_ok segs \<and> w \<le> 512 \<and> k < first_missing got + w"

definition am_inv :: "nat \<Rightarrow> (u8 \<times> bytes) list \<Rightarrow> am_rx_state \<Rightarrow> nat set \<Rightarrow> bool" where
  "am_inv w segs st got \<longleftrightarrow>
     (let m = first_missing got in am_at segs got m st \<and> seen_ok w got m (ar_seen st))"

definition am_arrival :: "(u8 \<times> bytes) list \<Rightarrow> (nat \<Rightarrow> bool) \<Rightarrow> am_rx_state \<Rightarrow> u32 \<Rightarrow> nat \<Rightarrow> am_rx_state \<times> bytes list" where
  "am_arrival segs polls st now_ms k =
     (let (st', out) = am_rx (am_stream segs polls k) st in (st', ao_delivered out))"

lemma am_at_fields [simp]:
  "am_at segs got m (st\<lparr>ar_seen := S\<rparr>) = am_at segs got m st"
  "am_at segs got m (st\<lparr>ar_holes := h\<rparr>) = am_at segs got m st"
  "am_at segs got m (st\<lparr>ar_gaps := g\<rparr>) = am_at segs got m st"
  by (simp_all add: am_at_def)

lemma reorder_room:
  assumes "am_at segs got m st" "seen_ok w got m seen" "m \<notin> got" "w \<le> 512" "0 < w"
  shows "length (ar_reorder st) < 512"
proof -
  have "distinct (map fst (ar_reorder st))" using assms(1) by (simp add: am_at_def om_ok_distinct)
  then have "length (ar_reorder st) = card (fst ` set (ar_reorder st))"
    by (metis distinct_card length_map list.set_map)
  also have "fst ` set (ar_reorder st) \<subseteq> {x :: u16. Suc m \<le> unat x \<and> unat x < Suc m + (w - 1)}"
  proof
    fix x assume "x \<in> fst ` set (ar_reorder st)"
    then have "om_find (ar_reorder st) x \<noteq> None" by (simp add: om_find_None_iff)
    then have "m \<le> unat x" "unat x \<in> got" using assms(1) by (auto simp: am_at_def split: if_splits)
    with assms show "x \<in> {x. Suc m \<le> unat x \<and> unat x < Suc m + (w - 1)}"
      by (auto simp: seen_ok_def Suc_le_eq le_less)
  qed
  then have "card (fst ` set (ar_reorder st)) \<le> card {x :: u16. Suc m \<le> unat x \<and> unat x < Suc m + (w - 1)}"
    by (rule card_mono [OF finite])
  also have "\<dots> \<le> w - 1" by (rule card_u16_window)
  finally show ?thesis using assms by simp
qed

lemma am_rx_stream:
  assumes "am_stream_ok segs" "k < length segs"
  shows "am_rx (am_stream segs polls k) st =
    (if word_of_nat k \<in> ar_seen st then (st, am_no_outcome)
     else
       let st = st\<lparr>ar_seen := bound_seen (insert (word_of_nat k) (ar_seen st))\<rparr> in
       if word_of_nat k < ar_vr_next st then (st, am_no_outcome)
       else if word_of_nat k > ar_vr_next st then
         let (holes, turns) = am_record_holes (unat (ar_vr_next st)) (unat (word_of_nat k :: u16)) (ar_holes st);
             st = st\<lparr>ar_holes := holes, ar_gaps := ar_gaps st + turns\<rparr>;
             st = (if length (ar_reorder st) < 512
                   then st\<lparr>ar_reorder := om_insert (word_of_nat k) (segs ! k) (ar_reorder st)\<rparr>
                   else st\<lparr>ar_overflows := ar_overflows st + 1\<rparr>)
         in (st, \<lparr>ao_delivered = [], ao_status_needed = (turns > 0) \<or> polls k\<rparr>)
       else
         let (st1, out1) = am_accept_in_order (word_of_nat k) (segs ! k) st;
             (st2, out2) = am_drain_reorder st1
         in (st2, \<lparr>ao_delivered = out1 @ out2, ao_status_needed = polls k\<rparr>))"
proof -
  note F = am_stream_fields [OF am_stream_ok_fi [OF assms], of polls]
  have s: "(fst (segs ! k), snd (segs ! k)) = segs ! k" by simp
  show ?thesis
    unfolding am_rx_def Let_def F(3-6) s using F(1,2) by (simp only: if_False simp_thms)
qed

text \<open>Every arrival keeps the relation to the stream, whatever case of \<^verbatim>\<open>AmRx::rx\<close> it takes.\<close>

lemma am_rx_at:
  assumes inv: "am_inv w segs st got" and got: "got \<subseteq> {..<length segs}"
    and k: "k < length segs" and adm: "am_adm w segs got k"
    and rx: "am_rx (am_stream segs polls k) st = (st', out)"
  shows "am_inv w segs st' (insert k got) \<and>
    sdus_upto segs (first_missing got) @ ao_delivered out = sdus_upto segs (first_missing (insert k got))"
proof -
  let ?m = "first_missing got" and ?sn = "word_of_nat k :: u16"
  define S where "S = bound_seen (insert ?sn (ar_seen st))"
  let ?st = "st\<lparr>ar_seen := S\<rparr>"
  have ok: "am_stream_ok segs" and kw: "k < ?m + w" and w: "w \<le> 512" using adm by (simp_all add: am_adm_def)
  have at: "am_at segs got ?m st" and so: "seen_ok w got ?m (ar_seen st)"
    using inv by (simp_all add: am_inv_def Let_def)
  have n: "length segs \<le> 65535" "k < 65536" using ok k by (auto simp: am_stream_ok_def)
  have fin: "finite got" using got finite_subset by blast
  have mle: "?m < 65536" using first_missing_bound [OF got] n by simp
  have vr: "ar_vr_next st = word_of_nat ?m" using at by (simp add: am_at_def)
  have S: "seen_ok w (insert k got) (first_missing (insert k got)) S"
    unfolding S_def using w by (intro seen_ok_insert [OF so kw n(2) _ first_missing_mono [OF fin]]) simp
  have cmp: "?sn < ar_vr_next st \<longleftrightarrow> k < ?m" "?sn > ar_vr_next st \<longleftrightarrow> k > ?m"
    using n mle by (simp_all add: vr word_less_nat_alt)
  note rx = rx [unfolded am_rx_stream [OF ok k] Let_def, folded S_def]
  consider "k \<in> got" "?sn \<in> ar_seen st" | "k \<in> got" "?sn \<notin> ar_seen st" | "k = ?m" | "k \<notin> got" "?m < k"
    using below_first_missing [of k got] by fastforce
  then show ?thesis
  proof cases
    case 1
    then have "insert k got = got" by auto
    then show ?thesis using 1 rx inv by (auto simp: am_no_outcome_def)
  next
    case 2
    then have g: "insert k got = got" by auto
    have "k < ?m" using 2 so n by (force simp: seen_ok_def not_less [symmetric])
    then show ?thesis using 2 rx at S cmp by (auto simp: am_no_outcome_def am_inv_def g)
  next
    case 3
    have notin: "?m \<notin> got" by (rule first_missing_notin [OF fin])
    then have new: "?sn \<notin> ar_seen st" using so 3 n by (auto simp: seen_ok_def)
    obtain st1 o1 where a: "am_accept_in_order ?sn (segs ! k) ?st = (st1, o1)" by fastforce
    obtain st2 o2 where d: "am_drain_reorder st1 = (st2, o2)" by fastforce
    have r: "st' = st2" "ao_delivered out = o1 @ o2"
      using rx new cmp a d less_irrefl 3 by auto
    have at': "am_at segs got k ?st" using at 3 by simp
    have none: "om_find (ar_reorder st) ?sn = None"
      using at' notin 3 n by (auto simp: am_at_def)
    note A = am_at_accept [OF at' ok k a]
    have "st1\<lparr>ar_reorder := om_erase ?sn (ar_reorder ?st)\<rparr> = st1"
      using A(4) by (simp add: om_erase_absent [OF none])
    with A(1) have at1: "am_at segs (insert k got) (Suc k) st1" by simp
    have gk: "insert k got \<subseteq> {..<length segs}" using got k by auto
    show ?thesis
      using am_drain_at [OF at1 gk ok d] A(2,3) S 3 by (simp add: am_inv_def Let_def r flip: append_assoc)
  next
    case 4
    then have f: "first_missing (insert k got) = ?m" using fin by (intro first_missing_insert_other) auto
    have new: "?sn \<notin> ar_seen st" using so 4 n by (auto simp: seen_ok_def)
    have room: "length (ar_reorder st) < 512"
      using reorder_room [OF at so first_missing_notin [OF fin] w] kw 4 by simp
    obtain h t where h: "am_record_holes (unat (ar_vr_next st)) (unat ?sn) (ar_holes st) = (h, t)" by fastforce
    have "am_at segs (insert k got) ?m (st\<lparr>ar_reorder := om_insert ?sn (segs ! k) (ar_reorder st)\<rparr>)"
      using at 4 n by (auto simp: am_at_def unat_eq_sn [of k])
    then have "am_at segs (insert k got) ?m (?st\<lparr>ar_holes := h, ar_gaps := g, ar_reorder := om_insert ?sn (segs ! k) (ar_reorder st)\<rparr>)" for g
      by (simp add: am_at_def)
    then show ?thesis
      using rx new cmp 4 S room h by (auto simp: am_inv_def f)
  qed
qed

interpretation am: in_order_receiver "am_arrival segs polls" "am_rx_init cfg" "am_inv w segs"
    "length segs" "am_adm w segs" "sdus_upto segs" for cfg w segs polls
proof unfold_locales
  show "am_inv w segs (am_rx_init cfg) {}"
    by (simp add: am_inv_def am_at_def seen_ok_def am_rx_init_def Let_def)
  fix s got k t s' out
  assume "am_inv w segs s got" "got \<subseteq> {..<length segs}" "k < length segs" "am_adm w segs got k"
    "am_arrival segs polls s t k = (s', out)"
  with am_rx_at [of w segs s got k polls] show "am_inv w segs s' (insert k got) \<and>
      sdus_upto segs (first_missing got) @ out = sdus_upto segs (first_missing (insert k got))"
    by (auto simp: am_arrival_def split: prod.splits)
qed simp

subsection \<open>Transmitter lemmas\<close>

text \<open>The buffer of a transmitter that has sent \<open>pdus\<close> and been acknowledged up to \<open>a\<close>.\<close>

definition am_unacked :: "bytes list \<Rightarrow> nat \<Rightarrow> (u16, bytes) omap" where
  "am_unacked pdus a = map (\<lambda>k. (word_of_nat k, pdus ! k)) [a..<length pdus]"

definition am_tx_at :: "bytes list \<Rightarrow> nat \<Rightarrow> am_tx_state \<Rightarrow> bool" where
  "am_tx_at pdus a tx \<longleftrightarrow> at_next_sn tx = word_of_nat (length pdus) \<and> a \<le> length pdus \<and>
     at_buffer tx = am_unacked pdus a"

lemma am_unacked_find:
  assumes "length pdus \<le> 65536" "a \<le> k" "k < length pdus"
  shows "om_find (am_unacked pdus a) (word_of_nat k) = Some (pdus ! k)"
proof -
  have "inj_on (word_of_nat :: nat \<Rightarrow> u16) {a..<length pdus}"
    using assms(1) by (intro inj_onI) (metis atLeastLessThan_iff order.strict_trans2 unat_sn)
  then have "distinct (map fst (am_unacked pdus a))"
    by (simp add: am_unacked_def distinct_map o_def)
  then show ?thesis using assms by (auto simp: am_unacked_def intro!: map_of_is_SomeI)
qed

lemma am_unacked_snoc:
  assumes "length pdus < 65536" "a \<le> length pdus"
  shows "om_insert (word_of_nat (length pdus)) pdu (am_unacked pdus a) = am_unacked (pdus @ [pdu]) a"
proof -
  have "am_unacked (pdus @ [pdu]) a = am_unacked pdus a @ [(word_of_nat (length pdus), pdu)]"
    using assms(2) by (auto simp: am_unacked_def nth_append)
  moreover have "\<forall>q \<in> set (am_unacked pdus a). fst q < word_of_nat (length pdus)"
    using assms(1) by (auto simp: am_unacked_def word_less_nat_alt)
  ultimately show ?thesis by (simp add: om_insert_last)
qed

text \<open>The PDUs of a run: numbered consecutively, segments framed with some poll bits.\<close>

definition am_framed :: "(u8 \<times> bytes) list \<Rightarrow> bytes list \<Rightarrow> bool" where
  "am_framed segs pdus \<longleftrightarrow> length pdus = length segs \<and>
     (\<exists>polls. \<forall>k < length segs. pdus ! k = am_stream segs polls k)"

lemma am_framed_snoc:
  assumes "am_framed segs pdus"
  shows "am_framed (segs @ [(fi, p)])
    (pdus @ [am_build_pdu (word_of_nat (length pdus)) (if poll then fi OR 0x08 else fi) p])"
proof -
  obtain polls where "length pdus = length segs" "\<forall>k < length segs. pdus ! k = am_stream segs polls k"
    using assms by (auto simp: am_framed_def)
  then show ?thesis
    unfolding am_framed_def
    by (intro conjI exI [of _ "polls(length segs := poll)"]) (auto simp: am_stream_def nth_append less_Suc_eq)
qed

lemma am_tx_segments_at:
  assumes "am_tx_at pdus a tx" "am_framed segs pdus" "length segs + length ss \<le> 65535"
    and "fold am_tx_segment ss (tx, out) = (tx', out')"
  shows "\<exists>new. out' = out @ new \<and> am_tx_at (pdus @ new) a tx' \<and> am_framed (segs @ ss) (pdus @ new) \<and>
    at_cfg tx' = at_cfg tx \<and> length new = length ss"
  using assms
proof (induction ss arbitrary: pdus segs tx out)
  case (Cons s ss)
  obtain fi p where s: "s = (fi, p)" by fastforce
  define poll where "poll \<longleftrightarrow> at_since_poll tx + 1 \<ge> ac_poll_every (at_cfg tx)"
  let ?pdu = "am_build_pdu (word_of_nat (length pdus)) (if poll then fi OR 0x08 else fi) p"
  obtain tx1 where t1: "am_tx_segment s (tx, out) = (tx1, out @ [?pdu])" "am_tx_at (pdus @ [?pdu]) a tx1"
      "at_cfg tx1 = at_cfg tx"
  proof
    let ?tx1 = "fst (am_tx_segment s (tx, out))"
    have len: "length pdus < 65536" "a \<le> length pdus" "at_next_sn tx = word_of_nat (length pdus)"
        "at_buffer tx = am_unacked pdus a"
      using Cons.prems by (auto simp: am_tx_at_def am_framed_def)
    show "am_tx_segment s (tx, out) = (?tx1, out @ [?pdu])"
      using len by (simp add: am_tx_segment_def s Let_def poll_def)
    show "am_tx_at (pdus @ [?pdu]) a ?tx1"
      using len am_unacked_snoc [OF len(1,2), of ?pdu]
      by (simp add: am_tx_segment_def s Let_def am_tx_at_def poll_def ac_simps)
    show "at_cfg ?tx1 = at_cfg tx" by (simp add: am_tx_segment_def s Let_def)
  qed
  have fr: "am_framed (segs @ [s]) (pdus @ [?pdu])" unfolding s by (rule am_framed_snoc [OF Cons.prems(2)])
  have "\<exists>new. out' = (out @ [?pdu]) @ new \<and> am_tx_at ((pdus @ [?pdu]) @ new) a tx' \<and>
      am_framed ((segs @ [s]) @ ss) ((pdus @ [?pdu]) @ new) \<and> at_cfg tx' = at_cfg tx1 \<and> length new = length ss"
    by (rule Cons.IH [OF t1(2) fr]) (use Cons.prems(3,4) t1(1) in simp_all)
  then obtain new where "out' = (out @ [?pdu]) @ new" "am_tx_at ((pdus @ [?pdu]) @ new) a tx'"
      "am_framed ((segs @ [s]) @ ss) ((pdus @ [?pdu]) @ new)" "at_cfg tx' = at_cfg tx1" "length new = length ss" by blast
  then show ?case using t1(3) by (intro exI [of _ "?pdu # new"]) simp
qed auto

text \<open>Submitting an SDU: refused as a whole, or sent as a whole and buffered.\<close>

lemma am_tx_cases:
  assumes "am_tx_at pdus a tx" "am_framed segs pdus"
    and "length segs + length (rlc_segments (ac_max_pdu_payload (at_cfg tx)) sdu) \<le> 65535"
    and "sdu \<noteq> []" "am_tx now sdu force tx = (tx', out)" "0 < ac_max_pdu_payload (at_cfg tx)"
  shows "(out = [] \<and> am_tx_at pdus a tx' \<and> at_cfg tx' = at_cfg tx) \<or>
    (out \<noteq> [] \<and> am_tx_at (pdus @ out) a tx' \<and> at_cfg tx' = at_cfg tx \<and>
     am_framed (segs @ rlc_segments (ac_max_pdu_payload (at_cfg tx)) sdu) (pdus @ out))"
proof (cases "length (at_buffer tx) \<ge> ac_tx_buffer_limit (at_cfg tx) + (if force then 4 else 0)")
  case True
  with assms show ?thesis by (auto simp: am_tx_def am_tx_at_def)
next
  case False
  let ?ss = "rlc_segments (ac_max_pdu_payload (at_cfg tx)) sdu"
  have "fold am_tx_segment ?ss (tx\<lparr>at_last_progress_ms := uint now\<rparr>, []) = (tx', out)"
    using assms(4,5) False by (simp add: am_tx_def Let_def)
  from am_tx_segments_at [OF _ assms(2,3) this] assms(1)
  have "am_tx_at (pdus @ out) a tx'" "am_framed (segs @ ?ss) (pdus @ out)" "at_cfg tx' = at_cfg tx"
      "length out = length ?ss"
    by (auto simp: am_tx_at_def)
  moreover have "?ss \<noteq> []"
    using segment_count [OF assms(6,4) refl] by (simp add: rlc_segments_def Let_def)
  ultimately show ?thesis by auto
qed

lemma am_unacked_ack:
  assumes "length pdus \<le> 65535" "b \<le> length pdus"
  shows "filter (\<lambda>(sn, pdu). \<not> sn < word_of_nat b) (am_unacked pdus a) = am_unacked pdus (max a b)"
proof -
  have "filter (\<lambda>(sn, pdu). \<not> sn < word_of_nat b) (am_unacked pdus a) =
      map (\<lambda>k. (word_of_nat k, pdus ! k)) (filter (\<lambda>k. \<not> k < b) [a..<length pdus])"
    unfolding am_unacked_def filter_map
    by (rule arg_cong [where f = "map _"], rule filter_cong)
      (use assms in \<open>auto simp: word_less_nat_alt\<close>)
  also have "filter (\<lambda>k. \<not> k < b) [a..<length pdus] = [max a b..<length pdus]"
  proof (cases "a \<le> b")
    case True
    then have "[a..<length pdus] = [a..<b] @ [b..<length pdus]"
      using assms(2) by (metis le_add_diff_inverse upt_add_eq_append)
    with True show ?thesis by (auto simp: max_def filter_empty_conv intro!: filter_True)
  next
    case False
    then show ?thesis by (auto simp: max_def intro!: filter_True)
  qed
  finally show ?thesis by (simp add: am_unacked_def)
qed

lemma am_nack_burst_subset: "set (am_nack_burst budget buffer nacks) \<subseteq> snd ` set buffer"
  by (induction budget buffer nacks rule: am_nack_burst.induct)
    (auto split: option.splits dest: map_of_SomeD intro: rev_image_eqI)

lemma set_am_unacked: "snd ` set (am_unacked pdus a) \<subseteq> set pdus"
  by (auto simp: am_unacked_def)

text \<open>A STATUS with cumulative ACK \<open>b\<close> frees exactly the PDUs below \<open>b\<close>; what is resent was sent before.\<close>

lemma am_on_status_at:
  assumes "am_tx_at pdus a tx" "length pdus \<le> 65535" "b \<le> length pdus" "get16_at status 1 = word_of_nat b"
    and "am_on_status now status tx = (tx', retx)" "4 \<le> length status" "status ! 0 = 0x40"
  shows "am_tx_at pdus (max a b) tx' \<and> set retx \<subseteq> set pdus \<and> at_cfg tx' = at_cfg tx"
proof -
  let ?buf = "filter (\<lambda>(sn, pdu). \<not> sn < word_of_nat b) (at_buffer tx)"
  have buf: "?buf = am_unacked pdus (max a b)"
    using assms(1) am_unacked_ack [OF assms(2,3)] by (simp add: am_tx_at_def)
  have "at_buffer tx' = ?buf" "at_next_sn tx' = at_next_sn tx" "at_cfg tx' = at_cfg tx" "set retx \<subseteq> snd ` set ?buf"
    using assms(4-7) am_nack_burst_subset [of _ ?buf] by (auto simp: am_on_status_def Let_def split: if_splits)
  moreover have "snd ` set ?buf \<subseteq> set pdus" unfolding buf by (rule set_am_unacked)
  ultimately show ?thesis using assms(1,3) buf by (auto simp: am_tx_at_def)
qed

lemma am_tick_at:
  assumes "am_tx_at pdus a tx" "am_tx_tick now tx = (tx', out)"
  shows "am_tx_at pdus a tx' \<and> set out \<subseteq> set pdus \<and> at_cfg tx' = at_cfg tx"
proof -
  have "set (take n (map snd (am_unacked pdus a))) \<subseteq> set pdus" for n
    using set_am_unacked [of pdus a] set_take_subset [of n "map snd (am_unacked pdus a)"] by fastforce
  with assms show ?thesis by (auto simp: am_tx_tick_def am_tx_at_def Let_def split: if_splits)
qed

lemma am_status_fields:
  "4 \<le> length (am_build_status rx)" "am_build_status rx ! 0 = 0x40"
  "get16_at (am_build_status rx) 1 = ar_vr_next rx" "am_build_status rx ! 3 = word_of_nat (card (ar_holes rx))"
  by (simp_all add: am_build_status_def put16_def get16_at_def wire_simps)

subsection \<open>Holes and STATUS\<close>

text \<open>
  The reported holes: from the first missing position on, below some received position, and
  containing every position that is missing below a received one.
\<close>

definition holes_ok :: "nat set \<Rightarrow> u16 set \<Rightarrow> bool" where
  "holes_ok got holes \<longleftrightarrow>
     (\<forall>x \<in> holes. first_missing got \<le> unat x \<and> (\<exists>j \<in> got. unat x < j)) \<and>
     (\<forall>j \<in> got. \<forall>i < j. first_missing got \<le> i \<and> i \<notin> got \<longrightarrow> word_of_nat i \<in> holes)"

lemma am_record_holes_all:
  assumes "\<forall>x \<in> holes \<union> word_of_nat ` {sn..<seq}. m \<le> unat x \<and> unat x < m + 255" "seq < 65536"
  shows "am_record_holes sn seq holes = (holes \<union> word_of_nat ` {sn..<seq}, seq - sn)"
  using assms
proof (induction sn seq holes rule: am_record_holes.induct)
  case (1 sn seq holes)
  show ?case
  proof (cases "sn < seq")
    case False
    then show ?thesis by (simp add: am_record_holes.simps [of sn])
  next
    case True
    have "holes \<subseteq> {x. m \<le> unat x \<and> unat x < m + 255}" using 1(2) by auto
    then have "card holes \<le> card {x :: u16. m \<le> unat x \<and> unat x < m + 255}" by (rule card_mono [OF finite])
    also have "\<dots> \<le> 255" by (rule card_u16_window)
    finally have c: "card holes < 256" by simp
    have i: "{sn..<seq} = insert sn {sn + 1..<seq}" using True by auto
    have "am_record_holes (sn + 1) seq (insert (word_of_nat sn) holes) =
        (insert (word_of_nat sn) holes \<union> word_of_nat ` {sn + 1..<seq}, seq - (sn + 1))"
      by (rule 1(1)) (use True c 1(2,3) in \<open>simp_all only: i image_insert Un_insert_right Un_insert_left\<close>)
    moreover have "insert (word_of_nat sn) holes \<union> word_of_nat ` {sn + 1..<seq} =
        holes \<union> word_of_nat ` {sn..<seq}"
      unfolding i image_insert by simp
    ultimately show ?thesis
      using True c by (subst am_record_holes.simps) simp
  qed
qed

lemma holes_card:
  assumes "holes_ok got holes" "\<forall>j \<in> got. j < first_missing got + 256"
  shows "card holes \<le> 255"
proof -
  have "holes \<subseteq> {x. first_missing got \<le> unat x \<and> unat x < first_missing got + 255}"
    using assms by (fastforce simp: holes_ok_def)
  then have "card holes \<le> card {x :: u16. first_missing got \<le> unat x \<and> unat x < first_missing got + 255}"
    by (rule card_mono [OF finite])
  also have "\<dots> \<le> 255" by (rule card_u16_window)
  finally show ?thesis .
qed

lemma am_rx_holes:
  assumes inv: "am_inv 256 segs st got" and got: "got \<subseteq> {..<length segs}"
    and k: "k < length segs" and adm: "am_adm 256 segs got k" and h: "holes_ok got (ar_holes st)"
    and rx: "am_rx (am_stream segs polls k) st = (st', out)"
  shows "holes_ok (insert k got) (ar_holes st')"
proof -
  let ?m = "first_missing got" and ?sn = "word_of_nat k :: u16"
  define S where "S = bound_seen (insert ?sn (ar_seen st))"
  let ?st = "st\<lparr>ar_seen := S\<rparr>"
  have ok: "am_stream_ok segs" and kw: "k < ?m + 256" using adm by (simp_all add: am_adm_def)
  have at: "am_at segs got ?m st" and so: "seen_ok 256 got ?m (ar_seen st)"
    using inv by (simp_all add: am_inv_def Let_def)
  have n: "length segs \<le> 65535" "k < 65536" using ok k by (auto simp: am_stream_ok_def)
  have fin: "finite got" using got finite_subset by blast
  have mle: "?m < 65536" using first_missing_bound [OF got] n by simp
  have vr: "ar_vr_next st = word_of_nat ?m" using at by (simp add: am_at_def)
  have cmp: "?sn < ar_vr_next st \<longleftrightarrow> k < ?m" "?sn > ar_vr_next st \<longleftrightarrow> k > ?m"
    using n mle by (simp_all add: vr word_less_nat_alt)
  note rx = rx [unfolded am_rx_stream [OF ok k] Let_def, folded S_def]
  consider "k \<in> got" | "k = ?m" | "k \<notin> got" "?m < k"
    using below_first_missing [of k got] by fastforce
  then show ?thesis
  proof cases
    case 1
    then have g: "insert k got = got" by auto
    have "?sn \<in> ar_seen st \<or> k < ?m" using 1 so n by (force simp: seen_ok_def not_less [symmetric])
    with rx cmp have "ar_holes st' = ar_holes st" by (auto split: if_splits)
    with h g show ?thesis by simp
  next
    case 2
    have notin: "?m \<notin> got" by (rule first_missing_notin [OF fin])
    then have new: "?sn \<notin> ar_seen st" using so 2 n by (auto simp: seen_ok_def)
    obtain st1 o1 where a: "am_accept_in_order ?sn (segs ! k) ?st = (st1, o1)" by fastforce
    obtain st2 o2 where d: "am_drain_reorder st1 = (st2, o2)" by fastforce
    have r: "st' = st2" using rx new cmp a d less_irrefl 2 by auto
    have at': "am_at segs got k ?st" using at 2 by simp
    have none: "om_find (ar_reorder st) ?sn = None"
      using at' notin 2 n by (auto simp: am_at_def)
    note A = am_at_accept [OF at' ok k a]
    have "st1\<lparr>ar_reorder := om_erase ?sn (ar_reorder ?st)\<rparr> = st1"
      using A(4) by (simp add: om_erase_absent [OF none])
    with A(1) have at1: "am_at segs (insert k got) (Suc k) st1" by simp
    have gk: "insert k got \<subseteq> {..<length segs}" using got k by auto
    let ?m' = "first_missing (insert k got)"
    have "ar_holes st2 = ar_holes st - {word_of_nat k} - word_of_nat ` {Suc k..<?m'}" and le: "Suc k \<le> ?m'"
      using am_drain_at [OF at1 gk ok d] A(5) by simp_all
    then have hs: "ar_holes st2 = {x \<in> ar_holes st. ?m' \<le> unat x}"
    proof -
      have "x \<in> ar_holes st2 \<longleftrightarrow> x \<in> ar_holes st \<and> unat x \<noteq> k \<and> \<not> (Suc k \<le> unat x \<and> unat x < ?m')" for x
        using \<open>ar_holes st2 = _\<close> n first_missing_bound [OF gk] by (simp add: sn_image unat_eq_sn)
      moreover have "k \<le> unat x" if "x \<in> ar_holes st" for x using h that 2 by (simp add: holes_ok_def)
      moreover have "k \<le> u \<Longrightarrow> u \<noteq> k \<and> \<not> (Suc k \<le> u \<and> u < ?m') \<longleftrightarrow> ?m' \<le> u" for u
        using le by linarith
      ultimately show ?thesis by blast
    qed
    show ?thesis
      unfolding holes_ok_def r hs
    proof (intro conjI ballI allI impI)
      fix x assume "x \<in> {x \<in> ar_holes st. ?m' \<le> unat x}"
      then show "?m' \<le> unat x" "\<exists>j \<in> insert k got. unat x < j" using h by (auto simp: holes_ok_def)
    next
      fix j i assume j: "j \<in> insert k got" "i < j" "?m' \<le> i \<and> i \<notin> insert k got"
      with le have "j \<in> got" "?m \<le> i" using 2 by auto
      with h j have "word_of_nat i \<in> ar_holes st" by (auto simp: holes_ok_def)
      moreover have "i < 65536" using \<open>j \<in> got\<close> got j(2) n by force
      ultimately show "word_of_nat i \<in> {x \<in> ar_holes st. ?m' \<le> unat x}" using j by simp
    qed
  next
    case 3
    then have f: "first_missing (insert k got) = ?m" using fin by (intro first_missing_insert_other) auto
    have new: "?sn \<notin> ar_seen st" using so 3 n by (auto simp: seen_ok_def)
    have bound: "\<forall>x \<in> ar_holes st \<union> word_of_nat ` {?m..<k}. ?m \<le> unat x \<and> unat x < ?m + 255"
      using h so kw n by (fastforce simp: holes_ok_def seen_ok_def)
    have "am_record_holes (unat (ar_vr_next st)) (unat ?sn) (ar_holes st) = (ar_holes st \<union> word_of_nat ` {?m..<k}, k - ?m)"
      using am_record_holes_all [OF bound] n mle vr by simp
    then have "ar_holes st' = ar_holes st \<union> word_of_nat ` {?m..<k}"
      using rx new cmp 3 by (auto split: if_splits)
    then show ?thesis using h f n by (auto simp: holes_ok_def)
  qed
qed

subsection \<open>The receiver when it gives positions up\<close>

text \<open>
  Once the reordering timer has moved the receiver past missing positions, its hold area may
  keep PDUs behind the delivery edge and its partial SDU is dropped. What remains true of it:
  what it holds was received, its holes lie ahead, and a reassembly under way agrees with the
  stream's.
\<close>

definition am_loose :: "(u8 \<times> bytes) list \<Rightarrow> nat set \<Rightarrow> nat \<Rightarrow> am_rx_state \<Rightarrow> bool" where
  "am_loose segs got m st \<longleftrightarrow>
     ar_vr_next st = word_of_nat m \<and> m \<le> length segs \<and>
     (\<forall>x v. om_find (ar_reorder st) x = Some v \<longrightarrow> unat x \<in> got \<and> v = segs ! unat x) \<and>
     (\<forall>x \<in> ar_holes st. m \<le> unat x \<and> unat x < length segs) \<and>
     (ar_collecting st \<longrightarrow> (ar_collecting st, ar_partial st) = reasm_upto segs m)"

lemma am_loose_fields [simp]:
  "am_loose segs got m (st\<lparr>ar_seen := S\<rparr>) = am_loose segs got m st"
  "am_loose segs got m (st\<lparr>ar_gaps := g\<rparr>) = am_loose segs got m st"
  "am_loose segs got m (st\<lparr>ar_overflows := g\<rparr>) = am_loose segs got m st"
  "am_loose segs got m (st\<lparr>ar_tick_accepts := t, ar_last_progress_ms := l\<rparr>) = am_loose segs got m st"
  by (simp_all add: am_loose_def)

lemma am_loose_mono: "am_loose segs got m st \<Longrightarrow> got \<subseteq> got' \<Longrightarrow> am_loose segs got' m st"
  by (auto simp: am_loose_def)

text \<open>A reassembly that has lost its beginning delivers part of what the full one delivers.\<close>

lemma reasm_loose:
  assumes "c \<longrightarrow> (c, q) = full" "reasm (c, q) s = ((c', q'), out)" "reasm full s = (full', out')"
  shows "subseq out out' \<and> (c' \<longrightarrow> (c', q') = full')"
  using assms by (cases s; cases full) (auto split: if_splits)

lemma am_loose_accept:
  assumes st: "am_loose segs got m st" and ok: "am_stream_ok segs" and m: "m < length segs"
    and acc: "am_accept_in_order (word_of_nat m) (segs ! m) st = (st1, out)"
  shows "am_loose segs got (Suc m) st1" "subseq (sdus_upto segs m @ out) (sdus_upto segs (Suc m))"
    "ar_reorder st1 = ar_reorder st"
proof -
  obtain fi p where seg: "segs ! m = (fi, p)" by fastforce
  obtain full' out' where f: "reasm (reasm_upto segs m) (segs ! m) = (full', out')" by fastforce
  obtain c q o1 where r: "reasm (ar_collecting st, ar_partial st) (segs ! m) = ((c, q), o1)" by (metis prod.exhaust)
  have L: "subseq o1 out' \<and> (c \<longrightarrow> (c, q) = full')"
    using st by (intro reasm_loose [OF _ r f]) (simp add: am_loose_def)
  have "fi AND 0x30 = fi" using am_stream_ok_fi [OF ok m] seg by (intro am_fi_kept) simp
  then have "am_accept_in_order (word_of_nat m) (segs ! m) st =
    (st\<lparr>ar_vr_next := ar_vr_next st + 1, ar_holes := ar_holes st - {word_of_nat m},
        ar_accepts := ar_accepts st + 1, ar_collecting := c, ar_partial := q\<rparr>, o1)"
    unfolding seg using r seg by (intro am_accept_reasm) simp
  then have s: "st1 = st\<lparr>ar_vr_next := ar_vr_next st + 1, ar_holes := ar_holes st - {word_of_nat m},
      ar_accepts := ar_accepts st + 1, ar_collecting := c, ar_partial := q\<rparr>" "out = o1"
    using acc by simp_all
  have "m < 65536" using m ok by (simp add: am_stream_ok_def)
  then have h: "Suc m \<le> unat x" if "x \<in> ar_holes st - {word_of_nat m}" for x :: u16
    using st that unat_eq_sn [of m x] by (auto simp: am_loose_def Suc_le_eq le_less)
  show "am_loose segs got (Suc m) st1"
    using st L m h by (simp add: am_loose_def s upto_Suc(1) [OF m f])
  show "subseq (sdus_upto segs m @ out) (sdus_upto segs (Suc m))"
    using L by (simp add: s upto_Suc(2) [OF m f] list_emb_append_mono)
  show "ar_reorder st1 = ar_reorder st" by (simp add: s)
qed

lemma am_loose_drain:
  assumes "am_loose segs got m st" "got \<subseteq> {..<length segs}" "am_stream_ok segs" "am_drain_reorder st = (st', out)"
  shows "\<exists>m' \<ge> m. am_loose segs got m' st' \<and> subseq (sdus_upto segs m @ out) (sdus_upto segs m') \<and>
    {m..<m'} \<subseteq> got"
  using assms(1,4)
proof (induction st arbitrary: m st' out rule: am_drain_reorder.induct)
  case (1 st)
  have n: "length segs \<le> 65535" using assms(3) by (simp add: am_stream_ok_def)
  have vr: "ar_vr_next st = word_of_nat m" "m < 65536" using 1(2) n by (auto simp: am_loose_def)
  show ?case
  proof (cases "om_find (ar_reorder st) (ar_vr_next st)")
    case None
    then show ?thesis using 1(2,3) by (intro exI [of _ m]) (simp add: am_drain_reorder.simps [of st])
  next
    case (Some h)
    then have "unat (word_of_nat m :: u16) \<in> got \<and> h = segs ! unat (word_of_nat m :: u16)"
      using 1(2) unfolding am_loose_def vr(1) by blast
    then have h: "h = segs ! m" "m \<in> got" using vr by simp_all
    with assms(2) have m: "m < length segs" by auto
    obtain st1 o1 where a: "am_accept_in_order (word_of_nat m) (segs ! m) st = (st1, o1)" by fastforce
    let ?st = "st1\<lparr>ar_reorder := om_erase (word_of_nat m) (ar_reorder st)\<rparr>"
    obtain st2 o2 where d: "am_drain_reorder ?st = (st2, o2)" by fastforce
    have r: "st' = st2" "out = o1 @ o2"
      using 1(3) Some h vr a d by (simp_all add: am_drain_reorder.simps [of st])
    note A = am_loose_accept [OF 1(2) assms(3) m a]
    have "am_loose segs got (Suc m) ?st"
      using A(1,3) by (auto simp: am_loose_def)
    then obtain m' where m': "Suc m \<le> m'" "am_loose segs got m' st2"
        "subseq (sdus_upto segs (Suc m) @ o2) (sdus_upto segs m')" "{Suc m..<m'} \<subseteq> got"
      using 1(1) [OF Some refl, of st1 o1 "Suc m" st2 o2] a d h vr by auto
    have "subseq (sdus_upto segs m @ o1 @ o2) (sdus_upto segs (Suc m) @ o2)"
      using A(2) by (metis append_assoc subseq_append)
    then have "subseq (sdus_upto segs m @ out) (sdus_upto segs m')"
      unfolding r using m'(3) by (rule subseq_order.trans)
    moreover have "{m..<m'} = insert m {Suc m..<m'}" using m'(1) by auto
    ultimately show ?thesis using m'(1,2,4) h(2) r by (intro exI [of _ m']) simp
  qed
qed

lemma am_record_holes_subset:
  "fst (am_record_holes sn seq holes) \<subseteq> holes \<union> word_of_nat ` {sn..<seq}"
proof (induction sn seq holes rule: am_record_holes.induct)
  case (1 sn seq holes)
  show ?case
  proof (cases "sn < seq \<and> card holes < 256")
    case True
    then have "{sn..<seq} = insert sn {sn + 1..<seq}" by auto
    with 1 True show ?thesis
      by (subst am_record_holes.simps) (auto split: prod.splits)
  next
    case False
    then show ?thesis by (subst am_record_holes.simps) (simp only: if_False simp_thms fst_conv Un_upper1)
  qed
qed

lemma am_loose_rx:
  assumes st: "am_loose segs got m st" and got: "got \<subseteq> {..<length segs}" and ok: "am_stream_ok segs"
    and k: "k < length segs" and rx: "am_rx (am_stream segs polls k) st = (st', out)"
  shows "\<exists>m' \<ge> m. am_loose segs (insert k got) m' st' \<and>
    subseq (sdus_upto segs m @ ao_delivered out) (sdus_upto segs m') \<and> {m..<m'} \<subseteq> insert k got"
proof -
  let ?sn = "word_of_nat k :: u16"
  define S where "S = bound_seen (insert ?sn (ar_seen st))"
  let ?st = "st\<lparr>ar_seen := S\<rparr>"
  have n: "length segs \<le> 65535" "k < 65536" "m < 65536" using ok k st by (auto simp: am_stream_ok_def am_loose_def)
  have vr: "ar_vr_next st = word_of_nat m" using st by (simp add: am_loose_def)
  have cmp: "?sn < ar_vr_next st \<longleftrightarrow> k < m" "?sn > ar_vr_next st \<longleftrightarrow> k > m"
    using n by (simp_all add: vr word_less_nat_alt)
  have st': "am_loose segs (insert k got) m st" by (rule am_loose_mono [OF st]) auto
  note rx = rx [unfolded am_rx_stream [OF ok k] Let_def, folded S_def]
  consider "?sn \<in> ar_seen st \<or> k < m" | "?sn \<notin> ar_seen st" "m < k" | "?sn \<notin> ar_seen st" "k = m" by linarith
  then show ?thesis
  proof cases
    case 1
    then have "st' = st \<or> st' = ?st" "ao_delivered out = []"
      using rx cmp by (auto simp: am_no_outcome_def split: if_splits)
    then show ?thesis using st' by (intro exI [of _ m]) auto
  next
    case 2
    obtain h t where h: "am_record_holes (unat (ar_vr_next st)) (unat ?sn) (ar_holes st) = (h, t)" by fastforce
    have "h \<subseteq> ar_holes st \<union> word_of_nat ` {m..<k}"
      using am_record_holes_subset [of m k "ar_holes st"] h n by (simp add: vr)
    then have H: "\<forall>x \<in> h. m \<le> unat x \<and> unat x < length segs"
      using st n k by (fastforce simp: am_loose_def)
    have "am_loose segs (insert k got) m (st\<lparr>ar_seen := S, ar_holes := h, ar_gaps := ar_gaps st + t,
        ar_reorder := om_insert ?sn (segs ! k) (ar_reorder st)\<rparr>)"
      "am_loose segs (insert k got) m (st\<lparr>ar_seen := S, ar_holes := h, ar_gaps := ar_gaps st + t,
        ar_overflows := ar_overflows st + 1\<rparr>)"
      using st' H n by (auto simp: am_loose_def)
    then show ?thesis using rx 2 cmp h by (intro exI [of _ m]) (auto split: if_splits)
  next
    case 3
    obtain st1 o1 where a: "am_accept_in_order ?sn (segs ! k) ?st = (st1, o1)" by fastforce
    obtain st2 o2 where d: "am_drain_reorder st1 = (st2, o2)" by fastforce
    have r: "st' = st2" "ao_delivered out = o1 @ o2"
      using rx 3 cmp a d less_irrefl by auto
    have "am_loose segs (insert k got) m ?st" using st' by simp
    note A = am_loose_accept [OF this ok _ a [unfolded 3(2)]]
    have gk: "insert k got \<subseteq> {..<length segs}" using got k by auto
    obtain m' where m': "Suc m \<le> m'" "am_loose segs (insert k got) m' st2"
        "subseq (sdus_upto segs (Suc m) @ o2) (sdus_upto segs m')" "{Suc m..<m'} \<subseteq> insert k got"
      using am_loose_drain [OF A(1) gk ok d] k 3 by auto
    have "subseq (sdus_upto segs m @ o1 @ o2) (sdus_upto segs (Suc m) @ o2)"
      using A(2) k 3 by (metis append_assoc subseq_append)
    then have "subseq (sdus_upto segs m @ ao_delivered out) (sdus_upto segs m')"
      unfolding r using m'(3) by (rule subseq_order.trans)
    moreover have "{m..<m'} = insert k {Suc m..<m'}" using m'(1) 3(2) by auto
    ultimately show ?thesis using m'(1,2,4) r by (intro exI [of _ m']) simp
  qed
qed

text \<open>
  The receiver's tick either notes progress only, or gives up every hole: then the delivery
  edge moves past the last of them.
\<close>

lemma am_rx_tick_cases:
  assumes "am_rx_tick now st = (st', out)"
  obtains (idle) t l where "st' = st\<lparr>ar_tick_accepts := t, ar_last_progress_ms := l\<rparr>" "out = am_no_outcome"
  | (skip) t d where "ar_holes st \<noteq> {}" "out = \<lparr>ao_delivered = d, ao_status_needed = True\<rparr>"
      "am_drain_reorder (st\<lparr>ar_tick_accepts := t, ar_vr_next := Max (ar_holes st) + 1, ar_holes := {},
         ar_collecting := False, ar_partial := [], ar_last_progress_ms := uint now\<rparr>) = (st', d)"
proof -
  have same: "st = st\<lparr>ar_tick_accepts := ar_tick_accepts st, ar_last_progress_ms := ar_last_progress_ms st\<rparr>"
    by simp
  define st0 where "st0 = (if ar_accepts st \<noteq> ar_tick_accepts st
    then st\<lparr>ar_tick_accepts := ar_accepts st, ar_last_progress_ms := uint now\<rparr> else st)"
  obtain t l where s0: "st0 = st\<lparr>ar_tick_accepts := t, ar_last_progress_ms := l\<rparr>"
    unfolding st0_def using same by metis
  show thesis
  proof (cases "ac_t_reorder_ms (ar_cfg st) = 0 \<or> ar_holes st0 = {} \<or> ar_last_progress_ms st0 < 0 \<or>
      uint now - ar_last_progress_ms st0 < uint (ac_t_reorder_ms (ar_cfg st0))")
    case True
    then have "(st' = st \<or> st' = st0) \<and> out = am_no_outcome"
      using assms unfolding am_rx_tick_def Let_def st0_def [symmetric] by (auto split: if_splits)
    then show thesis using idle same s0 by metis
  next
    case False
    obtain s2 d where d: "am_drain_reorder (st0\<lparr>ar_vr_next := Max (ar_holes st0) + 1, ar_holes := {},
        ar_collecting := False, ar_partial := [], ar_last_progress_ms := uint now\<rparr>) = (s2, d)" by fastforce
    have "st' = s2" "out = \<lparr>ao_delivered = d, ao_status_needed = True\<rparr>"
      using assms False d unfolding am_rx_tick_def Let_def st0_def [symmetric] by auto
    with d False show thesis by (intro skip [of d t]) (simp_all add: s0)
  qed
qed

lemma am_loose_tick:
  assumes st: "am_loose segs got m st" and got: "got \<subseteq> {..<length segs}" and ok: "am_stream_ok segs"
    and tick: "am_rx_tick now st = (st', out)"
  shows "\<exists>m' \<ge> m. am_loose segs got m' st' \<and> subseq (sdus_upto segs m @ ao_delivered out) (sdus_upto segs m') \<and>
    (ar_holes st \<noteq> {} \<and> out \<noteq> am_no_outcome \<longrightarrow> m < m')"
  using tick
proof (cases rule: am_rx_tick_cases)
  case (idle t l)
  then show ?thesis using st by (intro exI [of _ m]) (simp add: am_no_outcome_def)
next
  case (skip t d)
  let ?h = "Max (ar_holes st)"
  let ?st = "st\<lparr>ar_tick_accepts := t, ar_vr_next := ?h + 1, ar_holes := {}, ar_collecting := False,
    ar_partial := [], ar_last_progress_ms := uint now\<rparr>"
  have "?h \<in> ar_holes st" using skip(1) by (intro Max_in) simp_all
  then have h: "m \<le> unat ?h" "unat ?h < length segs" using st by (auto simp: am_loose_def)
  have "?h + 1 = word_of_nat (Suc (unat ?h))" by simp
  then have "am_loose segs got (Suc (unat ?h)) ?st"
    using st h by (simp add: am_loose_def)
  from am_loose_drain [OF this got ok skip(3)] obtain m' where m': "Suc (unat ?h) \<le> m'" "am_loose segs got m' st'"
      "subseq (sdus_upto segs (Suc (unat ?h)) @ d) (sdus_upto segs m')" by blast
  have "subseq (sdus_upto segs m) (sdus_upto segs (Suc (unat ?h)))"
    using h(1) by (intro prefix_imp_subseq sdus_upto_mono) simp
  then have "subseq (sdus_upto segs m @ d) (sdus_upto segs (Suc (unat ?h)) @ d)" by simp
  from subseq_order.trans [OF this m'(3)] m'(1,2) h(1) show ?thesis
    by (intro exI [of _ m']) (simp add: skip(2))
qed

subsection \<open>The ARQ loop\<close>

text \<open>
  A transmitter and a receiver connected by a network that loses, repeats, delays and
  reorders: SDUs are submitted (a full buffer refuses them), any PDU sent so far may arrive
  (within 256 of the number the receiver expects), the receiver may report at any time, any
  report made so far may arrive, late or twice, and the ticks of both ends may fire. The run
  records the accepted SDUs, the PDUs in the order of their numbers, the positions received,
  those the receiver's reordering timer gave up (it moved past them without having got them),
  the reports made and the SDUs delivered.
\<close>

inductive am_run ::
  "am_config \<Rightarrow> am_tx_state \<Rightarrow> am_rx_state \<Rightarrow> bytes list \<Rightarrow> bytes list \<Rightarrow> nat set \<Rightarrow> nat set \<Rightarrow> bytes set \<Rightarrow>
   bytes list \<Rightarrow> bool"
  for cfg where
  am_start: "am_run cfg (am_tx_init cfg) (am_rx_init cfg) [] [] {} {} {} []"
| am_submit: "am_run cfg tx rx sdus pdus got lost stats dlv \<Longrightarrow> sdu \<noteq> [] \<Longrightarrow>
    length pdus + length (rlc_segments (ac_max_pdu_payload cfg) sdu) \<le> 65535 \<Longrightarrow>
    am_tx now sdu force tx = (tx', out) \<Longrightarrow>
    am_run cfg tx' rx (if out = [] then sdus else sdus @ [sdu]) (pdus @ out) got lost stats dlv"
| am_arrive: "am_run cfg tx rx sdus pdus got lost stats dlv \<Longrightarrow> k < length pdus \<Longrightarrow>
    k < unat (ar_vr_next rx) + 256 \<Longrightarrow> am_rx (pdus ! k) rx = (rx', out) \<Longrightarrow>
    am_run cfg tx rx' sdus pdus (insert k got) lost stats (dlv @ ao_delivered out)"
| am_reorder: "am_run cfg tx rx sdus pdus got lost stats dlv \<Longrightarrow> am_rx_tick now rx = (rx', out) \<Longrightarrow>
    am_run cfg tx rx' sdus pdus got (lost \<union> ({..<unat (ar_vr_next rx')} - got)) stats (dlv @ ao_delivered out)"
| am_report: "am_run cfg tx rx sdus pdus got lost stats dlv \<Longrightarrow>
    am_run cfg tx rx sdus pdus got lost (insert (am_build_status rx) stats) dlv"
| am_status: "am_run cfg tx rx sdus pdus got lost stats dlv \<Longrightarrow> s \<in> stats \<Longrightarrow>
    am_on_status now s tx = (tx', retx) \<Longrightarrow>
    am_run cfg tx' rx sdus pdus got lost stats dlv"
| am_probe: "am_run cfg tx rx sdus pdus got lost stats dlv \<Longrightarrow> am_tx_tick now tx = (tx', out) \<Longrightarrow>
    am_run cfg tx' rx sdus pdus got lost stats dlv"

abbreviation am_segs :: "am_config \<Rightarrow> bytes list \<Rightarrow> (u8 \<times> bytes) list" where
  "am_segs cfg sdus \<equiv> concat (map (rlc_segments (ac_max_pdu_payload cfg)) sdus)"

text \<open>What every run keeps, whether or not positions have been given up.\<close>

definition am_run_base ::
  "am_config \<Rightarrow> am_tx_state \<Rightarrow> am_rx_state \<Rightarrow> bytes list \<Rightarrow> bytes list \<Rightarrow> nat set \<Rightarrow> nat set \<Rightarrow> bytes set \<Rightarrow>
   bytes list \<Rightarrow> nat \<Rightarrow> bool" where
  "am_run_base cfg tx rx sdus pdus got lost stats dlv m \<longleftrightarrow>
     at_cfg tx = cfg \<and> (\<forall>sdu \<in> set sdus. sdu \<noteq> []) \<and> length pdus \<le> 65535 \<and>
     am_framed (am_segs cfg sdus) pdus \<and> (\<exists>a \<le> m. am_tx_at pdus a tx) \<and>
     got \<subseteq> {..<length pdus} \<and> am_loose (am_segs cfg sdus) got m rx \<and> {..<m} \<subseteq> got \<union> lost \<and>
     (\<forall>s \<in> stats. 4 \<le> length s \<and> s ! 0 = 0x40 \<and> (\<exists>b \<le> m. get16_at s 1 = word_of_nat b)) \<and>
     subseq dlv (sdus_upto (am_segs cfg sdus) m)"

text \<open>What it keeps as long as none has been: the receiver is exactly where the stream is.\<close>

definition am_run_inv :: "am_config \<Rightarrow> am_rx_state \<Rightarrow> bytes list \<Rightarrow> nat set \<Rightarrow> bytes list \<Rightarrow> bool" where
  "am_run_inv cfg rx sdus got dlv \<longleftrightarrow>
     am_inv 256 (am_segs cfg sdus) rx got \<and> holes_ok got (ar_holes rx) \<and>
     dlv = sdus_upto (am_segs cfg sdus) (first_missing got)"

lemma am_inv_extend:
  assumes "am_inv w segs rx got" "got \<subseteq> {..<length segs}"
  shows "am_inv w (segs @ extra) rx got"
proof -
  have m: "first_missing got \<le> length segs" by (rule first_missing_bound [OF assms(2)])
  have "(if m \<le> unat x \<and> unat x \<in> got then Some ((segs @ extra) ! unat x) else None) =
      (if m \<le> unat x \<and> unat x \<in> got then Some (segs ! unat x) else None)" for x :: u16 and m
    using assms(2) by (auto simp: nth_append)
  then show ?thesis
    using assms(1) by (simp add: am_inv_def am_at_def Let_def upto_append m)
qed

lemma am_segs_ok:
  assumes "0 < ac_max_pdu_payload cfg" "\<forall>sdu \<in> set sdus. sdu \<noteq> []" "length (am_segs cfg sdus) \<le> 65535"
  shows "am_stream_ok (am_segs cfg sdus)"
  using assms rlc_segments_shape(3) [OF assms(1)] by (fastforce simp: am_stream_ok_def)

lemma am_loose_extend:
  assumes "am_loose segs got m rx" "got \<subseteq> {..<length segs}"
  shows "am_loose (segs @ extra) got m rx"
  using assms unfolding am_loose_def by (fastforce simp: nth_append upto_append)

text \<open>Submitting keeps framing, buffer and what the receiver knows of the stream.\<close>

lemma am_base_submit:
  assumes I: "am_run_base cfg tx rx sdus pdus got lost stats dlv m" and pos: "0 < ac_max_pdu_payload cfg"
    and sdu: "sdu \<noteq> []" and room: "length pdus + length (rlc_segments (ac_max_pdu_payload cfg) sdu) \<le> 65535"
    and tx: "am_tx now sdu force tx = (tx', out)"
  shows "am_run_base cfg tx' rx (if out = [] then sdus else sdus @ [sdu]) (pdus @ out) got lost stats dlv m"
proof -
  note I = I [unfolded am_run_base_def]
  let ?ss = "rlc_segments (ac_max_pdu_payload cfg) sdu"
  from I obtain a where a: "a \<le> m" "am_tx_at pdus a tx" by blast
  have len: "length pdus = length (am_segs cfg sdus)" using I by (simp add: am_framed_def)
  have got: "got \<subseteq> {..<length (am_segs cfg sdus)}" using I len by simp
  consider "out = []" "am_tx_at pdus a tx'" "at_cfg tx' = cfg"
    | "out \<noteq> []" "am_tx_at (pdus @ out) a tx'" "at_cfg tx' = cfg" "am_framed (am_segs cfg sdus @ ?ss) (pdus @ out)"
    using am_tx_cases [OF a(2) _ _ sdu tx, of "am_segs cfg sdus"] I room pos len by auto
  then show ?thesis
  proof cases
    case 1
    with I a show ?thesis by (auto simp: am_run_base_def)
  next
    case 2
    have "length (pdus @ out) \<le> 65535" using 2(4) room len by (simp add: am_framed_def)
    moreover have "am_loose (am_segs cfg sdus @ ?ss) got m rx" using I am_loose_extend [OF _ got] by blast
    moreover have "sdus_upto (am_segs cfg sdus @ ?ss) m = sdus_upto (am_segs cfg sdus) m"
      using I by (intro upto_append(1)) (simp add: am_loose_def)
    moreover have "got \<subseteq> {..<length (pdus @ out)}" using I by auto
    ultimately show ?thesis using 2 I a sdu by (auto simp: am_run_base_def)
  qed
qed

text \<open>When the receiver moves on, from \<open>m\<close> to \<open>m'\<close>, the rest follows.\<close>

lemma am_base_receive:
  assumes I: "am_run_base cfg tx rx sdus pdus got lost stats dlv m" and "m \<le> m'"
    and "got \<subseteq> got'" "got' \<subseteq> {..<length pdus}" "lost \<subseteq> lost'" "{..<m'} \<subseteq> got' \<union> lost'"
    and "am_loose (am_segs cfg sdus) got' m' rx'"
    and "subseq (sdus_upto (am_segs cfg sdus) m @ d) (sdus_upto (am_segs cfg sdus) m')"
  shows "am_run_base cfg tx rx' sdus pdus got' lost' stats (dlv @ d) m'"
proof -
  note I = I [unfolded am_run_base_def]
  have "subseq (dlv @ d) (sdus_upto (am_segs cfg sdus) m @ d)" using I by simp
  then have "subseq (dlv @ d) (sdus_upto (am_segs cfg sdus) m')" using assms(8) by (rule subseq_order.trans)
  moreover have "\<exists>a \<le> m'. am_tx_at pdus a tx" using I assms(2) by (meson order_trans)
  moreover have "\<forall>s \<in> stats. 4 \<le> length s \<and> s ! 0 = 0x40 \<and> (\<exists>b \<le> m'. get16_at s 1 = word_of_nat b)"
    using I assms(2) by (meson order_trans)
  ultimately show ?thesis unfolding am_run_base_def using I assms(3-7) by blast
qed

lemma am_base_stream:
  assumes "am_run_base cfg tx rx sdus pdus got lost stats dlv m" "0 < ac_max_pdu_payload cfg"
  shows "am_stream_ok (am_segs cfg sdus)" "length pdus = length (am_segs cfg sdus)"
    "got \<subseteq> {..<length (am_segs cfg sdus)}" "m \<le> length pdus" "length pdus \<le> 65535"
    "unat (ar_vr_next rx) = m" "finite got"
    "k < length pdus \<Longrightarrow> \<exists>polls. pdus ! k = am_stream (am_segs cfg sdus) polls k"
proof -
  note I = assms(1) [unfolded am_run_base_def]
  show len: "length pdus = length (am_segs cfg sdus)" using I by (simp add: am_framed_def)
  show "am_stream_ok (am_segs cfg sdus)" using I len assms(2) by (intro am_segs_ok) auto
  show "got \<subseteq> {..<length (am_segs cfg sdus)}" using I len by simp
  then show "finite got" using finite_subset by blast
  show le: "length pdus \<le> 65535" using I by blast
  show m: "m \<le> length pdus" using I len by (simp add: am_loose_def)
  have "ar_vr_next rx = word_of_nat m" using I by (simp add: am_loose_def)
  then show "unat (ar_vr_next rx) = m" using m le by simp
  show "k < length pdus \<Longrightarrow> \<exists>polls. pdus ! k = am_stream (am_segs cfg sdus) polls k"
    using I len by (auto simp: am_framed_def)
qed

lemma am_run_base:
  assumes "am_run cfg tx rx sdus pdus got lost stats dlv" "0 < ac_max_pdu_payload cfg"
  shows "\<exists>m. am_run_base cfg tx rx sdus pdus got lost stats dlv m"
  using assms(1)
proof (induction rule: am_run.induct)
  case am_start
  have "am_framed [] []" by (simp add: am_framed_def)
  then show ?case
    by (intro exI [of _ 0])
      (simp add: am_run_base_def am_tx_at_def am_unacked_def am_tx_init_def am_loose_def am_rx_init_def)
next
  case (am_submit tx rx sdus pdus got lost stats dlv sdu now force tx' out)
  then show ?case using am_base_submit [OF _ assms(2)] by blast
next
  case (am_arrive tx rx sdus pdus got lost stats dlv k rx' out)
  then obtain m where I: "am_run_base cfg tx rx sdus pdus got lost stats dlv m" by blast
  let ?segs = "am_segs cfg sdus"
  note B = am_base_stream [OF I assms(2)]
  obtain polls where p: "pdus ! k = am_stream ?segs polls k" using B(8) am_arrive.hyps(2) by blast
  have L: "am_loose ?segs got m rx" using I by (simp add: am_run_base_def)
  have k: "k < length ?segs" using am_arrive.hyps(2) B(2) by simp
  obtain m' where m': "m \<le> m'" "am_loose ?segs (insert k got) m' rx'"
      "subseq (sdus_upto ?segs m @ ao_delivered out) (sdus_upto ?segs m')" "{m..<m'} \<subseteq> insert k got"
    using am_loose_rx [OF L B(3,1) k am_arrive.hyps(4) [unfolded p]] by blast
  have "{..<m} \<subseteq> got \<union> lost" using I by (simp add: am_run_base_def)
  moreover have "j \<in> {..<m} \<or> j \<in> {m..<m'}" if "j < m'" for j using that by auto
  ultimately have "{..<m'} \<subseteq> insert k got \<union> lost" using m'(4) by blast
  then show ?case
    using am_base_receive [OF I m'(1) _ _ _ _ m'(2,3)] B(2,3) k by auto
next
  case (am_reorder tx rx sdus pdus got lost stats dlv now rx' out)
  then obtain m where I: "am_run_base cfg tx rx sdus pdus got lost stats dlv m" by blast
  let ?segs = "am_segs cfg sdus"
  note B = am_base_stream [OF I assms(2)]
  have L: "am_loose ?segs got m rx" using I by (simp add: am_run_base_def)
  obtain m' where m': "m \<le> m'" "am_loose ?segs got m' rx'"
      "subseq (sdus_upto ?segs m @ ao_delivered out) (sdus_upto ?segs m')"
    using am_loose_tick [OF L B(3,1) am_reorder.hyps(2)] by blast
  have "unat (ar_vr_next rx') = m'" using m'(2) B(2,5) by (simp add: am_loose_def)
  then show ?case
    using am_base_receive [OF I m'(1) _ _ _ _ m'(2,3), of "lost \<union> ({..<m'} - got)"] B(2,3) by auto
next
  case (am_report tx rx sdus pdus got lost stats dlv)
  then obtain m where I: "am_run_base cfg tx rx sdus pdus got lost stats dlv m" by blast
  then have "ar_vr_next rx = word_of_nat m" by (simp add: am_run_base_def am_loose_def)
  then show ?case
    using I am_status_fields [of rx] unfolding am_run_base_def by (intro exI [of _ m]) auto
next
  case (am_status tx rx sdus pdus got lost stats dlv s now tx' retx)
  then obtain m where I: "am_run_base cfg tx rx sdus pdus got lost stats dlv m" by blast
  note B = am_base_stream [OF I assms(2)]
  from I obtain a where a: "a \<le> m" "am_tx_at pdus a tx" by (auto simp: am_run_base_def)
  from I am_status.hyps(2) obtain b where b: "4 \<le> length s" "s ! 0 = 0x40" "b \<le> m" "get16_at s 1 = word_of_nat b"
    unfolding am_run_base_def by blast
  have "b \<le> length pdus" using b B(4) by simp
  from am_on_status_at [OF a(2) B(5) this b(4) am_status.hyps(3) b(1,2)]
  have "\<exists>a \<le> m. am_tx_at pdus a tx'" "at_cfg tx' = at_cfg tx" using a(1) b(3) by (auto intro: exI [of _ "max a b"])
  with I show ?case unfolding am_run_base_def by blast
next
  case (am_probe tx rx sdus pdus got lost stats dlv now tx' out)
  then obtain m where I: "am_run_base cfg tx rx sdus pdus got lost stats dlv m" by blast
  then obtain a where a: "a \<le> m" "am_tx_at pdus a tx" by (auto simp: am_run_base_def)
  from am_tick_at [OF a(2) am_probe.hyps(2)] a(1)
  have "\<exists>a \<le> m. am_tx_at pdus a tx'" "at_cfg tx' = at_cfg tx" by blast+
  with I show ?case unfolding am_run_base_def by blast
qed

text \<open>While nothing has been given up, a tick of the receiver cannot have skipped anything.\<close>

lemma am_run_invariant:
  assumes "am_run cfg tx rx sdus pdus got lost stats dlv" "0 < ac_max_pdu_payload cfg" "lost = {}"
  shows "am_run_inv cfg rx sdus got dlv"
  using assms(1,3)
proof (induction rule: am_run.induct)
  case am_start
  then show ?case
    using am.inv_start [of 256 "[]" cfg] by (simp add: am_run_inv_def holes_ok_def am_rx_init_def)
next
  case (am_submit tx rx sdus pdus got lost stats dlv sdu now force tx' out)
  then have I: "am_run_inv cfg rx sdus got dlv" by blast
  obtain m where "am_run_base cfg tx rx sdus pdus got lost stats dlv m"
    using am_run_base [OF am_submit.hyps(1) assms(2)] by blast
  from am_base_stream [OF this assms(2)] have got: "got \<subseteq> {..<length (am_segs cfg sdus)}" by blast
  show ?case
    using I am_inv_extend [OF _ got] upto_append(1) [OF first_missing_bound [OF got]]
    by (simp add: am_run_inv_def)
next
  case (am_arrive tx rx sdus pdus got lost stats dlv k rx' out)
  then have I: "am_run_inv cfg rx sdus got dlv" by blast
  let ?segs = "am_segs cfg sdus"
  obtain m where b: "am_run_base cfg tx rx sdus pdus got lost stats dlv m"
    using am_run_base [OF am_arrive.hyps(1) assms(2)] by blast
  note B = am_base_stream [OF b assms(2)]
  obtain polls where p: "pdus ! k = am_stream ?segs polls k" using B(8) am_arrive.hyps(2) by blast
  have inv: "am_inv 256 ?segs rx got" "holes_ok got (ar_holes rx)" using I by (simp_all add: am_run_inv_def)
  then have "unat (ar_vr_next rx) = first_missing got"
    using first_missing_bound [OF B(3)] B(2,5) by (simp add: am_inv_def am_at_def Let_def)
  then have adm: "am_adm 256 ?segs got k" using B(1) am_arrive.hyps(3) by (simp add: am_adm_def)
  have k: "k < length ?segs" using am_arrive.hyps(2) B(2) by simp
  have rx: "am_rx (am_stream ?segs polls k) rx = (rx', out)" using am_arrive.hyps(4) p by simp
  show ?case
    using I am_rx_at [OF inv(1) B(3) k adm rx] am_rx_holes [OF inv(1) B(3) k adm inv(2) rx]
    by (auto simp: am_run_inv_def)
next
  case (am_reorder tx rx sdus pdus got lost stats dlv now rx' out)
  then have none: "lost = {}" "{..<unat (ar_vr_next rx')} \<subseteq> got" by blast+
  with am_reorder have I: "am_run_inv cfg rx sdus got dlv" by blast
  let ?segs = "am_segs cfg sdus"
  obtain m where b: "am_run_base cfg tx rx sdus pdus got lost stats dlv m"
    using am_run_base [OF am_reorder.hyps(1) assms(2)] by blast
  note B = am_base_stream [OF b assms(2)]
  have L: "am_loose ?segs got m rx" using b by (simp add: am_run_base_def)
  from am_reorder.hyps(2) show ?case
  proof (cases rule: am_rx_tick_cases)
    case (idle t l)
    then show ?thesis using I by (simp add: am_run_inv_def am_inv_def am_at_def Let_def am_no_outcome_def)
  next
    case (skip t d)
    then obtain m' where m': "am_loose ?segs got m' rx'" "m < m'"
      using am_loose_tick [OF L B(3,1) am_reorder.hyps(2)] by (auto simp: am_no_outcome_def)
    have "unat (ar_vr_next rx') = m'" using m'(1) B(2,5) by (simp add: am_loose_def)
    moreover have "m = first_missing got"
      using I B(2,3,5,6) first_missing_bound [OF B(3)] by (simp add: am_run_inv_def am_inv_def am_at_def Let_def)
    ultimately have "first_missing got \<in> got" using none(2) m'(2) by auto
    with first_missing_notin [OF B(7)] show ?thesis by blast
  qed
next
  case (am_report tx rx sdus pdus got lost stats dlv)
  then show ?case by blast
next
  case (am_status tx rx sdus pdus got lost stats dlv s now tx' retx)
  then show ?case by blast
next
  case (am_probe tx rx sdus pdus got lost stats dlv now tx' out)
  then show ?case by blast
qed

subsection \<open>Properties\<close>

text \<open>
  C1. ARQ safety: in every run over a lossy, reordering, duplicating network, with SDUs
  submitted, PDUs and STATUS reports arriving and both ends' ticks firing in any order (fewer
  than 65536 PDUs, arrivals within 256 of the number the receiver expects), the SDUs delivered
  are a subsequence of those accepted: in order, complete and without repetition. Every PDU
  that the receiver has neither got nor given up is still in the transmitter's buffer, byte
  for byte. As long as the receiver's reordering timer has given nothing up, what is
  delivered is a prefix of what was accepted, and all of it once every PDU has arrived.
\<close>

theorem am_arq_safe:
  assumes "am_run cfg tx rx sdus pdus got lost stats dlv" and "0 < ac_max_pdu_payload cfg"
  shows "subseq dlv sdus \<and>
    (\<forall>k < length pdus. k \<notin> got \<union> lost \<longrightarrow> om_find (at_buffer tx) (word_of_nat k) = Some (pdus ! k)) \<and>
    (lost = {} \<longrightarrow> prefix dlv sdus \<and> ({..<length pdus} \<subseteq> got \<longrightarrow> dlv = sdus))"
proof -
  obtain m where b: "am_run_base cfg tx rx sdus pdus got lost stats dlv m"
    using am_run_base [OF assms] by blast
  note B = am_base_stream [OF b assms(2)] and I = b [unfolded am_run_base_def]
  let ?segs = "am_segs cfg sdus"
  have all: "sdus_upto ?segs (length ?segs) = sdus"
    using I by (intro sdus_upto_all [OF assms(2) _ refl]) blast
  have pre: "prefix (sdus_upto ?segs j) sdus" if "j \<le> length ?segs" for j
    using sdus_upto_mono [OF that, of ?segs] all by simp
  from I obtain a where a: "a \<le> m" "am_tx_at pdus a tx" by blast
  have "subseq dlv sdus"
    using I pre [of m] B(2,4) by (metis prefix_imp_subseq subseq_order.trans)
  moreover have "om_find (at_buffer tx) (word_of_nat k) = Some (pdus ! k)"
    if "k < length pdus" "k \<notin> got \<union> lost" for k
  proof -
    have "\<not> k < m" using that(2) I by blast
    then have "a \<le> k" using a(1) by simp
    with a(2) that(1) B(5) show ?thesis by (simp add: am_tx_at_def am_unacked_find)
  qed
  moreover have "prefix dlv sdus \<and> ({..<length pdus} \<subseteq> got \<longrightarrow> dlv = sdus)" if "lost = {}"
  proof -
    have d: "dlv = sdus_upto ?segs (first_missing got)"
      using am_run_invariant [OF assms that] by (simp add: am_run_inv_def)
    have "dlv = sdus" if "{..<length pdus} \<subseteq> got"
    proof -
      have "got = {..<length pdus}" using that I by blast
      then show ?thesis using d all B(2) by (simp add: first_missing_all)
    qed
    with pre [OF first_missing_bound [OF B(3)]] d show ?thesis by simp
  qed
  ultimately show ?thesis by blast
qed

definition am_tiny_config :: am_config where
  "am_tiny_config = am_default_config\<lparr>ac_max_pdu_payload := 1, ac_tx_buffer_limit := 1\<rparr>"

lemma am_run_arrivals:
  assumes "am_run cfg tx rx sdus pdus {} lost stats dlv" "length pdus \<le> 256" "n \<le> length pdus"
  shows "\<exists>rx' dlv'. am_run cfg tx rx' sdus pdus {..<n} lost stats dlv'"
  using assms(3)
proof (induction n)
  case 0
  with assms(1) show ?case by auto
next
  case (Suc n)
  then obtain rx' dlv' where r: "am_run cfg tx rx' sdus pdus {..<n} lost stats dlv'" by auto
  obtain rx2 out where x: "am_rx (pdus ! n) rx' = (rx2, out)" by fastforce
  have "am_run cfg tx rx2 sdus pdus (insert n {..<n}) lost stats (dlv' @ ao_delivered out)"
    by (rule am_arrive [OF r _ _ x]) (use Suc.prems assms(2) in simp_all)
  then show ?case by (auto simp: lessThan_Suc)
qed

lemma am_demo_run:
  "\<exists>tx rx pdus dlv. am_run am_tiny_config tx rx [[1, 2, 3, 4, 5]] pdus {..<5} {} {} dlv \<and>
     length pdus = 5 \<and> length (at_buffer tx) = 5"
proof -
  define tx where "tx = fst (am_tx 0 [1, 2, 3, 4, 5] False (am_tx_init am_tiny_config))"
  define pdus where "pdus = snd (am_tx 0 [1, 2, 3, 4, 5] False (am_tx_init am_tiny_config))"
  have len: "length pdus = 5" "length (at_buffer tx) = 5" unfolding pdus_def tx_def by code_simp+
  have t: "am_tx 0 [1, 2, 3, 4, 5] False (am_tx_init am_tiny_config) = (tx, pdus)"
    by (simp add: tx_def pdus_def)
  have "pdus \<noteq> []" using len by auto
  then have "am_run am_tiny_config tx (am_rx_init am_tiny_config) [[1, 2, 3, 4, 5]] pdus {} {} {} []"
    using am_submit [OF am_start _ _ t]
    by (simp add: am_tiny_config_def am_default_config_def rlc_segments_def)
  from am_run_arrivals [OF this, of 5] len show ?thesis by auto
qed

theorem am_arq_safe_witness:
  "\<exists>tx rx pdus dlv. am_run am_tiny_config tx rx [[1, 2, 3, 4, 5]] pdus {..<5} {} {} dlv \<and>
     subseq dlv [[1, 2, 3, 4, 5]] \<and> dlv = [[1, 2, 3, 4, 5]]"
proof -
  obtain tx rx pdus dlv where r: "am_run am_tiny_config tx rx [[1, 2, 3, 4, 5]] pdus {..<5} {} {} dlv" "length pdus = 5"
    using am_demo_run by blast
  then show ?thesis using am_arq_safe [OF r(1)] by (auto simp: am_tiny_config_def)
qed

lemma status_nacks_build:
  assumes "card (ar_holes rx) \<le> 255"
  shows "status_nacks (am_build_status rx) = sorted_list_of_set (ar_holes rx)"
proof -
  let ?hs = "sorted_list_of_set (ar_holes rx)" and ?s = "am_build_status rx"
  have c: "unat (word_of_nat (card (ar_holes rx)) :: u8) = length ?hs" using assms by (simp add: unat_of_nat)
  have len: "length (concat (map put16 xs)) = 2 * length xs" for xs by (induction xs) simp_all
  have "length ?s = 4 + 2 * length ?hs" by (simp add: am_build_status_def len)
  then have tw: "takeWhile (\<lambda>i. 4 + 2 * i + 1 < length ?s) [0..<length ?hs] = [0..<length ?hs]"
    by (intro takeWhile_eq_all_conv [THEN iffD2]) auto
  have at: "i < length xs \<Longrightarrow> get16_at (concat (map put16 xs)) (2 * i) = xs ! i" for i xs
  proof (induction xs arbitrary: i)
    case (Cons x xs)
    then show ?case
      by (cases i) (simp_all add: get16_at_def put16_def wire_simps)
  qed simp
  have "get16_at ?s (4 + 2 * i) = ?hs ! i" if "i < length ?hs" for i
    using at [OF that] by (simp add: am_build_status_def get16_at_def put16_def)
  then show ?thesis
    unfolding status_nacks_def am_status_fields(4) c tw by (intro nth_equalityI) simp_all
qed

text \<open>
  ARQ recovery: whenever the receiver holds a PDU beyond a gap, the STATUS it builds makes
  the transmitter (unless it is rate limited) resend first of all the very PDU that blocks
  delivery, and nothing it had not sent before; and when that PDU arrives, delivery moves on.
\<close>

theorem am_status_recovers:
  assumes "am_run cfg tx rx sdus pdus got {} stats dlv" and "0 < ac_max_pdu_payload cfg"
    and "j \<in> got" and "first_missing got < j" and "0 < ac_probe_batch cfg"
    and "at_last_nack_burst_ms tx < 0 \<or> uint now - at_last_nack_burst_ms tx \<ge> uint (ac_t_poll_ms cfg)"
    and "am_on_status now (am_build_status rx) tx = (tx', retx)"
    and "am_rx (pdus ! first_missing got) rx = (rx', out)"
  shows "(\<exists>more. retx = pdus ! first_missing got # more) \<and> set retx \<subseteq> set pdus \<and>
    unat (ar_vr_next rx) < unat (ar_vr_next rx')"
proof -
  note I = am_run_invariant [OF assms(1,2) refl, unfolded am_run_inv_def]
  obtain m0 where b: "am_run_base cfg tx rx sdus pdus got {} stats dlv m0" using am_run_base [OF assms(1,2)] by blast
  note B = am_base_stream [OF b assms(2)]
  let ?segs = "am_segs cfg sdus" and ?m = "first_missing got"
  have n: "length pdus \<le> 65535" "got \<subseteq> {..<length pdus}" "length pdus = length ?segs"
    using B(2,3,5) by auto
  then have fin: "finite got" using finite_subset by blast
  have m: "?m < length pdus" using assms(3,4) n(2) by auto
  have vr: "ar_vr_next rx = word_of_nat ?m" using I by (auto simp: am_inv_def am_at_def Let_def)
  have "m0 = ?m" using vr m n B(6) by simp
  with b obtain a where a: "a \<le> ?m" "am_tx_at pdus a tx" by (auto simp: am_run_base_def)
  have cfg: "at_cfg tx = cfg" using b by (simp add: am_run_base_def)
  have h: "holes_ok got (ar_holes rx)" using I by blast
  have win: "\<forall>j \<in> got. j < ?m + 256" using I by (auto simp: am_inv_def seen_ok_def Let_def)
  have card: "card (ar_holes rx) \<le> 255" by (rule holes_card [OF h win])
  have mh: "word_of_nat ?m \<in> ar_holes rx"
    using h assms(3,4) first_missing_notin [OF fin] by (auto simp: holes_ok_def)
  have least: "Min (ar_holes rx) = word_of_nat ?m"
    using h mh m n by (intro Min_eqI) (auto simp: holes_ok_def word_le_nat_alt)
  then obtain hs where hs: "sorted_list_of_set (ar_holes rx) = word_of_nat ?m # hs"
    using sorted_list_of_set_nonempty [of "ar_holes rx"] mh by auto
  have cnt: "0 < unat (am_build_status rx ! 3)"
    using mh card by (auto simp: am_status_fields(4) unat_of_nat card_gt_0_iff)
  let ?buf = "filter (\<lambda>(sn, pdu). \<not> sn < word_of_nat ?m) (at_buffer tx)"
  have buf: "?buf = am_unacked pdus (max a ?m)"
    using a(2) am_unacked_ack [of pdus ?m a] n m by (simp add: am_tx_at_def)
  have "om_find ?buf (word_of_nat ?m) = Some (pdus ! ?m)"
    unfolding buf using a n m by (intro am_unacked_find) auto
  moreover have "retx = am_nack_burst (ac_probe_batch cfg) ?buf (word_of_nat ?m # hs)"
    using assms(6,7) cnt am_status_fields [of rx] cfg
    by (simp add: am_on_status_def Let_def status_nacks_build [OF card] hs vr)
  ultimately have "\<exists>more. retx = pdus ! ?m # more" using assms(5) by simp
  moreover have "set retx \<subseteq> set pdus"
    using am_on_status_at [OF a(2) n(1) less_imp_le [OF m] _ assms(7)] am_status_fields [of rx] vr by simp
  moreover have "unat (ar_vr_next rx) < unat (ar_vr_next rx')"
  proof -
    have r: "am_run cfg tx rx' sdus pdus (insert ?m got) {} stats (dlv @ ao_delivered out)"
      by (rule am_arrive [OF assms(1) m _ assms(8)]) (use vr m n in simp)
    from am_run_invariant [OF this assms(2) refl]
    have v: "ar_vr_next rx' = word_of_nat (first_missing (insert ?m got))" "insert ?m got \<subseteq> {..<length pdus}"
      using m n by (auto simp: am_run_inv_def am_inv_def am_at_def Let_def)
    have "?m < first_missing (insert ?m got)"
      using first_missing_mono [OF fin, of ?m] first_missing_notin [of "insert ?m got"] fin
      by (metis finite_insert insertI1 le_neq_implies_less)
    then show ?thesis using first_missing_bound [OF v(2)] n by (simp add: vr v)
  qed
  ultimately show ?thesis by blast
qed

lemma am_gap_run:
  "\<exists>tx rx. am_run am_default_config tx rx [[7], [8]] [am_build_pdu 0 0 [7], am_build_pdu 1 0 [8]] {1} {} {} [] \<and>
     at_last_nack_burst_ms tx = -1"
proof -
  define tx1 where "tx1 = fst (am_tx 0 [7] False (am_tx_init am_default_config))"
  define tx2 where "tx2 = fst (am_tx 0 [8] False tx1)"
  define rx1 where "rx1 = fst (am_rx (am_build_pdu 1 0 [8]) (am_rx_init am_default_config))"
  have "snd (am_tx 0 [7] False (am_tx_init am_default_config)) = [am_build_pdu 0 0 [7]]" by code_simp
  then have t1: "am_tx 0 [7] False (am_tx_init am_default_config) = (tx1, [am_build_pdu 0 0 [7]])"
    by (simp add: tx1_def prod_eq_iff)
  have "snd (am_tx 0 [8] False tx1) = [am_build_pdu 1 0 [8]]" unfolding tx1_def by code_simp
  then have t2: "am_tx 0 [8] False tx1 = (tx2, [am_build_pdu 1 0 [8]])"
    by (simp add: tx2_def prod_eq_iff)
  have nb: "at_last_nack_burst_ms tx2 = -1" unfolding tx2_def tx1_def by code_simp
  have "ao_delivered (snd (am_rx (am_build_pdu 1 0 [8]) (am_rx_init am_default_config))) = []" by code_simp
  then obtain out where r: "am_rx (am_build_pdu 1 0 [8]) (am_rx_init am_default_config) = (rx1, out)"
      "ao_delivered out = []"
    by (simp add: rx1_def prod_eq_iff)
  have l: "rlc_segments (ac_max_pdu_payload am_default_config) [b] = [(0, [b])]" for b
    by (simp add: rlc_segments_def am_default_config_def seg_fi_def seg_payload_def)
  have "am_run am_default_config tx1 (am_rx_init am_default_config) [[7]] [am_build_pdu 0 0 [7]] {} {} {} []"
    using am_submit [OF am_start _ _ t1] by (simp add: l)
  from am_submit [OF this _ _ t2]
  have "am_run am_default_config tx2 (am_rx_init am_default_config) [[7], [8]]
      [am_build_pdu 0 0 [7], am_build_pdu 1 0 [8]] {} {} {} []" by (simp add: l)
  from am_arrive [OF this, of 1 rx1 out] r
  have "am_run am_default_config tx2 rx1 [[7], [8]] [am_build_pdu 0 0 [7], am_build_pdu 1 0 [8]] {1} {} {} []"
    by simp
  with nb show ?thesis by blast
qed

theorem am_status_recovers_witness:
  "\<exists>tx rx tx' more. am_run am_default_config tx rx [[7], [8]] [am_build_pdu 0 0 [7], am_build_pdu 1 0 [8]] {1} {} {} [] \<and>
     am_on_status 5 (am_build_status rx) tx = (tx', am_build_pdu 0 0 [7] # more)"
proof -
  let ?pdus = "[am_build_pdu 0 0 [7], am_build_pdu 1 0 [8]]"
  obtain tx rx where r: "am_run am_default_config tx rx [[7], [8]] ?pdus {1} {} {} []" "at_last_nack_burst_ms tx = -1"
    using am_gap_run by blast
  obtain tx' retx where s: "am_on_status 5 (am_build_status rx) tx = (tx', retx)" by fastforce
  obtain rx' out where x: "am_rx (?pdus ! first_missing {1}) rx = (rx', out)" by fastforce
  have m: "first_missing {1} = 0" by (rule first_missing_eqI) auto
  show ?thesis
  proof (intro exI conjI)
    show "am_run am_default_config tx rx [[7], [8]] ?pdus {1} {} {} []" by (rule r(1))
    have "\<exists>more. retx = am_build_pdu 0 0 [7] # more"
      using am_status_recovers [OF r(1) _ _ _ _ _ s x, of 1, unfolded m] r(2)
      by (simp add: am_default_config_def)
    then show "am_on_status 5 (am_build_status rx) tx = (tx', am_build_pdu 0 0 [7] # tl retx)" using s by auto
  qed
qed

subsection \<open>A lost STATUS\<close>

text \<open>
  What the two ends can be made to do when no STATUS is on the way: SDUs are submitted, with
  the reserve of a forced one or without, the probe fires, PDUs sent earlier arrive again, the
  receiver ticks. The function returns the PDUs newly sent and every outcome of the receiver.
\<close>

datatype am_op = AmSubmit u32 bytes bool | AmProbe u32 | AmArrive nat | AmReorder u32

fun am_ops :: "bytes list \<Rightarrow> am_op list \<Rightarrow> am_tx_state \<times> am_rx_state \<Rightarrow>
    (am_tx_state \<times> am_rx_state) \<times> bytes list \<times> am_outcome list" where
  "am_ops pdus [] s = (s, [], [])"
| "am_ops pdus (AmSubmit now sdu force # ops) (tx, rx) =
     (let (tx', out) = am_tx now sdu force tx; (s, new, outs) = am_ops pdus ops (tx', rx) in (s, out @ new, outs))"
| "am_ops pdus (AmProbe now # ops) (tx, rx) = am_ops pdus ops (fst (am_tx_tick now tx), rx)"
| "am_ops pdus (AmArrive k # ops) (tx, rx) =
     (if k < length pdus
      then let (rx', out) = am_rx (pdus ! k) rx; (s, new, outs) = am_ops pdus ops (tx, rx') in (s, new, out # outs)
      else am_ops pdus ops (tx, rx))"
| "am_ops pdus (AmReorder now # ops) (tx, rx) =
     (let (rx', out) = am_rx_tick now rx; (s, new, outs) = am_ops pdus ops (tx, rx') in (s, new, out # outs))"

lemma am_ops_wedged:
  assumes ok: "am_stream_ok segs" "am_framed segs pdus"
  shows "ar_vr_next rx = word_of_nat (length pdus) \<Longrightarrow> ar_holes rx = {} \<Longrightarrow>
    ac_tx_buffer_limit (at_cfg tx) + 4 \<le> length (at_buffer tx) \<Longrightarrow>
    am_ops pdus ops (tx, rx) = ((tx', rx'), new, outs) \<Longrightarrow>
    new = [] \<and> set outs \<subseteq> {am_no_outcome} \<and> at_buffer tx' = at_buffer tx"
proof (induction ops arbitrary: tx rx new outs)
  case (Cons op ops)
  show ?case
  proof (cases op)
    case (AmSubmit now sdu force)
    define tx1 where "tx1 = fst (am_tx now sdu force tx)"
    have a: "am_tx now sdu force tx = (tx1, [])" "at_buffer tx1 = at_buffer tx" "at_cfg tx1 = at_cfg tx"
      using Cons.prems(3) by (simp_all add: tx1_def am_tx_def Let_def)
    then have "am_ops pdus ops (tx1, rx) = ((tx', rx'), new, outs)"
      using Cons.prems(4) by (simp add: AmSubmit split: prod.splits)
    with Cons.IH [of rx tx1] Cons.prems(1-3) a show ?thesis by simp
  next
    case (AmProbe now)
    have "at_buffer (fst (am_tx_tick now tx)) = at_buffer tx" "at_cfg (fst (am_tx_tick now tx)) = at_cfg tx"
      by (simp_all add: am_tx_tick_def Let_def)
    with Cons.IH [of rx "fst (am_tx_tick now tx)"] Cons.prems show ?thesis by (simp add: AmProbe)
  next
    case (AmArrive k)
    show ?thesis
    proof (cases "k < length pdus")
      case True
      obtain polls where n: "length pdus = length segs" and p: "pdus ! k = am_stream segs polls k"
        using ok(2) True by (auto simp: am_framed_def)
      have old: "word_of_nat k < ar_vr_next rx"
        using True n ok(1) Cons.prems(1) by (simp add: word_less_nat_alt am_stream_ok_def)
      define rx1 where "rx1 = fst (am_rx (pdus ! k) rx)"
      have x: "am_rx (pdus ! k) rx = (rx1, am_no_outcome)" "ar_vr_next rx1 = ar_vr_next rx" "ar_holes rx1 = ar_holes rx"
        using True n old am_rx_stream [OF ok(1), of k polls rx] by (simp_all add: rx1_def p Let_def)
      then obtain outs' where "am_ops pdus ops (tx, rx1) = ((tx', rx'), new, outs')" "outs = am_no_outcome # outs'"
        using Cons.prems(4) True by (auto simp: AmArrive split: prod.splits)
      with Cons.IH [of rx1 tx] Cons.prems(1-3) x show ?thesis by simp
    next
      case False
      with Cons show ?thesis by (simp add: AmArrive)
    qed
  next
    case (AmReorder now)
    define rx1 where "rx1 = fst (am_rx_tick now rx)"
    have x: "am_rx_tick now rx = (rx1, am_no_outcome)" "ar_vr_next rx1 = ar_vr_next rx" "ar_holes rx1 = ar_holes rx"
      using Cons.prems(2) by (simp_all add: rx1_def am_rx_tick_def Let_def)
    then obtain outs' where "am_ops pdus ops (tx, rx1) = ((tx', rx'), new, outs')" "outs = am_no_outcome # outs'"
      using Cons.prems(4) by (auto simp: AmReorder split: prod.splits)
    with Cons.IH [of rx1 tx] Cons.prems(1-3) x show ?thesis by simp
  qed
qed auto

text \<open>
  C40. A lost STATUS wedges the bearer. Let the receiver have everything that was sent, let the
  transmitter's buffer be full, the reserve of forced SDUs included, and let the STATUS PDUs
  on the way be lost. Then in every sequence of submissions (forced or not), probes, repeated
  arrivals of any PDU sent and receiver ticks, no further SDU is accepted, the receiver never
  asks for another STATUS (a duplicate returns before its poll bit is looked at) and the
  buffer never frees an entry.
\<close>

theorem am_lost_status_wedges:
  assumes "am_run cfg tx rx sdus pdus got {} stats dlv" and "0 < ac_max_pdu_payload cfg"
    and "{..<length pdus} \<subseteq> got" and "ac_tx_buffer_limit cfg + 4 \<le> length (at_buffer tx)"
    and "am_ops pdus ops (tx, rx) = ((tx', rx'), new, outs)"
  shows "new = [] \<and> (\<forall>out \<in> set outs. \<not> ao_status_needed out \<and> ao_delivered out = []) \<and>
    at_buffer tx' = at_buffer tx"
proof -
  note I = am_run_invariant [OF assms(1,2) refl, unfolded am_run_inv_def]
  obtain m where b: "am_run_base cfg tx rx sdus pdus got {} stats dlv m" using am_run_base [OF assms(1,2)] by blast
  note B = am_base_stream [OF b assms(2)]
  have g: "got = {..<length pdus}" using B(2,3) assms(3) by auto
  then have m: "first_missing got = length pdus" by (simp add: first_missing_all)
  have "ar_vr_next rx = word_of_nat (length pdus)" using I m by (auto simp: am_inv_def am_at_def Let_def)
  moreover have "ar_holes rx = {}" using I m g by (auto simp: holes_ok_def)
  moreover have "am_framed (am_segs cfg sdus) pdus" "at_cfg tx = cfg" using b by (simp_all add: am_run_base_def)
  ultimately show ?thesis
    using am_ops_wedged [OF B(1) _ _ _ _ assms(5)] assms(4) by (auto simp: am_no_outcome_def)
qed

theorem am_lost_status_wedges_witness:
  "\<exists>tx rx pdus dlv. am_run am_tiny_config tx rx [[1, 2, 3, 4, 5]] pdus {..<5} {} {} dlv \<and>
     fst (snd (am_ops pdus [AmProbe 1000, AmArrive 3, AmReorder 1010, AmSubmit 1020 [8] True] (tx, rx))) = []"
proof -
  obtain tx rx pdus dlv where r: "am_run am_tiny_config tx rx [[1, 2, 3, 4, 5]] pdus {..<5} {} {} dlv"
      "length pdus = 5" "length (at_buffer tx) = 5"
    using am_demo_run by blast
  obtain tx' rx' new outs where
    o: "am_ops pdus [AmProbe 1000, AmArrive 3, AmReorder 1010, AmSubmit 1020 [8] True] (tx, rx) = ((tx', rx'), new, outs)"
    by (metis prod.exhaust)
  have "0 < ac_max_pdu_payload am_tiny_config" "ac_tx_buffer_limit am_tiny_config + 4 \<le> length (at_buffer tx)"
    using r(3) by (simp_all add: am_tiny_config_def)
  then have "new = []" using am_lost_status_wedges [OF r(1) _ _ _ o] r(2) by auto
  with r(1) o show ?thesis by (metis fst_conv snd_conv)
qed
text \<open>
  The reordering timer gives up more than it means to: the delivery edge jumps behind the last
  hole, over PDUs that were received between the holes. Here PDUs 0, 2 and 4 arrive; when the
  timer expires, 4 is delivered, and 2 stays in the hold area behind the edge, undelivered,
  while the STATUS that follows acknowledges it.
\<close>

definition am_tick_demo :: "am_rx_state \<times> am_outcome" where
  "am_tick_demo =
     (let rx = (\<lambda>k. fst \<circ> am_rx (am_build_pdu k 0 [ucast k]));
          st = (rx 4 \<circ> rx 2 \<circ> rx 0) (am_rx_init am_default_config)
      in am_rx_tick 1010 (fst (am_rx_tick 10 st)))"

lemma am_tick_skips_received:
  "(case am_tick_demo of (st, out) \<Rightarrow> (ao_delivered out, om_find (ar_reorder st) 2, ar_vr_next st)) =
     ([[4]], Some (0, [2]), 5)"
  by code_simp

end
