(* ===== verification/RadioFrames.thy ===== *)
theory RadioFrames
  imports Prelude
begin

text \<open>
  Air framing, \<^verbatim>\<open>stack/core/src/radio_frames.cpp\<close>: the \<^verbatim>\<open>[type][rnti][payload]\<close> air frame, and the
  bit-domain framing that prefixes a 16-bit length and packs each byte least significant bit
  first. A bit is a byte holding 0 or 1, as in the source's bit vectors; readers only look at
  its lowest bit. The lemmas show that a receiver recovers the frame from the decoded bit
  stream whatever the PHY appends to it, and never reads past the stream's end.
\<close>

subsection \<open>Bytes as bits\<close>

definition append_byte_bits :: "u8 \<Rightarrow> u8 list" where
  "append_byte_bits v = map (\<lambda>i. drop_bit i v AND 1) [0..<8]"

definition read_byte :: "u8 list \<Rightarrow> nat \<Rightarrow> u8" where
  "read_byte bits off = fold (\<lambda>i v. v OR push_bit i (bits ! (off + i) AND 1)) [0..<8] 0"

lemma length_append_byte_bits [simp]: "length (append_byte_bits v) = 8"
  by (simp add: append_byte_bits_def)

lemma bit_one_bit: "bit (x AND 1 :: 'a::len word) n \<longleftrightarrow> n = 0 \<and> bit x 0"
  by (auto simp: bit_and_iff bit_1_iff)

lemma bit_fold_bits:
  "bit (fold (\<lambda>i v. v OR push_bit i (f i AND 1)) [0..<k] (0 :: 'a::len word)) n
     \<longleftrightarrow> n < k \<and> n < LENGTH('a) \<and> bit (f n) 0"
proof (induction k)
  case (Suc k)
  have "bit (push_bit k (f k AND 1)) n \<longleftrightarrow> n = k \<and> n < LENGTH('a) \<and> bit (f k) 0"
    by (auto simp only: bit_push_bit_iff bit_one_bit possible_bit_word)
  with Suc show ?case
    by (auto simp: bit_or_iff less_Suc_eq simp del: push_bit_and)
qed simp

lemma bit_read_byte: "bit (read_byte bits off) n \<longleftrightarrow> n < 8 \<and> bit (bits ! (off + n)) 0"
  by (simp only: read_byte_def bit_fold_bits) simp

lemma bit_append_byte_bits: "n < 8 \<Longrightarrow> bit (append_byte_bits v ! n) 0 = bit v n"
  by (simp add: append_byte_bits_def bit_one_bit bit_drop_bit_eq)

lemma read_append_byte:
  assumes "\<And>i. i < 8 \<Longrightarrow> bits ! (off + i) = append_byte_bits v ! i"
  shows "read_byte bits off = v"
  by (rule bit_word_eqI) (simp add: bit_read_byte assms bit_append_byte_bits)

text \<open>Byte \<open>i\<close> of a packed byte string sits at bit offset \<open>8 * i\<close>.\<close>

lemma length_concat_byte_bits [simp]:
  "length (concat (map append_byte_bits bs)) = 8 * length bs"
  by (induction bs) simp_all

lemma nth_concat_byte_bits:
  "i < length bs \<Longrightarrow> j < 8 \<Longrightarrow>
     concat (map append_byte_bits bs) ! (8 * i + j) = append_byte_bits (bs ! i) ! j"
proof (induction bs arbitrary: i)
  case (Cons b bs)
  then show ?case by (cases i) (simp_all add: nth_append)
qed simp

lemma read_packed_byte:
  "i < length bs \<Longrightarrow> read_byte (concat (map append_byte_bits bs) @ rest) (8 * i) = bs ! i"
  by (rule read_append_byte) (simp add: nth_append nth_concat_byte_bits)

subsection \<open>Air frames\<close>

datatype air_frame_type = MSG1_PRACH | MSG2_RAR | MSG3_CCCH | MSG4_CR | DATA

fun air_code :: "air_frame_type \<Rightarrow> u8" where
  "air_code MSG1_PRACH = 0xA1"
| "air_code MSG2_RAR = 0xA2"
| "air_code MSG3_CCCH = 0xA3"
| "air_code MSG4_CR = 0xA4"
| "air_code DATA = 0xA5"

definition air_of_code :: "u8 \<Rightarrow> air_frame_type option" where
  "air_of_code b =
     (if b = 0xA1 then Some MSG1_PRACH
      else if b = 0xA2 then Some MSG2_RAR
      else if b = 0xA3 then Some MSG3_CCCH
      else if b = 0xA4 then Some MSG4_CR
      else if b = 0xA5 then Some DATA
      else None)"

record air_frame =
  af_type :: air_frame_type
  af_rnti :: u16
  af_payload :: bytes

definition encode_frame :: "air_frame \<Rightarrow> bytes" where
  "encode_frame f = air_code (af_type f) # put16 (af_rnti f) @ af_payload f"

definition decode_frame :: "bytes \<Rightarrow> air_frame option" where
  "decode_frame data =
     (if length data < 3 then None
      else case air_of_code (data ! 0) of
          None \<Rightarrow> None
        | Some t \<Rightarrow> Some \<lparr>af_type = t, af_rnti = get16 (data ! 1) (data ! 2),
                         af_payload = drop 3 data\<rparr>)"

lemma air_of_code_code [simp]: "air_of_code (air_code t) = Some t"
  by (cases t) (simp_all add: air_of_code_def)

lemma decode_encode_frame [simp]: "decode_frame (encode_frame f) = Some f"
  by (simp add: decode_frame_def encode_frame_def put16_def wire_simps)

interpretation air_codec: wire_codec encode_frame decode_frame "\<lambda>_. True"
  by unfold_locales simp

lemma air_code_of_code: "air_of_code b = Some t \<Longrightarrow> air_code t = b"
  by (auto simp: air_of_code_def split: if_splits)

lemma encode_decode_frame:
  assumes "decode_frame data = Some f"
  shows "encode_frame f = data"
proof -
  from assms have len: "length data \<ge> 3" by (auto simp: decode_frame_def split: if_splits)
  then obtain a b c d where data: "data = a # b # c # d"
    by (metis Suc_le_length_iff numeral_3_eq_3)
  with assms show ?thesis
    by (auto simp: decode_frame_def encode_frame_def put16_def wire_simps air_code_of_code
        split: option.splits)
qed

subsection \<open>Bit-domain framing\<close>

definition pad_bits_to_even :: "u8 list \<Rightarrow> u8 list" where
  "pad_bits_to_even bits = (if length bits mod 2 = 0 then bits else bits @ [0])"

definition pack_air_bits :: "bytes \<Rightarrow> u8 list" where
  "pack_air_bits payload =
     (let len = size16 payload in
      pad_bits_to_even
        (append_byte_bits (byte_at 0 len) @ append_byte_bits (byte_at 1 len) @
         concat (map append_byte_bits payload)))"

definition unpack_air_bits :: "u8 list \<Rightarrow> bytes option" where
  "unpack_air_bits bits =
     (if length bits < 16 then None
      else
        let len = unat (get16 (read_byte bits 0) (read_byte bits 8)) in
        if 16 + len * 8 > length bits then None
        else Some (map (\<lambda>i. read_byte bits (16 + i * 8)) [0..<len]))"

text \<open>The framed stream is byte aligned, so the padding to an even length never applies.\<close>

lemma pack_air_bits_eq:
  "pack_air_bits payload =
     concat (map append_byte_bits
       (byte_at 0 (size16 payload) # byte_at 1 (size16 payload) # payload))"
  by (simp add: pack_air_bits_def pad_bits_to_even_def Let_def)

lemma unpack_pack_append:
  assumes "length payload < 65536"
  shows "unpack_air_bits (pack_air_bits payload @ rest) = Some payload"
proof -
  let ?bs = "byte_at 0 (size16 payload) # byte_at 1 (size16 payload) # payload"
  let ?bits = "pack_air_bits payload @ rest"
  have rd: "read_byte ?bits (8 * i) = ?bs ! i" if "i < length ?bs" for i
    unfolding pack_air_bits_eq by (rule read_packed_byte [OF that])
  have len: "unat (get16 (read_byte ?bits 0) (read_byte ?bits 8)) = length payload"
    using rd [of 0] rd [of 1] assms by (simp add: wire_simps)
  have "map (\<lambda>i. read_byte ?bits (16 + i * 8)) [0..<length payload] = payload"
  proof (rule nth_equalityI)
    fix i assume "i < length (map (\<lambda>i. read_byte ?bits (16 + i * 8)) [0..<length payload])"
    then show "map (\<lambda>i. read_byte ?bits (16 + i * 8)) [0..<length payload] ! i = payload ! i"
      using rd [of "i + 2"] by (simp add: algebra_simps)
  qed simp
  moreover have "length ?bits \<ge> 16 + length payload * 8"
    by (simp add: pack_air_bits_eq)
  ultimately show ?thesis
    using len by (simp add: unpack_air_bits_def Let_def)
qed

text \<open>
  C28. Over the air: the receiver recovers every frame from the bit stream. Packing the
  encoding of an air frame whose payload has at most 65532 bytes and unpacking it again,
  with any bits at all appended by the symbol padding, yields the bytes, and decoding them
  yields the frame; the stream has an even number of bits, as the QPSK mapper requires.
\<close>

theorem air_frame_over_the_air:
  assumes "length (af_payload f) \<le> 65532"
  shows "Option.bind (unpack_air_bits (pack_air_bits (encode_frame f) @ padding)) decode_frame
           = Some f \<and>
         even (length (pack_air_bits (encode_frame f)))"
proof -
  have "length (encode_frame f) < 65536"
    using assms by (simp add: encode_frame_def)
  then show ?thesis
    by (simp add: unpack_pack_append) (simp add: pack_air_bits_eq)
qed

theorem air_frame_over_the_air_witness:
  "Option.bind (unpack_air_bits (pack_air_bits (encode_frame
      \<lparr>af_type = DATA, af_rnti = 0x1234, af_payload = [1, 2, 3]\<rparr>) @ [1, 1, 0])) decode_frame
    = Some \<lparr>af_type = DATA, af_rnti = 0x1234, af_payload = [1, 2, 3]\<rparr>"
  by (rule air_frame_over_the_air [THEN conjunct1]) simp

text \<open>
  On an arbitrary decoded bit stream the unframing either refuses or returns a payload
  whose declared bits all lie inside the stream; and it refuses exactly when the stream is
  shorter than the length field or than what the field declares.
\<close>

theorem unpack_air_bits_within_stream:
  "case unpack_air_bits bits of
     None \<Rightarrow> length bits < 16 \<or>
       length bits < 16 + 8 * unat (get16 (read_byte bits 0) (read_byte bits 8))
   | Some payload \<Rightarrow> 16 + 8 * length payload \<le> length bits \<and>
       length payload = unat (get16 (read_byte bits 0) (read_byte bits 8))"
  by (auto simp: unpack_air_bits_def Let_def algebra_simps split: option.splits)

end
