(* ===== verification/Fec.thy ===== *)
theory Fec
  imports RadioFrames
begin

text \<open>
  Forward error correction, \<^verbatim>\<open>stack/phy/src/fec.cpp\<close>: CRC16-CCITT, the rate 1/2 convolutional code
  with constraint length 7 (generators 133 and 171 octal), and the hard-decision Viterbi
  decoder with optional erasures. The decoder is written as the source has it: path metrics
  and a survivor table per step, add-compare-select over all states in index order, then the
  trace back from the best end state. The lemmas show that the CRC detects every corruption
  confined to one byte, that the decoder is a maximum-likelihood decoder, and that it inverts
  the encoder on an error-free stream.
\<close>

datatype cpp_exception = invalid_argument | length_error

subsection \<open>CRC16-CCITT\<close>

definition crc_shift :: "u16 \<Rightarrow> u16" where
  "crc_shift crc = (if crc AND 0x8000 \<noteq> 0 then push_bit 1 crc XOR 0x1021 else push_bit 1 crc)"

definition crc_byte :: "u8 \<Rightarrow> u16 \<Rightarrow> u16" where
  "crc_byte byte crc = (crc_shift ^^ 8) (crc XOR push_bit 8 (ucast byte))"

definition crc16 :: "bytes \<Rightarrow> u16" where
  "crc16 data = fold crc_byte data 0xFFFF"

definition crc_attach :: "bytes \<Rightarrow> bytes" where
  "crc_attach payload = (let fcs = crc16 payload in payload @ [byte_at 0 fcs, byte_at 1 fcs])"

text \<open>
  The source fills an output vector and returns a flag; the vector is meaningful only when
  the flag is true (every caller tests it first), so the model returns an option.
\<close>

definition crc_verify_strip :: "bytes \<Rightarrow> bytes option" where
  "crc_verify_strip block =
     (if length block < 2 then None
      else
        let n = length block; payload = take (n - 2) block in
        if crc16 payload = get16 (block ! (n - 2)) (block ! (n - 1)) then Some payload else None)"

subsection \<open>The trellis\<close>

definition G1 :: u32 where "G1 = 91"
definition G2 :: u32 where "G2 = 121"

definition parity :: "u32 \<Rightarrow> u32" where
  "parity v =
     (let v = v XOR drop_bit 16 v;
          v = v XOR drop_bit 8 v;
          v = v XOR drop_bit 4 v;
          v = v XOR drop_bit 2 v;
          v = v XOR drop_bit 1 v
      in v AND 1)"

definition trellis_reg :: "nat \<Rightarrow> nat \<Rightarrow> u32" where
  "trellis_reg s i = push_bit 6 (word_of_nat i) OR word_of_nat s"

definition trellis_next :: "nat \<Rightarrow> nat \<Rightarrow> nat" where
  "trellis_next s i = unat (drop_bit 1 (trellis_reg s i))"

definition trellis_out :: "nat \<Rightarrow> nat \<Rightarrow> nat" where
  "trellis_out s i =
     unat (push_bit 1 (parity (trellis_reg s i AND G1)) OR parity (trellis_reg s i AND G2))"

subsection \<open>Encoder\<close>

definition coded_size :: "nat \<Rightarrow> nat" where
  "coded_size n = (n + 6) * 2"

fun fec_emit :: "nat \<Rightarrow> nat list \<Rightarrow> u8 list" where
  "fec_emit s [] = []"
| "fec_emit s (i # is) =
     [word_of_nat (trellis_out s i div 2), word_of_nat (trellis_out s i mod 2)]
       @ fec_emit (trellis_next s i) is"

definition fec_encode :: "u8 list \<Rightarrow> u8 list" where
  "fec_encode bits = fec_emit 0 (map (\<lambda>b. if b \<noteq> 0 then 1 else 0) bits @ replicate 6 0)"

subsection \<open>Viterbi decoder\<close>

text \<open>
  One received step: the two hard decisions and their weights (0 for an erased bit).
\<close>

record rx_step =
  rs_r0 :: nat
  rs_r1 :: nat
  rs_w0 :: int
  rs_w1 :: int

definition kInf :: int where "kInf = 0x3FFFFFFF"

definition rx_step_at :: "u8 list \<Rightarrow> u8 list option \<Rightarrow> nat \<Rightarrow> rx_step" where
  "rx_step_at coded soft k =
     \<lparr>rs_r0 = (if coded ! (2 * k) > 0 then 1 else 0),
      rs_r1 = (if coded ! (2 * k + 1) > 0 then 1 else 0),
      rs_w0 = (case soft of None \<Rightarrow> 1 | Some c \<Rightarrow> if c ! (2 * k) = 2 then 0 else 1),
      rs_w1 = (case soft of None \<Rightarrow> 1 | Some c \<Rightarrow> if c ! (2 * k + 1) = 2 then 0 else 1)\<rparr>"

definition branch_metric :: "rx_step \<Rightarrow> nat \<Rightarrow> nat \<Rightarrow> int" where
  "branch_metric r s i =
     (if rs_r0 r \<noteq> trellis_out s i div 2 then rs_w0 r else 0) +
     (if rs_r1 r \<noteq> trellis_out s i mod 2 then rs_w1 r else 0)"

definition acs ::
  "int list \<Rightarrow> rx_step \<Rightarrow> nat \<times> nat \<Rightarrow> int list \<times> nat list \<Rightarrow> int list \<times> nat list" where
  "acs pm r = (\<lambda>(s, i) (pm_next, row).
     if pm ! s \<ge> kInf then (pm_next, row)
     else
       let ns = trellis_next s i; cand = pm ! s + branch_metric r s i in
       if cand < pm_next ! ns then (pm_next[ns := cand], row[ns := s]) else (pm_next, row))"

definition trellis_edges :: "(nat \<times> nat) list" where
  "trellis_edges = concat (map (\<lambda>s. [(s, 0), (s, 1)]) [0..<64])"

definition viterbi_step :: "rx_step \<Rightarrow> int list \<times> nat list list \<Rightarrow> int list \<times> nat list list" where
  "viterbi_step r = (\<lambda>(pm, hist).
     let (pm', row) = fold (acs pm r) trellis_edges (replicate 64 kInf, replicate 64 0)
     in (pm', hist @ [row]))"

definition viterbi_init :: "int list \<times> nat list list" where
  "viterbi_init = ((replicate 64 kInf)[0 := 0], [])"

definition best_state :: "int list \<Rightarrow> nat" where
  "best_state pm = fold (\<lambda>s best. if pm ! s < pm ! best then s else best) [1..<64] 0"

text \<open>Trace back over the survivor rows, latest first; the input bit is bit 5 of the state.\<close>

fun traceback :: "nat list list \<Rightarrow> nat \<Rightarrow> nat list \<Rightarrow> nat list" where
  "traceback [] s acc = acc"
| "traceback (row # rows) s acc = traceback rows (row ! s) (s div 32 mod 2 # acc)"

text \<open>
  The final \<^verbatim>\<open>inputs.resize(n_steps - (K - 1))\<close> is computed in \<^verbatim>\<open>size_t\<close>: with fewer than six steps
  it wraps to a huge size and the vector throws \<^verbatim>\<open>std::length_error\<close>.
\<close>

definition fec_decode :: "u8 list \<Rightarrow> u8 list option \<Rightarrow> cpp_exception + u8 list" where
  "fec_decode coded soft =
     (if length coded mod 2 \<noteq> 0 \<or> coded = [] then Inl invalid_argument
      else
        let n_steps = length coded div 2;
            (pm, hist) = fold viterbi_step (map (rx_step_at coded soft) [0..<n_steps]) viterbi_init;
            inputs = traceback (rev hist) (best_state pm) []
        in if n_steps < 6 then Inl length_error
           else Inr (map word_of_nat (take (n_steps - 6) inputs)))"

subsection \<open>Bytes and bits\<close>

definition bytes_to_bits_fec :: "bytes \<Rightarrow> u8 list" where
  "bytes_to_bits_fec bs = concat (map append_byte_bits bs)"

definition bits_to_bytes_fec :: "u8 list \<Rightarrow> cpp_exception + bytes" where
  "bits_to_bytes_fec bits =
     (if length bits mod 8 \<noteq> 0 then Inl invalid_argument
      else Inr (map (\<lambda>j. fold (\<lambda>i v. v OR push_bit i (if bits ! (8 * j + i) \<noteq> 0 then 1 else 0))
                          [0..<8] 0)
                 [0..<length bits div 8]))"

subsection \<open>The trellis as arithmetic\<close>

definition xor_fold :: "nat \<Rightarrow> u32 \<Rightarrow> u32" where
  "xor_fold k v = v XOR drop_bit k v"

lemma parity_fold:
  "parity v = xor_fold 1 (xor_fold 2 (xor_fold 4 (xor_fold 8 (xor_fold 16 v)))) AND 1"
  by (simp only: parity_def xor_fold_def Let_def)

lemma xor_fold_xor: "xor_fold k (x XOR y) = xor_fold k x XOR xor_fold k y"
  by (simp only: xor_fold_def drop_bit_xor xor.assoc xor.left_commute)

lemma parity_xor: "parity (x XOR y) = parity x XOR parity y"
  by (simp only: parity_fold xor_fold_xor bit.conj_xor_distrib2)

lemma parity_01: "parity x = 0 \<or> parity x = 1"
proof -
  have "parity x = of_bool (odd (xor_fold 1 (xor_fold 2 (xor_fold 4 (xor_fold 8 (xor_fold 16 x))))))"
    by (simp only: parity_fold and_one_eq mod_2_eq_odd)
  then show ?thesis by simp
qed

text \<open>What the table of the source holds: the next state, and that the register for input 1
  differs from the one for input 0 in the newest tap only.\<close>

lemma trellis_table:
  "\<forall>s \<in> set [0..<64]. trellis_next s 0 = s div 2 \<and> trellis_next s 1 = 32 + s div 2 \<and>
     trellis_reg s 1 = trellis_reg s 0 XOR 64"
  by code_simp

lemma trellis_next_eq: "s < 64 \<Longrightarrow> i < 2 \<Longrightarrow> trellis_next s i = 32 * i + s div 2"
  using trellis_table by (auto simp: less_2_cases_iff)

lemma trellis_next_less: "s < 64 \<Longrightarrow> i < 2 \<Longrightarrow> trellis_next s i < 64"
  by (auto simp: trellis_next_eq less_2_cases_iff)

lemma trellis_next_input: "s < 64 \<Longrightarrow> i < 2 \<Longrightarrow> trellis_next s i div 32 mod 2 = i"
  by (auto simp: trellis_next_eq less_2_cases_iff)

lemma trellis_out_bits:
  "trellis_out s i div 2 = unat (parity (trellis_reg s i AND G1))"
  "trellis_out s i mod 2 = unat (parity (trellis_reg s i AND G2))"
proof -
  have "unat (push_bit 1 (parity x) OR parity y) = 2 * unat (parity x) + unat (parity y)"
    and "unat (parity y) < 2" for x y
    using parity_01 [of x] parity_01 [of y] by auto
  then show "trellis_out s i div 2 = unat (parity (trellis_reg s i AND G1))"
    "trellis_out s i mod 2 = unat (parity (trellis_reg s i AND G2))"
    by (simp_all add: trellis_out_def)
qed

lemma trellis_out_less: "trellis_out s i div 2 < 2" "trellis_out s i mod 2 < 2"
  using parity_01 [of "trellis_reg s i AND G1"] by (auto simp: trellis_out_bits(1))

text \<open>Both generators tap the input bit, so the two branches of a state differ in both outputs.\<close>

lemma trellis_out_differs:
  assumes "s < 64"
  shows "trellis_out s 0 div 2 \<noteq> trellis_out s 1 div 2"
proof -
  have "trellis_reg s 1 AND G1 = (trellis_reg s 0 AND G1) XOR 64"
    using trellis_table assms by (simp add: G1_def bit.conj_xor_distrib2)
  then have "parity (trellis_reg s 1 AND G1) = parity (trellis_reg s 0 AND G1) XOR parity 64"
    by (simp only: parity_xor)
  also have "parity 64 = 1" by (simp add: parity_def)
  finally show ?thesis
    using parity_01 [of "trellis_reg s 0 AND G1"] by (auto simp: trellis_out_bits)
qed

subsection \<open>Paths through the trellis\<close>

fun run_state :: "nat \<Rightarrow> nat list \<Rightarrow> nat" where
  "run_state s [] = s"
| "run_state s (i # is) = run_state (trellis_next s i) is"

fun path_metric :: "nat \<Rightarrow> rx_step list \<Rightarrow> nat list \<Rightarrow> int" where
  "path_metric s (r # rs) (i # is) = branch_metric r s i + path_metric (trellis_next s i) rs is"
| "path_metric s rs is = 0"

definition input_seq :: "nat \<Rightarrow> nat list \<Rightarrow> bool" where
  "input_seq n x \<longleftrightarrow> length x = n \<and> (\<forall>i \<in> set x. i < 2)"

lemma input_seq_snoc: "input_seq (Suc n) y \<longleftrightarrow> (\<exists>x i. y = x @ [i] \<and> input_seq n x \<and> i < 2)"
  by (cases y rule: rev_cases) (auto simp: input_seq_def)

lemma run_state_snoc [simp]: "run_state s (x @ [i]) = trellis_next (run_state s x) i"
  by (induction x arbitrary: s) simp_all

lemma run_state_less: "s < 64 \<Longrightarrow> \<forall>i \<in> set x. i < 2 \<Longrightarrow> run_state s x < 64"
  by (induction x arbitrary: s) (simp_all add: trellis_next_less)

lemma path_metric_snoc:
  "length rs = length x \<Longrightarrow>
     path_metric s (rs @ [r]) (x @ [i]) = path_metric s rs x + branch_metric r (run_state s x) i"
  by (induction rs x arbitrary: s rule: list_induct2) simp_all

lemma fec_emit_snoc:
  "fec_emit s (x @ [i]) = fec_emit s x @
     [word_of_nat (trellis_out (run_state s x) i div 2), word_of_nat (trellis_out (run_state s x) i mod 2)]"
  by (induction x arbitrary: s) simp_all

lemma length_fec_emit [simp]: "length (fec_emit s x) = 2 * length x"
  by (induction x arbitrary: s) simp_all

definition weights_ok :: "rx_step \<Rightarrow> bool" where
  "weights_ok r \<longleftrightarrow> rs_w0 r \<in> {0, 1} \<and> rs_w1 r \<in> {0, 1}"

lemma branch_metric_bounds: "weights_ok r \<Longrightarrow> 0 \<le> branch_metric r s i \<and> branch_metric r s i \<le> 2"
  by (auto simp: branch_metric_def weights_ok_def)

lemma path_metric_bounds:
  "\<forall>r \<in> set rs. weights_ok r \<Longrightarrow> 0 \<le> path_metric s rs x \<and> path_metric s rs x \<le> 2 * int (length rs)"
proof (induction s rs x rule: path_metric.induct)
  case (1 s r rs i "is")
  then show ?case using branch_metric_bounds [of r s i] by auto
qed simp_all

subsection \<open>Add, compare, select\<close>

text \<open>
  After the edges in \<open>L\<close> have been offered: each entry is a lower bound of the candidates
  into it, and an entry below infinity is the candidate of the survivor its row names.
\<close>

definition acs_inv :: "int list \<Rightarrow> rx_step \<Rightarrow> (nat \<times> nat) list \<Rightarrow> int list \<times> nat list \<Rightarrow> bool" where
  "acs_inv pm r L = (\<lambda>(pm', row).
     length pm' = 64 \<and> length row = 64 \<and>
     (\<forall>ns < 64. pm' ! ns \<le> kInf \<and>
       (\<forall>(s, i) \<in> set L. pm ! s < kInf \<longrightarrow> trellis_next s i = ns \<longrightarrow>
          pm' ! ns \<le> pm ! s + branch_metric r s i) \<and>
       (pm' ! ns < kInf \<longrightarrow>
          (\<exists>i. (row ! ns, i) \<in> set L \<and> pm ! (row ! ns) < kInf \<and> trellis_next (row ! ns) i = ns \<and>
               pm' ! ns = pm ! (row ! ns) + branch_metric r (row ! ns) i))))"

lemma acs_inv_init: "acs_inv pm r [] (replicate 64 kInf, replicate 64 0)"
  by (simp add: acs_inv_def)

lemma acs_inv_step:
  assumes inv: "acs_inv pm r L x" and si: "s < 64" "i < 2"
  shows "acs_inv pm r (L @ [(s, i)]) (acs pm r (s, i) x)"
proof -
  obtain pm' row where x: "x = (pm', row)" by (cases x)
  let ?ns = "trellis_next s i" and ?c = "pm ! s + branch_metric r s i"
  have ns: "?ns < 64" using si by (rule trellis_next_less)
  show ?thesis
  proof (cases "pm ! s < kInf \<and> ?c < pm' ! ?ns")
    case True
    then have e: "acs pm r (s, i) x = (pm'[?ns := ?c], row[?ns := s])"
      by (simp add: acs_def x Let_def)
    show ?thesis
      unfolding e using inv True ns
      by (auto simp: acs_inv_def x nth_list_update split: if_splits) force+
  next
    case False
    then have e: "acs pm r (s, i) x = x"
      by (auto simp: acs_def x Let_def)
    show ?thesis
      unfolding e using inv False ns by (auto simp: acs_inv_def x)
  qed
qed

lemma acs_inv_fold:
  "\<forall>(s, i) \<in> set L. s < 64 \<and> i < 2 \<Longrightarrow>
     acs_inv pm r L (fold (acs pm r) L (replicate 64 kInf, replicate 64 0))"
proof (induction L rule: rev_induct)
  case Nil
  show ?case by (simp add: acs_inv_init)
next
  case (snoc e L)
  obtain s i where "e = (s, i)" by (cases e)
  with snoc show ?case using acs_inv_step by simp
qed

lemma set_trellis_edges: "set trellis_edges = {(s, i). s < 64 \<and> i < 2}"
  by (auto simp: trellis_edges_def less_2_cases_iff)

subsection \<open>The survivor invariant\<close>

lemma traceback_acc: "traceback rows s acc = traceback rows s [] @ acc"
proof (induction rows arbitrary: s acc)
  case (Cons row rows)
  show ?case
    using Cons [of "row ! s" "s div 32 mod 2 # acc"] Cons [of "row ! s" "[s div 32 mod 2]"] by simp
qed simp

definition viterbi_inv :: "rx_step list \<Rightarrow> int list \<times> nat list list \<Rightarrow> bool" where
  "viterbi_inv rs = (\<lambda>(pm, hist).
     length pm = 64 \<and> (\<forall>s < 64. pm ! s \<le> kInf) \<and>
     (\<forall>y. input_seq (length rs) y \<longrightarrow> pm ! run_state 0 y \<le> path_metric 0 rs y) \<and>
     (\<forall>s < 64. pm ! s < kInf \<longrightarrow>
        (let x = traceback (rev hist) s [] in
         input_seq (length rs) x \<and> run_state 0 x = s \<and> path_metric 0 rs x = pm ! s)))"

lemma viterbi_inv_init: "viterbi_inv [] viterbi_init"
  by (auto simp: viterbi_inv_def viterbi_init_def input_seq_def nth_list_update kInf_def)

lemma viterbi_inv_step:
  assumes inv: "viterbi_inv rs v" and r: "weights_ok r"
  shows "viterbi_inv (rs @ [r]) (viterbi_step r v)"
proof -
  obtain pm hist where v: "v = (pm, hist)" by (cases v)
  obtain pm' row where f: "fold (acs pm r) trellis_edges (replicate 64 kInf, replicate 64 0) = (pm', row)"
    by fastforce
  have step: "viterbi_step r v = (pm', hist @ [row])" by (simp add: viterbi_step_def v f)
  have A: "acs_inv pm r trellis_edges (pm', row)"
    using acs_inv_fold [of trellis_edges pm r] by (simp add: f set_trellis_edges)
  note pre = inv [unfolded viterbi_inv_def v, simplified]
  have low: "pm' ! run_state 0 y \<le> path_metric 0 (rs @ [r]) y" if y: "input_seq (Suc (length rs)) y" for y
  proof -
    obtain x i where yx: "y = x @ [i]" "input_seq (length rs) x" "i < 2"
      using y by (auto simp: input_seq_snoc)
    let ?s = "run_state 0 x"
    have s: "?s < 64" using yx by (intro run_state_less) (auto simp: input_seq_def)
    have pmx: "pm ! ?s \<le> path_metric 0 rs x" using pre yx by simp
    have m: "path_metric 0 (rs @ [r]) y = path_metric 0 rs x + branch_metric r ?s i"
      using yx by (simp add: path_metric_snoc input_seq_def)
    have ns: "trellis_next ?s i < 64" using s yx by (simp add: trellis_next_less)
    have bm: "0 \<le> branch_metric r ?s i" using branch_metric_bounds [OF r] by simp
    show ?thesis
    proof (cases "pm ! ?s < kInf")
      case True
      then have "pm' ! trellis_next ?s i \<le> pm ! ?s + branch_metric r ?s i"
        using A ns s yx by (fastforce simp: acs_inv_def set_trellis_edges)
      with m pmx yx show ?thesis by simp
    next
      case False
      moreover have "pm' ! trellis_next ?s i \<le> kInf" using A ns by (simp add: acs_inv_def)
      ultimately show ?thesis using m pmx bm yx by simp
    qed
  qed
  have tight: "input_seq (Suc (length rs)) (traceback (rev (hist @ [row])) ns []) \<and>
      run_state 0 (traceback (rev (hist @ [row])) ns []) = ns \<and>
      path_metric 0 (rs @ [r]) (traceback (rev (hist @ [row])) ns []) = pm' ! ns"
    if ns: "ns < 64" "pm' ! ns < kInf" for ns
  proof -
    obtain i where i: "row ! ns < 64" "i < 2" "pm ! (row ! ns) < kInf"
      "trellis_next (row ! ns) i = ns" "pm' ! ns = pm ! (row ! ns) + branch_metric r (row ! ns) i"
      using A ns by (auto simp: acs_inv_def set_trellis_edges)
    let ?x = "traceback (rev hist) (row ! ns) []"
    have x: "input_seq (length rs) ?x" "run_state 0 ?x = row ! ns"
      "path_metric 0 rs ?x = pm ! (row ! ns)"
      using pre i by (auto simp: Let_def)
    have "ns div 32 mod 2 = i" using trellis_next_input [OF i(1,2)] i(4) by simp
    then have "traceback (rev (hist @ [row])) ns [] = ?x @ [i]"
      by (simp add: traceback_acc [of _ _ "[_]"])
    with x i show ?thesis
      by (simp add: input_seq_snoc path_metric_snoc input_seq_def)
  qed
  show ?thesis
    unfolding viterbi_inv_def step
    using A low tight by (simp add: acs_inv_def Let_def)
qed

lemma viterbi_inv_fold:
  "\<forall>r \<in> set rs. weights_ok r \<Longrightarrow> viterbi_inv rs (fold viterbi_step rs viterbi_init)"
proof (induction rs rule: rev_induct)
  case Nil
  show ?case by (simp add: viterbi_inv_init)
next
  case (snoc r rs)
  then show ?case using viterbi_inv_step by simp
qed

lemma best_state_upto:
  "fold (\<lambda>s best. if pm ! s < pm ! best then s else best) [1..<Suc n] 0 \<le> n \<and>
   (\<forall>s \<le> n. pm ! fold (\<lambda>s best. if pm ! s < pm ! best then s else best) [1..<Suc n] 0 \<le> (pm ! s :: int))"
proof (induction n)
  case (Suc n)
  have "[1..<Suc (Suc n)] = [1..<Suc n] @ [Suc n]" by simp
  with Suc show ?case by (auto simp: le_Suc_eq simp del: upt_Suc)
qed simp

lemma best_state_min: "best_state pm < 64 \<and> (\<forall>s < 64. pm ! best_state pm \<le> pm ! s)"
proof -
  have "[1..<64] = [1..<Suc 63]" by simp
  with best_state_upto [of pm 63] show ?thesis
    by (auto simp: best_state_def less_Suc_eq_le simp del: upt_Suc)
qed

subsection \<open>Maximum likelihood\<close>

text \<open>
  The specification: the number of positions where the received stream and a code word
  disagree, erased positions not counted.
\<close>

definition mismatch :: "u8 list \<Rightarrow> u8 list option \<Rightarrow> u8 list \<Rightarrow> nat \<Rightarrow> int" where
  "mismatch coded soft e k =
     (if (coded ! k > 0) \<noteq> (e ! k > 0) \<and> (case soft of None \<Rightarrow> True | Some c \<Rightarrow> c ! k \<noteq> 2)
      then 1 else 0)"

definition code_distance :: "u8 list \<Rightarrow> u8 list option \<Rightarrow> u8 list \<Rightarrow> int" where
  "code_distance coded soft e = (\<Sum>k < length e. mismatch coded soft e k)"

lemma weights_ok_rx_step_at: "weights_ok (rx_step_at coded soft k)"
  by (simp add: weights_ok_def rx_step_at_def split: option.splits)

lemma branch_metric_mismatch:
  assumes "e ! (2 * k) = word_of_nat (trellis_out s i div 2)"
    and "e ! (2 * k + 1) = word_of_nat (trellis_out s i mod 2)"
  shows "branch_metric (rx_step_at coded soft k) s i =
           mismatch coded soft e (2 * k) + mismatch coded soft e (2 * k + 1)"
proof -
  have "a < 2 \<Longrightarrow> ((0 :: u8) < word_of_nat a) = (a = 1)" for a
    by (auto simp: less_2_cases_iff)
  with trellis_out_less [of s i] show ?thesis
    using assms by (simp add: branch_metric_def mismatch_def rx_step_at_def less_2_cases_iff
        split: option.splits) fastforce
qed

lemma path_metric_distance:
  "input_seq n x \<Longrightarrow>
     path_metric 0 (map (rx_step_at coded soft) [0..<n]) x = code_distance coded soft (fec_emit 0 x)"
proof (induction n arbitrary: x)
  case 0
  then show ?case by (simp add: input_seq_def code_distance_def)
next
  case (Suc n)
  then obtain y i where x: "x = y @ [i]" "input_seq n y" "i < 2"
    by (auto simp: input_seq_snoc)
  let ?e = "fec_emit 0 x" and ?s = "run_state 0 y"
  have ly: "length y = n" using x by (simp add: input_seq_def)
  have pre: "mismatch coded soft ?e k = mismatch coded soft (fec_emit 0 y) k" if "k < 2 * n" for k
    using that ly by (simp add: mismatch_def x fec_emit_snoc nth_append)
  have two: "?e ! (2 * n) = word_of_nat (trellis_out ?s i div 2)"
    "?e ! (2 * n + 1) = word_of_nat (trellis_out ?s i mod 2)"
    using ly by (simp_all add: x fec_emit_snoc nth_append)
  have "code_distance coded soft ?e = code_distance coded soft (fec_emit 0 y) +
      mismatch coded soft ?e (2 * n) + mismatch coded soft ?e (2 * n + 1)"
    using ly pre by (simp add: code_distance_def x)
  with Suc.IH [OF x(2)] branch_metric_mismatch [OF two] show ?case
    using ly by (simp add: x path_metric_snoc)
qed

lemma fec_decode_survivor:
  assumes "length coded = 2 * n" "6 \<le> n" "length coded < 0x3FFFFFFF"
  obtains x where "fec_decode coded soft = Inr (map word_of_nat (take (n - 6) x))"
    and "input_seq n x"
    and "\<And>y. input_seq n y \<Longrightarrow>
      code_distance coded soft (fec_emit 0 x) \<le> code_distance coded soft (fec_emit 0 y)"
proof -
  let ?rs = "map (rx_step_at coded soft) [0..<n]"
  obtain pm hist where f: "fold viterbi_step ?rs viterbi_init = (pm, hist)" by fastforce
  let ?x = "traceback (rev hist) (best_state pm) []"
  have w: "\<forall>r \<in> set ?rs. weights_ok r" by (auto simp: weights_ok_rx_step_at)
  have inv: "viterbi_inv ?rs (pm, hist)" using viterbi_inv_fold [OF w] f by simp
  have low: "pm ! run_state 0 y \<le> path_metric 0 ?rs y" if "input_seq n y" for y
    using inv that by (simp add: viterbi_inv_def)
  have best: "pm ! best_state pm \<le> path_metric 0 ?rs y" if y: "input_seq n y" for y
  proof -
    have "run_state 0 y < 64" using y by (intro run_state_less) (auto simp: input_seq_def)
    with low [OF y] best_state_min [of pm] show ?thesis by fastforce
  qed
  have "input_seq n (replicate n 0)" by (simp add: input_seq_def)
  from best [OF this] have "pm ! best_state pm < kInf"
    using path_metric_bounds [OF w, of 0 "replicate n 0"] assms by (simp add: kInf_def)
  with inv best_state_min [of pm] have x: "input_seq n ?x" "path_metric 0 ?rs ?x = pm ! best_state pm"
    by (auto simp: viterbi_inv_def Let_def)
  have "fec_decode coded soft = Inr (map word_of_nat (take (n - 6) ?x))"
    using assms f by (auto simp: fec_decode_def Let_def)
  moreover have "code_distance coded soft (fec_emit 0 ?x) \<le> code_distance coded soft (fec_emit 0 y)"
    if "input_seq n y" for y
    using best [OF that] x path_metric_distance [OF that] path_metric_distance [OF x(1)] by simp
  ultimately show ?thesis using that x(1) by blast
qed

text \<open>
  C22. The decoder is maximum likelihood: on any received stream of \<open>2 n\<close> coded bits
  (\<open>n\<close> at least 6, and shorter than the metric's infinity), with any erasure marking, the
  information bits \<open>fec_decode\<close> returns are the first \<open>n - 6\<close> inputs of a trellis path whose
  code word is at least as close to the received stream as that of every other path.
\<close>

theorem fec_decode_maximum_likelihood:
  assumes "length coded = 2 * n" and "6 \<le> n" and "length coded < 0x3FFFFFFF"
  shows "\<exists>x. fec_decode coded soft = Inr (map word_of_nat (take (n - 6) x)) \<and> input_seq n x \<and>
    (\<forall>y. input_seq n y \<longrightarrow>
       code_distance coded soft (fec_emit 0 x) \<le> code_distance coded soft (fec_emit 0 y))"
  using fec_decode_survivor [OF assms, of soft] by metis

theorem fec_decode_maximum_likelihood_witness:
  "\<exists>x. fec_decode (replicate 14 1) None = Inr (map word_of_nat (take 1 x)) \<and> input_seq 7 x \<and>
    (\<forall>y. input_seq 7 y \<longrightarrow> code_distance (replicate 14 1) None (fec_emit 0 x)
       \<le> code_distance (replicate 14 1) None (fec_emit 0 y))"
  using fec_decode_maximum_likelihood [of "replicate 14 1" 7 None] by simp

subsection \<open>Inverting the encoder\<close>

lemma word_bit_inj: "a < 2 \<Longrightarrow> b < 2 \<Longrightarrow> (word_of_nat a > (0 :: u8)) = (word_of_nat b > (0 :: u8)) \<Longrightarrow> a = b"
  by (auto simp: less_2_cases_iff)

lemma fec_emit_inj:
  assumes "length x = length y" "\<forall>i \<in> set x. i < 2" "\<forall>i \<in> set y. i < 2" "s < 64"
    and "\<And>k. k < 2 * length x \<Longrightarrow> (fec_emit s x ! k > 0) = (fec_emit s y ! k > 0)"
  shows "x = y"
  using assms
proof (induction x y arbitrary: s rule: list_induct2)
  case (Cons a x b y)
  have "trellis_out s a div 2 = trellis_out s b div 2"
    using Cons.prems(4) [of 0] trellis_out_less(1) by (intro word_bit_inj) auto
  with Cons.prems(1,2,3) trellis_out_differs [of s] have ab: "a = b"
    by (auto simp: less_2_cases_iff)
  have "x = y"
  proof (rule Cons.IH)
    show "trellis_next s a < 64" using Cons.prems by (simp add: trellis_next_less)
    show "(fec_emit (trellis_next s a) x ! k > 0) = (fec_emit (trellis_next s a) y ! k > 0)"
      if "k < 2 * length x" for k
      using Cons.prems(4) [of "k + 2"] that ab by simp
  qed (use Cons.prems in auto)
  with ab show ?case by simp
qed simp

lemma code_distance_nonneg: "0 \<le> code_distance coded soft e"
  unfolding code_distance_def by (rule sum_nonneg) (simp add: mismatch_def)

lemma code_distance_zero:
  "code_distance coded None e = 0 \<longleftrightarrow> (\<forall>k < length e. (coded ! k > 0) = (e ! k > 0))"
  unfolding code_distance_def
  by (subst sum_nonneg_eq_0_iff) (auto simp: mismatch_def)

definition bit01 :: "u8 \<Rightarrow> u8" where
  "bit01 b = (if b \<noteq> 0 then 1 else 0)"

lemma fec_decode_encode:
  assumes "length bits < 0xFFFFFFF"
  shows "fec_decode (fec_encode bits) None = Inr (map bit01 bits)"
proof -
  let ?t = "map (\<lambda>b. if b \<noteq> 0 then 1 else 0) bits @ replicate 6 (0 :: nat)"
  let ?n = "length bits + 6"
  have t: "input_seq ?n ?t" by (auto simp: input_seq_def)
  have len: "length (fec_encode bits) = 2 * ?n" by (simp add: fec_encode_def)
  obtain x where x: "fec_decode (fec_encode bits) None = Inr (map word_of_nat (take (?n - 6) x))"
    "input_seq ?n x"
    "code_distance (fec_encode bits) None (fec_emit 0 x) \<le> code_distance (fec_encode bits) None (fec_emit 0 ?t)"
  proof -
    have "6 \<le> ?n" "length (fec_encode bits) < 0x3FFFFFFF" using assms by (simp_all add: len)
    from fec_decode_survivor [OF len this] that t show thesis by blast
  qed
  have "code_distance (fec_encode bits) None (fec_emit 0 ?t) = 0"
    by (simp add: code_distance_zero fec_encode_def)
  with x(3) have "code_distance (fec_encode bits) None (fec_emit 0 x) = 0"
    using code_distance_nonneg [of "fec_encode bits" None "fec_emit 0 x"] by linarith
  then have "x = ?t"
    using x(2) t by (intro fec_emit_inj [where s = 0]) (auto simp: code_distance_zero fec_encode_def input_seq_def)
  with x(1) show ?thesis by (simp add: bit01_def)
qed

lemma length_fec_encode: "length (fec_encode bits) = coded_size (length bits)"
  by (simp add: fec_encode_def coded_size_def)

text \<open>
  On an error-free link the decoder inverts the encoder: for fewer than \<open>2^28 - 1\<close>
  information bits, decoding the encoded stream (of the announced size) returns the bits,
  each normalised to 0 or 1.
\<close>

theorem fec_round_trip:
  assumes "length bits < 0xFFFFFFF"
  shows "fec_decode (fec_encode bits) None = Inr (map (\<lambda>b. if b \<noteq> 0 then 1 else 0) bits) \<and>
         length (fec_encode bits) = coded_size (length bits)"
  using fec_decode_encode [OF assms] by (simp add: length_fec_encode bit01_def [abs_def])

theorem fec_round_trip_witness:
  "fec_decode (fec_encode [1, 0, 1, 1]) None = Inr [1, 0, 1, 1]"
  using fec_round_trip [of "[1, 0, 1, 1]"] by simp

subsection \<open>Bytes and bits\<close>

lemma bytes_bits_round_trip: "bits_to_bytes_fec (bytes_to_bits_fec bs) = Inr bs"
proof -
  let ?bits = "concat (map append_byte_bits bs)"
  have set01: "append_byte_bits v ! i = (if bit v i then 1 else 0)" if "i < 8" for v i
    using that by (simp add: append_byte_bits_def and_one_eq mod_2_eq_odd bit_iff_odd_drop_bit)
  have byte: "fold (\<lambda>i v. v OR push_bit i (if ?bits ! (8 * j + i) \<noteq> 0 then 1 else 0)) [0..<8] 0 = bs ! j"
    if "j < length bs" for j
  proof -
    have "fold (\<lambda>i v. v OR push_bit i (if ?bits ! (8 * j + i) \<noteq> 0 then 1 else 0)) [0..<8] 0 =
          fold (\<lambda>i v. v OR push_bit i (?bits ! (8 * j + i) AND 1)) [0..<8] 0"
      using that by (intro fold_cong) (auto simp: nth_concat_byte_bits set01)
    also have "\<dots> = bs ! j"
      using read_packed_byte [OF that, of "[]"] by (simp add: read_byte_def)
    finally show ?thesis .
  qed
  then have "map (\<lambda>j. fold (\<lambda>i v. v OR push_bit i (if ?bits ! (8 * j + i) \<noteq> 0 then 1 else 0)) [0..<8] 0)
      [0..<length bs] = bs"
    by (intro nth_equalityI) simp_all
  then show ?thesis
    by (simp add: bits_to_bytes_fec_def bytes_to_bits_fec_def)
qed

lemma bytes_to_bits_fec_01: "map bit01 (bytes_to_bits_fec bs) = bytes_to_bits_fec bs"
  by (induction bs) (auto simp: bytes_to_bits_fec_def append_byte_bits_def bit01_def and_one_eq mod_2_eq_odd)

lemma length_bytes_to_bits_fec [simp]: "length (bytes_to_bits_fec bs) = 8 * length bs"
  by (simp add: bytes_to_bits_fec_def)

lemma byte_of_bits:
  assumes "length xs = 8" "set xs \<subseteq> {0, 1}"
  shows "\<exists>v. append_byte_bits v = xs"
proof -
  let ?v = "horner_sum of_bool 2 (map (\<lambda>b. b = 1) xs) :: u8"
  have "append_byte_bits ?v ! i = xs ! i" if "i < 8" for i
  proof -
    have "bit ?v i \<longleftrightarrow> xs ! i = 1"
      using that assms by (simp add: bit_horner_sum_bit_word_iff)
    moreover have "xs ! i \<in> {0, 1}" using assms that by (metis nth_mem subsetD)
    ultimately show ?thesis
      using that by (auto simp: append_byte_bits_def and_one_eq mod_2_eq_odd bit_iff_odd_drop_bit)
  qed
  then have "append_byte_bits ?v = xs" using assms by (intro nth_equalityI) auto
  then show ?thesis ..
qed

lemma bits_to_bytes_fec_total:
  assumes "8 dvd length bits" "set bits \<subseteq> {0, 1}"
  shows "\<exists>bs. bits_to_bytes_fec bits = Inr bs \<and> bytes_to_bits_fec bs = bits"
proof -
  have "\<exists>bs. bytes_to_bits_fec bs = bits"
    using assms
  proof (induction "length bits" arbitrary: bits rule: less_induct)
    case less
    show ?case
    proof (cases "bits = []")
      case True
      then show ?thesis by (intro exI [of _ "[]"]) (simp add: bytes_to_bits_fec_def)
    next
      case False
      with less.prems have l: "8 \<le> length bits" by (auto dest: dvd_imp_le)
      obtain v where v: "append_byte_bits v = take 8 bits"
        using byte_of_bits [of "take 8 bits"] l less.prems by (auto dest: in_set_takeD)
      obtain bs where bs: "bytes_to_bits_fec bs = drop 8 bits"
        using less.hyps [of "drop 8 bits"] l less.prems set_drop_subset [of 8 bits]
        by (fastforce dest: dvd_diff_nat)
      have "bytes_to_bits_fec (v # bs) = bits"
        using v bs by (simp add: bytes_to_bits_fec_def)
      then show ?thesis ..
    qed
  qed
  then show ?thesis using bytes_bits_round_trip by metis
qed

lemma fec_encode_01: "set (fec_encode bits) \<subseteq> {0, 1}"
proof -
  have w: "word_of_nat n \<in> {0, 1 :: u8}" if "n < 2" for n
    using that by (auto simp: less_2_cases_iff)
  have "set (fec_emit s is) \<subseteq> {0, 1}" for s "is"
    by (induction s "is" rule: fec_emit.induct) (use w [OF trellis_out_less(1)] w [OF trellis_out_less(2)] in auto)
  then show ?thesis by (simp add: fec_encode_def)
qed

subsection \<open>Error detection\<close>

lemma crc_verify_attach [simp]: "crc_verify_strip (crc_attach p) = Some p"
  by (simp add: crc_verify_strip_def crc_attach_def Let_def nth_append wire_simps)

text \<open>
  The shift register is a bijection: the lowest bit of the result tells whether the
  polynomial was added, so the register before the shift can be reconstructed.
\<close>

lemma crc_poly_eq: "(0x1021 :: u16) = push_bit 12 1 OR push_bit 5 1 OR 1"
  by simp

lemma bit_crc_poly: "bit (0x1021 :: u16) n \<longleftrightarrow> n \<in> {0, 5, 12}"
  unfolding crc_poly_eq bit_or_iff bit_push_bit_iff bit_1_iff possible_bit_word
  by auto

lemma crc_top_eq: "(0x8000 :: u16) = push_bit 15 1"
  by simp

lemma bit_8000: "bit (0x8000 :: u16) n \<longleftrightarrow> n = 15"
  unfolding crc_top_eq bit_push_bit_iff bit_1_iff possible_bit_word
  by auto

lemma crc_msb: "crc AND 0x8000 \<noteq> 0 \<longleftrightarrow> bit (crc :: u16) 15"
proof -
  have "bit (crc AND 0x8000) n \<longleftrightarrow> n = 15 \<and> bit crc 15" for n
    by (auto simp only: bit_and_iff bit_8000)
  then show ?thesis by (metis bit_0_eq bot_fun_def bit_word_eqI bot_bool_def)
qed

lemma bit_crc_shift:
  "n < 16 \<Longrightarrow> bit (crc_shift crc) n \<longleftrightarrow> (n \<noteq> 0 \<and> bit crc (n - 1)) \<noteq> (bit crc 15 \<and> n \<in> {0, 5, 12})"
  by (auto simp only: crc_shift_def crc_msb bit_xor_iff bit_push_bit_iff bit_crc_poly possible_bit_word
      split: if_splits) auto

lemma crc_shift_inj: "inj crc_shift"
proof (rule injI)
  fix x y :: u16 assume e: "crc_shift x = crc_shift y"
  have b: "bit (crc_shift x) n = bit (crc_shift y) n" for n by (simp add: e)
  have msb: "bit x 15 = bit y 15" using b [of 0] by (simp add: bit_crc_shift)
  show "x = y"
  proof (rule bit_word_eqI)
    fix n assume "n < LENGTH(16)"
    then consider "n = 15" | "Suc n < 16" by fastforce
    then show "bit x n = bit y n"
      using msb b [of "Suc n"] by cases (auto simp: bit_crc_shift)
  qed
qed

lemma crc_shifts_injD: "(crc_shift ^^ 8) x = (crc_shift ^^ 8) y \<Longrightarrow> x = y"
  by (rule injD [OF inj_fn [OF crc_shift_inj]])

lemma word_xor_cancel_right: "x XOR c = y XOR c \<Longrightarrow> x = (y :: 'a::len word)"
  by (rule bit_word_eqI) (metis bit_xor_iff)

lemma crc_byte_inj_crc: "crc_byte b x = crc_byte b y \<Longrightarrow> x = y"
  unfolding crc_byte_def by (drule crc_shifts_injD) (rule word_xor_cancel_right)

lemma crc_byte_inj_byte:
  assumes "crc_byte a x = crc_byte b x"
  shows "a = b"
proof -
  have "x XOR push_bit 8 (ucast a) = x XOR push_bit 8 (ucast b)"
    using assms unfolding crc_byte_def by (rule crc_shifts_injD)
  then have "push_bit 8 (ucast a) = (push_bit 8 (ucast b) :: u16)"
    unfolding xor.commute [of x] by (rule word_xor_cancel_right)
  then have "bit (push_bit 8 (ucast a) :: u16) (n + 8) = bit (push_bit 8 (ucast b) :: u16) (n + 8)" for n
    by (rule arg_cong)
  then have "n < 8 \<Longrightarrow> bit a n = bit b n" for n
    by (simp only: bit_push_bit_iff bit_ucast_iff) fastforce
  then show ?thesis
    by (intro bit_word_eqI) simp
qed

lemma fold_crc_inj: "fold crc_byte ds x = fold crc_byte ds y \<Longrightarrow> x = y"
  by (induction ds arbitrary: x y) (auto dest: crc_byte_inj_crc)

lemma crc16_one_byte:
  "crc16 (xs @ a # ys) = crc16 (xs @ b # ys) \<Longrightarrow> a = b"
  by (auto simp: crc16_def dest!: fold_crc_inj crc_byte_inj_byte)

lemma crc_verify_change_payload:
  assumes "b \<noteq> p ! i" "i < length p"
  shows "crc_verify_strip ((crc_attach p)[i := b]) = None"
proof -
  let ?q = "p[i := b]"
  have "crc16 ?q \<noteq> crc16 p"
    using assms crc16_one_byte [of "take i p" b "drop (Suc i) p" "p ! i"]
    by (auto simp: upd_conv_take_nth_drop id_take_nth_drop [symmetric])
  moreover have "(crc_attach p)[i := b] = ?q @ [byte_at 0 (crc16 p), byte_at 1 (crc16 p)]"
    using assms by (simp add: crc_attach_def Let_def list_update_append)
  ultimately show ?thesis
    by (simp add: crc_verify_strip_def Let_def nth_append wire_simps)
qed

lemma crc_verify_change_fcs:
  assumes "b \<noteq> crc_attach p ! i" "length p \<le> i" "i < length p + 2"
  shows "crc_verify_strip ((crc_attach p)[i := b]) = None"
proof -
  let ?c = "crc16 p"
  have ne: "get16 x y \<noteq> ?c" if "x \<noteq> byte_at 0 ?c \<or> y \<noteq> byte_at 1 ?c" for x y
    using that byte_at_get16 [of x y] by auto
  consider "i = length p" | "i = length p + 1" using assms by linarith
  then show ?thesis
  proof cases
    case 1
    with assms have "b \<noteq> byte_at 0 ?c" by (simp add: crc_attach_def Let_def)
    then have "get16 b (byte_at 1 ?c) \<noteq> ?c" by (intro ne) simp
    with 1 show ?thesis
      by (simp add: crc_verify_strip_def crc_attach_def Let_def list_update_append nth_append)
  next
    case 2
    with assms have "b \<noteq> byte_at 1 ?c" by (simp add: crc_attach_def Let_def nth_append)
    then have "get16 (byte_at 0 ?c) b \<noteq> ?c" by (intro ne) simp
    with 2 show ?thesis
      by (simp add: crc_verify_strip_def crc_attach_def Let_def list_update_append nth_append)
  qed
qed

text \<open>
  C26. The transport-block check: the receiver strips a valid CRC and recovers the payload,
  and it rejects the block whenever a single byte of it, payload or checksum, was changed
  in any way.
\<close>

theorem crc_detects_single_byte_errors:
  assumes "i < length p + 2" and "b \<noteq> crc_attach p ! i"
  shows "crc_verify_strip (crc_attach p) = Some p \<and>
         crc_verify_strip ((crc_attach p)[i := b]) = None"
proof (cases "i < length p")
  case True
  with assms have "b \<noteq> p ! i" by (simp add: crc_attach_def Let_def nth_append)
  with True show ?thesis by (simp add: crc_verify_change_payload)
next
  case False
  with assms show ?thesis by (simp add: crc_verify_change_fcs)
qed

theorem crc_detects_single_byte_errors_witness:
  "crc_verify_strip ((crc_attach [1, 2, 3])[1 := 7]) = None"
  using crc_detects_single_byte_errors [of 1 "[1, 2, 3]" 7]
  by (simp add: crc_attach_def Let_def)

end
