(* ===== verification/Harq.thy ===== *)
theory Harq
  imports Fec
begin

text \<open>
  Link reliability, \<^verbatim>\<open>stack/core/src/harq.cpp\<close>: the HARQ header, the transport-block codec
  (CRC, convolutional code, byte alignment), the stop-and-wait sender with its parallel
  processes and the receiver with its per-process memory. The receiver returns
  \<open>Inl\<close> when an exception leaves \<^verbatim>\<open>HarqRx::receive\<close>. The lemmas show that every frame the
  sender ever puts on the air, first transmission or retransmission, is a frame the receiver
  delivers and acknowledges if it arrives intact, whatever was received before it; that the
  retransmission budget is respected and always ends; and where the receiver differs from
  what its comments say.
\<close>

subsection \<open>Wire format\<close>

record harq_header =
  hh_proc :: u8
  hh_ndi :: u8
  hh_rv :: u8
  hh_len :: u16
  hh_info_len :: u16

definition harq_pack :: "harq_header \<Rightarrow> bytes" where
  "harq_pack h =
     [(hh_proc h AND 0x7F) OR (if hh_ndi h \<noteq> 0 then 0x80 else 0), hh_rv h,
      byte_at 0 (hh_len h), byte_at 1 (hh_len h),
      byte_at 0 (hh_info_len h), byte_at 1 (hh_info_len h), 0xA9]"

definition harq_unpack :: "bytes \<Rightarrow> harq_header option" where
  "harq_unpack buf =
     (if length buf < 7 \<or> buf ! 6 \<noteq> 0xA9 then None
      else Some \<lparr>hh_proc = buf ! 0 AND 0x7F, hh_ndi = drop_bit 7 (buf ! 0) AND 1, hh_rv = buf ! 1,
                 hh_len = get16 (buf ! 2) (buf ! 3), hh_info_len = get16 (buf ! 4) (buf ! 5)\<rparr>)"

definition is_harq_framed :: "bytes \<Rightarrow> bool" where
  "is_harq_framed buf \<longleftrightarrow> length buf \<ge> 7 \<and> buf ! 6 = 0xA9"

definition valid_coded_bits :: "harq_header \<Rightarrow> nat" where
  "valid_coded_bits h = (unat (hh_info_len h) * 8 + 6) * 2"

subsection \<open>Transport-block codec\<close>

function pad_to_byte :: "u8 list \<Rightarrow> u8 list" where
  "pad_to_byte bits = (if length bits mod 8 \<noteq> 0 then pad_to_byte (bits @ [0]) else bits)"
  by auto
termination
  by (relation "measure (\<lambda>bits. (8 - length bits mod 8) mod 8)") (auto simp: mod_Suc)

declare pad_to_byte.simps [simp del]

definition link_encode :: "bytes \<Rightarrow> u8 \<Rightarrow> u8 \<Rightarrow> cpp_exception + bytes" where
  "link_encode mac_pdu proc ndi =
     (let block = crc_attach mac_pdu;
          coded_bits = pad_to_byte (fec_encode (bytes_to_bits_fec block))
      in case bits_to_bytes_fec coded_bits of
           Inl e \<Rightarrow> Inl e
         | Inr coded_bytes \<Rightarrow>
             Inr (harq_pack \<lparr>hh_proc = proc, hh_ndi = ndi, hh_rv = 0, hh_len = size16 coded_bytes,
                             hh_info_len = size16 block\<rparr> @ coded_bytes))"

definition link_payload_bits :: "bytes \<Rightarrow> u8 list" where
  "link_payload_bits frame_payload =
     (case harq_unpack frame_payload of
        None \<Rightarrow> []
      | Some h \<Rightarrow> bytes_to_bits_fec (drop 7 frame_payload))"

text \<open>Only \<^verbatim>\<open>std::invalid_argument\<close> is caught; any other exception propagates.\<close>

definition link_decode_bits :: "u8 list \<Rightarrow> nat \<Rightarrow> cpp_exception + bytes option" where
  "link_decode_bits coded_bits info_len =
     (case fec_decode coded_bits None of
        Inl invalid_argument \<Rightarrow> Inr None
      | Inl e \<Rightarrow> Inl e
      | Inr info \<Rightarrow>
          if length info \<noteq> info_len * 8 then Inr None
          else case bits_to_bytes_fec info of
                 Inl invalid_argument \<Rightarrow> Inr None
               | Inl e \<Rightarrow> Inl e
               | Inr block \<Rightarrow> Inr (crc_verify_strip block))"

subsection \<open>Sender\<close>

record harq_tx_config =
  hc_num_processes :: u8
  hc_max_retx :: u8
  hc_ack_timeout_ms :: u32

definition harq_default_config :: harq_tx_config where
  "harq_default_config = \<lparr>hc_num_processes = 8, hc_max_retx = 3, hc_ack_timeout_ms = 250\<rparr>"

datatype harq_event_type = NEW_TX | RETX

record harq_event =
  he_type :: harq_event_type
  he_proc :: u8
  he_ndi :: u8
  he_coded :: bytes

record harq_proc =
  hp_busy :: bool
  hp_ndi :: u8
  hp_retx_count :: u8
  hp_deadline :: u32
  hp_coded :: bytes
  hp_crc_block :: bytes

definition harq_proc_init :: harq_proc where
  "harq_proc_init = \<lparr>hp_busy = False, hp_ndi = 1, hp_retx_count = 0, hp_deadline = 0,
     hp_coded = [], hp_crc_block = []\<rparr>"

record harq_tx =
  ht_cfg :: harq_tx_config
  ht_procs :: "harq_proc list"
  ht_next_proc :: u8
  ht_last_now :: u32

definition harq_tx_init :: "harq_tx_config \<Rightarrow> harq_tx" where
  "harq_tx_init cfg = \<lparr>ht_cfg = cfg,
     ht_procs = replicate (unat (hc_num_processes cfg)) harq_proc_init,
     ht_next_proc = 0, ht_last_now = 0\<rparr>"

definition harq_in_flight :: "harq_tx \<Rightarrow> nat" where
  "harq_in_flight tx = length (filter hp_busy (ht_procs tx))"

text \<open>
  The round-robin search visits the processes from \<open>ht_next_proc\<close> on and takes the first
  idle one.
\<close>

definition harq_candidates :: "harq_tx \<Rightarrow> nat list" where
  "harq_candidates tx =
     (let num = unat (hc_num_processes (ht_cfg tx))
      in map (\<lambda>i. (unat (ht_next_proc tx) + i) mod num) [0..<num])"

definition harq_send :: "harq_tx \<Rightarrow> bytes \<Rightarrow> cpp_exception + harq_tx \<times> harq_event option" where
  "harq_send tx mac_pdu =
     (case find (\<lambda>p. \<not> hp_busy (ht_procs tx ! p)) (harq_candidates tx) of
        None \<Rightarrow> Inr (tx, None)
      | Some p \<Rightarrow>
          let pr = ht_procs tx ! p; ndi = hp_ndi pr XOR 1 in
          case link_encode mac_pdu (word_of_nat p) ndi of
            Inl e \<Rightarrow> Inl e
          | Inr coded \<Rightarrow>
              let pr' = pr\<lparr>hp_busy := True, hp_ndi := ndi, hp_retx_count := 0,
                    hp_deadline := ht_last_now tx + hc_ack_timeout_ms (ht_cfg tx),
                    hp_crc_block := mac_pdu, hp_coded := coded\<rparr>
              in Inr (tx\<lparr>ht_procs := (ht_procs tx)[p := pr'],
                         ht_next_proc := word_of_nat ((p + 1) mod unat (hc_num_processes (ht_cfg tx)))\<rparr>,
                      Some \<lparr>he_type = NEW_TX, he_proc = word_of_nat p, he_ndi = ndi, he_coded = coded\<rparr>))"

definition harq_retx :: "nat \<Rightarrow> harq_tx \<Rightarrow> harq_tx \<times> harq_event list" where
  "harq_retx p tx =
     (let pr = ht_procs tx ! p in
      if \<not> hp_busy pr then (tx, [])
      else if hp_retx_count pr \<ge> hc_max_retx (ht_cfg tx) then
        (tx\<lparr>ht_procs := (ht_procs tx)[p := pr\<lparr>hp_busy := False, hp_crc_block := []\<rparr>]\<rparr>, [])
      else
        (tx\<lparr>ht_procs := (ht_procs tx)[p := pr\<lparr>hp_retx_count := hp_retx_count pr + 1,
              hp_deadline := ht_last_now tx + hc_ack_timeout_ms (ht_cfg tx)\<rparr>]\<rparr>,
         [\<lparr>he_type = RETX, he_proc = word_of_nat p, he_ndi = hp_ndi pr, he_coded = hp_coded pr\<rparr>]))"

definition harq_advance :: "u32 \<Rightarrow> harq_tx \<Rightarrow> harq_tx" where
  "harq_advance now_ms tx = tx\<lparr>ht_last_now := max (ht_last_now tx) now_ms\<rparr>"

text \<open>\<^verbatim>\<open>static_cast<int32_t>(now_ms - deadline) >= 0\<close>: the comparison survives clock wrap.\<close>

definition harq_expired :: "u32 \<Rightarrow> harq_proc \<Rightarrow> bool" where
  "harq_expired now_ms pr \<longleftrightarrow> hp_busy pr \<and> 0 \<le> sint (now_ms - hp_deadline pr)"

definition harq_poll_one :: "u32 \<Rightarrow> nat \<Rightarrow> harq_tx \<times> harq_event list \<Rightarrow> harq_tx \<times> harq_event list" where
  "harq_poll_one now_ms p = (\<lambda>(tx, out).
     if harq_expired now_ms (ht_procs tx ! p)
     then let (tx', evs) = harq_retx p tx in (tx', out @ evs)
     else (tx, out))"

definition harq_poll_timeouts :: "u32 \<Rightarrow> harq_tx \<Rightarrow> harq_tx \<times> harq_event list" where
  "harq_poll_timeouts now_ms tx =
     fold (harq_poll_one now_ms) [0..<length (ht_procs tx)] (harq_advance now_ms tx, [])"

definition harq_tx_reset :: "harq_tx \<Rightarrow> harq_tx" where
  "harq_tx_reset tx = tx\<lparr>ht_procs := map (\<lambda>pr. pr\<lparr>hp_busy := False, hp_retx_count := 0,
     hp_coded := [], hp_crc_block := []\<rparr>) (ht_procs tx), ht_next_proc := 0\<rparr>"

definition harq_on_ack :: "u8 \<Rightarrow> harq_tx \<Rightarrow> harq_tx" where
  "harq_on_ack proc tx =
     (if unat proc \<ge> length (ht_procs tx) then tx
      else tx\<lparr>ht_procs := (ht_procs tx)[unat proc :=
              (ht_procs tx ! unat proc)\<lparr>hp_busy := False, hp_crc_block := []\<rparr>]\<rparr>)"

definition harq_on_nack :: "u8 \<Rightarrow> harq_tx \<Rightarrow> harq_tx \<times> harq_event option" where
  "harq_on_nack proc tx =
     (if unat proc \<ge> length (ht_procs tx) then (tx, None)
      else let (tx', evs) = harq_retx (unat proc) tx
           in (tx', case evs of [] \<Rightarrow> None | e # _ \<Rightarrow> Some e))"

subsection \<open>Receiver\<close>

record soft_buf =
  sb_ndi :: u8
  sb_bits :: "u8 list"

definition soft_buf_init :: soft_buf where
  "soft_buf_init = \<lparr>sb_ndi = 1, sb_bits = []\<rparr>"

record harq_result =
  hr_delivered :: bool
  hr_need_feedback :: bool
  hr_ack :: bool
  hr_proc :: u8
  hr_mac_pdu :: bytes

definition harq_result_none :: harq_result where
  "harq_result_none = \<lparr>hr_delivered = False, hr_need_feedback = False, hr_ack = False,
     hr_proc = 0, hr_mac_pdu = []\<rparr>"

type_synonym harq_rx = "soft_buf list"

definition harq_rx_reset :: harq_rx where
  "harq_rx_reset = replicate 8 soft_buf_init"

definition combine_bits :: "nat \<Rightarrow> u8 list \<Rightarrow> u8 list \<Rightarrow> u8 list" where
  "combine_bits valid rx_bits stored =
     map (\<lambda>i. if i < valid then (if unat (rx_bits ! i) + unat (stored ! i) \<ge> 2 then 1 else 0)
              else rx_bits ! i) [0..<length rx_bits]"

text \<open>\<^verbatim>\<open>soft_.resize(proc + 1)\<close> when the process id is beyond the current slots.\<close>

definition soft_resize :: "nat \<Rightarrow> harq_rx \<Rightarrow> harq_rx" where
  "soft_resize proc soft =
     (if proc \<ge> length soft then soft @ replicate (proc + 1 - length soft) soft_buf_init else soft)"

definition harq_rx_bits :: "harq_rx \<Rightarrow> harq_header \<Rightarrow> bytes \<Rightarrow> u8 list" where
  "harq_rx_bits soft h bytes =
     (let rx_bits = bytes_to_bits_fec bytes;
          proc = unat (hh_proc h);
          valid = min (valid_coded_bits h) (length rx_bits);
          combined =
            (if hh_ndi h = 0 \<and> proc < length soft \<and> sb_bits (soft ! proc) \<noteq> [] \<and>
                length (sb_bits (soft ! proc)) = length rx_bits
             then combine_bits valid rx_bits (sb_bits (soft ! proc))
             else rx_bits)
      in take (min (length rx_bits) (valid_coded_bits h)) combined)"

definition harq_receive :: "harq_rx \<Rightarrow> bytes \<Rightarrow> cpp_exception + harq_rx \<times> harq_result" where
  "harq_receive soft frame_payload =
     (case harq_unpack frame_payload of
        None \<Rightarrow> Inr (soft, harq_result_none)
      | Some h \<Rightarrow>
          if length frame_payload < 7 + unat (hh_len h) then Inr (soft, harq_result_none)
          else
            let bytes = take (unat (hh_len h)) (drop 7 frame_payload);
                proc = unat (hh_proc h);
                rx_bits = harq_rx_bits soft h bytes
            in case link_decode_bits rx_bits (unat (hh_info_len h)) of
                 Inl e \<Rightarrow> Inl e
               | Inr decoded \<Rightarrow>
                   let delivered = decoded \<noteq> None;
                       res = \<lparr>hr_delivered = delivered, hr_need_feedback = True, hr_ack = delivered,
                              hr_proc = hh_proc h,
                              hr_mac_pdu = (case decoded of None \<Rightarrow> [] | Some p \<Rightarrow> p)\<rparr>;
                       soft1 = (if (hh_ndi h \<noteq> 0 \<or> delivered) \<and> proc < length soft
                                then soft[proc := (soft ! proc)\<lparr>sb_bits := []\<rparr>] else soft);
                       soft2 = (if \<not> delivered
                                then (soft_resize proc soft1)[proc := \<lparr>sb_ndi = hh_ndi h, sb_bits = rx_bits\<rparr>]
                                else soft1)
                   in Inr (soft2, res))"

subsection \<open>The codec\<close>

lemma pad_to_byte_prefix: "\<exists>k. pad_to_byte bits = bits @ replicate k 0"
proof (induction bits rule: pad_to_byte.induct)
  case (1 bits)
  show ?case
  proof (cases "length bits mod 8 = 0")
    case True
    then show ?thesis by (subst pad_to_byte.simps) (auto intro: exI [of _ 0])
  next
    case False
    with 1 obtain k where "pad_to_byte (bits @ [0]) = (bits @ [0]) @ replicate k 0" by auto
    with False have "pad_to_byte bits = bits @ replicate (Suc k) 0"
      by (subst pad_to_byte.simps) simp
    then show ?thesis ..
  qed
qed

lemma pad_to_byte_aligned: "8 dvd length (pad_to_byte bits)"
  by (induction bits rule: pad_to_byte.induct) (subst pad_to_byte.simps, auto)

lemma length_pad_to_byte: "length (pad_to_byte bits) < length bits + 8"
proof (induction bits rule: pad_to_byte.induct)
  case (1 bits)
  have step: "length (pad_to_byte xs) \<le> length xs + (8 - length xs mod 8) mod 8" for xs
    by (induction xs rule: pad_to_byte.induct) (subst pad_to_byte.simps, auto simp: mod_Suc split: if_splits)
  show ?case using step [of bits] by (meson add_less_cancel_left le_less_trans mod_less_divisor zero_less_numeral)
qed

lemma link_encode_frame:
  "\<exists>coded. link_encode p proc ndi =
       Inr (harq_pack \<lparr>hh_proc = proc, hh_ndi = ndi, hh_rv = 0, hh_len = size16 coded,
                       hh_info_len = size16 (crc_attach p)\<rparr> @ coded) \<and>
     bytes_to_bits_fec coded = pad_to_byte (fec_encode (bytes_to_bits_fec (crc_attach p))) \<and>
     length coded = 2 * length p + 6"
proof -
  let ?bits = "fec_encode (bytes_to_bits_fec (crc_attach p))"
  obtain k where k: "pad_to_byte ?bits = ?bits @ replicate k 0"
    using pad_to_byte_prefix by blast
  have "set (pad_to_byte ?bits) \<subseteq> {0, 1}"
    using fec_encode_01 [of "bytes_to_bits_fec (crc_attach p)"] by (auto simp: k)
  then obtain coded where c: "bits_to_bytes_fec (pad_to_byte ?bits) = Inr coded"
      "bytes_to_bits_fec coded = pad_to_byte ?bits"
    using bits_to_bytes_fec_total [OF pad_to_byte_aligned] by blast
  have "length ?bits = 16 * length p + 44"
    by (simp add: length_fec_encode coded_size_def crc_attach_def Let_def)
  then have "8 * length coded = 16 * length p + 44 + k" "8 * length coded < 16 * length p + 52"
    using length_pad_to_byte [of ?bits] c(2) k length_bytes_to_bits_fec [of coded] by (simp_all)
  then have "length coded = 2 * length p + 6" by presburger
  with c show ?thesis by (auto simp: link_encode_def Let_def)
qed

lemma bit_flag_msb: "bit ((x AND 0x7F) OR (if f then 0x80 else 0) :: u8) n \<longleftrightarrow> (if n = 7 then f else bit x n)"
  using bit_imp_le_length [of x n] by (auto simp: bit_simps wire_simps)

lemma flag_msb: "drop_bit 7 ((x AND 0x7F) OR (if f then 0x80 else 0)) AND 1 = (of_bool f :: u8)"
proof (rule bit_word_eqI)
  fix n
  have "bit (drop_bit 7 ((x AND 0x7F) OR (if f then 0x80 else 0)) AND 1 :: u8) n \<longleftrightarrow> f \<and> n = 0"
    unfolding bit_and_iff bit_drop_bit_eq comp_def bit_flag_msb bit_1_iff by auto
  also have "\<dots> \<longleftrightarrow> bit (of_bool f :: u8) n" by (cases f) (auto simp: bit_1_iff)
  finally show "bit (drop_bit 7 ((x AND 0x7F) OR (if f then 0x80 else 0)) AND 1 :: u8) n = bit (of_bool f :: u8) n" .
qed

lemma harq_unpack_pack:
  assumes "unat (hh_proc h) < 128" "hh_ndi h \<in> {0, 1}"
  shows "harq_unpack (harq_pack h @ rest) = Some h"
proof -
  let ?b = "(hh_proc h AND 0x7F) OR (if hh_ndi h \<noteq> 0 then 0x80 else 0)"
  have small: "take_bit 7 (hh_proc h) = hh_proc h" using assms by (intro and_mask_small) simp
  have small': "bit (hh_proc h) n \<Longrightarrow> n < 7" for n
    by (metis small bit_take_bit_iff)
  have "?b AND 0x7F = hh_proc h"
    by (rule bit_word_eqI) (auto simp only: bit_and_iff bit_flag_msb, auto simp: wire_simps dest: small')
  moreover have "drop_bit 7 ?b AND 1 = hh_ndi h"
    unfolding flag_msb using assms(2) by auto
  ultimately show ?thesis
    by (simp add: harq_unpack_def harq_pack_def wire_simps)
qed

lemma length_harq_pack [simp]: "length (harq_pack h) = 7"
  by (simp add: harq_pack_def)

lemma link_decode_encoded:
  assumes "2 * length p + 6 < 65536"
  shows "link_decode_bits (fec_encode (bytes_to_bits_fec (crc_attach p))) (length p + 2) = Inr (Some p)"
proof -
  have "length (bytes_to_bits_fec (crc_attach p)) < 0xFFFFFFF"
    using assms by (simp add: crc_attach_def Let_def)
  then have d: "fec_decode (fec_encode (bytes_to_bits_fec (crc_attach p))) None = Inr (bytes_to_bits_fec (crc_attach p))"
    by (simp add: fec_decode_encode bytes_to_bits_fec_01)
  show ?thesis
    by (simp add: link_decode_bits_def d bytes_bits_round_trip) (simp add: crc_attach_def Let_def)
qed

subsection \<open>The receiver\<close>

text \<open>
  A frame whose header is intact announces at least as many coded bytes as its information
  length needs; its payload may be arbitrarily corrupted.
\<close>

definition header_consistent :: "bytes \<Rightarrow> bool" where
  "header_consistent frame \<longleftrightarrow>
     (case harq_unpack frame of None \<Rightarrow> True | Some h \<Rightarrow> valid_coded_bits h < 8 * unat (hh_len h))"

definition soft_ok :: "harq_rx \<Rightarrow> bool" where
  "soft_ok soft \<longleftrightarrow> (\<forall>b \<in> set soft. sb_bits b = [] \<or> length (sb_bits b) mod 8 = 4)"

lemma soft_ok_reset: "soft_ok harq_rx_reset"
  by (simp add: soft_ok_def harq_rx_reset_def soft_buf_init_def)

lemma valid_coded_bits_mod: "valid_coded_bits h mod 8 = 4"
  unfolding valid_coded_bits_def by presburger

text \<open>With consistent headers the stored block never has the length of a received one.\<close>

lemma harq_rx_bits_plain:
  assumes "soft_ok soft" "length bytes = unat (hh_len h)" "valid_coded_bits h < 8 * unat (hh_len h)"
  shows "harq_rx_bits soft h bytes = take (valid_coded_bits h) (bytes_to_bits_fec bytes)"
proof -
  have "length (sb_bits (soft ! unat (hh_proc h))) \<noteq> length (bytes_to_bits_fec bytes)"
    if "unat (hh_proc h) < length soft" "sb_bits (soft ! unat (hh_proc h)) \<noteq> []"
  proof -
    have "length (sb_bits (soft ! unat (hh_proc h))) mod 8 = 4"
      using assms(1) that by (auto simp: soft_ok_def)
    then show ?thesis by (metis length_bytes_to_bits_fec mod_mult_self1_is_0 zero_neq_numeral)
  qed
  with assms show ?thesis by (auto simp: harq_rx_bits_def Let_def min_def)
qed

lemma soft_ok_update: "soft_ok soft \<Longrightarrow> sb_bits b = [] \<or> length (sb_bits b) mod 8 = 4 \<Longrightarrow> soft_ok (soft[i := b])"
  using set_update_subset_insert [of soft i b] unfolding soft_ok_def by blast

lemma soft_ok_resize: "soft_ok soft \<Longrightarrow> soft_ok (soft_resize p soft)"
  by (auto simp: soft_ok_def soft_resize_def soft_buf_init_def)

lemma soft_ok_receive:
  assumes "soft_ok soft" "header_consistent frame" "harq_receive soft frame = Inr (soft', res)"
  shows "soft_ok soft'"
proof (cases "harq_unpack frame")
  case None
  with assms show ?thesis by (simp add: harq_receive_def)
next
  case (Some h)
  with assms(2) have v: "valid_coded_bits h < 8 * unat (hh_len h)"
    by (simp add: header_consistent_def)
  have "length (harq_rx_bits soft h (take (unat (hh_len h)) (drop 7 frame))) mod 8 = 4"
    if "7 + unat (hh_len h) \<le> length frame"
    using that harq_rx_bits_plain [OF assms(1) _ v] v valid_coded_bits_mod by simp
  then show ?thesis
    using assms(1,3) Some
    by (cases "link_decode_bits (harq_rx_bits soft h (take (unat (hh_len h)) (drop 7 frame))) (unat (hh_info_len h))")
      (auto simp: harq_receive_def Let_def soft_ok_update soft_ok_resize simp del: take_drop drop_take
        split: if_splits)
qed

lemma header_consistent_link_encode:
  assumes "link_encode p proc ndi = Inr frame" "unat proc < 128" "ndi \<in> {0, 1}" "2 * length p + 6 < 65536"
  shows "header_consistent frame"
proof -
  obtain coded where "frame = harq_pack \<lparr>hh_proc = proc, hh_ndi = ndi, hh_rv = 0,
      hh_len = size16 coded, hh_info_len = size16 (crc_attach p)\<rparr> @ coded" "length coded = 2 * length p + 6"
    using link_encode_frame [of p proc ndi] assms(1) by auto
  moreover have "unat (size16 (crc_attach p)) = length p + 2"
    using assms by (simp add: crc_attach_def Let_def)
  ultimately show ?thesis
    using assms by (simp add: header_consistent_def harq_unpack_pack valid_coded_bits_def)
qed

lemma harq_receive_intact:
  assumes ok: "soft_ok soft" and enc: "link_encode p proc ndi = Inr frame"
    and small: "unat proc < 128" "ndi \<in> {0, 1}" "2 * length p + 6 < 65536"
  shows "\<exists>soft'. harq_receive soft frame =
    Inr (soft', \<lparr>hr_delivered = True, hr_need_feedback = True, hr_ack = True, hr_proc = proc, hr_mac_pdu = p\<rparr>)"
proof -
  let ?h = "\<lambda>coded. \<lparr>hh_proc = proc, hh_ndi = ndi, hh_rv = 0, hh_len = size16 coded,
    hh_info_len = size16 (crc_attach p)\<rparr>"
  let ?bits = "fec_encode (bytes_to_bits_fec (crc_attach p))"
  obtain coded where f: "frame = harq_pack (?h coded) @ coded"
      and c: "bytes_to_bits_fec coded = pad_to_byte ?bits" "length coded = 2 * length p + 6"
    using link_encode_frame [of p proc ndi] enc by auto
  have il: "unat (size16 (crc_attach p)) = length p + 2"
    using small by (simp add: crc_attach_def Let_def)
  have lb: "length ?bits = valid_coded_bits (?h coded)"
    by (simp add: valid_coded_bits_def il length_fec_encode coded_size_def) (simp add: crc_attach_def Let_def)
  have "harq_rx_bits soft (?h coded) coded = take (valid_coded_bits (?h coded)) (bytes_to_bits_fec coded)"
    using small c by (intro harq_rx_bits_plain [OF ok]) (simp_all add: valid_coded_bits_def il)
  also have "\<dots> = ?bits" using pad_to_byte_prefix [of ?bits] lb by (auto simp: c)
  finally have "link_decode_bits (harq_rx_bits soft (?h coded) coded) (unat (size16 (crc_attach p))) = Inr (Some p)"
    using link_decode_encoded [OF small(3)] by (simp only: il)
  with small c show ?thesis
    by (simp add: harq_receive_def f harq_unpack_pack Let_def)
qed

subsection \<open>The sender\<close>

text \<open>
  The sender's invariant: one slot per configured process, a busy slot holds exactly the
  frame of the transport block it is sending under its own process id and indicator, and it
  has not exceeded the retransmission budget.
\<close>

definition harq_tx_inv :: "harq_tx \<Rightarrow> bool" where
  "harq_tx_inv tx \<longleftrightarrow>
     length (ht_procs tx) = unat (hc_num_processes (ht_cfg tx)) \<and>
     (\<forall>p < length (ht_procs tx). hp_ndi (ht_procs tx ! p) \<in> {0, 1} \<and>
        (hp_busy (ht_procs tx ! p) \<longrightarrow>
           hp_retx_count (ht_procs tx ! p) \<le> hc_max_retx (ht_cfg tx) \<and>
           link_encode (hp_crc_block (ht_procs tx ! p)) (word_of_nat p) (hp_ndi (ht_procs tx ! p))
             = Inr (hp_coded (ht_procs tx ! p))))"

text \<open>
  A frame on the air belongs to a block: the event repeats the frame of the process.
\<close>

definition event_carries :: "harq_tx \<Rightarrow> harq_event \<Rightarrow> bytes \<Rightarrow> bool" where
  "event_carries tx e mac_pdu \<longleftrightarrow>
     unat (he_proc e) < length (ht_procs tx) \<and> he_ndi e \<in> {0, 1} \<and>
     link_encode mac_pdu (he_proc e) (he_ndi e) = Inr (he_coded e) \<and>
     hp_busy (ht_procs tx ! unat (he_proc e)) \<and>
     hp_crc_block (ht_procs tx ! unat (he_proc e)) = mac_pdu"

lemma harq_tx_inv_init: "harq_tx_inv (harq_tx_init cfg)"
  by (simp add: harq_tx_inv_def harq_tx_init_def harq_proc_init_def)

lemma procs_bound: "harq_tx_inv tx \<Longrightarrow> p < length (ht_procs tx) \<Longrightarrow> unat (word_of_nat p :: u8) = p"
  using unsigned_less [where 'a = nat and w = "hc_num_processes (ht_cfg tx)"]
  by (simp add: harq_tx_inv_def unat_of_nat)

lemma harq_tx_inv_update:
  assumes "harq_tx_inv tx" "p < length (ht_procs tx)"
    and "hp_ndi pr \<in> {0, 1}"
    and "hp_busy pr \<Longrightarrow> hp_retx_count pr \<le> hc_max_retx (ht_cfg tx) \<and>
           link_encode (hp_crc_block pr) (word_of_nat p) (hp_ndi pr) = Inr (hp_coded pr)"
  shows "harq_tx_inv (tx\<lparr>ht_procs := (ht_procs tx)[p := pr]\<rparr>)"
  using assms by (auto simp: harq_tx_inv_def nth_list_update)

lemma harq_tx_inv_next [simp]:
  "harq_tx_inv (tx\<lparr>ht_next_proc := n\<rparr>) = harq_tx_inv tx"
  "harq_tx_inv (tx\<lparr>ht_procs := ps, ht_next_proc := n\<rparr>) = harq_tx_inv (tx\<lparr>ht_procs := ps\<rparr>)"
  "harq_tx_inv (tx\<lparr>ht_last_now := t\<rparr>) = harq_tx_inv tx"
  by (simp_all add: harq_tx_inv_def)

lemma link_encode_not_Inl: "link_encode p proc ndi \<noteq> Inl e"
  using link_encode_frame [of p proc ndi] by auto

lemma find_idle:
  assumes "harq_tx_inv tx" "find (\<lambda>p. \<not> hp_busy (ht_procs tx ! p)) (harq_candidates tx) = Some p"
  shows "p < length (ht_procs tx) \<and> \<not> hp_busy (ht_procs tx ! p)"
proof -
  have "p \<in> set (harq_candidates tx)" "\<not> hp_busy (ht_procs tx ! p)"
    using assms(2) by (auto simp: find_Some_iff)
  then show ?thesis
    using assms(1) by (auto simp: harq_candidates_def Let_def harq_tx_inv_def)
qed

lemma xor_one_01: "(x :: u8) \<in> {0, 1} \<Longrightarrow> x XOR 1 \<in> {0, 1}"
  by auto

lemma harq_send_cases:
  assumes "harq_tx_inv tx"
  shows "harq_send tx mac_pdu = Inr (tx, None) \<and> (\<forall>p < length (ht_procs tx). hp_busy (ht_procs tx ! p)) \<or>
    (\<exists>tx' e. harq_send tx mac_pdu = Inr (tx', Some e) \<and> harq_tx_inv tx' \<and> he_type e = NEW_TX \<and>
       event_carries tx' e mac_pdu \<and> \<not> hp_busy (ht_procs tx ! unat (he_proc e)) \<and>
       hp_retx_count (ht_procs tx' ! unat (he_proc e)) = 0 \<and>
       (\<forall>q. q \<noteq> unat (he_proc e) \<longrightarrow> ht_procs tx' ! q = ht_procs tx ! q) \<and>
       length (ht_procs tx') = length (ht_procs tx))"
proof (cases "find (\<lambda>p. \<not> hp_busy (ht_procs tx ! p)) (harq_candidates tx)")
  case None
  let ?n = "unat (hc_num_processes (ht_cfg tx))" and ?k = "unat (ht_next_proc tx)"
  have "hp_busy (ht_procs tx ! p)" if "p < ?n" for p
  proof -
    have "(?k + (p + ?n - ?k mod ?n) mod ?n) mod ?n = p"
    proof -
      have "(?k + (p + ?n - ?k mod ?n) mod ?n) mod ?n = (?k mod ?n + (p + ?n - ?k mod ?n)) mod ?n"
        by (simp add: mod_simps)
      also have "?k mod ?n + (p + ?n - ?k mod ?n) = p + ?n"
        using that mod_less_divisor [of ?n ?k] by linarith
      finally show ?thesis using that by simp
    qed
    then have "p \<in> set (harq_candidates tx)"
      using that by (auto simp: harq_candidates_def Let_def intro!: image_eqI [where x = "(p + ?n - ?k mod ?n) mod ?n"])
    with None show ?thesis by (auto simp: find_None_iff)
  qed
  with None assms show ?thesis by (simp add: harq_send_def harq_tx_inv_def)
next
  case (Some p)
  note p = find_idle [OF assms Some]
  let ?ndi = "hp_ndi (ht_procs tx ! p) XOR 1"
  obtain coded where c: "link_encode mac_pdu (word_of_nat p) ?ndi = Inr coded"
    using link_encode_frame by blast
  have ndi: "?ndi \<in> {0, 1}" using assms p xor_one_01 by (simp add: harq_tx_inv_def)
  show ?thesis
    using p ndi c procs_bound [OF assms, of p]
    by (intro disjI2) (auto simp: harq_send_def Some Let_def event_carries_def intro!: harq_tx_inv_update [OF assms])
qed

lemma harq_retx_step:
  assumes inv: "harq_tx_inv tx" and p: "p < length (ht_procs tx)" and r: "harq_retx p tx = (tx', evs)"
  shows "harq_tx_inv tx' \<and> length (ht_procs tx') = length (ht_procs tx) \<and> ht_cfg tx' = ht_cfg tx \<and>
    (\<forall>q. q \<noteq> p \<longrightarrow> ht_procs tx' ! q = ht_procs tx ! q) \<and>
    (\<forall>e \<in> set evs. he_type e = RETX \<and> unat (he_proc e) = p \<and>
       event_carries tx' e (hp_crc_block (ht_procs tx ! p)) \<and> hp_busy (ht_procs tx ! p))"
proof (cases "hp_busy (ht_procs tx ! p)")
  case False
  with assms show ?thesis by (simp add: harq_retx_def Let_def)
next
  case busy: True
  note ok = inv [unfolded harq_tx_inv_def, THEN conjunct2, rule_format, OF p]
  show ?thesis
  proof (cases "hp_retx_count (ht_procs tx ! p) \<ge> hc_max_retx (ht_cfg tx)")
    case True
    with busy p r ok show ?thesis
      by (auto simp: harq_retx_def Let_def intro!: harq_tx_inv_update [OF inv])
  next
    case False
    then have "hp_retx_count (ht_procs tx ! p) + 1 \<le> hc_max_retx (ht_cfg tx)"
      by (simp add: inc_le)
    with False busy p r ok procs_bound [OF inv p] show ?thesis
      by (auto simp: harq_retx_def Let_def event_carries_def intro!: harq_tx_inv_update [OF inv])
  qed
qed

lemma event_carries_mono:
  assumes "event_carries tx e b" "length (ht_procs tx') = length (ht_procs tx)"
    "ht_procs tx' ! unat (he_proc e) = ht_procs tx ! unat (he_proc e)"
  shows "event_carries tx' e b"
  using assms by (simp add: event_carries_def)

text \<open>Every event of a timeout sweep carries the block its process held before the sweep.\<close>

lemma harq_poll_fold:
  assumes "harq_tx_inv tx" "length (ht_procs tx) = n" "k \<le> n"
    and "fold (harq_poll_one now) [0..<k] (tx, []) = (tx', out)"
  shows "harq_tx_inv tx' \<and> length (ht_procs tx') = n \<and>
    (\<forall>q. k \<le> q \<longrightarrow> ht_procs tx' ! q = ht_procs tx ! q) \<and>
    (\<forall>e \<in> set out. he_type e = RETX \<and> unat (he_proc e) < k \<and> hp_busy (ht_procs tx ! unat (he_proc e)) \<and>
       event_carries tx' e (hp_crc_block (ht_procs tx ! unat (he_proc e))))"
  using assms(3,4)
proof (induction k arbitrary: tx' out)
  case 0
  with assms show ?case by simp
next
  case (Suc k)
  obtain t1 o1 where f: "fold (harq_poll_one now) [0..<k] (tx, []) = (t1, o1)" by fastforce
  note IH = Suc.IH [OF _ f]
  obtain t2 o2 where r: "harq_retx k t1 = (t2, o2)" by fastforce
  have s: "(tx', out) = (if harq_expired now (ht_procs t1 ! k) then (t2, o1 @ o2) else (t1, o1))"
    using Suc.prems(2) f r by (simp add: harq_poll_one_def [of now k] split: if_splits)
  show ?case
  proof (cases "harq_expired now (ht_procs t1 ! k)")
    case False
    with s IH Suc.prems(1) show ?thesis by (auto simp: less_Suc_eq)
  next
    case True
    have t1: "harq_tx_inv t1" "length (ht_procs t1) = n" "k < length (ht_procs t1)"
      "ht_procs t1 ! k = ht_procs tx ! k"
      using IH Suc.prems(1) by auto
    note R = harq_retx_step [OF t1(1,3) r]
    have "event_carries t2 e (hp_crc_block (ht_procs tx ! unat (he_proc e)))" if "e \<in> set o1" for e
      using that IH Suc.prems(1) R event_carries_mono [of t1 e _ t2] by (auto)
    with s True IH R t1 Suc.prems(1) show ?thesis by (auto simp: less_Suc_eq)
  qed
qed

lemma harq_poll_step:
  assumes "harq_tx_inv tx" "harq_poll_timeouts now tx = (tx', out)"
  shows "harq_tx_inv tx' \<and> length (ht_procs tx') = length (ht_procs tx) \<and>
    (\<forall>e \<in> set out. he_type e = RETX \<and> unat (he_proc e) < length (ht_procs tx) \<and>
       hp_busy (ht_procs tx ! unat (he_proc e)) \<and>
       event_carries tx' e (hp_crc_block (ht_procs tx ! unat (he_proc e))))"
proof -
  have "harq_tx_inv (harq_advance now tx)" using assms by (simp add: harq_advance_def)
  from harq_poll_fold [OF this, of "length (ht_procs tx)" "length (ht_procs tx)" now tx' out]
  show ?thesis using assms(2) by (simp add: harq_poll_timeouts_def harq_advance_def)
qed

subsection \<open>Runs of the sender\<close>

text \<open>
  The sender's life: any interleaving of submissions, feedback, clock ticks and resets. The
  run records every event put on the air and the blocks submitted so far.
\<close>

inductive harq_run :: "harq_tx_config \<Rightarrow> harq_tx \<Rightarrow> harq_event list \<Rightarrow> bytes list \<Rightarrow> bool"
  for cfg where
  run_init: "harq_run cfg (harq_tx_init cfg) [] []"
| run_send: "harq_run cfg tx air subs \<Longrightarrow> harq_send tx pdu = Inr (tx', Some e) \<Longrightarrow>
    harq_run cfg tx' (air @ [e]) (subs @ [pdu])"
| run_ack: "harq_run cfg tx air subs \<Longrightarrow> harq_run cfg (harq_on_ack proc tx) air subs"
| run_nack: "harq_run cfg tx air subs \<Longrightarrow> harq_on_nack proc tx = (tx', r) \<Longrightarrow>
    harq_run cfg tx' (air @ (case r of None \<Rightarrow> [] | Some e \<Rightarrow> [e])) subs"
| run_poll: "harq_run cfg tx air subs \<Longrightarrow> harq_poll_timeouts now tx = (tx', out) \<Longrightarrow>
    harq_run cfg tx' (air @ out) subs"
| run_advance: "harq_run cfg tx air subs \<Longrightarrow> harq_run cfg (harq_advance now tx) air subs"
| run_reset: "harq_run cfg tx air subs \<Longrightarrow> harq_run cfg (harq_tx_reset tx) air subs"

definition air_ok :: "harq_tx_config \<Rightarrow> bytes list \<Rightarrow> harq_event \<Rightarrow> bool" where
  "air_ok cfg subs e \<longleftrightarrow> unat (he_proc e) < unat (hc_num_processes cfg) \<and> he_ndi e \<in> {0, 1} \<and>
     (\<exists>pdu \<in> set subs. link_encode pdu (he_proc e) (he_ndi e) = Inr (he_coded e))"

definition blocks_ok :: "harq_tx \<Rightarrow> bytes list \<Rightarrow> bool" where
  "blocks_ok tx subs \<longleftrightarrow> (\<forall>p < length (ht_procs tx). hp_busy (ht_procs tx ! p) \<longrightarrow>
     hp_crc_block (ht_procs tx ! p) \<in> set subs)"

lemma harq_on_ack_inv:
  assumes "harq_tx_inv tx"
  shows "harq_tx_inv (harq_on_ack proc tx)"
proof (cases "unat proc < length (ht_procs tx)")
  case True
  moreover have "hp_ndi (ht_procs tx ! unat proc) \<in> {0, 1}"
    using assms True by (simp add: harq_tx_inv_def)
  ultimately show ?thesis
    unfolding harq_on_ack_def by (auto intro!: harq_tx_inv_update [OF assms])
qed (simp add: harq_on_ack_def assms)

lemma harq_reset_inv: "harq_tx_inv tx \<Longrightarrow> harq_tx_inv (harq_tx_reset tx)"
  by (simp add: harq_tx_inv_def harq_tx_reset_def)

lemma harq_cfg:
  "harq_retx p tx = (tx', evs) \<Longrightarrow> ht_cfg tx' = ht_cfg tx"
  "harq_send tx pdu = Inr (tx', r) \<Longrightarrow> ht_cfg tx' = ht_cfg tx"
  by (auto simp: harq_retx_def harq_send_def Let_def split: if_splits option.splits sum.splits)

lemma harq_poll_cfg: "harq_poll_timeouts now tx = (tx', out) \<Longrightarrow> ht_cfg tx' = ht_cfg tx"
proof -
  have "ht_cfg (fst (fold (harq_poll_one now) ps st)) = ht_cfg (fst st)" for ps st
    by (induction ps arbitrary: st) (auto simp: harq_poll_one_def Let_def harq_cfg(1) split: prod.splits)
  from this [of "[0..<length (ht_procs tx)]" "(harq_advance now tx, [])"]
  show "harq_poll_timeouts now tx = (tx', out) \<Longrightarrow> ht_cfg tx' = ht_cfg tx"
    by (simp add: harq_poll_timeouts_def harq_advance_def)
qed

lemma air_okI:
  assumes "event_carries tx e pdu" "pdu \<in> set subs" "length (ht_procs tx) = unat (hc_num_processes cfg)"
  shows "air_ok cfg subs e"
  using assms by (auto simp: air_ok_def event_carries_def)

lemma air_ok_more: "air_ok cfg subs e \<Longrightarrow> air_ok cfg (subs @ subs') e"
  by (auto simp: air_ok_def)

lemma blocks_ok_other:
  assumes "blocks_ok tx subs" "length (ht_procs tx') = length (ht_procs tx)"
    "\<And>q. q < length (ht_procs tx) \<Longrightarrow> hp_busy (ht_procs tx' ! q) \<Longrightarrow>
       (hp_busy (ht_procs tx ! q) \<and> hp_crc_block (ht_procs tx' ! q) = hp_crc_block (ht_procs tx ! q)) \<or>
       hp_crc_block (ht_procs tx' ! q) \<in> set subs'"
    "set subs \<subseteq> set subs'"
  shows "blocks_ok tx' subs'"
  using assms unfolding blocks_ok_def by fastforce

lemma harq_retx_block:
  assumes "p < length (ht_procs tx)" "harq_retx p tx = (tx', evs)" "hp_busy (ht_procs tx' ! q)" "q < length (ht_procs tx)"
  shows "hp_busy (ht_procs tx ! q) \<and> hp_crc_block (ht_procs tx' ! q) = hp_crc_block (ht_procs tx ! q)"
proof (cases "q = p")
  case True
  with assms show ?thesis
    by (cases "hp_retx_count (ht_procs tx ! p) \<ge> hc_max_retx (ht_cfg tx)"; cases "hp_busy (ht_procs tx ! p)")
      (auto simp: harq_retx_def Let_def)
next
  case False
  then have "ht_procs tx' ! q = ht_procs tx ! q"
    using assms(2) unfolding harq_retx_def Let_def by (auto split: if_splits)
  with assms(3) show ?thesis by simp
qed

lemma harq_poll_one_step:
  assumes "harq_tx_inv (fst st)" "p < length (ht_procs (fst st))" "st' = harq_poll_one now p st"
  shows "harq_tx_inv (fst st')" "length (ht_procs (fst st')) = length (ht_procs (fst st))"
    "q < length (ht_procs (fst st)) \<Longrightarrow> hp_busy (ht_procs (fst st') ! q) \<Longrightarrow>
       hp_busy (ht_procs (fst st) ! q) \<and> hp_crc_block (ht_procs (fst st') ! q) = hp_crc_block (ht_procs (fst st) ! q)"
proof -
  obtain t1 o1 where st: "st = (t1, o1)" by fastforce
  obtain t2 o2 where r: "harq_retx p t1 = (t2, o2)" by fastforce
  have f: "fst st' = (if harq_expired now (ht_procs t1 ! p) then t2 else t1)"
    using assms(3) by (simp add: st harq_poll_one_def r)
  have p: "harq_tx_inv t1" "p < length (ht_procs t1)" using assms st by simp_all
  note R = harq_retx_step [OF p r]
  show "harq_tx_inv (fst st')" "length (ht_procs (fst st')) = length (ht_procs (fst st))"
    using R p by (simp_all add: f st)
  show "hp_busy (ht_procs (fst st) ! q) \<and> hp_crc_block (ht_procs (fst st') ! q) = hp_crc_block (ht_procs (fst st) ! q)"
    if "q < length (ht_procs (fst st))" "hp_busy (ht_procs (fst st') ! q)"
    using that harq_retx_block [OF p(2) r, of q] by (simp add: f st split: if_splits)
qed

lemma harq_poll_fold_block:
  assumes "harq_tx_inv (fst st)" "\<forall>p \<in> set ps. p < length (ht_procs (fst st))" "q < length (ht_procs (fst st))"
    "hp_busy (ht_procs (fst (fold (harq_poll_one now) ps st)) ! q)"
  shows "hp_busy (ht_procs (fst st) ! q) \<and>
    hp_crc_block (ht_procs (fst (fold (harq_poll_one now) ps st)) ! q) = hp_crc_block (ht_procs (fst st) ! q)"
  using assms
proof (induction ps arbitrary: st)
  case (Cons p ps)
  define st' where "st' = harq_poll_one now p st"
  have p: "p < length (ht_procs (fst st))" using Cons.prems by simp
  note H = harq_poll_one_step [OF Cons.prems(1) p st'_def]
  have "hp_busy (ht_procs (fst st') ! q) \<and>
      hp_crc_block (ht_procs (fst (fold (harq_poll_one now) ps st')) ! q) = hp_crc_block (ht_procs (fst st') ! q)"
    by (rule Cons.IH) (use Cons.prems H st'_def in auto)
  then show ?case using H(3) [of q] Cons.prems by (simp flip: st'_def)
qed simp

lemma harq_poll_block:
  assumes "harq_tx_inv tx" "harq_poll_timeouts now tx = (tx', out)" "hp_busy (ht_procs tx' ! q)" "q < length (ht_procs tx)"
  shows "hp_busy (ht_procs tx ! q) \<and> hp_crc_block (ht_procs tx' ! q) = hp_crc_block (ht_procs tx ! q)"
  using harq_poll_fold_block [of "(harq_advance now tx, [])" "[0..<length (ht_procs tx)]" q now] assms
  by (simp add: harq_poll_timeouts_def harq_advance_def)

lemma harq_run_inv:
  "harq_run cfg tx air subs \<Longrightarrow>
     ht_cfg tx = cfg \<and> harq_tx_inv tx \<and> blocks_ok tx subs \<and> (\<forall>e \<in> set air. air_ok cfg subs e)"
proof (induction rule: harq_run.induct)
  case run_init
  show ?case by (simp add: harq_tx_inv_init, simp add: harq_tx_init_def blocks_ok_def harq_proc_init_def)
next
  case (run_send tx air subs pdu tx' e)
  then have inv: "harq_tx_inv tx" and b: "blocks_ok tx subs" and c: "ht_cfg tx = cfg" by auto
  note S = harq_send_cases [OF inv, of pdu, unfolded run_send.hyps(2)]
  have "blocks_ok tx' (subs @ [pdu])"
  proof (rule blocks_ok_other [OF b])
    show "(hp_busy (ht_procs tx ! q) \<and> hp_crc_block (ht_procs tx' ! q) = hp_crc_block (ht_procs tx ! q)) \<or>
        hp_crc_block (ht_procs tx' ! q) \<in> set (subs @ [pdu])" if "hp_busy (ht_procs tx' ! q)" for q
      using S that by (cases "q = unat (he_proc e)") (simp_all add: event_carries_def)
  qed (use S in auto)
  moreover have "air_ok cfg (subs @ [pdu]) e"
    by (rule air_okI [of tx' e pdu]) (use S inv c in \<open>auto simp: harq_tx_inv_def\<close>)
  ultimately show ?case
    using S run_send harq_cfg(2) [OF run_send.hyps(2)] by (auto intro: air_ok_more)
next
  case (run_ack tx air subs proc)
  then have "harq_tx_inv (harq_on_ack proc tx)" by (simp add: harq_on_ack_inv)
  moreover have "blocks_ok (harq_on_ack proc tx) subs"
    using run_ack by (simp add: harq_on_ack_def blocks_ok_def nth_list_update)
  ultimately show ?case using run_ack by (simp add: harq_on_ack_def)
next
  case (run_nack tx air subs proc tx' r)
  show ?case
  proof (cases "unat proc < length (ht_procs tx)")
    case False
    with run_nack show ?thesis by (auto simp: harq_on_nack_def)
  next
    case True
    obtain t2 o2 where t: "harq_retx (unat proc) tx = (t2, o2)" by fastforce
    have tx': "tx' = t2" "r = (case o2 of [] \<Rightarrow> None | e # _ \<Rightarrow> Some e)"
      using run_nack.hyps(2) t True by (auto simp: harq_on_nack_def)
    have inv: "harq_tx_inv tx" and b: "blocks_ok tx subs" and c: "ht_cfg tx = cfg" using run_nack by auto
    note R = harq_retx_step [OF inv True t]
    have "blocks_ok t2 subs"
      using harq_retx_block [OF True t] R by (intro blocks_ok_other [OF b]) auto
    moreover have "air_ok cfg subs e" if "e \<in> set o2" for e
      using that R True b c inv by (intro air_okI [of t2 e "hp_crc_block (ht_procs tx ! unat proc)"])
        (auto simp: blocks_ok_def harq_tx_inv_def)
    ultimately show ?thesis
      using R run_nack.IH tx' c by (auto split: option.splits list.splits)
  qed
next
  case (run_poll tx air subs now tx' out)
  then have inv: "harq_tx_inv tx" and b: "blocks_ok tx subs" and c: "ht_cfg tx = cfg" by auto
  note P = harq_poll_step [OF inv run_poll.hyps(2)]
  have "blocks_ok tx' subs"
    using harq_poll_block [OF inv run_poll.hyps(2)] P by (intro blocks_ok_other [OF b]) auto
  moreover have "air_ok cfg subs e" if "e \<in> set out" for e
    using that P b c inv by (intro air_okI [of tx' e "hp_crc_block (ht_procs tx ! unat (he_proc e))"])
      (auto simp: blocks_ok_def harq_tx_inv_def)
  ultimately show ?case using P run_poll harq_poll_cfg [OF run_poll.hyps(2)] by auto
next
  case (run_advance tx air subs now)
  then show ?case by (simp add: harq_advance_def blocks_ok_def)
next
  case (run_reset tx air subs)
  then show ?case by (auto simp: harq_reset_inv) (auto simp: harq_tx_reset_def blocks_ok_def)
qed

text \<open>
  The receiver's life: it starts empty and is fed frames with intact headers, their payload
  corrupted in any way.
\<close>

inductive harq_rx_run :: "harq_rx \<Rightarrow> bool" where
  rx_init: "harq_rx_run harq_rx_reset"
| rx_frame: "harq_rx_run soft \<Longrightarrow> header_consistent frame \<Longrightarrow> harq_receive soft frame = Inr (soft', res) \<Longrightarrow>
    harq_rx_run soft'"

lemma harq_rx_run_ok: "harq_rx_run soft \<Longrightarrow> soft_ok soft"
  by (induction rule: harq_rx_run.induct) (auto simp: soft_ok_reset soft_ok_receive)

text \<open>
  C21. HARQ end to end: in any run of the sender (submissions, ACKs, NACKs, timeouts, resets
  in any order, at most 128 processes), every frame it ever puts on the air, first
  transmission or retransmission, is the encoding of a submitted block, and a receiver that
  gets that frame intact (after any earlier frames with arbitrarily corrupted payloads)
  delivers exactly that block, with an ACK for the right process.
\<close>

theorem harq_frames_deliver:
  assumes "harq_run cfg tx air subs" and "e \<in> set air" and "harq_rx_run soft"
    and "unat (hc_num_processes cfg) \<le> 128" and "\<forall>pdu \<in> set subs. 2 * length pdu + 6 < 65536"
  shows "\<exists>pdu \<in> set subs. \<exists>soft'. harq_receive soft (he_coded e) =
    Inr (soft', \<lparr>hr_delivered = True, hr_need_feedback = True, hr_ack = True,
                 hr_proc = he_proc e, hr_mac_pdu = pdu\<rparr>)"
proof -
  have "air_ok cfg subs e" using harq_run_inv [OF assms(1)] assms(2) by blast
  then obtain pdu where "pdu \<in> set subs" "link_encode pdu (he_proc e) (he_ndi e) = Inr (he_coded e)"
      "unat (he_proc e) < 128" "he_ndi e \<in> {0, 1}"
    using assms(4) by (auto simp: air_ok_def)
  then show ?thesis
    using harq_receive_intact [OF harq_rx_run_ok [OF assms(3)]] assms(5) by blast
qed

lemma harq_send_first:
  "\<exists>tx e. harq_send (harq_tx_init harq_default_config) [1, 2, 3] = Inr (tx, Some e)"
proof -
  have "hp_busy (ht_procs (harq_tx_init harq_default_config) ! 0) = False"
      "0 < length (ht_procs (harq_tx_init harq_default_config))"
    by (simp_all add: harq_tx_init_def harq_default_config_def harq_proc_init_def)
  then show ?thesis using harq_send_cases [OF harq_tx_inv_init, of harq_default_config "[1, 2, 3]"] by blast
qed

theorem harq_frames_deliver_witness:
  "\<exists>tx e soft'. harq_send (harq_tx_init harq_default_config) [1, 2, 3] = Inr (tx, Some e) \<and>
     harq_receive harq_rx_reset (he_coded e) =
       Inr (soft', \<lparr>hr_delivered = True, hr_need_feedback = True, hr_ack = True,
                    hr_proc = he_proc e, hr_mac_pdu = [1, 2, 3]\<rparr>)"
proof -
  obtain tx e where s: "harq_send (harq_tx_init harq_default_config) [1, 2, 3] = Inr (tx, Some e)"
    using harq_send_first by blast
  have r: "harq_run harq_default_config tx [e] [[1, 2, 3]]"
    using run_send [OF run_init s] by simp
  show ?thesis
    using harq_frames_deliver [OF r _ rx_init, of e] s by (simp add: harq_default_config_def)
qed

text \<open>
  Consecutive NACKs for one process, with the sender's answers.
\<close>

fun harq_nacks :: "nat \<Rightarrow> u8 \<Rightarrow> harq_tx \<Rightarrow> harq_tx \<times> harq_event option list" where
  "harq_nacks 0 proc tx = (tx, [])"
| "harq_nacks (Suc k) proc tx =
     (let (tx1, r) = harq_on_nack proc tx; (tx2, rs) = harq_nacks k proc tx1 in (tx2, r # rs))"

lemma unat_Suc_le: "x < (y :: 'a::len word) \<Longrightarrow> unat (x + 1) = Suc (unat x)"
proof -
  assume "x < y"
  moreover have "unat y < 2 ^ LENGTH('a)" by (rule unsigned_less)
  ultimately have "Suc (unat x) < 2 ^ LENGTH('a)" by (simp only: word_less_nat_alt)
  then show ?thesis by (simp add: unat_word_ariths)
qed

lemma harq_nacks_budget:
  assumes "unat proc < length (ht_procs tx)" "hp_busy (ht_procs tx ! unat proc)"
    and "hp_retx_count (ht_procs tx ! unat proc) \<le> hc_max_retx (ht_cfg tx)"
    and "n = unat (hc_max_retx (ht_cfg tx)) - unat (hp_retx_count (ht_procs tx ! unat proc))"
  shows "\<exists>tx'. harq_nacks (Suc n) proc tx =
    (tx', replicate n (Some \<lparr>he_type = RETX, he_proc = proc, he_ndi = hp_ndi (ht_procs tx ! unat proc),
             he_coded = hp_coded (ht_procs tx ! unat proc)\<rparr>) @ [None]) \<and>
    \<not> hp_busy (ht_procs tx' ! unat proc)"
  using assms
proof (induction n arbitrary: tx)
  case 0
  then have "hp_retx_count (ht_procs tx ! unat proc) \<ge> hc_max_retx (ht_cfg tx)"
    by (simp add: word_le_nat_alt)
  with 0 show ?case by (simp add: harq_on_nack_def harq_retx_def Let_def)
next
  case (Suc n)
  let ?pr = "ht_procs tx ! unat proc"
  let ?tx = "tx\<lparr>ht_procs := (ht_procs tx)[unat proc := ?pr\<lparr>hp_retx_count := hp_retx_count ?pr + 1,
              hp_deadline := ht_last_now tx + hc_ack_timeout_ms (ht_cfg tx)\<rparr>]\<rparr>"
  have lt: "hp_retx_count ?pr < hc_max_retx (ht_cfg tx)"
    using Suc.prems by (simp add: word_less_nat_alt)
  then have "harq_on_nack proc tx = (?tx, Some \<lparr>he_type = RETX, he_proc = proc, he_ndi = hp_ndi ?pr, he_coded = hp_coded ?pr\<rparr>)"
    using Suc.prems by (simp add: harq_on_nack_def harq_retx_def Let_def)
  moreover have "\<exists>tx'. harq_nacks (Suc n) proc ?tx =
    (tx', replicate n (Some \<lparr>he_type = RETX, he_proc = proc, he_ndi = hp_ndi (ht_procs ?tx ! unat proc),
             he_coded = hp_coded (ht_procs ?tx ! unat proc)\<rparr>) @ [None]) \<and> \<not> hp_busy (ht_procs tx' ! unat proc)"
    using Suc.prems lt by (intro Suc.IH) (simp_all add: unat_Suc_le inc_le)
  ultimately show ?case using Suc.prems(1) by (auto simp: Let_def)
qed

text \<open>
  The retransmission budget: in any reachable sender state, a process in flight with
  \<open>c\<close> retransmissions so far answers consecutive NACKs with exactly \<open>max_retx - c\<close>
  retransmissions, each the identical frame, and then gives the block up and is idle again,
  so no block occupies a process for ever.
\<close>

theorem harq_budget_exhausts:
  assumes "harq_run cfg tx air subs" and "unat proc < length (ht_procs tx)"
    and "hp_busy (ht_procs tx ! unat proc)"
  shows "\<exists>tx' n. n + unat (hp_retx_count (ht_procs tx ! unat proc)) = unat (hc_max_retx cfg) \<and>
    harq_nacks (Suc n) proc tx =
      (tx', replicate n (Some \<lparr>he_type = RETX, he_proc = proc, he_ndi = hp_ndi (ht_procs tx ! unat proc),
               he_coded = hp_coded (ht_procs tx ! unat proc)\<rparr>) @ [None]) \<and>
    \<not> hp_busy (ht_procs tx' ! unat proc)"
proof -
  have c: "ht_cfg tx = cfg" and le: "hp_retx_count (ht_procs tx ! unat proc) \<le> hc_max_retx (ht_cfg tx)"
    using harq_run_inv [OF assms(1)] assms(2,3) by (auto simp: harq_tx_inv_def)
  then have "unat (hp_retx_count (ht_procs tx ! unat proc)) \<le> unat (hc_max_retx cfg)"
    by (simp add: word_le_nat_alt)
  then show ?thesis
    using harq_nacks_budget [OF assms(2,3) le refl] unfolding c by (metis le_add_diff_inverse2)
qed

lemma harq_send_first_busy:
  "\<exists>tx e. harq_run harq_default_config tx [e] [[1, 2, 3]] \<and> unat (he_proc e) < length (ht_procs tx) \<and>
     hp_busy (ht_procs tx ! unat (he_proc e)) \<and> hp_retx_count (ht_procs tx ! unat (he_proc e)) = 0"
proof -
  obtain tx e where s: "harq_send (harq_tx_init harq_default_config) [1, 2, 3] = Inr (tx, Some e)"
    using harq_send_first by blast
  have r: "harq_run harq_default_config tx [e] [[1, 2, 3]]"
    using run_send [OF run_init s] by simp
  with s harq_send_cases [OF harq_tx_inv_init, of harq_default_config "[1, 2, 3]"] show ?thesis
    by (auto simp: event_carries_def)
qed

theorem harq_budget_exhausts_witness:
  "\<exists>tx e tx' r. harq_run harq_default_config tx [e] [[1, 2, 3]] \<and>
     harq_nacks 4 (he_proc e) tx = (tx', [Some r, Some r, Some r, None]) \<and>
     \<not> hp_busy (ht_procs tx' ! unat (he_proc e))"
proof -
  obtain tx e where r: "harq_run harq_default_config tx [e] [[1, 2, 3]]"
      "unat (he_proc e) < length (ht_procs tx)" "hp_busy (ht_procs tx ! unat (he_proc e))"
      "hp_retx_count (ht_procs tx ! unat (he_proc e)) = 0"
    using harq_send_first_busy by blast
  have n: "Suc 3 = 4" "replicate 3 x @ [y] = [x, x, x, y]" for x y :: 'a by (simp_all add: eval_nat_numeral)
  from harq_budget_exhausts [OF r(1-3)] r show ?thesis
    by (auto simp: harq_default_config_def n simp del: harq_nacks.simps)
qed

subsection \<open>Where the receiver differs from its comments\<close>

text \<open>
  Chase combining never happens: for frames with an intact header (which include every
  frame of the sender), what the receiver decodes is the received block alone, whatever the
  slot of the process holds; the stored attempt has lost the alignment padding and so never
  has the length of a received one.
\<close>

theorem harq_never_combines:
  assumes "harq_rx_run soft" and "harq_unpack frame = Some h" and "header_consistent frame"
    and "7 + unat (hh_len h) \<le> length frame"
  shows "harq_rx_bits soft h (take (unat (hh_len h)) (drop 7 frame)) =
         take (valid_coded_bits h) (bytes_to_bits_fec (take (unat (hh_len h)) (drop 7 frame)))"
  using assms(2-4)
  by (intro harq_rx_bits_plain [OF harq_rx_run_ok [OF assms(1)]]) (simp_all add: header_consistent_def)

theorem harq_never_combines_witness:
  "harq_rx_bits harq_rx_reset \<lparr>hh_proc = 0, hh_ndi = 0, hh_rv = 0, hh_len = 4, hh_info_len = 1\<rparr> [1, 2, 3, 4] =
   take 28 (bytes_to_bits_fec [1, 2, 3, 4])"
  using harq_never_combines [OF rx_init, of "[0, 0, 4, 0, 1, 0, 0xA9, 1, 2, 3, 4]"
      "\<lparr>hh_proc = 0, hh_ndi = 0, hh_rv = 0, hh_len = 4, hh_info_len = 1\<rparr>"]
  by (simp add: harq_unpack_def header_consistent_def valid_coded_bits_def get16_def)

text \<open>
  A frame that announces a single coded byte makes the receiver throw: \<^verbatim>\<open>fec_decode\<close> sizes
  its result by an unsigned subtraction that wraps, the vector throws \<^verbatim>\<open>std::length_error\<close>, and
  \<^verbatim>\<open>link_decode_bits\<close> catches only \<^verbatim>\<open>std::invalid_argument\<close>.
\<close>

theorem harq_short_frame_throws:
  assumes "harq_unpack frame = Some h" and "unat (hh_len h) = 1" and "8 \<le> length frame"
  shows "harq_receive soft frame = Inl length_error"
proof -
  let ?bits = "harq_rx_bits soft h (take (unat (hh_len h)) (drop 7 frame))"
  have "length ?bits = 8"
    using assms(2,3) by (simp add: harq_rx_bits_def Let_def combine_bits_def valid_coded_bits_def)
  then have "fec_decode ?bits None = Inl length_error"
    by (auto simp: fec_decode_def Let_def split: prod.splits)
  with assms show ?thesis
    by (simp add: harq_receive_def link_decode_bits_def)
qed

theorem harq_short_frame_throws_witness:
  "harq_receive harq_rx_reset [0x80, 0, 1, 0, 1, 0, 0xA9, 0] = Inl length_error"
  using harq_short_frame_throws [of "[0x80, 0, 1, 0, 1, 0, 0xA9, 0]"]
  by (simp add: harq_unpack_def get16_def)

end
