(* ===== verification/Crypto.thy ===== *)
theory Crypto
  imports Prelude
begin

text \<open>
  The cryptographic primitives, \<^verbatim>\<open>stack/common/src/crypto.cpp\<close>: SHA-256 as a streaming context
  (\<^verbatim>\<open>init\<close>, \<^verbatim>\<open>update\<close>, \<^verbatim>\<open>finalise\<close>), HMAC-SHA256 and ChaCha20. The context keeps the pending bytes
  as a list, whose length is \<^verbatim>\<open>buf_len\<close>. The lemmas show that feeding the hash in pieces is
  feeding it at once, that the streaming code computes the block-wise definition of the
  standard, that the padding never leaves its 72-byte buffer, that HMAC is the nested hash of
  the standard, and that the stream cipher is its own inverse and can be entered at any
  block.
\<close>

subsection \<open>Rotations and byte order\<close>

definition rotl :: "u32 \<Rightarrow> nat \<Rightarrow> u32" where
  "rotl v c = push_bit c v OR drop_bit (32 - c) v"

definition rotr :: "u32 \<Rightarrow> nat \<Rightarrow> u32" where
  "rotr v c = drop_bit c v OR push_bit (32 - c) v"

definition load_be :: "bytes \<Rightarrow> nat \<Rightarrow> u32" where
  "load_be p off = push_bit 24 (ucast (p ! off)) OR push_bit 16 (ucast (p ! (off + 1)))
     OR push_bit 8 (ucast (p ! (off + 2))) OR ucast (p ! (off + 3))"

definition store_be :: "u32 \<Rightarrow> bytes" where
  "store_be v = [byte_at 3 v, byte_at 2 v, byte_at 1 v, byte_at 0 v]"

subsection \<open>SHA-256\<close>

text \<open>The rows of the table as the source prints them.\<close>

definition sha_K :: "u32 list" where
  "sha_K = concat [
     [0x428a2f98, 0x71374491, 0xb5c0fbcf, 0xe9b5dba5, 0x3956c25b],
     [0x59f111f1, 0x923f82a4, 0xab1c5ed5, 0xd807aa98, 0x12835b01],
     [0x243185be, 0x550c7dc3, 0x72be5d74, 0x80deb1fe, 0x9bdc06a7],
     [0xc19bf174, 0xe49b69c1, 0xefbe4786, 0x0fc19dc6, 0x240ca1cc],
     [0x2de92c6f, 0x4a7484aa, 0x5cb0a9dc, 0x76f988da, 0x983e5152],
     [0xa831c66d, 0xb00327c8, 0xbf597fc7, 0xc6e00bf3, 0xd5a79147],
     [0x06ca6351, 0x14292967, 0x27b70a85, 0x2e1b2138, 0x4d2c6dfc],
     [0x53380d13, 0x650a7354, 0x766a0abb, 0x81c2c92e, 0x92722c85],
     [0xa2bfe8a1, 0xa81a664b, 0xc24b8b70, 0xc76c51a3, 0xd192e819],
     [0xd6990624, 0xf40e3585, 0x106aa070, 0x19a4c116, 0x1e376c08],
     [0x2748774c, 0x34b0bcb5, 0x391c0cb3, 0x4ed8aa4a, 0x5b9cca4f],
     [0x682e6ff3, 0x748f82ee, 0x78a5636f, 0x84c87814, 0x8cc70208],
     [0x90befffa, 0xa4506ceb, 0xbef9a3f7, 0xc67178f2]]"

record sha_ctx =
  sc_h :: "u32 list"
  sc_total_bits :: u64
  sc_buf :: bytes

definition sha_init :: sha_ctx where
  "sha_init = \<lparr>sc_h = [0x6a09e667, 0xbb67ae85, 0x3c6ef372, 0xa54ff53a,
                        0x510e527f, 0x9b05688c, 0x1f83d9ab, 0x5be0cd19],
               sc_total_bits = 0, sc_buf = []\<rparr>"

text \<open>The message schedule \<^verbatim>\<open>w[64]\<close>.\<close>

definition sha_schedule_step :: "nat \<Rightarrow> u32 list \<Rightarrow> u32 list" where
  "sha_schedule_step i w =
     (let s0 = rotr (w ! (i - 15)) 7 XOR rotr (w ! (i - 15)) 18 XOR drop_bit 3 (w ! (i - 15));
          s1 = rotr (w ! (i - 2)) 17 XOR rotr (w ! (i - 2)) 19 XOR drop_bit 10 (w ! (i - 2))
      in w @ [w ! (i - 16) + s0 + w ! (i - 7) + s1])"

definition sha_schedule :: "bytes \<Rightarrow> u32 list" where
  "sha_schedule block = fold sha_schedule_step [16..<64] (map (\<lambda>i. load_be block (4 * i)) [0..<16])"

text \<open>One of the 64 rounds on the working variables \<^verbatim>\<open>a .. h\<close> with \<^verbatim>\<open>K[i]\<close> and \<^verbatim>\<open>w[i]\<close>.\<close>

definition sha_round :: "u32 \<times> u32 \<Rightarrow> u32 list \<Rightarrow> u32 list" where
  "sha_round = (\<lambda>(k, w) v.
     (case v of [a, b, c, d, e, f, g, hh] \<Rightarrow>
        (let S1 = rotr e 6 XOR rotr e 11 XOR rotr e 25;
             ch = (e AND f) XOR (NOT e AND g);
             t1 = hh + S1 + ch + k + w;
             S0 = rotr a 2 XOR rotr a 13 XOR rotr a 22;
             maj = (a AND b) XOR (a AND c) XOR (b AND c);
             t2 = S0 + maj
         in [t1 + t2, a, b, c, d + t1, e, f, g])
      | _ \<Rightarrow> v))"

definition sha_compress :: "bytes \<Rightarrow> u32 list \<Rightarrow> u32 list" where
  "sha_compress block h = map2 (+) h (fold sha_round (zip sha_K (sha_schedule block)) h)"

text \<open>The \<^verbatim>\<open>while (len > 0)\<close> loop of \<^verbatim>\<open>update\<close>, for a buffer that is not full.\<close>

function sha_absorb :: "u32 list \<Rightarrow> bytes \<Rightarrow> bytes \<Rightarrow> u32 list \<times> bytes" where
  "sha_absorb h buf data =
     (if data = [] \<or> 64 \<le> length buf then (h, buf)
      else
        let n = min (length data) (64 - length buf);
            buf' = buf @ take n data
        in if length buf' = 64 then sha_absorb (sha_compress buf' h) [] (drop n data)
           else sha_absorb h buf' (drop n data))"
  by auto
termination
  by (relation "measure (\<lambda>(h, buf, data). length data)") auto

declare sha_absorb.simps [simp del]

definition sha_update :: "bytes \<Rightarrow> sha_ctx \<Rightarrow> sha_ctx" where
  "sha_update data ctx =
     (let (h, buf) = sha_absorb (sc_h ctx) (sc_buf ctx) data
      in ctx\<lparr>sc_total_bits := sc_total_bits ctx + word_of_nat (length data) * 8, sc_h := h, sc_buf := buf\<rparr>)"

text \<open>The padding: 0x80, zeros while \<^verbatim>\<open>(buf_len + t) % 64 != 56\<close>, then the bit count, big endian.\<close>

function sha_zeros :: "nat \<Rightarrow> nat \<Rightarrow> bytes" where
  "sha_zeros buf_len t = (if (buf_len + t) mod 64 \<noteq> 56 then 0 # sha_zeros buf_len (t + 1) else [])"
  by auto
termination
proof (relation "measure (\<lambda>(b, t). (120 - (b + t) mod 64) mod 64)")
  fix b t :: nat
  assume r: "(b + t) mod 64 \<noteq> 56"
  have d: "(120 - x) mod 64 = (if x \<le> 56 then 56 - x else 120 - x)" if "x < 64" for x :: nat
    using that by (cases "x \<le> 56") (simp_all add: mod_if)
  have "(b + (t + 1)) mod 64 = (if (b + t) mod 64 = 63 then 0 else (b + t) mod 64 + 1)"
    using mod_Suc [of "b + t" 64] by simp
  then show "((b, t + 1), b, t) \<in> measure (\<lambda>(b, t). (120 - (b + t) mod 64) mod 64)"
    using r mod_less_divisor [of 64 "b + t"] by (auto simp: d)
qed simp

declare sha_zeros.simps [simp del]

definition sha_tail :: "nat \<Rightarrow> u64 \<Rightarrow> bytes" where
  "sha_tail buf_len bits =
     [0x80] @ sha_zeros buf_len 1 @ map (\<lambda>i. ucast (drop_bit (56 - 8 * i) bits)) [0..<8]"

definition sha_finalise :: "sha_ctx \<Rightarrow> bytes" where
  "sha_finalise ctx =
     (let ctx' = sha_update (sha_tail (length (sc_buf ctx)) (sc_total_bits ctx)) ctx
      in concat (map store_be (sc_h ctx')))"

definition sha256 :: "bytes \<Rightarrow> bytes" where
  "sha256 data = sha_finalise (sha_update data sha_init)"

subsection \<open>HMAC\<close>

definition hmac_kblock :: "bytes \<Rightarrow> bytes" where
  "hmac_kblock key =
     (let k = (if length key > 64 then sha256 key else key) in k @ replicate (64 - length k) 0)"

definition hmac_sha256 :: "bytes \<Rightarrow> bytes \<Rightarrow> bytes" where
  "hmac_sha256 key data =
     (let kblock = hmac_kblock key;
          ipad = map (\<lambda>b. b XOR 0x36) kblock;
          opad = map (\<lambda>b. b XOR 0x5c) kblock;
          ih = sha_finalise (sha_update data (sha_update ipad sha_init))
      in sha_finalise (sha_update ih (sha_update opad sha_init)))"

subsection \<open>ChaCha20\<close>

definition quarter_round :: "nat \<Rightarrow> nat \<Rightarrow> nat \<Rightarrow> nat \<Rightarrow> u32 list \<Rightarrow> u32 list" where
  "quarter_round i j k l x =
     (let a = x ! i; b = x ! j; c = x ! k; d = x ! l;
          a = a + b; d = d XOR a; d = rotl d 16;
          c = c + d; b = b XOR c; b = rotl b 12;
          a = a + b; d = d XOR a; d = rotl d 8;
          c = c + d; b = b XOR c; b = rotl b 7
      in x[i := a, j := b, k := c, l := d])"

definition kSigma :: bytes where
  "kSigma = cstr ''expand 32-byte k''"

definition chacha_init :: "bytes \<Rightarrow> bytes \<Rightarrow> u32 \<Rightarrow> u32 list" where
  "chacha_init key nonce counter =
     map (\<lambda>i. get32_at kSigma (4 * i)) [0..<4] @ map (\<lambda>i. get32_at key (4 * i)) [0..<8]
       @ [counter, get32_at nonce 0, get32_at nonce 4, get32_at nonce 8]"

definition chacha_double_round :: "u32 list \<Rightarrow> u32 list" where
  "chacha_double_round x =
     quarter_round 3 4 9 14 (quarter_round 2 7 8 13 (quarter_round 1 6 11 12 (quarter_round 0 5 10 15
       (quarter_round 3 7 11 15 (quarter_round 2 6 10 14 (quarter_round 1 5 9 13 (quarter_round 0 4 8 12 x)))))))"

definition chacha20_block :: "bytes \<Rightarrow> bytes \<Rightarrow> u32 \<Rightarrow> bytes" where
  "chacha20_block key nonce counter =
     (let st = chacha_init key nonce counter;
          x = (chacha_double_round ^^ 10) st
      in concat (map put32 (map2 (+) x st)))"

function chacha20_xor :: "bytes \<Rightarrow> bytes \<Rightarrow> u32 \<Rightarrow> bytes \<Rightarrow> bytes" where
  "chacha20_xor key nonce counter data =
     (if data = [] then []
      else map2 (XOR) (take 64 data) (take (length data) (chacha20_block key nonce counter))
             @ chacha20_xor key nonce (counter + 1) (drop 64 data))"
  by auto
termination
  by (relation "measure (\<lambda>(key, nonce, counter, data). length data)") auto

declare chacha20_xor.simps [simp del]

subsection \<open>Streaming\<close>

text \<open>Hashing in two pieces is hashing the concatenation.\<close>

lemma sha_absorb_append:
  "length buf < 64 \<Longrightarrow>
     sha_absorb h buf (xs @ ys) = (let (h', buf') = sha_absorb h buf xs in sha_absorb h' buf' ys)"
proof (induction h buf xs rule: sha_absorb.induct)
  case (1 h buf xs)
  show ?case
  proof (cases "xs = []")
    case True
    then show ?thesis by (simp add: sha_absorb.simps [of h buf "[]"])
  next
    case False
    show ?thesis
    proof (cases "length buf + length xs < 64")
      case True
      have part: "sha_absorb h buf xs = (h, buf @ xs)"
        using True False 1(3) by (simp add: sha_absorb.simps [of h buf xs] sha_absorb.simps [of h _ "[]"])
      let ?n = "min (length (xs @ ys)) (64 - length buf)"
      show ?thesis
      proof (cases "ys = []")
        case True
        then show ?thesis using part \<open>length buf + length xs < 64\<close>
          by (simp add: sha_absorb.simps [of h _ "[]"])
      next
        case ys: False
        have n: "?n = length xs + min (length ys) (64 - length (buf @ xs))" using True by auto
        have t: "take ?n (xs @ ys) = xs @ take (min (length ys) (64 - length (buf @ xs))) ys"
            "drop ?n (xs @ ys) = drop (min (length ys) (64 - length (buf @ xs))) ys"
          unfolding n by simp_all
        have "sha_absorb h buf (xs @ ys) = sha_absorb h (buf @ xs) ys"
          using True ys 1(3)
          by (simp only: sha_absorb.simps [of h buf "xs @ ys"] sha_absorb.simps [of h "buf @ xs" ys]
              Let_def t append_assoc) simp
        then show ?thesis by (simp add: part)
      qed
    next
      case full: False
      let ?n = "64 - length buf"
      have n: "min (length xs) ?n = ?n" "min (length (xs @ ys)) ?n = ?n" "?n \<le> length xs" using full by auto
      have a: "sha_absorb h buf xs = sha_absorb (sha_compress (buf @ take ?n xs) h) [] (drop ?n xs)"
        using False full 1(3) n by (simp add: sha_absorb.simps [of h buf xs] Let_def)
      have b: "sha_absorb h buf (xs @ ys) =
          sha_absorb (sha_compress (buf @ take ?n xs) h) [] (drop ?n xs @ ys)"
        using False full 1(3) n by (subst sha_absorb.simps) (simp add: Let_def)
      have "sha_absorb (sha_compress (buf @ take ?n xs) h) [] (drop ?n xs @ ys) =
          (let (h', buf') = sha_absorb (sha_compress (buf @ take ?n xs) h) [] (drop ?n xs) in sha_absorb h' buf' ys)"
        using 1(1) [of ?n "buf @ take ?n xs"] False full 1(3) n by simp
      then show ?thesis by (simp add: a b)
    qed
  qed
qed

lemma sha_absorb_buf: "length buf < 64 \<Longrightarrow> length (snd (sha_absorb h buf xs)) < 64"
  by (induction h buf xs rule: sha_absorb.induct)
    (subst sha_absorb.simps, auto simp: Let_def split: if_splits)

definition sha_ok :: "sha_ctx \<Rightarrow> bool" where
  "sha_ok ctx \<longleftrightarrow> length (sc_buf ctx) < 64"

lemma sha_ok_init [simp]: "sha_ok sha_init"
  by (simp add: sha_ok_def sha_init_def)

lemma sha_ok_update [simp]: "sha_ok ctx \<Longrightarrow> sha_ok (sha_update xs ctx)"
  using sha_absorb_buf [of "sc_buf ctx" "sc_h ctx" xs]
  by (simp add: sha_ok_def sha_update_def split_beta)

lemma sha_update_append:
  assumes "sha_ok ctx"
  shows "sha_update ys (sha_update xs ctx) = sha_update (xs @ ys) ctx"
  using sha_absorb_append [of "sc_buf ctx" "sc_h ctx" xs ys] assms
  by (simp add: sha_ok_def sha_update_def algebra_simps split: prod.splits)

subsection \<open>The standard's block-wise definition\<close>

function sha_blocks :: "bytes \<Rightarrow> bytes list" where
  "sha_blocks xs = (if xs = [] then [] else take 64 xs # sha_blocks (drop 64 xs))"
  by auto
termination
  by (relation "measure length") auto

declare sha_blocks.simps [simp del]

definition sha_padded :: "bytes \<Rightarrow> bytes" where
  "sha_padded msg = msg @ [0x80] @ replicate ((119 - length msg mod 64) mod 64) 0
     @ map (\<lambda>i. ucast (drop_bit (56 - 8 * i) (word_of_nat (8 * length msg) :: u64))) [0..<8]"

definition sha256_spec :: "bytes \<Rightarrow> bytes" where
  "sha256_spec msg = concat (map store_be (fold sha_compress (sha_blocks (sha_padded msg)) (sc_h sha_init)))"

lemma sha_absorb_blocks:
  "64 dvd length xs \<Longrightarrow> sha_absorb h [] xs = (fold sha_compress (sha_blocks xs) h, [])"
proof (induction xs arbitrary: h rule: sha_blocks.induct)
  case (1 xs)
  show ?case
  proof (cases "xs = []")
    case True
    then show ?thesis by (simp add: sha_absorb.simps [of h "[]" "[]"] sha_blocks.simps)
  next
    case False
    with 1(2) have l: "64 \<le> length xs" by (auto dest: dvd_imp_le)
    have "sha_absorb h [] xs = sha_absorb (sha_compress (take 64 xs) h) [] (drop 64 xs)"
      using False l by (simp add: sha_absorb.simps [of h "[]" xs] Let_def)
    also have "\<dots> = (fold sha_compress (sha_blocks (drop 64 xs)) (sha_compress (take 64 xs) h), [])"
      using 1(1) [OF False] 1(2) l by (simp add: dvd_minus_self)
    finally show ?thesis using False by (simp add: sha_blocks.simps [of xs])
  qed
qed

lemma sha_absorb_pending:
  "length buf < 64 \<Longrightarrow> length (snd (sha_absorb h buf xs)) = (length buf + length xs) mod 64"
proof (induction h buf xs rule: sha_absorb.induct)
  case (1 h buf xs)
  let ?n = "min (length xs) (64 - length buf)"
  show ?case
  proof (cases "xs = []")
    case False
    show ?thesis
    proof (cases "64 \<le> length buf + length xs")
      case True
      then have n: "?n = 64 - length buf" by simp
      have "length (snd (sha_absorb (sha_compress (buf @ take ?n xs) h) [] (drop ?n xs))) = (length xs - ?n) mod 64"
        using 1(1) [of ?n "buf @ take ?n xs"] False 1(3) n True by simp
      moreover have "(length xs - (64 - length buf)) mod 64 = (length buf + length xs) mod 64"
      proof -
        have "length buf + length xs = (length xs - (64 - length buf)) + 64" using True 1(3) by simp
        then show ?thesis by (metis mod_add_self2)
      qed
      ultimately show ?thesis
        using False True 1(3) n by (simp add: sha_absorb.simps [of h buf xs] Let_def)
    next
      case part: False
      then show ?thesis
        using False 1(3) by (simp add: sha_absorb.simps [of h buf xs] sha_absorb.simps [of h _ "[]"] Let_def)
    qed
  qed (simp add: sha_absorb.simps [of h buf "[]"] "1.prems")
qed

lemma sha_zeros_eq: "sha_zeros b t = replicate ((120 - (b + t) mod 64) mod 64) 0"
proof (induction b t rule: sha_zeros.induct)
  case (1 b t)
  have s: "(b + (t + 1)) mod 64 = (if (b + t) mod 64 = 63 then 0 else (b + t) mod 64 + 1)"
    using mod_Suc [of "b + t" 64] by simp
  have lt: "(b + t) mod 64 < 64" by simp
  show ?case
  proof (cases "(b + t) mod 64 = 56")
    case True
    then show ?thesis by (simp add: sha_zeros.simps [of b t])
  next
    case False
    have "Suc ((120 - (if x = 63 then 0 else x + 1)) mod 64) = (120 - x) mod 64" if "x < 64" "x \<noteq> 56" for x :: nat
      using that by (cases "x < 56"; cases "x = 63") (auto simp: mod_if)
    from this [OF lt False] have "Suc ((120 - (b + (t + 1)) mod 64) mod 64) = (120 - (b + t) mod 64) mod 64"
      by (simp only: s)
    moreover have "sha_zeros b t = 0 # sha_zeros b (t + 1)" using False by (subst sha_zeros.simps) simp
    moreover have "sha_zeros b (t + 1) = replicate ((120 - (b + (t + 1)) mod 64) mod 64) 0"
      by (rule 1) (use False in simp)
    ultimately show ?thesis by (metis replicate_Suc)
  qed
qed

text \<open>The padding fits the 72 bytes of \<^verbatim>\<open>tail\<close> and completes the last block.\<close>

lemma sha_tail_length:
  "b < 64 \<Longrightarrow> length (sha_tail b bits) \<le> 72 \<and> 64 dvd (b + length (sha_tail b bits))"
proof -
  assume b: "b < 64"
  have d: "(120 - x) mod 64 = (if x \<le> 56 then 56 - x else 120 - x)" if "x < 64" for x :: nat
    using that by (cases "x \<le> 56") (simp_all add: mod_if)
  have l: "length (sha_tail b bits) = 9 + (120 - (b + 1) mod 64) mod 64"
    by (simp add: sha_tail_def sha_zeros_eq)
  show ?thesis
  proof (cases "b = 63")
    case False
    with b have "(b + 1) mod 64 = b + 1" "b + 1 < 64" by simp_all
    then have "(120 - (b + 1) mod 64) mod 64 = (if b + 1 \<le> 56 then 56 - (b + 1) else 120 - (b + 1))"
      using d [of "b + 1"] by simp
    with b False show ?thesis unfolding l by (cases "b + 1 \<le> 56") simp_all
  next
    case True
    then show ?thesis using l by simp
  qed
qed

lemma sha256_eq_spec: "sha256 msg = sha256_spec msg"
proof -
  let ?ctx = "sha_update msg sha_init"
  have len: "length (sc_buf ?ctx) = length msg mod 64"
    using sha_absorb_pending [of "[]" "sc_h sha_init" msg]
    by (simp add: sha_update_def sha_init_def split_beta)
  have bits: "sc_total_bits ?ctx = word_of_nat (8 * length msg)"
    by (simp add: sha_update_def sha_init_def split_beta algebra_simps)
  have "(120 - (length msg mod 64 + 1) mod 64) mod 64 = (119 - length msg mod 64) mod 64"
  proof (cases "length msg mod 64 = 63")
    case False
    then have "length msg mod 64 + 1 < 64" using mod_less_divisor [of 64 "length msg"] by linarith
    then show ?thesis by simp
  qed simp
  then have tail: "msg @ sha_tail (length msg mod 64) (word_of_nat (8 * length msg)) = sha_padded msg"
    by (simp add: sha_tail_def sha_padded_def sha_zeros_eq)
  have div: "64 dvd length (sha_padded msg)"
  proof -
    have "64 dvd length msg mod 64 + length (sha_tail (length msg mod 64) (word_of_nat (8 * length msg)))"
      using sha_tail_length [of "length msg mod 64"] by simp
    then have "64 dvd length msg + length (sha_tail (length msg mod 64) (word_of_nat (8 * length msg)))"
      by (metis dvd_eq_mod_eq_0 mod_add_left_eq)
    then show ?thesis by (simp flip: tail)
  qed
  have "sha_update (sha_tail (length (sc_buf ?ctx)) (sc_total_bits ?ctx)) ?ctx = sha_update (sha_padded msg) sha_init"
    unfolding len bits by (simp only: sha_update_append [OF sha_ok_init] tail)
  then have "sha256 msg = concat (map store_be (sc_h (sha_update (sha_padded msg) sha_init)))"
    by (simp add: sha256_def sha_finalise_def Let_def)
  also have "sc_h (sha_update (sha_padded msg) sha_init) = fold sha_compress (sha_blocks (sha_padded msg)) (sc_h sha_init)"
    using sha_absorb_blocks [OF div, of "sc_h sha_init"] by (simp add: sha_update_def) (simp add: sha_init_def)
  finally show ?thesis by (simp add: sha256_spec_def)
qed

lemma length_sha_round [simp]: "length (sha_round kw v) = length v"
  by (cases kw) (auto simp: sha_round_def Let_def split: list.splits)

lemma length_sha_compress [simp]: "length (sha_compress block h) = length h"
proof -
  have "length (fold sha_round kws h) = length h" for kws
    by (induction kws arbitrary: h) simp_all
  then show ?thesis by (simp add: sha_compress_def)
qed

lemma length_sha_absorb: "length (fst (sha_absorb h buf xs)) = length h"
  by (induction h buf xs rule: sha_absorb.induct) (subst sha_absorb.simps, auto simp: Let_def)

lemma length_sha_update [simp]: "length (sc_h (sha_update xs ctx)) = length (sc_h ctx)"
  by (simp add: sha_update_def split_beta length_sha_absorb)

lemma length_store_be: "length (concat (map store_be hs)) = 4 * length hs"
  by (induction hs) (simp_all add: store_be_def)

lemma length_sha_finalise: "length (sha_finalise ctx) = 4 * length (sc_h ctx)"
  by (simp add: sha_finalise_def Let_def length_store_be)

lemma length_sha256 [simp]: "length (sha256 msg) = 32"
  by (simp add: sha256_def length_sha_finalise) (simp add: sha_init_def)

lemma length_hmac [simp]: "length (hmac_sha256 key data) = 32"
  by (simp add: hmac_sha256_def Let_def length_sha_finalise) (simp add: sha_init_def)

text \<open>
  C33. SHA-256 as streamed (pending buffer, padding through a side buffer) computes, for every
  message, the block-wise definition of FIPS 180-4: the compression function folded over
  the 64-byte blocks of the padded message; the digest has 32 bytes, and the side buffer of
  72 bytes is never exceeded.
\<close>

theorem sha256_computes_standard:
  "sha256 msg = sha256_spec msg \<and> length (sha256 msg) = 32 \<and>
   length (sha_tail (length (sc_buf (sha_update msg sha_init))) bits) \<le> 72"
  using sha256_eq_spec [of msg] sha_tail_length [of "length (sc_buf (sha_update msg sha_init))" bits]
    sha_ok_update [OF sha_ok_init, of msg] length_sha256 [of msg]
  by (simp add: sha_ok_def del: length_sha256)

text \<open>
  HMAC is the nested hash of FIPS 198-1: with the key padded (or first hashed, when longer
  than a block) to 64 bytes, the digest of the outer-padded key followed by the digest of
  the inner-padded key and the data.
\<close>

theorem hmac_computes_standard:
  "hmac_sha256 key data =
     sha256_spec (map (\<lambda>b. b XOR 0x5c) (hmac_kblock key) @
       sha256_spec (map (\<lambda>b. b XOR 0x36) (hmac_kblock key) @ data)) \<and>
   length (hmac_kblock key) = 64"
proof -
  have "sha_finalise (sha_update ys (sha_update xs sha_init)) = sha256_spec (xs @ ys)" for xs ys
    by (simp add: sha_update_append flip: sha256_eq_spec) (simp add: sha256_def)
  moreover have "length (hmac_kblock key) = 64" by (simp add: hmac_kblock_def Let_def)
  ultimately show ?thesis by (simp add: hmac_sha256_def Let_def)
qed

subsection \<open>The stream cipher\<close>

lemma length_chacha20_block [simp]: "length (chacha20_block key nonce ctr) = 64"
proof -
  have q: "length (quarter_round i j k l x) = length x" for i j k l x
    by (simp add: quarter_round_def Let_def)
  have "length ((chacha_double_round ^^ n) x) = length x" for n x
    by (induction n) (simp_all add: chacha_double_round_def q)
  moreover have "length (chacha_init key nonce ctr) = 16" by (simp add: chacha_init_def)
  moreover have "length (concat (map put32 xs)) = 4 * length xs" for xs by (induction xs) simp_all
  ultimately show ?thesis by (simp add: chacha20_block_def Let_def del: map_map)
qed

lemma chacha20_xor_Nil [simp]: "chacha20_xor key nonce ctr [] = []"
  by (simp add: chacha20_xor.simps)

lemma length_chacha20_xor [simp]: "length (chacha20_xor key nonce ctr data) = length data"
proof (induction key nonce ctr data rule: chacha20_xor.induct)
  case (1 key nonce ctr data)
  then show ?case by (subst chacha20_xor.simps) (auto simp: min_def)
qed

lemma xor_xor_bytes: "length xs \<le> length ks \<Longrightarrow> map2 (XOR) (map2 (XOR) xs ks) ks = (xs :: bytes)"
proof (induction xs arbitrary: ks)
  case (Cons x xs)
  then show ?case by (cases ks) (simp_all add: xor.assoc)
qed simp

lemma chacha20_xor_involutive: "chacha20_xor key nonce ctr (chacha20_xor key nonce ctr data) = data"
proof (induction key nonce ctr data rule: chacha20_xor.induct)
  case (1 key nonce ctr data)
  show ?case
  proof (cases "data = []")
    case True
    then show ?thesis by (simp add: chacha20_xor.simps)
  next
    case False
    let ?ks = "take (length data) (chacha20_block key nonce ctr)"
    let ?hd = "map2 (XOR) (take 64 data) ?ks" and ?tl = "chacha20_xor key nonce (ctr + 1) (drop 64 data)"
    have c: "chacha20_xor key nonce ctr data = ?hd @ ?tl" using False by (subst chacha20_xor.simps) simp
    have lh: "length ?hd = min 64 (length data)" by (simp add: min.commute)
    then have p: "take 64 (?hd @ ?tl) = ?hd" "drop 64 (?hd @ ?tl) = ?tl" "length (?hd @ ?tl) = length data"
      by (auto simp: min_def)
    then have "?hd @ ?tl \<noteq> []" using False by (metis length_0_conv)
    then have "chacha20_xor key nonce ctr (?hd @ ?tl) =
        map2 (XOR) ?hd ?ks @ chacha20_xor key nonce (ctr + 1) ?tl"
      by (simp only: chacha20_xor.simps [of key nonce ctr "?hd @ ?tl"] p if_False)
    also have "map2 (XOR) ?hd ?ks = take 64 data" by (rule xor_xor_bytes) (simp add: min_def)
    also have "chacha20_xor key nonce (ctr + 1) ?tl = drop 64 data" by (rule 1 [OF False])
    finally show ?thesis by (simp add: c)
  qed
qed

text \<open>Two messages under one key stream: the cipher texts reveal the sum of the clear texts.\<close>

lemma map2_xor_common:
  "length xs = length ys \<Longrightarrow> length xs \<le> length ks \<Longrightarrow>
     map2 (XOR) (map2 (XOR) xs ks) (map2 (XOR) ys ks) = map2 (XOR) xs (ys :: bytes)"
proof (induction xs arbitrary: ys ks)
  case (Cons x xs)
  have "(x XOR k) XOR (y XOR k) = x XOR y" for y k :: u8 by (rule bit_word_eqI) (auto simp: bit_simps)
  with Cons show ?case by (cases ys; cases ks) auto
qed simp

lemma map2_append: "length a = length c \<Longrightarrow> map2 f (a @ b) (c @ d) = map2 f a c @ map2 f b d"
  by (simp add: zip_append)

lemma chacha20_same_stream:
  "length a = length b \<Longrightarrow> map2 (XOR) (chacha20_xor key nonce ctr a) (chacha20_xor key nonce ctr b) = map2 (XOR) a b"
proof (induction key nonce ctr a arbitrary: b rule: chacha20_xor.induct)
  case (1 key nonce ctr a)
  show ?case
  proof (cases "a = []")
    case True
    then show ?thesis by simp
  next
    case False
    let ?ks = "take (length a) (chacha20_block key nonce ctr)"
    have b: "b \<noteq> []" using 1 False by auto
    have "map2 (XOR) (chacha20_xor key nonce ctr a) (chacha20_xor key nonce ctr b) =
        map2 (XOR) (map2 (XOR) (take 64 a) ?ks) (map2 (XOR) (take 64 b) ?ks) @
        map2 (XOR) (chacha20_xor key nonce (ctr + 1) (drop 64 a)) (chacha20_xor key nonce (ctr + 1) (drop 64 b))"
      using False b 1(2) unfolding chacha20_xor.simps [of _ _ _ a] chacha20_xor.simps [of _ _ _ b] by (simp add: map2_append)
    also have "\<dots> = map2 (XOR) (take 64 a) (take 64 b) @ map2 (XOR) (drop 64 a) (drop 64 b)"
      using 1(1) [OF False, of "drop 64 b"] 1(2) map2_xor_common [of "take 64 a" "take 64 b" ?ks] by (simp add: min_def)
    also have "\<dots> = map2 (XOR) a b"
      by (metis "1"(2) append_take_drop_id length_take map2_append)
    finally show ?thesis .
  qed
qed

text \<open>
  The stream cipher: encryption preserves the length, decryption with the same key, nonce
  and counter restores the data, and the stream can be entered at a block boundary (the
  counter advances by one per 64 bytes, wrapping at 32 bits).
\<close>

theorem chacha20_stream:
  "length (chacha20_xor key nonce ctr data) = length data \<and>
   chacha20_xor key nonce ctr (chacha20_xor key nonce ctr data) = data \<and>
   drop 64 (chacha20_xor key nonce ctr data) = chacha20_xor key nonce (ctr + 1) (drop 64 data)"
proof -
  have "drop 64 (chacha20_xor key nonce ctr data) = chacha20_xor key nonce (ctr + 1) (drop 64 data)"
  proof (cases "data = []")
    case False
    then show ?thesis by (subst chacha20_xor.simps) (auto simp: min_def chacha20_xor.simps [of _ _ _ "[]"])
  qed (simp add: chacha20_xor.simps)
  then show ?thesis by (simp add: chacha20_xor_involutive)
qed

end
