(* ===== verification/Pdcp.thy ===== *)
theory Pdcp
  imports Crypto
begin

text \<open>
  The packet data convergence layer, \<^verbatim>\<open>stack/pdcp/src/pdcp_entity.cpp\<close>: the plain header, and
  the protected frame (flags, 64-bit sequence number, ChaCha20 ciphertext, truncated HMAC).
  \<open>unprotect\<close> returns \<open>None\<close> where the code returns \<^verbatim>\<open>false\<close>; the key is a string of 32 bytes,
  but no lemma depends on its length.
\<close>

definition pdcp_tx :: "bytes \<Rightarrow> bytes" where
  "pdcp_tx sdu = [0x00, 0x00] @ sdu"

definition pdcp_rx :: "bytes \<Rightarrow> bytes" where
  "pdcp_rx pdu = (if length pdu < 2 then [] else drop 2 pdu)"

text \<open>The eight sequence bytes, little endian, and the nonce they form with four zero bytes.\<close>

definition pdcp_seq_bytes :: "u64 \<Rightarrow> bytes" where
  "pdcp_seq_bytes seq = map (\<lambda>i. ucast (drop_bit (8 * i) seq)) [0..<8]"

definition protect :: "bytes \<Rightarrow> u64 \<Rightarrow> bytes \<Rightarrow> bytes" where
  "protect key seq sdu =
     (let nonce = pdcp_seq_bytes seq @ [0, 0, 0, 0];
          out = [0x01 OR 0x02] @ take 8 nonce;
          ct = chacha20_xor key nonce 0 sdu;
          out = out @ ct;
          mac_input = drop 1 out
      in out @ take 4 (hmac_sha256 key mac_input))"

definition unprotect :: "bytes \<Rightarrow> bytes \<Rightarrow> bytes option" where
  "unprotect key pdu =
     (let n = length pdu;
          integrity = (n > 9 \<and> pdu ! 0 AND 0x02 \<noteq> 0);
          min_size = 9 + (if integrity then 4 else 0) in
      if n < min_size \<or> pdu ! 0 AND 0x01 = 0 then None
      else if integrity \<and> take 4 (hmac_sha256 key (drop 1 (take (n - 4) pdu))) \<noteq> drop (n - 4) pdu then None
      else
        let nonce = take 8 (drop 1 pdu) @ [0, 0, 0, 0];
            ct_end = (if integrity then n - 4 else n)
        in Some (chacha20_xor key nonce 0 (drop 9 (take ct_end pdu))))"

lemma length_seq_bytes [simp]: "length (pdcp_seq_bytes seq) = 8"
  by (simp add: pdcp_seq_bytes_def)

lemma protect_eq:
  "protect key seq sdu =
     (let body = pdcp_seq_bytes seq @ chacha20_xor key (pdcp_seq_bytes seq @ [0, 0, 0, 0]) 0 sdu
      in 0x03 # body @ take 4 (hmac_sha256 key body))"
  by (simp add: protect_def Let_def)

lemma unprotect_frame:
  assumes "length sn = 8" "length mac = 4"
  shows "unprotect key (0x03 # sn @ ct @ mac) =
    (if take 4 (hmac_sha256 key (sn @ ct)) = mac
     then Some (chacha20_xor key (sn @ [0, 0, 0, 0]) 0 ct) else None)"
proof -
  have "take (9 + length ct) (0x03 # sn @ ct @ mac) = 0x03 # sn @ ct" "drop (9 + length ct) (0x03 # sn @ ct @ mac) = mac"
    using assms by (simp_all add: take_Cons' drop_Cons')
  then show ?thesis using assms by (simp add: unprotect_def Let_def)
qed

text \<open>Two frames sealed with one key and one count.\<close>

definition pdcp_ciphertext :: "bytes \<Rightarrow> bytes" where
  "pdcp_ciphertext frame = drop 9 (take (length frame - 4) frame)"

lemma pdcp_ciphertext_protect:
  "pdcp_ciphertext (protect key seq sdu) = chacha20_xor key (pdcp_seq_bytes seq @ [0, 0, 0, 0]) 0 sdu"
proof -
  let ?body = "pdcp_seq_bytes seq @ chacha20_xor key (pdcp_seq_bytes seq @ [0, 0, 0, 0]) 0 sdu"
  have "length (take 4 (hmac_sha256 key ?body)) = 4" by simp
  then show ?thesis by (simp add: pdcp_ciphertext_def protect_eq Let_def take_Cons' drop_Cons')
qed

lemma pdcp_count_reuse:
  "length a = length b \<Longrightarrow>
     map2 (XOR) (pdcp_ciphertext (protect key seq a)) (pdcp_ciphertext (protect key seq b)) = map2 (XOR) a b"
  by (simp add: pdcp_ciphertext_protect chacha20_same_stream)

interpretation pdcp_codec: wire_codec "protect key seq" "unprotect key" "\<lambda>_. True" for key seq
proof unfold_locales
  fix sdu
  show "unprotect key (protect key seq sdu) = Some sdu"
    using unprotect_frame [of "pdcp_seq_bytes seq"]
    by (simp add: protect_eq Let_def chacha20_xor_involutive)
qed

text \<open>
  Confidential and intact: whatever the key and the sequence number, the receiver recovers
  exactly the SDU that was protected; and if the sequence number, the ciphertext or the
  authentication code of the frame is replaced, the frame is accepted only when the new code
  is the truncated HMAC of the new contents under the shared key.
\<close>

theorem pdcp_protection:
  assumes "length sn = 8" and "length mac = 4"
  shows "unprotect key (protect key seq sdu) = Some sdu \<and>
    (unprotect key (0x03 # sn @ ct @ mac) \<noteq> None \<longleftrightarrow> mac = take 4 (hmac_sha256 key (sn @ ct)))"
  using pdcp_codec.dec_enc [of key seq sdu] unprotect_frame [OF assms, of key ct] by auto

theorem pdcp_protection_witness:
  "unprotect (replicate 32 7) (protect (replicate 32 7) 5 [1, 2, 3]) = Some [1, 2, 3]"
  using pdcp_protection [of "replicate 8 0" "replicate 4 0" "replicate 32 7" 5 "[1, 2, 3]"] by simp

text \<open>
  The integrity check can be switched off by the attacker: the flag that asks for it is not
  authenticated, and a frame whose flags byte says encrypted but not integrity protected is
  accepted whatever its sequence number and contents, without any check, even under a key
  with which every legitimate frame is authenticated.
\<close>

theorem pdcp_integrity_downgrade:
  assumes "length sn = 8"
  shows "unprotect key (0x01 # sn @ ct) = Some (chacha20_xor key (sn @ [0, 0, 0, 0]) 0 ct)"
  using assms by (simp add: unprotect_def Let_def)

theorem pdcp_integrity_downgrade_witness:
  "unprotect (replicate 32 7) (0x01 # replicate 8 0 @ [9, 9]) =
     Some (chacha20_xor (replicate 32 7) (replicate 8 0 @ [0, 0, 0, 0]) 0 [9, 9])"
  by (rule pdcp_integrity_downgrade) simp

end
