(* ===== verification/Rach.thy ===== *)
theory Rach
  imports RadioFrames MacPdu
begin

text \<open>
  Random access, \<^verbatim>\<open>stack/mac/src/rach_ue.cpp\<close>, \<^verbatim>\<open>rach_bs.cpp\<close> and \<^verbatim>\<open>rach_common.h\<close>: the four-message
  procedure between one terminal and a cell on a shared medium. Callbacks are outputs: every
  operation returns the list of messages it hands to the lower layer (and, at the cell, the
  CCCH payloads it hands to RRC). The terminal is a state machine with arbitrary inputs; the
  lemmas give its invariant, the bound on its attempts, the end-to-end run, and what happens
  when two terminals choose the same preamble.
\<close>

subsection \<open>Preambles\<close>

definition preamble_for_cell :: "u8 \<Rightarrow> u16 \<Rightarrow> u8" where
  "preamble_for_cell base cell_id =
     (let half = (if cell_id \<ge> 2 then 1 else 0) in half * 32 + (base AND 0x1F))"

definition cell_for_preamble :: "u8 \<Rightarrow> u16" where
  "cell_for_preamble p = ucast (drop_bit 5 p) + 1"

definition ra_rnti_for_preamble :: "u8 \<Rightarrow> u16" where
  "ra_rnti_for_preamble p = 0x4300 OR ucast p"

datatype rach_state = RACH_IDLE | WAIT_RAR | WAIT_CONTENTION_RESOLVE | RACH_CONNECTED

fun rach_state_str :: "rach_state \<Rightarrow> string" where
  "rach_state_str RACH_IDLE = ''IDLE''"
| "rach_state_str WAIT_RAR = ''WAIT_RAR''"
| "rach_state_str WAIT_CONTENTION_RESOLVE = ''WAIT_CR''"
| "rach_state_str RACH_CONNECTED = ''CONNECTED''"

datatype rach_msg_type = RACH_MSG1 | RACH_MSG2 | RACH_MSG3 | RACH_MSG4

fun rach_msg_code :: "rach_msg_type \<Rightarrow> u8" where
  "rach_msg_code RACH_MSG1 = 1"
| "rach_msg_code RACH_MSG2 = 2"
| "rach_msg_code RACH_MSG3 = 3"
| "rach_msg_code RACH_MSG4 = 4"

record rach_config =
  rc_preamble_index :: u8
  rc_rar_window_ms :: u16
  rc_content_resolve_window_ms :: u16
  rc_max_preamble_transmissions :: u8

definition rach_default_config :: rach_config where
  "rach_default_config = \<lparr>rc_preamble_index = 10, rc_rar_window_ms = 10,
     rc_content_resolve_window_ms = 20, rc_max_preamble_transmissions = 3\<rparr>"

subsection \<open>Terminal\<close>

record rach_ue =
  ru_config :: rach_config
  ru_state :: rach_state
  ru_ra_rnti :: u16
  ru_crnti :: u16
  ru_tx_count :: u8

datatype rach_out = RachSend rach_msg_type bytes | RachStateChange rach_state rach_state

definition rach_ue_init :: "rach_config \<Rightarrow> rach_ue" where
  "rach_ue_init cfg = \<lparr>ru_config = cfg, ru_state = RACH_IDLE, ru_ra_rnti = 0, ru_crnti = 0, ru_tx_count = 0\<rparr>"

definition rach_transition :: "rach_state \<Rightarrow> rach_ue \<Rightarrow> rach_ue \<times> rach_out list" where
  "rach_transition new ue = (ue\<lparr>ru_state := new\<rparr>, [RachStateChange (ru_state ue) new])"

definition rach_msg1 :: "rach_ue \<Rightarrow> bytes" where
  "rach_msg1 ue = [rach_msg_code RACH_MSG1, rc_preamble_index (ru_config ue)]"

definition start_rach :: "rach_ue \<Rightarrow> rach_ue \<times> rach_out list" where
  "start_rach ue =
     (if ru_state ue \<noteq> RACH_IDLE then (ue, [])
      else
        let (ue', out) = rach_transition WAIT_RAR (ue\<lparr>ru_tx_count := 1, ru_ra_rnti := 0, ru_crnti := 0\<rparr>)
        in (ue', out @ [RachSend RACH_MSG1 (rach_msg1 ue')]))"

definition set_preamble_index :: "u8 \<Rightarrow> rach_ue \<Rightarrow> rach_ue" where
  "set_preamble_index idx ue = ue\<lparr>ru_config := (ru_config ue)\<lparr>rc_preamble_index := idx\<rparr>\<rparr>"

text \<open>\<open>ccch\<close> is what the MSG3 provider returns (empty when there is none).\<close>

definition on_rar_received :: "u16 \<Rightarrow> bytes \<Rightarrow> rach_ue \<Rightarrow> rach_ue \<times> rach_out list" where
  "on_rar_received ra_rnti ccch ue =
     (if ru_state ue \<noteq> WAIT_RAR then (ue, [])
      else if ra_rnti \<noteq> ra_rnti_for_preamble (rc_preamble_index (ru_config ue)) then (ue, [])
      else
        let (ue', out) = rach_transition WAIT_CONTENTION_RESOLVE (ue\<lparr>ru_ra_rnti := ra_rnti\<rparr>);
            msg3 = [rach_msg_code RACH_MSG3, byte_at 0 ra_rnti, byte_at 1 ra_rnti] @ ccch
        in (ue', out @ [RachSend RACH_MSG3 msg3]))"

definition on_contention_resolve :: "u16 \<Rightarrow> u16 \<Rightarrow> rach_ue \<Rightarrow> rach_ue \<times> rach_out list" where
  "on_contention_resolve crnti ra_rnti ue =
     (if ru_state ue \<noteq> WAIT_CONTENTION_RESOLVE then (ue, [])
      else if ra_rnti \<noteq> ru_ra_rnti ue then (ue, [])
      else rach_transition RACH_CONNECTED (ue\<lparr>ru_crnti := crnti\<rparr>))"

definition on_rar_timeout :: "rach_ue \<Rightarrow> rach_ue \<times> rach_out list" where
  "on_rar_timeout ue =
     (if ru_state ue \<noteq> WAIT_RAR then (ue, [])
      else
        let ue = ue\<lparr>ru_tx_count := ru_tx_count ue + 1\<rparr> in
        if ru_tx_count ue \<le> rc_max_preamble_transmissions (ru_config ue)
        then (ue, [RachSend RACH_MSG1 (rach_msg1 ue)])
        else rach_transition RACH_IDLE (ue\<lparr>ru_tx_count := 0\<rparr>))"

definition on_contention_resolve_timeout :: "rach_ue \<Rightarrow> rach_ue \<times> rach_out list" where
  "on_contention_resolve_timeout ue =
     (if ru_state ue \<noteq> WAIT_CONTENTION_RESOLVE then (ue, []) else rach_transition RACH_IDLE ue)"

definition rach_force_idle :: "rach_ue \<Rightarrow> rach_ue \<times> rach_out list" where
  "rach_force_idle ue = (if ru_state ue \<noteq> RACH_IDLE then rach_transition RACH_IDLE ue else (ue, []))"

subsection \<open>Cell\<close>

record rach_context =
  rx_ra_rnti :: u16
  rx_c_rnti :: u16
  rx_preamble :: u8
  rx_complete :: bool

record rach_bs =
  rb_contexts :: "u16 \<rightharpoonup> rach_context"
  rb_cell_id :: u16
  rb_next_crnti :: u16

datatype rach_bs_out = BsSend rach_msg_type bytes | Ccch u16 bytes

definition rach_bs_init :: rach_bs where
  "rach_bs_init = \<lparr>rb_contexts = Map.empty, rb_cell_id = 1, rb_next_crnti = 0x0001\<rparr>"

definition rach_set_cell_id :: "u16 \<Rightarrow> rach_bs \<Rightarrow> rach_bs" where
  "rach_set_cell_id cell_id bs = bs\<lparr>rb_cell_id := cell_id\<rparr>"

definition rach_set_crnti_base :: "u16 \<Rightarrow> rach_bs \<Rightarrow> rach_bs" where
  "rach_set_crnti_base base bs = bs\<lparr>rb_next_crnti := base\<rparr>"

definition on_prach_received :: "u8 \<Rightarrow> rach_bs \<Rightarrow> rach_bs \<times> rach_bs_out list" where
  "on_prach_received preamble_idx bs =
     (if cell_for_preamble preamble_idx \<noteq> rb_cell_id bs then (bs, [])
      else
        let ra_rnti = ra_rnti_for_preamble preamble_idx;
            ctx = \<lparr>rx_ra_rnti = ra_rnti, rx_c_rnti = 0, rx_preamble = preamble_idx, rx_complete = False\<rparr>;
            msg2 = [rach_msg_code RACH_MSG2, byte_at 0 ra_rnti, byte_at 1 ra_rnti, 12, 5]
        in (bs\<lparr>rb_contexts := (rb_contexts bs)(ra_rnti \<mapsto> ctx)\<rparr>, [BsSend RACH_MSG2 msg2]))"

definition on_msg3_received :: "u16 \<Rightarrow> bytes \<Rightarrow> rach_bs \<Rightarrow> rach_bs \<times> rach_bs_out list" where
  "on_msg3_received ra_rnti msg3_data bs =
     (case rb_contexts bs ra_rnti of
        None \<Rightarrow> (bs, [])
      | Some ctx \<Rightarrow>
          let crnti = rb_next_crnti bs;
              msg4 = [rach_msg_code RACH_MSG4, byte_at 0 crnti, byte_at 1 crnti, byte_at 0 ra_rnti, byte_at 1 ra_rnti]
          in (bs\<lparr>rb_next_crnti := crnti + 1,
                 rb_contexts := (rb_contexts bs)(ra_rnti \<mapsto> ctx\<lparr>rx_c_rnti := crnti, rx_complete := True\<rparr>)\<rparr>,
              BsSend RACH_MSG4 msg4 # (if length msg3_data > 3 then [Ccch crnti (drop 3 msg3_data)] else [])))"

definition rach_find_ue :: "u16 \<Rightarrow> rach_bs \<Rightarrow> rach_context option" where
  "rach_find_ue ra_rnti bs = rb_contexts bs ra_rnti"

definition is_rach_complete :: "u16 \<Rightarrow> rach_bs \<Rightarrow> bool" where
  "is_rach_complete ra_rnti bs =
     (case rb_contexts bs ra_rnti of None \<Rightarrow> False | Some ctx \<Rightarrow> rx_complete ctx)"

subsection \<open>Random access over air frames\<close>

text \<open>
  The dispatch of the two nodes: \<open>ue_rach_frames\<close> and \<open>bs_rach_frames\<close> are the send callbacks,
  the others the receive side. The last component of a result is the DATA frame that the
  node hands to its data path. \<open>cache\<close> is \<^verbatim>\<open>crnti_cache_\<close>.
\<close>

fun ue_rach_frames :: "rach_out list \<Rightarrow> air_frame list" where
  "ue_rach_frames [] = []"
| "ue_rach_frames (RachSend RACH_MSG1 pdu # os) = \<lparr>af_type = MSG1_PRACH, af_rnti = 0, af_payload = pdu\<rparr> # ue_rach_frames os"
| "ue_rach_frames (RachSend RACH_MSG3 pdu # os) = \<lparr>af_type = MSG3_CCCH, af_rnti = 0, af_payload = pdu\<rparr> # ue_rach_frames os"
| "ue_rach_frames (_ # os) = ue_rach_frames os"

fun bs_rach_frames :: "rach_bs_out list \<Rightarrow> air_frame list" where
  "bs_rach_frames [] = []"
| "bs_rach_frames (BsSend RACH_MSG2 pdu # os) = \<lparr>af_type = MSG2_RAR, af_rnti = 0, af_payload = pdu\<rparr> # bs_rach_frames os"
| "bs_rach_frames (BsSend RACH_MSG4 pdu # os) = \<lparr>af_type = MSG4_CR, af_rnti = 0, af_payload = pdu\<rparr> # bs_rach_frames os"
| "bs_rach_frames (_ # os) = bs_rach_frames os"

definition handle_rach_payload ::
  "air_frame_type \<Rightarrow> bytes \<Rightarrow> bytes \<Rightarrow> rach_ue \<times> u16 \<Rightarrow> (rach_ue \<times> u16) \<times> rach_out list" where
  "handle_rach_payload ty payload ccch st =
     (case st of (ue, cache) \<Rightarrow>
        if ty = MSG2_RAR \<and> length payload \<ge> 5 then
          let (ue', out) = on_rar_received (get16 (payload ! 1) (payload ! 2)) ccch ue in ((ue', cache), out)
        else if ty = MSG4_CR \<and> length payload \<ge> 5 then
          let crnti = get16 (payload ! 1) (payload ! 2);
              (ue', out) = on_contention_resolve crnti (get16 (payload ! 3) (payload ! 4)) ue
          in ((ue', if ru_state ue' = RACH_CONNECTED then crnti else cache), out)
        else ((ue, cache), []))"

definition ue_handle_air_frame ::
  "bytes \<Rightarrow> air_frame \<Rightarrow> rach_ue \<times> u16 \<Rightarrow> (rach_ue \<times> u16) \<times> rach_out list \<times> (u16 \<times> bytes) option" where
  "ue_handle_air_frame ccch frame st =
     (case af_type frame of
        MSG2_RAR \<Rightarrow>
          if ru_state (fst st) = WAIT_RAR then
            let (st', out) = handle_rach_payload MSG2_RAR (af_payload frame) ccch st in (st', out, None)
          else (st, [], None)
      | MSG4_CR \<Rightarrow>
          if ru_state (fst st) = WAIT_CONTENTION_RESOLVE then
            let (st', out) = handle_rach_payload MSG4_CR (af_payload frame) ccch st in (st', out, None)
          else (st, [], None)
      | DATA \<Rightarrow>
          if af_rnti frame \<noteq> snd st \<and> af_rnti frame \<noteq> RNTI_BROADCAST then (st, [], None)
          else (st, [], Some (af_rnti frame, af_payload frame))
      | _ \<Rightarrow> (st, [], None))"

definition bs_handle_air_frame ::
  "air_frame \<Rightarrow> rach_bs \<Rightarrow> rach_bs \<times> rach_bs_out list \<times> (u16 \<times> bytes) option" where
  "bs_handle_air_frame frame bs =
     (let p = af_payload frame in
      case af_type frame of
        MSG1_PRACH \<Rightarrow>
          if length p \<ge> 2 then let (bs', out) = on_prach_received (p ! 1) bs in (bs', out, None)
          else (bs, [], None)
      | MSG3_CCCH \<Rightarrow>
          if length p \<ge> 4 then let (bs', out) = on_msg3_received (get16 (p ! 1) (p ! 2)) p bs in (bs', out, None)
          else (bs, [], None)
      | DATA \<Rightarrow> (bs, [], Some (af_rnti frame, p))
      | _ \<Rightarrow> (bs, [], None))"

lemmas rach_defs [state_defs] =
  rach_transition_def start_rach_def set_preamble_index_def on_rar_received_def on_contention_resolve_def
  on_rar_timeout_def on_contention_resolve_timeout_def rach_force_idle_def

lemmas rach_bs_defs [state_defs] =
  on_prach_received_def on_msg3_received_def is_rach_complete_def rach_find_ue_def

subsection \<open>Preamble partitioning\<close>

text \<open>A preamble drawn for a cell is answered by that cell and by no other.\<close>

lemma preamble_bits: "bit (base AND 0x1F :: u8) n \<longleftrightarrow> n < 5 \<and> bit base n"
  by (auto simp: bit_simps wire_simps)

lemma cell_of_base: "drop_bit 5 (base AND 0x1F :: u8) = 0" "drop_bit 5 (32 + (base AND 0x1F) :: u8) = 1"
proof -
  have d: "(32 :: u8) + (base AND 0x1F) = 32 OR (base AND 0x1F)"
    by (rule disjunctive_add) (auto simp: bit_simps wire_simps preamble_bits)
  show "drop_bit 5 (base AND 0x1F :: u8) = 0"
    by (rule bit_word_eqI) (simp add: bit_drop_bit_eq preamble_bits)
  have b32: "bit (32 :: u8) n \<longleftrightarrow> n = 5" for n
    by (auto simp: wire_simps)
  show "drop_bit 5 (32 + (base AND 0x1F) :: u8) = 1"
    unfolding d by (rule bit_word_eqI) (auto simp: bit_drop_bit_eq bit_or_iff preamble_bits b32 bit_1_iff simp del: bit_numeral_word_iff)
qed

lemma cell_for_preamble_for_cell:
  "cell_id \<in> {1, 2} \<Longrightarrow> cell_for_preamble (preamble_for_cell base cell_id) = cell_id"
  by (auto simp: cell_for_preamble_def preamble_for_cell_def cell_of_base word_le_nat_alt)

lemma ra_rnti_inj: "ra_rnti_for_preamble p = ra_rnti_for_preamble q \<Longrightarrow> p = q"
proof (rule bit_word_eqI)
  fix n
  assume e: "ra_rnti_for_preamble p = ra_rnti_for_preamble q" and n: "n < LENGTH(8)"
  have m: "\<not> bit (0x4300 :: u16) k" if "k < 8" for k
  proof -
    have "(0x4300 :: u16) = push_bit 8 0x43" by simp
    then show ?thesis using that by (simp only: bit_push_bit_iff) simp
  qed
  have "bit (ra_rnti_for_preamble x) n = bit x n" for x
    using n m by (simp add: ra_rnti_for_preamble_def bit_or_iff bit_ucast_iff del: bit_numeral_word_iff)
  then show "bit p n = bit q n" using e by metis
qed

subsection \<open>The terminal under arbitrary inputs\<close>

datatype rach_event =
    EvStart | EvPreamble u8 | EvRar u16 bytes | EvMsg4 u16 u16 | EvRarTimeout | EvCrTimeout | EvForceIdle

fun rach_step :: "rach_event \<Rightarrow> rach_ue \<Rightarrow> rach_ue \<times> rach_out list" where
  "rach_step EvStart ue = start_rach ue"
| "rach_step (EvPreamble p) ue = (set_preamble_index p ue, [])"
| "rach_step (EvRar r ccch) ue = on_rar_received r ccch ue"
| "rach_step (EvMsg4 c r) ue = on_contention_resolve c r ue"
| "rach_step EvRarTimeout ue = on_rar_timeout ue"
| "rach_step EvCrTimeout ue = on_contention_resolve_timeout ue"
| "rach_step EvForceIdle ue = rach_force_idle ue"

inductive rach_reach :: "rach_config \<Rightarrow> rach_event list \<Rightarrow> rach_ue \<Rightarrow> bool" for cfg where
  init: "rach_reach cfg [] (rach_ue_init cfg)"
| step: "rach_reach cfg tr ue \<Longrightarrow> rach_reach cfg (tr @ [e]) (fst (rach_step e ue))"

text \<open>What the trace must hold for the terminal to be in the state it is in.\<close>

definition rach_justified :: "rach_event list \<Rightarrow> rach_ue \<Rightarrow> bool" where
  "rach_justified tr ue =
     (case ru_state ue of
        RACH_IDLE \<Rightarrow> True
      | WAIT_RAR \<Rightarrow> EvStart \<in> set tr \<and> ru_crnti ue = 0 \<and> ru_ra_rnti ue = 0
      | WAIT_CONTENTION_RESOLVE \<Rightarrow>
          ru_crnti ue = 0 \<and> (\<exists>xs ccch ys. tr = xs @ EvRar (ru_ra_rnti ue) ccch # ys \<and> EvStart \<in> set xs)
      | RACH_CONNECTED \<Rightarrow>
          (\<exists>xs ccch ys zs. tr = xs @ EvRar (ru_ra_rnti ue) ccch # ys @ EvMsg4 (ru_crnti ue) (ru_ra_rnti ue) # zs
             \<and> EvStart \<in> set xs))"

definition rach_tx_ok :: "rach_ue \<Rightarrow> bool" where
  "rach_tx_ok ue \<longleftrightarrow>
     (ru_state ue = WAIT_RAR \<longrightarrow> ru_tx_count ue \<le> max 1 (rc_max_preamble_transmissions (ru_config ue)))"

lemma rach_step_max: "rc_max_preamble_transmissions (ru_config (fst (rach_step e ue))) = rc_max_preamble_transmissions (ru_config ue)"
  by (cases e) (simp_all add: rach_defs Let_def)

lemma rach_step_tx_ok: "rach_tx_ok ue \<Longrightarrow> rach_tx_ok (fst (rach_step e ue))"
  by (cases e) (auto simp: rach_tx_ok_def rach_defs Let_def max_def)

text \<open>A state that was justified before an input stays justified if that input changes nothing of it.\<close>

lemma rach_justified_keep:
  assumes "rach_justified tr ue" "ru_state ue' = ru_state ue" "ru_crnti ue' = ru_crnti ue" "ru_ra_rnti ue' = ru_ra_rnti ue"
  shows "rach_justified (tr @ [e]) ue'"
proof (cases "ru_state ue")
  case RACH_CONNECTED
  then show ?thesis using assms by (fastforce simp: rach_justified_def)
next
  case WAIT_CONTENTION_RESOLVE
  then show ?thesis using assms by (fastforce simp: rach_justified_def)
qed (use assms in \<open>auto simp: rach_justified_def\<close>)

lemma rach_step_justified:
  assumes "rach_justified tr ue"
  shows "rach_justified (tr @ [e]) (fst (rach_step e ue))"
proof (cases "ru_state (fst (rach_step e ue)) = ru_state ue")
  case True
  have "ru_crnti (fst (rach_step e ue)) = ru_crnti ue" "ru_ra_rnti (fst (rach_step e ue)) = ru_ra_rnti ue"
    using True by (cases e; auto simp: rach_defs Let_def split: if_splits)+
  with assms True show ?thesis by (rule rach_justified_keep)
next
  case False
  then show ?thesis
    using assms by (cases e) (fastforce simp: rach_justified_def rach_defs Let_def split: if_splits)+
qed

lemma rach_reach_justified: "rach_reach cfg tr ue \<Longrightarrow> rach_justified tr ue"
  by (induction rule: rach_reach.induct)
    (simp_all add: rach_step_justified, simp add: rach_justified_def rach_ue_init_def)

lemma rach_reach_tx: "rach_reach cfg tr ue \<Longrightarrow>
    rach_tx_ok ue \<and> rc_max_preamble_transmissions (ru_config ue) = rc_max_preamble_transmissions cfg"
  by (induction rule: rach_reach.induct)
    (simp_all add: rach_step_tx_ok rach_step_max, simp add: rach_tx_ok_def rach_ue_init_def)

subsection \<open>Attempts\<close>

definition rach_timeouts :: "nat \<Rightarrow> rach_ue \<Rightarrow> rach_ue \<times> rach_out list" where
  "rach_timeouts n ue = ((\<lambda>(u, out). let (u', o') = on_rar_timeout u in (u', out @ o')) ^^ n) (start_rach ue)"

definition count_msg1 :: "rach_out list \<Rightarrow> nat" where
  "count_msg1 out = length (filter (\<lambda>x. case x of RachSend RACH_MSG1 _ \<Rightarrow> True | _ \<Rightarrow> False) out)"

lemma count_msg1_simps [simp]:
  "count_msg1 [] = 0" "count_msg1 (xs @ ys) = count_msg1 xs + count_msg1 ys"
  "count_msg1 (RachStateChange a b # xs) = count_msg1 xs"
  "count_msg1 (RachSend RACH_MSG1 p # xs) = Suc (count_msg1 xs)"
  by (simp_all add: count_msg1_def)

lemma rach_timeouts_waiting:
  assumes "ru_state ue = RACH_IDLE" "n < unat (rc_max_preamble_transmissions (ru_config ue))"
  shows "(case rach_timeouts n ue of (u, out) \<Rightarrow>
      ru_state u = WAIT_RAR \<and> unat (ru_tx_count u) = Suc n \<and> ru_config u = ru_config ue \<and> count_msg1 out = Suc n)"
  using assms(2)
proof (induction n)
  case 0
  then show ?case using assms(1) by (simp add: rach_timeouts_def rach_defs Let_def)
next
  case (Suc n)
  obtain u out where u: "rach_timeouts n ue = (u, out)" by fastforce
  have IH: "ru_state u = WAIT_RAR" "unat (ru_tx_count u) = Suc n" "ru_config u = ru_config ue" "count_msg1 out = Suc n"
    using Suc u by simp_all
  have n: "Suc (Suc n) < 256"
    using Suc.prems unsigned_less [of "rc_max_preamble_transmissions (ru_config ue)", where 'a = nat] by simp
  then have t: "unat (ru_tx_count u + 1) = Suc (Suc n)"
    using IH(2) by (simp add: unat_word_ariths)
  then have "ru_tx_count u + 1 \<le> rc_max_preamble_transmissions (ru_config ue)"
    using Suc.prems by (simp add: word_le_nat_alt)
  then show ?case
    using u IH t by (simp add: rach_timeouts_def on_rar_timeout_def Let_def)
qed

lemma rach_wrap_waiting:
  assumes "ru_state ue = WAIT_RAR" "rc_max_preamble_transmissions (ru_config ue) = 255"
  shows "fst (on_rar_timeout ue) = ue\<lparr>ru_tx_count := ru_tx_count ue + 1\<rparr>"
proof -
  have "ru_tx_count ue + 1 \<le> 255"
    using unsigned_less [of "ru_tx_count ue + 1", where 'a = nat] by (simp add: word_le_nat_alt)
  then show ?thesis using assms by (simp add: on_rar_timeout_def Let_def)
qed

subsection \<open>Properties\<close>

text \<open>
  For every configuration and every sequence of inputs (RARs and MSG4s for any RA-RNTI,
  timeouts, preamble changes, forced resets in any order), a terminal in CONNECTED has
  received, after a start, a RAR with the RA-RNTI it holds and, later, a MSG4 naming that
  same RA-RNTI and the C-RNTI it holds; and at no time does its attempt counter exceed the
  configured maximum (or one, when the maximum is zero) while it waits for a RAR.
\<close>
theorem rach_connected_by_own_messages:
  assumes "rach_reach cfg tr ue"
  shows "(ru_state ue = RACH_CONNECTED \<longrightarrow>
           (\<exists>xs ccch ys zs. tr = xs @ EvRar (ru_ra_rnti ue) ccch # ys @ EvMsg4 (ru_crnti ue) (ru_ra_rnti ue) # zs
              \<and> EvStart \<in> set xs)) \<and>
         (ru_state ue = WAIT_RAR \<longrightarrow> ru_tx_count ue \<le> max 1 (rc_max_preamble_transmissions cfg))"
  using rach_reach_justified [OF assms] rach_reach_tx [OF assms]
  by (auto simp: rach_justified_def rach_tx_ok_def)

definition rach_demo_trace :: "rach_event list" where
  "rach_demo_trace = [EvMsg4 7 0x430A, EvStart, EvRar 0x4301 [], EvRarTimeout, EvRar 0x430A [1], EvMsg4 9 0x4301, EvMsg4 5 0x430A]"

lemma rach_reach_fold: "rach_reach cfg tr (fold (\<lambda>e u. fst (rach_step e u)) tr (rach_ue_init cfg))"
proof (induction tr rule: rev_induct)
  case (snoc e tr)
  then show ?case using rach_reach.step [OF snoc, of e] by simp
qed (simp add: rach_reach.init)

theorem rach_connected_by_own_messages_witness:
  "let u = fold (\<lambda>e u. fst (rach_step e u)) rach_demo_trace (rach_ue_init rach_default_config)
   in ru_state u = RACH_CONNECTED \<and> ru_crnti u = 5 \<and> ru_ra_rnti u = 0x430A \<and>
      (\<exists>xs ccch ys zs. rach_demo_trace = xs @ EvRar 0x430A ccch # ys @ EvMsg4 5 0x430A # zs \<and> EvStart \<in> set xs)"
proof -
  let ?u = "fold (\<lambda>e u. fst (rach_step e u)) rach_demo_trace (rach_ue_init rach_default_config)"
  have "?u = \<lparr>ru_config = rach_default_config, ru_state = RACH_CONNECTED, ru_ra_rnti = 0x430A, ru_crnti = 5, ru_tx_count = 2\<rparr>"
    by code_simp
  then show ?thesis
    using rach_connected_by_own_messages [OF rach_reach_fold [of rach_default_config rach_demo_trace]] by simp
qed

text \<open>
  A terminal whose RARs never come ends its procedure: with a configured maximum below
  255, starting from IDLE, it sends one preamble per attempt, is still waiting after any
  number of timeouts below the maximum, and after exactly that many timeouts is back in
  IDLE having sent exactly the configured number of preambles.
\<close>
theorem rach_gives_up_after_max:
  assumes "ru_state ue = RACH_IDLE" "m = unat (rc_max_preamble_transmissions (ru_config ue))" "0 < m" "m < 255"
  shows "(\<forall>n<m. ru_state (fst (rach_timeouts n ue)) = WAIT_RAR \<and> count_msg1 (snd (rach_timeouts n ue)) = Suc n) \<and>
         ru_state (fst (rach_timeouts m ue)) = RACH_IDLE \<and> count_msg1 (snd (rach_timeouts m ue)) = m"
proof -
  obtain k where k: "m = Suc k" using assms(3) by (cases m) auto
  obtain u out where u: "rach_timeouts k ue = (u, out)" by fastforce
  have *: "ru_state u = WAIT_RAR" "unat (ru_tx_count u) = m" "ru_config u = ru_config ue" "count_msg1 out = m"
    using rach_timeouts_waiting [OF assms(1), of k] u k assms(2) by auto
  have "unat (ru_tx_count u + 1) = Suc m" using *(2) assms(4) by (simp add: unat_word_ariths)
  then have "\<not> ru_tx_count u + 1 \<le> rc_max_preamble_transmissions (ru_config ue)"
    using assms(2) by (simp add: word_le_nat_alt)
  then have "ru_state (fst (rach_timeouts m ue)) = RACH_IDLE \<and> count_msg1 (snd (rach_timeouts m ue)) = m"
    using u * k by (simp add: rach_timeouts_def on_rar_timeout_def rach_transition_def Let_def)
  then show ?thesis
    using rach_timeouts_waiting [OF assms(1)] assms(2) by (auto simp: split_beta)
qed

theorem rach_gives_up_after_max_witness:
  "ru_state (fst (rach_timeouts 3 (rach_ue_init rach_default_config))) = RACH_IDLE \<and>
   count_msg1 (snd (rach_timeouts 3 (rach_ue_init rach_default_config))) = 3"
  using rach_gives_up_after_max [of "rach_ue_init rach_default_config" 3]
  by (simp add: rach_ue_init_def rach_default_config_def)

text \<open>
  With the largest configurable maximum, 255, the 8-bit attempt counter wraps to zero
  before it can exceed the maximum, so the terminal never gives up: it is still waiting
  after any number of RAR timeouts.
\<close>
theorem rach_max_255_never_gives_up:
  assumes "ru_state ue = RACH_IDLE" "rc_max_preamble_transmissions (ru_config ue) = 255"
  shows "ru_state (fst (rach_timeouts n ue)) = WAIT_RAR"
proof -
  have "ru_state (fst (rach_timeouts n ue)) = WAIT_RAR \<and>
        rc_max_preamble_transmissions (ru_config (fst (rach_timeouts n ue))) = 255"
  proof (induction n)
    case 0
    show ?case using assms by (simp add: rach_timeouts_def rach_defs Let_def)
  next
    case (Suc n)
    then show ?case
      using rach_wrap_waiting [of "fst (rach_timeouts n ue)"] by (simp add: rach_timeouts_def Let_def split_beta)
  qed
  then show ?thesis ..
qed

theorem rach_max_255_never_gives_up_witness:
  "ru_state (fst (rach_timeouts 1000 (rach_ue_init (rach_default_config\<lparr>rc_max_preamble_transmissions := 255\<rparr>)))) = WAIT_RAR"
  by (rule rach_max_255_never_gives_up) (simp_all add: rach_ue_init_def)

text \<open>
  The four messages of an undisturbed random access, each through the dispatch of the node
  that receives it: what the terminal sends, what the cell answers, and the final states.
\<close>

definition rach_exchange ::
  "bytes \<Rightarrow> rach_ue \<times> u16 \<Rightarrow> rach_bs \<Rightarrow> (rach_ue \<times> u16) \<times> rach_bs \<times> rach_bs_out list" where
  "rach_exchange ccch st bs =
     (let (ue1, o1) = start_rach (fst st);
          (bs1, o2, _) = bs_handle_air_frame (hd (ue_rach_frames o1)) bs;
          (st2, o3, _) = ue_handle_air_frame ccch (hd (bs_rach_frames o2)) (ue1, 0);
          (bs2, o4, _) = bs_handle_air_frame (hd (ue_rach_frames o3)) bs1;
          (st3, o5, _) = ue_handle_air_frame ccch (hd (bs_rach_frames o4)) st2
      in (st3, bs2, o4))"

lemmas air_dispatch_defs [state_defs] = ue_handle_air_frame_def bs_handle_air_frame_def handle_rach_payload_def

text \<open>One lemma per message of the exchange.\<close>

lemma rach_stage1:
  "ru_state ue = RACH_IDLE \<Longrightarrow> start_rach ue =
     (ue\<lparr>ru_tx_count := 1, ru_ra_rnti := 0, ru_crnti := 0, ru_state := WAIT_RAR\<rparr>,
      [RachStateChange RACH_IDLE WAIT_RAR, RachSend RACH_MSG1 [1, rc_preamble_index (ru_config ue)]])"
  by (simp add: rach_defs rach_msg1_def Let_def)

lemma rach_stage2:
  "cell_for_preamble p = rb_cell_id bs \<Longrightarrow>
     bs_handle_air_frame \<lparr>af_type = MSG1_PRACH, af_rnti = 0, af_payload = [1, p]\<rparr> bs =
       (bs\<lparr>rb_contexts := (rb_contexts bs)(ra_rnti_for_preamble p \<mapsto>
            \<lparr>rx_ra_rnti = ra_rnti_for_preamble p, rx_c_rnti = 0, rx_preamble = p, rx_complete = False\<rparr>)\<rparr>,
        [BsSend RACH_MSG2 [2, byte_at 0 (ra_rnti_for_preamble p), byte_at 1 (ra_rnti_for_preamble p), 12, 5]], None)"
  by (simp add: bs_handle_air_frame_def on_prach_received_def Let_def)

lemma rach_stage3:
  "ru_state ue = WAIT_RAR \<Longrightarrow> r = ra_rnti_for_preamble (rc_preamble_index (ru_config ue)) \<Longrightarrow>
     ue_handle_air_frame ccch \<lparr>af_type = MSG2_RAR, af_rnti = 0, af_payload = [2, byte_at 0 r, byte_at 1 r, 12, 5]\<rparr> (ue, cache) =
       ((ue\<lparr>ru_ra_rnti := r, ru_state := WAIT_CONTENTION_RESOLVE\<rparr>, cache),
        [RachStateChange WAIT_RAR WAIT_CONTENTION_RESOLVE, RachSend RACH_MSG3 ([3, byte_at 0 r, byte_at 1 r] @ ccch)], None)"
  by (simp add: ue_handle_air_frame_def handle_rach_payload_def on_rar_received_def rach_transition_def Let_def wire_simps)

lemma rach_stage4:
  "rb_contexts bs r = Some ctx \<Longrightarrow> ccch \<noteq> [] \<Longrightarrow>
     bs_handle_air_frame \<lparr>af_type = MSG3_CCCH, af_rnti = 0, af_payload = [3, byte_at 0 r, byte_at 1 r] @ ccch\<rparr> bs =
       (bs\<lparr>rb_next_crnti := rb_next_crnti bs + 1,
           rb_contexts := (rb_contexts bs)(r \<mapsto> ctx\<lparr>rx_c_rnti := rb_next_crnti bs, rx_complete := True\<rparr>)\<rparr>,
        [BsSend RACH_MSG4 [4, byte_at 0 (rb_next_crnti bs), byte_at 1 (rb_next_crnti bs), byte_at 0 r, byte_at 1 r],
         Ccch (rb_next_crnti bs) ccch], None)"
  by (cases ccch) (simp_all add: bs_handle_air_frame_def on_msg3_received_def Let_def wire_simps)

lemma rach_stage5:
  "ru_state ue = WAIT_CONTENTION_RESOLVE \<Longrightarrow> ru_ra_rnti ue = r \<Longrightarrow>
     ue_handle_air_frame ccch \<lparr>af_type = MSG4_CR, af_rnti = 0,
         af_payload = [4, byte_at 0 c, byte_at 1 c, byte_at 0 r, byte_at 1 r]\<rparr> (ue, cache) =
       ((ue\<lparr>ru_crnti := c, ru_state := RACH_CONNECTED\<rparr>, c),
        [RachStateChange WAIT_CONTENTION_RESOLVE RACH_CONNECTED], None)"
  by (simp add: ue_handle_air_frame_def handle_rach_payload_def on_contention_resolve_def rach_transition_def
      Let_def wire_simps)

lemmas rach_stages =
  rach_stage1 rach_stage2 rach_stage3 [unfolded One_nat_def]
  rach_stage4 [unfolded One_nat_def append_Cons append_Nil] rach_stage5 [unfolded One_nat_def]

text \<open>
  C29. End to end over the air frames: an idle terminal that targets cell 1 or 2 with a
  preamble of that cell's half, and has a CCCH message to send, completes random access
  with that cell. It ends CONNECTED, its C-RNTI and the one it caches are the next one of
  the cell, the cell's context for the preamble is complete and carries the same C-RNTI,
  and the cell hands exactly that CCCH message to RRC under that C-RNTI; the other cell
  ignores the MSG1.
\<close>
theorem rach_end_to_end:
  assumes "ru_state ue = RACH_IDLE" "rb_cell_id bs \<in> {1, 2}" "ccch \<noteq> []"
    and "rc_preamble_index (ru_config ue) = preamble_for_cell base (rb_cell_id bs)"
  shows "(case rach_exchange ccch (ue, cache) bs of ((ue', cache'), bs', out) \<Rightarrow>
            ru_state ue' = RACH_CONNECTED \<and> ru_crnti ue' = rb_next_crnti bs \<and> cache' = rb_next_crnti bs \<and>
            is_rach_complete (ru_ra_rnti ue') bs' \<and>
            map_option rx_c_rnti (rach_find_ue (ru_ra_rnti ue') bs') = Some (ru_crnti ue') \<and>
            rb_next_crnti bs' = rb_next_crnti bs + 1 \<and>
            filter (\<lambda>x. case x of Ccch _ _ \<Rightarrow> True | _ \<Rightarrow> False) out = [Ccch (rb_next_crnti bs) ccch]) \<and>
         (\<forall>other. rb_cell_id other \<noteq> rb_cell_id bs \<longrightarrow>
            on_prach_received (rc_preamble_index (ru_config ue)) other = (other, []))"
proof -
  have cell: "cell_for_preamble (preamble_for_cell base (rb_cell_id bs)) = rb_cell_id bs"
    by (rule cell_for_preamble_for_cell) (rule assms(2))
  have no: "on_prach_received (rc_preamble_index (ru_config ue)) other = (other, [])"
    if "rb_cell_id other \<noteq> rb_cell_id bs" for other
    using that assms(4) cell by (simp add: on_prach_received_def)
  show ?thesis
    using assms(1,3,4) cell no
    by (simp add: rach_exchange_def rach_stages is_rach_complete_def rach_find_ue_def)
qed

theorem rach_end_to_end_witness:
  "case rach_exchange [0x01, 0, 0] (rach_ue_init rach_default_config, 0) rach_bs_init of ((ue', cache'), bs', out) \<Rightarrow>
     ru_state ue' = RACH_CONNECTED \<and> cache' = 1"
  using rach_end_to_end [of "rach_ue_init rach_default_config" rach_bs_init "[0x01, 0, 0]" 10 0]
  by (auto simp: rach_ue_init_def rach_default_config_def rach_bs_init_def preamble_for_cell_def word_le_nat_alt split: prod.splits)

text \<open>
  Contention is not resolved when two terminals draw the same preamble: both accept the
  cell's single RAR, both send MSG3, and the MSG4 answering the first MSG3 connects both of
  them with one and the same C-RNTI.
\<close>
theorem rach_same_preamble_shares_crnti:
  assumes "ru_state ue1 = WAIT_RAR" "ru_state ue2 = WAIT_RAR"
    and "rc_preamble_index (ru_config ue1) = p" "rc_preamble_index (ru_config ue2) = p"
    and "cell_for_preamble p = rb_cell_id bs"
  shows "(let (bs1, _) = on_prach_received p bs;
              r = ra_rnti_for_preamble p;
              u1 = fst (on_rar_received r c1 ue1);
              u2 = fst (on_rar_received r c2 ue2);
              (bs2, _) = on_msg3_received r ([3, byte_at 0 r, byte_at 1 r] @ c1) bs1;
              u1' = fst (on_contention_resolve (rb_next_crnti bs1) r u1);
              u2' = fst (on_contention_resolve (rb_next_crnti bs1) r u2)
          in ru_state u1' = RACH_CONNECTED \<and> ru_state u2' = RACH_CONNECTED \<and>
             ru_crnti u1' = ru_crnti u2' \<and> ru_crnti u1' = rb_next_crnti bs)"
  using assms by (simp add: rach_defs rach_bs_defs Let_def)

theorem rach_same_preamble_shares_crnti_witness:
  "let ue = (rach_ue_init rach_default_config)\<lparr>ru_state := WAIT_RAR\<rparr>;
       r = ra_rnti_for_preamble 10;
       u' = (\<lambda>c. fst (on_contention_resolve 1 r (fst (on_rar_received r c ue))))
   in ru_state (u' [1]) = RACH_CONNECTED \<and> ru_state (u' [2]) = RACH_CONNECTED \<and> ru_crnti (u' [1]) = ru_crnti (u' [2])"
  using rach_same_preamble_shares_crnti [of "(rach_ue_init rach_default_config)\<lparr>ru_state := WAIT_RAR\<rparr>"
      "(rach_ue_init rach_default_config)\<lparr>ru_state := WAIT_RAR\<rparr>" 10 rach_bs_init "[1]" "[2]"]
  by (simp add: rach_ue_init_def rach_default_config_def rach_bs_init_def rach_bs_defs cell_for_preamble_def Let_def)

end
