(* ===== verification/Rrc.thy ===== *)
theory Rrc
  imports RrcMessages
begin

text \<open>
  The RRC entities, \<^verbatim>\<open>stack/rrc/src/rrc_ue.cpp\<close> and \<^verbatim>\<open>rrc_bs.cpp\<close>: connection setup, release,
  suspension to \<^verbatim>\<open>RRC_INACTIVE\<close> with a resume identity, resumption and re-establishment under
  a fresh C-RNTI. Callbacks are outputs. The context table of the cell is a hash map, so the
  operation that searches it takes the iteration order as an argument; the lemmas show that
  the order does not matter in the states the cell reaches.
\<close>

datatype ue_state = UE_IDLE | UE_CONNECTING | UE_CONNECTED | UE_INACTIVE

fun ue_state_str :: "ue_state \<Rightarrow> string" where
  "ue_state_str UE_IDLE = ''IDLE''"
| "ue_state_str UE_CONNECTING = ''CONNECTING''"
| "ue_state_str UE_CONNECTED = ''CONNECTED''"
| "ue_state_str UE_INACTIVE = ''INACTIVE''"

subsection \<open>Terminal\<close>

record rrc_ue =
  ur_state :: ue_state
  ur_crnti :: u16
  ur_mib :: mib
  ur_sib1 :: sib1
  ur_resume_id :: u32
  ur_suspended :: u16

datatype rrc_ue_out = RrcSend bytes | RrcSuspended u32 | RrcResumed bool u16

definition rrc_ue_init :: rrc_ue where
  "rrc_ue_init = \<lparr>ur_state = UE_IDLE, ur_crnti = 0, ur_mib = mib_default, ur_sib1 = sib1_default,
     ur_resume_id = 0, ur_suspended = 0\<rparr>"

definition on_mib_received :: "mib \<Rightarrow> rrc_ue \<Rightarrow> rrc_ue" where
  "on_mib_received m ue = ue\<lparr>ur_mib := m\<rparr>"

definition on_sib1_received :: "sib1 \<Rightarrow> rrc_ue \<Rightarrow> rrc_ue" where
  "on_sib1_received s ue = ue\<lparr>ur_sib1 := s\<rparr>"

definition restore_connected :: "u16 \<Rightarrow> rrc_ue \<Rightarrow> rrc_ue" where
  "restore_connected crnti ue =
     (let ue = ue\<lparr>ur_crnti := crnti\<rparr> in
      if ur_state ue \<noteq> UE_CONNECTED then ue\<lparr>ur_state := UE_CONNECTED\<rparr> else ue)"

definition start_connection :: "u16 \<Rightarrow> rrc_ue \<Rightarrow> rrc_ue \<times> rrc_ue_out list" where
  "start_connection cell_id ue =
     (if ur_state ue \<noteq> UE_IDLE then (ue, [])
      else
        let v = (if cell_id \<noteq> 0 then put16 cell_id else [0x00])
        in (ue\<lparr>ur_state := UE_CONNECTING\<rparr>, [RrcSend (rrc_encode (rrc_msg RRC_SETUP_REQUEST v))]))"

definition rrc_release :: "rrc_ue \<Rightarrow> rrc_ue \<times> rrc_ue_out list" where
  "rrc_release ue =
     (if ur_state ue \<noteq> UE_CONNECTED then (ue, [])
      else (ue\<lparr>ur_state := UE_IDLE, ur_crnti := 0\<rparr>,
            [RrcSend (rrc_encode (rrc_msg RRC_RELEASE (put16 (ur_crnti ue))))]))"

definition request_suspend :: "rrc_ue \<Rightarrow> rrc_ue \<times> rrc_ue_out list" where
  "request_suspend ue =
     (if ur_state ue \<noteq> UE_CONNECTED then (ue, [])
      else (ue, [RrcSend (rrc_encode (rrc_msg RRC_RELEASE (put16 (ur_crnti ue) @ [0x02])))]))"

definition rrc_force_idle :: "rrc_ue \<Rightarrow> rrc_ue" where
  "rrc_force_idle ue =
     (if ur_state ue = UE_IDLE then ue
      else ue\<lparr>ur_crnti := 0, ur_resume_id := 0, ur_suspended := 0, ur_state := UE_IDLE\<rparr>)"

definition start_resume :: "rrc_ue \<Rightarrow> rrc_ue" where
  "start_resume ue = (if ur_state ue \<noteq> UE_INACTIVE then ue else ue\<lparr>ur_state := UE_CONNECTING\<rparr>)"

definition rrc_ue_on_message :: "bytes \<Rightarrow> rrc_ue \<Rightarrow> rrc_ue \<times> rrc_ue_out list" where
  "rrc_ue_on_message pdu ue =
     (let msg = rrc_decode pdu; v = rrc_value msg in
      if rrc_type msg = RRC_SETUP then
        (if ur_state ue \<noteq> UE_CONNECTING then (ue, [])
         else
           let crnti = (if length v \<ge> 2 then get16 (v ! 0) (v ! 1) else ur_crnti ue)
           in (ue\<lparr>ur_crnti := crnti, ur_state := UE_CONNECTED\<rparr>,
               [RrcSend (rrc_encode (rrc_msg RRC_SETUP_COMPLETE (put16 crnti)))]))
      else if rrc_type msg = RRC_RELEASE then
        (if length v \<ge> 7 \<and> v ! 2 AND 0x01 \<noteq> 0 \<and> ur_state ue = UE_CONNECTED then
           let rid = get32 (v ! 3) (v ! 4) (v ! 5) (v ! 6)
           in (ue\<lparr>ur_suspended := ur_crnti ue, ur_resume_id := rid, ur_state := UE_INACTIVE\<rparr>, [RrcSuspended rid])
         else (ue\<lparr>ur_crnti := 0, ur_state := UE_IDLE\<rparr>, []))
      else if rrc_type msg = RRC_RESUME_OK then
        (if ur_state ue \<noteq> UE_CONNECTING \<or> ur_resume_id ue = 0 then (ue, [])
         else
           let crnti = (if length v \<ge> 2 then get16 (v ! 0) (v ! 1) else ur_crnti ue)
           in (ue\<lparr>ur_crnti := crnti, ur_suspended := 0, ur_resume_id := 0, ur_state := UE_CONNECTED\<rparr>,
               [RrcResumed True crnti]))
      else if rrc_type msg = RRC_RESUME_FAILURE then
        (if ur_state ue \<noteq> UE_CONNECTING then (ue, [])
         else (ue\<lparr>ur_crnti := 0, ur_suspended := 0, ur_resume_id := 0, ur_state := UE_IDLE\<rparr>,
               [RrcResumed False 0]))
      else (ue, []))"

lemmas rrc_ue_defs [state_defs] =
  on_mib_received_def on_sib1_received_def restore_connected_def start_connection_def rrc_release_def
  request_suspend_def rrc_force_idle_def start_resume_def rrc_ue_on_message_def

subsection \<open>Cell\<close>

record rrc_context =
  rctx_c_rnti :: u16
  rctx_state :: ue_state
  rctx_resume_id :: u32

record rrc_bs =
  br_sib1 :: sib1
  br_contexts :: "u16 \<rightharpoonup> rrc_context"
  br_next_crnti :: u16
  br_crnti_base :: u16
  br_next_resume_seq :: u32

datatype rrc_bs_out = RrcBsSend u16 bytes | RrcBsReest u16 u16 | RrcBsSuspend u16

definition rrc_bs_init :: rrc_bs where
  "rrc_bs_init = \<lparr>br_sib1 = sib1_default, br_contexts = Map.empty, br_next_crnti = 0x0001,
     br_crnti_base = 0x0001, br_next_resume_seq = 1\<rparr>"

definition rrc_set_crnti_base :: "u16 \<Rightarrow> rrc_bs \<Rightarrow> rrc_bs" where
  "rrc_set_crnti_base base bs = bs\<lparr>br_next_crnti := base, br_crnti_base := base\<rparr>"

definition set_cell_identity :: "u16 \<Rightarrow> cstring \<Rightarrow> u16 \<Rightarrow> rrc_bs \<Rightarrow> rrc_bs" where
  "set_cell_identity cell_id plmn tac bs =
     bs\<lparr>br_sib1 := \<lparr>sib1_plmn_id = plmn, sib1_tac = tac, sib1_cell_id = cell_id\<rparr>\<rparr>"

definition broadcast_mib :: "rrc_bs \<Rightarrow> mib" where
  "broadcast_mib bs = generate_mib 0"

definition broadcast_sib1 :: "rrc_bs \<Rightarrow> sib1" where
  "broadcast_sib1 bs = br_sib1 bs"

definition rrc_put_context :: "u16 \<Rightarrow> rrc_context \<Rightarrow> rrc_bs \<Rightarrow> rrc_bs" where
  "rrc_put_context r ctx bs = bs\<lparr>br_contexts := (br_contexts bs)(r \<mapsto> ctx)\<rparr>"

definition resume_id_for :: "u16 \<Rightarrow> u32 \<Rightarrow> u32" where
  "resume_id_for rnti seq = push_bit 16 (ucast rnti) OR seq"

definition suspend_context :: "u16 \<Rightarrow> rrc_bs \<Rightarrow> rrc_bs \<times> rrc_bs_out list" where
  "suspend_context rnti bs =
     (case br_contexts bs rnti of
        None \<Rightarrow> (bs, [])
      | Some ctx \<Rightarrow>
          if rctx_state ctx \<noteq> UE_CONNECTED then (bs, [])
          else
            let rid = resume_id_for rnti (br_next_resume_seq bs);
                rel = rrc_msg RRC_RELEASE (put16 rnti @ [0x01] @ put32 rid)
            in (rrc_put_context rnti (ctx\<lparr>rctx_state := UE_INACTIVE, rctx_resume_id := rid\<rparr>) bs
                  \<lparr>br_next_resume_seq := br_next_resume_seq bs + 1\<rparr>,
                [RrcBsSend rnti (rrc_encode rel), RrcBsSuspend rnti]))"

text \<open>
  \<open>(rnti != 0) ? rnti : next_crnti_++\<close>, the C-RNTI a new or migrated context gets.
\<close>

definition rrc_take_crnti :: "u16 \<Rightarrow> rrc_bs \<Rightarrow> u16 \<times> rrc_bs" where
  "rrc_take_crnti rnti bs =
     (if rnti \<noteq> 0 then (rnti, bs) else (br_next_crnti bs, bs\<lparr>br_next_crnti := br_next_crnti bs + 1\<rparr>))"

definition rrc_on_setup_request :: "u16 \<Rightarrow> bytes \<Rightarrow> rrc_bs \<Rightarrow> rrc_bs \<times> rrc_bs_out list" where
  "rrc_on_setup_request rnti v bs =
     (if length v \<ge> 2 \<and> get16 (v ! 0) (v ! 1) \<noteq> 0 \<and> get16 (v ! 0) (v ! 1) \<noteq> sib1_cell_id (br_sib1 bs)
      then (bs, [])
      else
        let (crnti, bs) = rrc_take_crnti rnti bs;
            ctx = \<lparr>rctx_c_rnti = crnti, rctx_state = UE_CONNECTING, rctx_resume_id = 0\<rparr>
        in (rrc_put_context crnti ctx bs, [RrcBsSend crnti (rrc_encode (rrc_msg RRC_SETUP (put16 crnti)))]))"

definition rrc_on_setup_complete :: "u16 \<Rightarrow> rrc_bs \<Rightarrow> rrc_bs" where
  "rrc_on_setup_complete rnti bs =
     (case br_contexts bs rnti of
        None \<Rightarrow> bs
      | Some ctx \<Rightarrow> rrc_put_context rnti (ctx\<lparr>rctx_state := UE_CONNECTED\<rparr>) bs)"

definition rrc_on_release :: "u16 \<Rightarrow> bytes \<Rightarrow> rrc_bs \<Rightarrow> rrc_bs \<times> rrc_bs_out list" where
  "rrc_on_release rnti v bs =
     (if length v \<ge> 3 \<and> v ! 2 AND 0x02 \<noteq> 0 then suspend_context rnti bs
      else
        (case br_contexts bs rnti of
           None \<Rightarrow> (bs, [])
         | Some ctx \<Rightarrow> (rrc_put_context rnti (ctx\<lparr>rctx_state := UE_IDLE\<rparr>) bs, [])))"

text \<open>Up to four bytes, little-endian; missing bytes are zero.\<close>

definition resume_id_of :: "bytes \<Rightarrow> u32" where
  "resume_id_of v =
     (let b = take 4 v @ replicate (4 - length v) 0 in get32 (b ! 0) (b ! 1) (b ! 2) (b ! 3))"

definition rrc_suspended_as :: "u32 \<Rightarrow> rrc_bs \<Rightarrow> u16 \<Rightarrow> bool" where
  "rrc_suspended_as rid bs r =
     (case br_contexts bs r of
        None \<Rightarrow> False
      | Some ctx \<Rightarrow> rctx_state ctx = UE_INACTIVE \<and> rctx_resume_id ctx = rid)"

definition rrc_migrate :: "u16 \<Rightarrow> u16 \<Rightarrow> rrc_context \<Rightarrow> rrc_bs \<Rightarrow> rrc_bs" where
  "rrc_migrate old new ctx bs = bs\<lparr>br_contexts := (br_contexts bs)(old := None, new \<mapsto> ctx)\<rparr>"

definition rrc_on_resume_request :: "u16 list \<Rightarrow> u16 \<Rightarrow> bytes \<Rightarrow> rrc_bs \<Rightarrow> rrc_bs \<times> rrc_bs_out list" where
  "rrc_on_resume_request order rnti v bs =
     (let rid = resume_id_of v;
          owner = ucast (drop_bit 16 rid) :: u16
      in
      if unat owner < unat (br_crnti_base bs) \<or> unat owner \<ge> unat (br_crnti_base bs) + 0x2000 then (bs, [])
      else
        (case find (rrc_suspended_as rid bs) order of
           None \<Rightarrow> (bs, [RrcBsSend rnti (rrc_encode (rrc_msg RRC_RESUME_FAILURE []))])
         | Some old \<Rightarrow>
             let (crnti, bs') = rrc_take_crnti rnti bs;
                 ctx = (the (br_contexts bs old))\<lparr>rctx_c_rnti := crnti, rctx_state := UE_CONNECTED, rctx_resume_id := 0\<rparr>
             in (rrc_migrate old crnti ctx bs',
                 [RrcBsReest old crnti, RrcBsSend crnti (rrc_encode (rrc_msg RRC_RESUME_OK (put16 crnti)))])))"

definition rrc_on_reest_request :: "u16 \<Rightarrow> bytes \<Rightarrow> rrc_bs \<Rightarrow> rrc_bs \<times> rrc_bs_out list" where
  "rrc_on_reest_request rnti v bs =
     (let old = (if length v \<ge> 2 then get16 (v ! 0) (v ! 1) else 0);
          fail = (bs, [RrcBsSend rnti (rrc_encode (rrc_msg RRC_REESTABLISHMENT_FAILURE []))])
      in
      case br_contexts bs old of
        None \<Rightarrow> fail
      | Some ctx \<Rightarrow>
          if old = 0 \<or> rctx_state ctx \<noteq> UE_CONNECTED then fail
          else
            let (crnti, bs') = rrc_take_crnti rnti bs
            in (rrc_migrate old crnti (ctx\<lparr>rctx_c_rnti := crnti\<rparr>) bs',
                [RrcBsReest old crnti,
                 RrcBsSend crnti (rrc_encode (rrc_msg RRC_REESTABLISHMENT_OK (put16 crnti)))]))"

definition rrc_bs_handle_message :: "u16 list \<Rightarrow> u16 \<Rightarrow> bytes \<Rightarrow> rrc_bs \<Rightarrow> rrc_bs \<times> rrc_bs_out list" where
  "rrc_bs_handle_message order rnti pdu bs =
     (let msg = rrc_decode pdu; v = rrc_value msg in
      if rrc_type msg = RRC_SETUP_REQUEST then rrc_on_setup_request rnti v bs
      else if rrc_type msg = RRC_SETUP_COMPLETE then (rrc_on_setup_complete rnti bs, [])
      else if rrc_type msg = RRC_RELEASE then rrc_on_release rnti v bs
      else if rrc_type msg = RRC_RESUME_REQUEST then rrc_on_resume_request order rnti v bs
      else if rrc_type msg = RRC_REESTABLISHMENT_REQUEST then rrc_on_reest_request rnti v bs
      else (bs, []))"

definition reactivate_context :: "u16 \<Rightarrow> rrc_bs \<Rightarrow> rrc_bs" where
  "reactivate_context rnti bs =
     (case br_contexts bs rnti of
        None \<Rightarrow> bs
      | Some ctx \<Rightarrow>
          if rctx_state ctx \<noteq> UE_INACTIVE then bs
          else rrc_put_context rnti (ctx\<lparr>rctx_state := UE_CONNECTED, rctx_resume_id := 0\<rparr>) bs)"

definition is_ue_connected :: "u16 \<Rightarrow> rrc_bs \<Rightarrow> bool" where
  "is_ue_connected rnti bs =
     (case br_contexts bs rnti of None \<Rightarrow> False | Some ctx \<Rightarrow> rctx_state ctx = UE_CONNECTED)"

definition rrc_find_ue :: "u16 \<Rightarrow> rrc_bs \<Rightarrow> rrc_context option" where
  "rrc_find_ue rnti bs = br_contexts bs rnti"

definition admit_connected :: "u16 \<Rightarrow> rrc_bs \<Rightarrow> rrc_bs" where
  "admit_connected crnti bs =
     rrc_put_context crnti \<lparr>rctx_c_rnti = crnti, rctx_state = UE_CONNECTED, rctx_resume_id = 0\<rparr> bs"

definition release_context :: "u16 \<Rightarrow> rrc_bs \<Rightarrow> rrc_bs" where
  "release_context rnti bs = bs\<lparr>br_contexts := (br_contexts bs)(rnti := None)\<rparr>"

lemmas rrc_bs_defs [state_defs] =
  rrc_set_crnti_base_def set_cell_identity_def rrc_put_context_def suspend_context_def rrc_take_crnti_def
  rrc_on_setup_request_def rrc_on_setup_complete_def rrc_on_release_def rrc_suspended_as_def rrc_migrate_def
  rrc_on_resume_request_def rrc_on_reest_request_def rrc_bs_handle_message_def reactivate_context_def
  is_ue_connected_def rrc_find_ue_def admit_connected_def release_context_def

subsection \<open>The states the cell reaches\<close>

datatype rrc_bs_op =
    OpMsg "u16 list" u16 bytes | OpSuspend u16 | OpReactivate u16 | OpAdmit u16 | OpDrop u16

fun rrc_bs_step :: "rrc_bs_op \<Rightarrow> rrc_bs \<Rightarrow> rrc_bs \<times> rrc_bs_out list" where
  "rrc_bs_step (OpMsg order rnti pdu) bs = rrc_bs_handle_message order rnti pdu bs"
| "rrc_bs_step (OpSuspend r) bs = suspend_context r bs"
| "rrc_bs_step (OpReactivate r) bs = (reactivate_context r bs, [])"
| "rrc_bs_step (OpAdmit r) bs = (admit_connected r bs, [])"
| "rrc_bs_step (OpDrop r) bs = (release_context r bs, [])"

definition suspensions :: "rrc_bs_out list \<Rightarrow> nat" where
  "suspensions out = length (filter (\<lambda>x. case x of RrcBsSuspend _ \<Rightarrow> True | _ \<Rightarrow> False) out)"

text \<open>\<open>rrc_bs_reach n bs\<close>: \<open>bs\<close> is reached after operations that suspended terminals \<open>n\<close> times.\<close>

inductive rrc_bs_reach :: "nat \<Rightarrow> rrc_bs \<Rightarrow> bool" where
  start: "rrc_bs_reach 0 (set_cell_identity cell plmn tac (rrc_set_crnti_base base rrc_bs_init))"
| step: "rrc_bs_reach n bs \<Longrightarrow>
         rrc_bs_reach (n + suspensions (snd (rrc_bs_step op bs))) (fst (rrc_bs_step op bs))"

definition rrc_context_ok :: "u32 \<Rightarrow> u16 \<Rightarrow> rrc_context \<Rightarrow> bool" where
  "rrc_context_ok seq r ctx \<longleftrightarrow>
     rctx_c_rnti ctx = r \<and>
     (rctx_state ctx = UE_INACTIVE \<longrightarrow> (\<exists>s < seq. rctx_resume_id ctx = resume_id_for r s))"

definition rrc_bs_ok :: "rrc_bs \<Rightarrow> bool" where
  "rrc_bs_ok bs \<longleftrightarrow> (\<forall>r ctx. br_contexts bs r = Some ctx \<longrightarrow> rrc_context_ok (br_next_resume_seq bs) r ctx)"

lemma rrc_bs_okD: "rrc_bs_ok bs \<Longrightarrow> br_contexts bs r = Some ctx \<Longrightarrow> rrc_context_ok (br_next_resume_seq bs) r ctx"
  by (simp add: rrc_bs_ok_def)

lemma rrc_context_ok_mono: "rrc_context_ok s r ctx \<Longrightarrow> s \<le> s' \<Longrightarrow> rrc_context_ok s' r ctx"
  by (auto simp: rrc_context_ok_def intro: order.strict_trans2)

lemma rrc_put_ok: "rrc_bs_ok bs \<Longrightarrow> rrc_context_ok (br_next_resume_seq bs) r ctx \<Longrightarrow> rrc_bs_ok (rrc_put_context r ctx bs)"
  by (simp add: rrc_bs_ok_def rrc_put_context_def)

lemma rrc_migrate_ok: "rrc_bs_ok bs \<Longrightarrow> rrc_context_ok (br_next_resume_seq bs) new ctx \<Longrightarrow> rrc_bs_ok (rrc_migrate old new ctx bs)"
  by (simp add: rrc_bs_ok_def rrc_migrate_def)

lemma rrc_take_crnti_ok: "rrc_take_crnti r bs = (c, bs') \<Longrightarrow> rrc_bs_ok bs' = rrc_bs_ok bs \<and>
    br_next_resume_seq bs' = br_next_resume_seq bs \<and> br_contexts bs' = br_contexts bs \<and> br_sib1 bs' = br_sib1 bs"
  by (auto simp: rrc_take_crnti_def rrc_bs_ok_def split: if_splits)

lemma rrc_suspend_seq:
  "br_next_resume_seq (fst (suspend_context r bs)) = br_next_resume_seq bs + of_nat (suspensions (snd (suspend_context r bs)))"
  "suspensions (snd (suspend_context r bs)) \<le> 1"
  by (auto simp: suspend_context_def rrc_put_context_def suspensions_def Let_def split: option.split)

lemma rrc_suspend_ok:
  assumes "rrc_bs_ok bs" "unat (br_next_resume_seq bs) < 2 ^ 32 - 1"
  shows "rrc_bs_ok (fst (suspend_context r bs))"
proof (cases "suspensions (snd (suspend_context r bs)) = 0")
  case True
  then have "fst (suspend_context r bs) = bs"
    by (auto simp: suspend_context_def suspensions_def Let_def split: option.splits if_splits)
  with assms show ?thesis by simp
next
  case False
  let ?q = "br_next_resume_seq bs"
  have u: "unat (?q + 1) = unat ?q + 1" using assms(2) by (simp add: unat_word_ariths)
  then have q: "?q < ?q + 1" by (simp add: word_less_nat_alt)
  obtain ctx where c: "br_contexts bs r = Some ctx" "rctx_state ctx = UE_CONNECTED"
    using False by (auto simp: suspend_context_def suspensions_def Let_def split: option.splits if_splits)
  have "rrc_context_ok (?q + 1) r (ctx\<lparr>rctx_state := UE_INACTIVE, rctx_resume_id := resume_id_for r ?q\<rparr>)"
    using rrc_bs_okD [OF assms(1) c(1)] q by (auto simp: rrc_context_ok_def)
  moreover have "rrc_context_ok (?q + 1) r' ctx'" if "br_contexts bs r' = Some ctx'" for r' ctx'
    using rrc_context_ok_mono [OF rrc_bs_okD [OF assms(1) that]] q by auto
  ultimately show ?thesis
    using c by (auto simp: suspend_context_def rrc_put_context_def rrc_bs_ok_def Let_def)
qed

text \<open>One step: the sequence number counts the suspensions, and the invariant is kept.\<close>

definition rrc_step_ok :: "rrc_bs \<Rightarrow> rrc_bs \<times> rrc_bs_out list \<Rightarrow> bool" where
  "rrc_step_ok bs p \<longleftrightarrow>
     br_next_resume_seq (fst p) = br_next_resume_seq bs + of_nat (suspensions (snd p)) \<and> suspensions (snd p) \<le> 1 \<and>
     (rrc_bs_ok bs \<and> unat (br_next_resume_seq bs) < 2 ^ 32 - 1 \<longrightarrow> rrc_bs_ok (fst p))"

lemma suspensions_simps [simp]:
  "suspensions [] = 0" "suspensions (RrcBsSend r b # xs) = suspensions xs" "suspensions (RrcBsReest a c # xs) = suspensions xs"
  by (simp_all add: suspensions_def)

lemma rrc_seq_frame [simp]:
  "br_next_resume_seq (rrc_put_context r ctx bs) = br_next_resume_seq bs"
  "br_next_resume_seq (rrc_migrate old new ctx bs) = br_next_resume_seq bs"
  by (simp_all add: rrc_put_context_def rrc_migrate_def)

lemma rrc_step_ok_suspend: "rrc_step_ok bs (suspend_context r bs)"
  unfolding rrc_step_ok_def using rrc_suspend_seq rrc_suspend_ok by blast

lemma rrc_step_ok_same [simp]: "suspensions out = 0 \<Longrightarrow> rrc_step_ok bs (bs, out)"
  by (simp add: rrc_step_ok_def)

lemma rrc_step_ok_put:
  "suspensions out = 0 \<Longrightarrow> (rrc_bs_ok bs \<Longrightarrow> rrc_context_ok (br_next_resume_seq bs) r ctx) \<Longrightarrow>
     rrc_step_ok bs (rrc_put_context r ctx bs, out)"
  by (auto simp: rrc_step_ok_def intro: rrc_put_ok)

lemma rrc_step_ok_setup_request: "rrc_step_ok bs (rrc_on_setup_request rnti v bs)"
proof -
  obtain c bs' where t: "rrc_take_crnti rnti bs = (c, bs')" by fastforce
  have "rrc_bs_ok bs \<Longrightarrow> rrc_bs_ok (rrc_put_context c \<lparr>rctx_c_rnti = c, rctx_state = UE_CONNECTING, rctx_resume_id = 0\<rparr> bs')"
    using rrc_take_crnti_ok [OF t] by (intro rrc_put_ok) (simp_all add: rrc_context_ok_def)
  then show ?thesis
    using t rrc_take_crnti_ok [OF t] by (auto simp: rrc_on_setup_request_def rrc_step_ok_def Let_def)
qed

lemma rrc_step_ok_setup_complete: "rrc_step_ok bs (rrc_on_setup_complete rnti bs, [])"
  by (auto simp: rrc_on_setup_complete_def rrc_context_ok_def dest!: rrc_bs_okD split: option.split intro!: rrc_step_ok_put)

lemma rrc_step_ok_release: "rrc_step_ok bs (rrc_on_release rnti v bs)"
  by (auto simp: rrc_on_release_def rrc_context_ok_def rrc_step_ok_suspend dest!: rrc_bs_okD
      split: option.split intro!: rrc_step_ok_put)

lemma rrc_step_ok_resume: "rrc_step_ok bs (rrc_on_resume_request order rnti v bs)"
proof -
  obtain c bs' where t: "rrc_take_crnti rnti bs = (c, bs')" by fastforce
  have "rrc_bs_ok bs \<Longrightarrow> rrc_bs_ok (rrc_migrate old c (ctx\<lparr>rctx_c_rnti := c, rctx_state := UE_CONNECTED, rctx_resume_id := 0\<rparr>) bs')"
    for old ctx
    using rrc_take_crnti_ok [OF t] by (intro rrc_migrate_ok) (simp_all add: rrc_context_ok_def)
  then show ?thesis
    using t rrc_take_crnti_ok [OF t] by (auto simp: rrc_on_resume_request_def rrc_step_ok_def Let_def split: option.split)
qed

lemma rrc_step_ok_reest: "rrc_step_ok bs (rrc_on_reest_request rnti v bs)"
proof -
  obtain c bs' where t: "rrc_take_crnti rnti bs = (c, bs')" by fastforce
  have "rrc_bs_ok bs \<Longrightarrow> rctx_state ctx = UE_CONNECTED \<Longrightarrow> rrc_bs_ok (rrc_migrate old c (ctx\<lparr>rctx_c_rnti := c\<rparr>) bs')"
    for old ctx
    using rrc_take_crnti_ok [OF t] by (intro rrc_migrate_ok) (simp_all add: rrc_context_ok_def)
  then show ?thesis
    using t rrc_take_crnti_ok [OF t] by (auto simp: rrc_on_reest_request_def rrc_step_ok_def Let_def split: option.split)
qed

lemma rrc_bs_step_ok: "rrc_step_ok bs (rrc_bs_step op bs)"
proof (cases op)
  case (OpMsg order rnti pdu)
  then show ?thesis
    by (simp add: rrc_bs_handle_message_def Let_def rrc_step_ok_setup_request rrc_step_ok_setup_complete
        rrc_step_ok_release rrc_step_ok_resume rrc_step_ok_reest)
next
  case (OpReactivate r)
  then show ?thesis
    by (auto simp: reactivate_context_def rrc_context_ok_def dest!: rrc_bs_okD split: option.split intro!: rrc_step_ok_put)
next
  case (OpAdmit r)
  then show ?thesis by (auto simp: admit_connected_def rrc_context_ok_def intro!: rrc_step_ok_put)
next
  case (OpDrop r)
  then show ?thesis by (auto simp: release_context_def rrc_step_ok_def rrc_bs_ok_def)
qed (simp add: rrc_step_ok_suspend)

text \<open>While the sequence number fits the low half of a resume identity, the high half is the C-RNTI.\<close>

lemma rrc_reach_ok:
  "rrc_bs_reach n bs \<Longrightarrow> n < 65536 \<Longrightarrow> rrc_bs_ok bs \<and> unat (br_next_resume_seq bs) = Suc n"
proof (induction rule: rrc_bs_reach.induct)
  case (start cell plmn tac base)
  show ?case by (simp add: set_cell_identity_def rrc_set_crnti_base_def rrc_bs_init_def rrc_bs_ok_def)
next
  case (step n bs op)
  let ?k = "suspensions (snd (rrc_bs_step op bs))"
  have IH: "rrc_bs_ok bs" "unat (br_next_resume_seq bs) = Suc n" using step by auto
  have so: "br_next_resume_seq (fst (rrc_bs_step op bs)) = br_next_resume_seq bs + of_nat ?k" "?k \<le> 1"
    using rrc_bs_step_ok [of bs op] by (auto simp: rrc_step_ok_def)
  show ?case
  proof (cases "?k = 0")
    case True
    then show ?thesis using so IH rrc_bs_step_ok [of bs op] step.prems by (auto simp: rrc_step_ok_def suspend_context_def)
  next
    case False
    then have k: "?k = 1" using so(2) by simp
    then have "Suc n < 65536" using step.prems by simp
    then show ?thesis using so IH rrc_bs_step_ok [of bs op] k by (auto simp: rrc_step_ok_def unat_word_ariths)
  qed
qed

lemma bit_ucast16: "bit (ucast (r :: u16) :: u32) n \<longleftrightarrow> bit r n"
  using bit_imp_le_length [of r n] by (auto simp: bit_ucast_iff)

lemma resume_id_owner:
  assumes "unat s < 65536"
  shows "ucast (drop_bit 16 (resume_id_for r s)) = r"
proof (rule bit_word_eqI)
  fix n assume "n < LENGTH(16)"
  have "take_bit 16 s = s" using assms by (intro and_mask_small) simp
  then have "\<not> bit s (16 + n)" by (metis bit_take_bit_iff not_add_less1)
  then show "bit (ucast (drop_bit 16 (resume_id_for r s)) :: u16) n = bit r n"
    using \<open>n < LENGTH(16)\<close>
    by (auto simp: resume_id_for_def bit_simps bit_ucast16)
qed

lemma rrc_reach_seq_small:
  assumes "rrc_bs_reach n bs" "n < 65536" "br_contexts bs r = Some ctx" "rctx_state ctx = UE_INACTIVE"
  shows "ucast (drop_bit 16 (rctx_resume_id ctx)) = r"
proof -
  obtain s where "s < br_next_resume_seq bs" "rctx_resume_id ctx = resume_id_for r s"
    using rrc_bs_okD [OF conjunct1 [OF rrc_reach_ok [OF assms(1,2)]] assms(3)] assms(4) by (auto simp: rrc_context_ok_def)
  moreover have "unat (br_next_resume_seq bs) = Suc n" using rrc_reach_ok [OF assms(1,2)] by simp
  ultimately show ?thesis using assms(2) resume_id_owner [of s r] by (simp add: word_less_nat_alt)
qed

lemma rrc_suspended_unique:
  assumes "rrc_bs_reach n bs" "n < 65536" "rrc_suspended_as rid bs r" "rrc_suspended_as rid bs r'"
  shows "r = r'"
proof -
  have "ucast (drop_bit 16 rid) = q" if "rrc_suspended_as rid bs q" for q
    using that rrc_reach_seq_small [OF assms(1,2), of q] by (auto simp: rrc_suspended_as_def split: option.splits)
  from this [OF assms(3)] this [OF assms(4)] show ?thesis by simp
qed

text \<open>So the search of the hash map does not depend on its iteration order.\<close>

lemma rrc_find_suspended:
  assumes "rrc_bs_reach n bs" "n < 65536" "rrc_suspended_as rid bs r" "dom (br_contexts bs) \<subseteq> set order"
  shows "find (rrc_suspended_as rid bs) order = Some r"
proof -
  have "r \<in> set order" using assms(3,4) by (auto simp: rrc_suspended_as_def split: option.splits)
  then obtain r' where r': "find (rrc_suspended_as rid bs) order = Some r'"
    using assms(3) by (cases "find (rrc_suspended_as rid bs) order") (auto simp: find_None_iff)
  then have "rrc_suspended_as rid bs r'" by (auto simp: find_Some_iff)
  with rrc_suspended_unique [OF assms(1,2,3)] r' show ?thesis by auto
qed

subsection \<open>Properties\<close>

text \<open>
  C31. In every state a cell reaches by any sequence of received PDUs, suspensions,
  reactivations, handover admissions and releases, with fewer than 65536 suspensions: each
  context is filed under its own C-RNTI, a suspended context's resume identity names its
  owner in the high half, no two suspended contexts share an identity, and therefore the
  result of a resume request does not depend on the iteration order of the hash map.
\<close>
theorem rrc_bs_contexts_invariant:
  assumes "rrc_bs_reach n bs" "n < 65536"
  shows "(\<forall>r ctx. rrc_find_ue r bs = Some ctx \<longrightarrow> rctx_c_rnti ctx = r \<and>
            (rctx_state ctx = UE_INACTIVE \<longrightarrow> ucast (drop_bit 16 (rctx_resume_id ctx)) = r)) \<and>
         (\<forall>rid r r'. rrc_suspended_as rid bs r \<longrightarrow> rrc_suspended_as rid bs r' \<longrightarrow> r = r') \<and>
         (\<forall>order order' rnti v. set order = dom (br_contexts bs) \<longrightarrow> set order' = dom (br_contexts bs) \<longrightarrow>
            rrc_on_resume_request order rnti v bs = rrc_on_resume_request order' rnti v bs)"
proof (intro conjI allI impI)
  fix r ctx assume c: "rrc_find_ue r bs = Some ctx"
  show "rctx_c_rnti ctx = r"
    using rrc_bs_okD [OF conjunct1 [OF rrc_reach_ok [OF assms]]] c by (auto simp: rrc_find_ue_def rrc_context_ok_def)
  show "ucast (drop_bit 16 (rctx_resume_id ctx)) = r" if "rctx_state ctx = UE_INACTIVE"
    using rrc_reach_seq_small [OF assms] c that by (simp add: rrc_find_ue_def)
next
  show "r = r'" if "rrc_suspended_as rid bs r" "rrc_suspended_as rid bs r'" for rid r r'
    using rrc_suspended_unique [OF assms that] .
next
  fix order order' rnti v
  assume o: "set order = dom (br_contexts bs)" "set order' = dom (br_contexts bs)"
  have "find (rrc_suspended_as rid bs) order = find (rrc_suspended_as rid bs) order'" for rid
  proof (cases "\<exists>r. rrc_suspended_as rid bs r")
    case True
    then show ?thesis using rrc_find_suspended [OF assms] o by (metis order_refl)
  next
    case False
    then show ?thesis by (simp add: find_None_iff [THEN iffD2])
  qed
  then show "rrc_on_resume_request order rnti v bs = rrc_on_resume_request order' rnti v bs"
    by (simp add: rrc_on_resume_request_def Let_def)
qed

lemma rrc_reach_trans:
  "rrc_bs_reach n bs \<Longrightarrow> rrc_bs_step op bs = (bs', out) \<Longrightarrow> rrc_bs_reach (n + suspensions out) bs'"
  using rrc_bs_reach.step [of n bs op] by simp

definition rrc_demo_bs :: rrc_bs where
  "rrc_demo_bs = set_cell_identity 1 (cstr ''46001'') 1 (rrc_set_crnti_base 0x100 rrc_bs_init)"

lemma rrc_demo_bs_reach: "rrc_bs_reach 0 rrc_demo_bs"
  unfolding rrc_demo_bs_def by (rule rrc_bs_reach.start)

lemma rrc_demo_admitted: "rrc_bs_reach 0 (admit_connected 0x101 rrc_demo_bs)"
  using rrc_bs_reach.step [OF rrc_demo_bs_reach, of "OpAdmit 0x101"] by simp

lemma rrc_demo_suspended: "rrc_bs_reach 1 (fst (suspend_context 0x101 (admit_connected 0x101 rrc_demo_bs)))"
proof -
  have "suspensions (snd (suspend_context 0x101 (admit_connected 0x101 rrc_demo_bs))) = 1"
    by (simp add: rrc_demo_bs_def rrc_bs_defs rrc_bs_init_def suspensions_def Let_def)
  then show ?thesis
    using rrc_bs_reach.step [OF rrc_demo_admitted, of "OpSuspend 0x101"] by simp
qed

theorem rrc_bs_contexts_invariant_witness:
  "let bs = fst (suspend_context 0x101 (admit_connected 0x101 rrc_demo_bs)) in
     rrc_suspended_as 0x01010001 bs 0x101 \<and>
     (\<forall>r. rrc_suspended_as 0x01010001 bs r \<longrightarrow> r = 0x101)"
proof -
  let ?bs = "fst (suspend_context 0x101 (admit_connected 0x101 rrc_demo_bs))"
  have "rrc_suspended_as 0x01010001 ?bs 0x101"
    by (simp add: rrc_demo_bs_def rrc_bs_defs rrc_bs_init_def resume_id_for_def Let_def)
  then show ?thesis
    using rrc_bs_contexts_invariant [OF rrc_demo_suspended] by (auto simp: Let_def)
qed

text \<open>Messages as the entities read them.\<close>

lemma rrc_decode_simps [simp]:
  "rrc_decode (rrc_encode (rrc_msg t (put16 x))) = rrc_msg t (put16 x)"
  "rrc_decode (rrc_encode (rrc_msg t (put16 x @ [a] @ put32 y))) = rrc_msg t (put16 x @ [a] @ put32 y)"
  "rrc_decode (rrc_encode (rrc_msg t (put32 y))) = rrc_msg t (put32 y)"
  "rrc_decode (rrc_encode (rrc_msg t [])) = rrc_msg t []"
  by (rule rrc_decode_encode, simp)+

lemma put16_nth [simp]: "put16 x ! 0 = byte_at 0 x" "put16 x ! Suc 0 = byte_at (Suc 0) x"
  by (simp_all add: put16_def)

lemma resume_id_of_put32 [simp]: "resume_id_of (put32 x) = x"
  by (simp add: resume_id_of_def put32_def Let_def wire_simps)

text \<open>
  Connection setup: an idle terminal that names the cell's identity in its request is
  answered on the C-RNTI the MAC assigned, ends CONNECTED with exactly that C-RNTI, and its
  SETUP COMPLETE makes the cell count it as connected; a cell with another identity neither
  answers nor creates a context.
\<close>
theorem rrc_setup_handshake:
  assumes "ur_state ue = UE_IDLE" "cell \<noteq> 0" "rnti \<noteq> 0" "sib1_cell_id (br_sib1 bs) = cell"
  shows "\<exists>req setup complete ue1 ue2 bs1 bs2.
     start_connection cell ue = (ue1, [RrcSend req]) \<and>
     rrc_bs_handle_message order rnti req bs = (bs1, [RrcBsSend rnti setup]) \<and>
     rrc_ue_on_message setup ue1 = (ue2, [RrcSend complete]) \<and>
     rrc_bs_handle_message order rnti complete bs1 = (bs2, []) \<and>
     ur_state ue2 = UE_CONNECTED \<and> ur_crnti ue2 = rnti \<and> is_ue_connected rnti bs2 \<and>
     (\<forall>other. sib1_cell_id (br_sib1 other) \<noteq> cell \<longrightarrow> rrc_bs_handle_message order rnti req other = (other, []))"
  using assms
  by (simp add: rrc_ue_defs rrc_bs_defs Let_def rrc_type_defs wire_simps)

theorem rrc_setup_handshake_witness:
  "\<exists>req setup complete ue1 ue2 bs1 bs2.
     start_connection 1 rrc_ue_init = (ue1, [RrcSend req]) \<and>
     rrc_bs_handle_message [] 0x100 req rrc_demo_bs = (bs1, [RrcBsSend 0x100 setup]) \<and>
     rrc_ue_on_message setup ue1 = (ue2, [RrcSend complete]) \<and>
     rrc_bs_handle_message [] 0x100 complete bs1 = (bs2, []) \<and>
     ur_state ue2 = UE_CONNECTED \<and> ur_crnti ue2 = 0x100 \<and> is_ue_connected 0x100 bs2"
  using rrc_setup_handshake [where ue = rrc_ue_init and cell = 1 and rnti = "0x100" and bs = rrc_demo_bs and order = "[]"]
  by (fastforce simp: rrc_ue_init_def rrc_demo_bs_def set_cell_identity_def)

lemma rrc_release_value_nth:
  "(put16 x @ [a] @ put32 y) ! 2 = a" "(put16 x @ [a] @ put32 y) ! 3 = byte_at 0 y"
  "(put16 x @ [a] @ put32 y) ! 4 = byte_at 1 y" "(put16 x @ [a] @ put32 y) ! 5 = byte_at 2 y"
  "(put16 x @ [a] @ put32 y) ! 6 = byte_at 3 y"
  by (simp_all add: put16_def put32_def)

lemma rrc_ue_suspended:
  assumes "ur_state ue = UE_CONNECTED"
  shows "rrc_ue_on_message (rrc_encode (rrc_msg RRC_RELEASE (put16 r @ [0x01] @ put32 rid))) ue =
           (ue\<lparr>ur_suspended := ur_crnti ue, ur_resume_id := rid, ur_state := UE_INACTIVE\<rparr>, [RrcSuspended rid])"
proof -
  have "get32 (byte_at 0 rid) (byte_at 1 rid) (byte_at 2 rid) (byte_at 3 rid) = rid"
    using get32_byte_at [of rid] by simp
  then show ?thesis
    using assms unfolding rrc_ue_on_message_def rrc_decode_simps Let_def
    by (simp add: rrc_type_defs rrc_release_value_nth del: append.simps)
qed

lemma rrc_bs_resumes:
  assumes "rrc_bs_reach n bs" "n < 65536" "rrc_suspended_as rid bs r" "dom (br_contexts bs) = set order"
    and "unat (br_crnti_base bs) \<le> unat r" "unat r < unat (br_crnti_base bs) + 0x2000" "rnti \<noteq> 0"
  shows "rrc_bs_handle_message order rnti (rrc_encode (rrc_msg RRC_RESUME_REQUEST (put32 rid))) bs =
     (rrc_migrate r rnti \<lparr>rctx_c_rnti = rnti, rctx_state = UE_CONNECTED, rctx_resume_id = 0\<rparr> bs,
      [RrcBsReest r rnti, RrcBsSend rnti (rrc_encode (rrc_msg RRC_RESUME_OK (put16 rnti)))])"
proof -
  have f: "find (rrc_suspended_as rid bs) order = Some r"
    using rrc_find_suspended [OF assms(1,2,3)] assms(4) by simp
  obtain ctx where c: "br_contexts bs r = Some ctx" "rctx_state ctx = UE_INACTIVE" "rctx_resume_id ctx = rid"
    using assms(3) by (auto simp: rrc_suspended_as_def split: option.splits)
  have o: "ucast (drop_bit 16 rid) = r" using rrc_reach_seq_small [OF assms(1,2) c(1,2)] c(3) by simp
  show ?thesis
    using assms(5-7) f c(1) o
    by (cases ctx) (simp add: rrc_bs_handle_message_def rrc_on_resume_request_def rrc_take_crnti_def rrc_type_defs Let_def)
qed

text \<open>
  C30. Suspend and resume: suspending a connected terminal sends a RELEASE that puts it in
  INACTIVE with the resume identity the cell filed; and from any later state of the cell in
  which that context is still suspended, a resume request with this identity (from a
  terminal that has meanwhile been given a new C-RNTI by random access) is answered so that
  both sides are connected under the new C-RNTI, the old one no longer has a context, and
  the data path is told to migrate. The C-RNTI must be in the cell's range of 0x2000.
\<close>
theorem rrc_suspend_resume:
  assumes "ur_state ue = UE_CONNECTED" "ur_crnti ue = r" "r \<noteq> 0" "rnti \<noteq> 0"
    and "rrc_bs_reach n bs" "n < 65535" "is_ue_connected r bs"
    and "rid = resume_id_for r (br_next_resume_seq bs)"
    and "rrc_bs_reach m bs1" "m < 65536" "rrc_suspended_as rid bs1 r" "dom (br_contexts bs1) = set order"
    and "unat (br_crnti_base bs1) \<le> unat r" "unat r < unat (br_crnti_base bs1) + 0x2000"
  shows "(\<exists>rel ue1. snd (suspend_context r bs) = [RrcBsSend r rel, RrcBsSuspend r] \<and>
            rrc_suspended_as rid (fst (suspend_context r bs)) r \<and>
            rrc_ue_on_message rel ue = (ue1, [RrcSuspended rid]) \<and> ur_state ue1 = UE_INACTIVE \<and>
            (\<exists>ok ue2 bs2.
               rrc_bs_handle_message order rnti (rrc_encode (rrc_msg RRC_RESUME_REQUEST (put32 (ur_resume_id ue1)))) bs1
                 = (bs2, [RrcBsReest r rnti, RrcBsSend rnti ok]) \<and>
               rrc_ue_on_message ok (start_resume ue1) = (ue2, [RrcResumed True rnti]) \<and>
               ur_state ue2 = UE_CONNECTED \<and> ur_crnti ue2 = rnti \<and> is_ue_connected rnti bs2 \<and>
               (rnti \<noteq> r \<longrightarrow> rrc_find_ue r bs2 = None)))"
proof -
  obtain ctx where c: "br_contexts bs r = Some ctx" "rctx_state ctx = UE_CONNECTED"
    using assms(7) by (auto simp: is_ue_connected_def split: option.splits)
  define ue1 where "ue1 = ue\<lparr>ur_suspended := ur_crnti ue, ur_resume_id := rid, ur_state := UE_INACTIVE\<rparr>"
  have "unat (br_next_resume_seq bs) = Suc n" using rrc_reach_ok [OF assms(5)] assms(6) by simp
  then have "ucast (drop_bit 16 rid) = r" using resume_id_owner [of "br_next_resume_seq bs" r] assms(6,8) by simp
  then have rid: "rid \<noteq> 0" using assms(3) by auto
  have ok: "rrc_ue_on_message (rrc_encode (rrc_msg RRC_RESUME_OK (put16 rnti))) (start_resume ue1)
      = (ue1\<lparr>ur_crnti := rnti, ur_suspended := 0, ur_resume_id := 0, ur_state := UE_CONNECTED\<rparr>, [RrcResumed True rnti])"
    using rid by (simp add: ue1_def start_resume_def rrc_ue_on_message_def rrc_type_defs Let_def wire_simps)
  have res: "rrc_bs_handle_message order rnti (rrc_encode (rrc_msg RRC_RESUME_REQUEST (put32 rid))) bs1 =
     (rrc_migrate r rnti \<lparr>rctx_c_rnti = rnti, rctx_state = UE_CONNECTED, rctx_resume_id = 0\<rparr> bs1,
      [RrcBsReest r rnti, RrcBsSend rnti (rrc_encode (rrc_msg RRC_RESUME_OK (put16 rnti)))])"
    by (rule rrc_bs_resumes [OF assms(9-14,4)])
  show ?thesis
    using c ok res rrc_ue_suspended [OF assms(1), of r rid] assms(8)
    by (simp add: suspend_context_def rrc_put_context_def rrc_suspended_as_def Let_def ue1_def rrc_migrate_def
        is_ue_connected_def rrc_find_ue_def del: append.simps)
qed

lemma rrc_demo_suspended_facts:
  "let bs1 = fst (suspend_context 0x101 (admit_connected 0x101 rrc_demo_bs)) in
     rrc_suspended_as 0x01010001 bs1 0x101 \<and> dom (br_contexts bs1) = set [0x101] \<and> br_crnti_base bs1 = 0x100"
  "is_ue_connected 0x101 (admit_connected 0x101 rrc_demo_bs)"
  "resume_id_for 0x101 (br_next_resume_seq (admit_connected 0x101 rrc_demo_bs)) = 0x01010001"
  by (simp_all add: rrc_demo_bs_def rrc_bs_defs rrc_bs_init_def resume_id_for_def Let_def dom_def)

theorem rrc_suspend_resume_witness:
  "let ue = rrc_ue_init\<lparr>ur_state := UE_CONNECTED, ur_crnti := 0x101\<rparr>;
       bs = admit_connected 0x101 rrc_demo_bs
   in \<exists>rel ue1. snd (suspend_context 0x101 bs) = [RrcBsSend 0x101 rel, RrcBsSuspend 0x101] \<and>
        rrc_ue_on_message rel ue = (ue1, [RrcSuspended 0x01010001]) \<and>
        (\<exists>ok ue2 bs2.
           rrc_bs_handle_message [0x101] 0x102 (rrc_encode (rrc_msg RRC_RESUME_REQUEST (put32 (ur_resume_id ue1))))
             (fst (suspend_context 0x101 bs)) = (bs2, [RrcBsReest 0x101 0x102, RrcBsSend 0x102 ok]) \<and>
           rrc_ue_on_message ok (start_resume ue1) = (ue2, [RrcResumed True 0x102]) \<and>
           ur_crnti ue2 = 0x102 \<and> is_ue_connected 0x102 bs2 \<and> rrc_find_ue 0x101 bs2 = None)"
proof -
  let ?ue = "rrc_ue_init\<lparr>ur_state := UE_CONNECTED, ur_crnti := 0x101\<rparr>"
  let ?bs = "admit_connected 0x101 rrc_demo_bs"
  show ?thesis
    unfolding Let_def
    using rrc_suspend_resume [of ?ue "0x101" "0x102" 0 ?bs "0x01010001" 1 "fst (suspend_context 0x101 ?bs)" "[0x101]",
        OF _ _ _ _ rrc_demo_admitted _ _ _ rrc_demo_suspended] rrc_demo_suspended_facts
    by (simp add: Let_def) blast
qed

text \<open>
  Re-establishment: a request naming the C-RNTI of a connected context moves that
  context, unchanged but for its C-RNTI, to the C-RNTI the terminal obtained by random
  access and tells the data path to migrate; a request that names no connected context
  (unknown, suspended, released, or zero) is refused and changes nothing in the cell.
\<close>
theorem rrc_reestablishment:
  assumes "rnti \<noteq> 0"
  shows "rrc_bs_handle_message order rnti (rrc_encode (rrc_msg RRC_REESTABLISHMENT_REQUEST (put16 old))) bs =
     (if old \<noteq> 0 \<and> is_ue_connected old bs
      then (bs\<lparr>br_contexts := (br_contexts bs)(old := None,
                 rnti \<mapsto> \<lparr>rctx_c_rnti = rnti, rctx_state = UE_CONNECTED,
                            rctx_resume_id = rctx_resume_id (the (br_contexts bs old))\<rparr>)\<rparr>,
            [RrcBsReest old rnti, RrcBsSend rnti (rrc_encode (rrc_msg RRC_REESTABLISHMENT_OK (put16 rnti)))])
      else (bs, [RrcBsSend rnti (rrc_encode (rrc_msg RRC_REESTABLISHMENT_FAILURE []))]))"
proof (cases "br_contexts bs old")
  case (Some ctx)
  then show ?thesis
    using assms by (cases ctx) (simp add: rrc_bs_defs rrc_type_defs Let_def wire_simps)
qed (simp add: rrc_bs_defs rrc_type_defs Let_def wire_simps)

theorem rrc_reestablishment_witness:
  "snd (rrc_bs_handle_message [] 0x102 (rrc_encode (rrc_msg RRC_REESTABLISHMENT_REQUEST (put16 0x101)))
      (admit_connected 0x101 rrc_demo_bs)) =
   [RrcBsReest 0x101 0x102, RrcBsSend 0x102 (rrc_encode (rrc_msg RRC_REESTABLISHMENT_OK (put16 0x102)))]"
  using rrc_reestablishment [of "0x102" "[]" "0x101" "admit_connected 0x101 rrc_demo_bs"] rrc_demo_suspended_facts(2)
  by simp

subsection \<open>The terminal under arbitrary inputs\<close>

datatype rrc_ue_op =
    UeMsg bytes | UeStart u16 | UeRelease | UeRequestSuspend | UeForceIdle | UeStartResume | UeRestore u16
  | UeMib mib | UeSib1 sib1

fun rrc_ue_step :: "rrc_ue_op \<Rightarrow> rrc_ue \<Rightarrow> rrc_ue \<times> rrc_ue_out list" where
  "rrc_ue_step (UeMsg pdu) ue = rrc_ue_on_message pdu ue"
| "rrc_ue_step (UeStart c) ue = start_connection c ue"
| "rrc_ue_step UeRelease ue = rrc_release ue"
| "rrc_ue_step UeRequestSuspend ue = request_suspend ue"
| "rrc_ue_step UeForceIdle ue = (rrc_force_idle ue, [])"
| "rrc_ue_step UeStartResume ue = (start_resume ue, [])"
| "rrc_ue_step (UeRestore c) ue = (restore_connected c ue, [])"
| "rrc_ue_step (UeMib m) ue = (on_mib_received m ue, [])"
| "rrc_ue_step (UeSib1 s) ue = (on_sib1_received s ue, [])"

definition rrc_ue_run :: "rrc_ue_op list \<Rightarrow> rrc_ue" where
  "rrc_ue_run ops = fold (\<lambda>op u. fst (rrc_ue_step op u)) ops rrc_ue_init"

definition rrc_ue_ok :: "rrc_ue \<Rightarrow> bool" where
  "rrc_ue_ok ue \<longleftrightarrow>
     (ur_state ue = UE_IDLE \<longrightarrow> ur_crnti ue = 0) \<and>
     (ur_state ue = UE_INACTIVE \<longrightarrow> ur_suspended ue = ur_crnti ue)"

lemma rrc_ue_step_ok: "rrc_ue_ok ue \<Longrightarrow> rrc_ue_ok (fst (rrc_ue_step op ue))"
  by (cases op) (auto simp: rrc_ue_ok_def rrc_ue_defs Let_def)

text \<open>
  After any sequence of received PDUs, local requests, out-of-band restores and
  broadcasts the terminal's identity agrees with its state: it holds no C-RNTI while IDLE,
  and while INACTIVE the C-RNTI it remembers as suspended is the one it was assigned. Of
  these inputs only a RELEASE PDU that carries a resume identity takes it into INACTIVE.
\<close>
theorem rrc_ue_identity_invariant:
  "rrc_ue_ok (rrc_ue_run ops) \<and>
   (ur_state (fst (rrc_ue_step op (rrc_ue_run ops))) = UE_INACTIVE \<and> ur_state (rrc_ue_run ops) \<noteq> UE_INACTIVE \<longrightarrow>
      (\<exists>pdu. op = UeMsg pdu \<and> rrc_type (rrc_decode pdu) = RRC_RELEASE \<and> 7 \<le> length (rrc_value (rrc_decode pdu)) \<and>
         ur_state (rrc_ue_run ops) = UE_CONNECTED))"
proof
  show "rrc_ue_ok (rrc_ue_run ops)"
    unfolding rrc_ue_run_def
  proof (induction ops rule: rev_induct)
    case (snoc x xs)
    then show ?case by (simp add: rrc_ue_step_ok)
  qed (simp add: rrc_ue_init_def rrc_ue_ok_def)
  show "ur_state (fst (rrc_ue_step op (rrc_ue_run ops))) = UE_INACTIVE \<and> ur_state (rrc_ue_run ops) \<noteq> UE_INACTIVE \<longrightarrow>
      (\<exists>pdu. op = UeMsg pdu \<and> rrc_type (rrc_decode pdu) = RRC_RELEASE \<and> 7 \<le> length (rrc_value (rrc_decode pdu)) \<and>
         ur_state (rrc_ue_run ops) = UE_CONNECTED)"
    by (cases op) (auto simp: rrc_ue_defs Let_def split: if_splits)
qed

definition rrc_demo_ops :: "rrc_ue_op list" where
  "rrc_demo_ops = [UeStart 1, UeMsg (rrc_encode (rrc_msg RRC_SETUP (put16 0x101)))]"

theorem rrc_ue_identity_invariant_witness:
  "ur_state (rrc_ue_run rrc_demo_ops) = UE_CONNECTED \<and>
   (let u = fst (rrc_ue_step (UeMsg (rrc_encode (rrc_msg RRC_RELEASE (put16 0x101 @ [0x01] @ put32 7)))) (rrc_ue_run rrc_demo_ops))
    in ur_state u = UE_INACTIVE) \<and> rrc_ue_ok (rrc_ue_run rrc_demo_ops)"
proof -
  have "ur_state (rrc_ue_run rrc_demo_ops) = UE_CONNECTED"
    by (simp add: rrc_ue_run_def rrc_demo_ops_def rrc_ue_init_def rrc_ue_defs rrc_type_defs Let_def)
  then show ?thesis
    using rrc_ue_identity_invariant [of rrc_demo_ops] rrc_ue_suspended [of "rrc_ue_run rrc_demo_ops"] by simp
qed

text \<open>
  A terminal released out of INACTIVE keeps its resume identity: when it then starts an
  ordinary connection setup, a RESUME OK it never asked for is accepted and connects it
  under the C-RNTI that message carries.
\<close>
theorem rrc_stale_resume_identity:
  assumes "ur_state ue = UE_INACTIVE" "ur_resume_id ue \<noteq> 0"
  shows "(let u1 = fst (rrc_ue_on_message (rrc_encode (rrc_msg RRC_RELEASE (put16 r))) ue);
              u2 = fst (start_connection cell u1);
              (u3, out) = rrc_ue_on_message (rrc_encode (rrc_msg RRC_RESUME_OK (put16 c))) u2
          in ur_state u1 = UE_IDLE \<and> ur_state u3 = UE_CONNECTED \<and> ur_crnti u3 = c \<and> out = [RrcResumed True c])"
  using assms by (simp add: rrc_ue_defs rrc_type_defs Let_def wire_simps)

theorem rrc_stale_resume_identity_witness:
  "let ue = rrc_ue_init\<lparr>ur_state := UE_INACTIVE, ur_resume_id := 0x01010001, ur_crnti := 0x101, ur_suspended := 0x101\<rparr>;
       u1 = fst (rrc_ue_on_message (rrc_encode (rrc_msg RRC_RELEASE (put16 0x101))) ue);
       u3 = fst (rrc_ue_on_message (rrc_encode (rrc_msg RRC_RESUME_OK (put16 9))) (fst (start_connection 1 u1)))
   in ur_state u3 = UE_CONNECTED \<and> ur_crnti u3 = 9"
  using rrc_stale_resume_identity [of "rrc_ue_init\<lparr>ur_state := UE_INACTIVE, ur_resume_id := 0x01010001, ur_crnti := 0x101, ur_suspended := 0x101\<rparr>"
      "0x101" 1 9]
  by (simp add: Let_def split_beta)

end
