(* ===== verification/Aka.thy ===== *)
theory Aka
  imports Crypto
begin

text \<open>
  Authentication and key agreement, \<^verbatim>\<open>stack/nas/src/aka.cpp\<close>: the functions f1 to f5 over
  HMAC-SHA256, authentication vectors, AUTN and AUTS. Fixed-size arrays are byte lists; the
  lemmas carry their lengths.
\<close>

definition kSqnMask :: u64 where "kSqnMask = push_bit 48 1 - 1"
definition kCauseMacFailure :: u8 where "kCauseMacFailure = 0x14"
definition kCauseSynchFailure :: u8 where "kCauseSynchFailure = 0x15"
definition kAmf :: bytes where "kAmf = [0x80, 0x00]"

record aka_vector =
  av_rand :: bytes
  av_sqn_xor_ak :: bytes
  av_amf :: bytes
  av_mac :: bytes
  av_xres :: bytes
  av_ck :: bytes
  av_ik :: bytes
  av_kasme :: bytes
  av_sqn :: u64

definition aka_f :: "bytes \<Rightarrow> u8 \<Rightarrow> bytes \<Rightarrow> bytes" where
  "aka_f k label parts = hmac_sha256 k (label # parts)"

definition sqn_bytes :: "u64 \<Rightarrow> bytes" where
  "sqn_bytes sqn = map (\<lambda>i. byte_at (5 - i) sqn) [0..<6]"

definition f5 :: "bytes \<Rightarrow> bytes \<Rightarrow> bytes" where
  "f5 k rand = take 6 (aka_f k 0x05 rand)"

definition f1 :: "bytes \<Rightarrow> u64 \<Rightarrow> bytes \<Rightarrow> bytes \<Rightarrow> bytes" where
  "f1 k sqn rand amf = take 8 (aka_f k 0x01 (sqn_bytes sqn @ rand @ amf))"

definition f2 :: "bytes \<Rightarrow> bytes \<Rightarrow> bytes" where
  "f2 k rand = take 16 (aka_f k 0x02 rand)"

definition f3 :: "bytes \<Rightarrow> bytes \<Rightarrow> bytes" where
  "f3 k rand = aka_f k 0x03 rand"

definition f4 :: "bytes \<Rightarrow> bytes \<Rightarrow> bytes" where
  "f4 k rand = aka_f k 0x04 rand"

definition kasme :: "bytes \<Rightarrow> bytes \<Rightarrow> bytes \<Rightarrow> bytes" where
  "kasme ck ik sqn_xor_ak = hmac_sha256 (ck @ ik) (cstr ''kasme'' @ sqn_xor_ak)"

definition f5s :: "bytes \<Rightarrow> bytes \<Rightarrow> bytes" where
  "f5s k rand = take 6 (aka_f k 0x55 rand)"

definition f1s :: "bytes \<Rightarrow> u64 \<Rightarrow> bytes \<Rightarrow> bytes \<Rightarrow> bytes" where
  "f1s k sqn_ms rand amf = take 8 (aka_f k 0x51 (sqn_bytes sqn_ms @ rand @ amf))"

definition generate :: "bytes \<Rightarrow> u64 \<Rightarrow> bytes \<Rightarrow> aka_vector" where
  "generate k sqn rand =
     (let s = sqn AND kSqnMask;
          sxa = map2 (XOR) (sqn_bytes s) (f5 k rand);
          ck = f3 k rand; ik = f4 k rand
      in \<lparr>av_rand = rand, av_sqn_xor_ak = sxa, av_amf = kAmf, av_mac = f1 k s rand kAmf,
          av_xres = f2 k rand, av_ck = ck, av_ik = ik, av_kasme = kasme ck ik sxa, av_sqn = s\<rparr>)"

definition autn :: "aka_vector \<Rightarrow> bytes" where
  "autn v = av_sqn_xor_ak v @ av_amf v @ av_mac v"

text \<open>The loop \<^verbatim>\<open>sqn = (sqn << 8) | (a[i] ^ ak[i])\<close>.\<close>

definition unmask_sqn :: "bytes \<Rightarrow> bytes \<Rightarrow> u64" where
  "unmask_sqn a ak = fold (\<lambda>b s. push_bit 8 s OR ucast b) (map2 (XOR) a ak) 0"

definition verify_autn :: "bytes \<Rightarrow> bytes \<Rightarrow> bytes \<Rightarrow> u64 option" where
  "verify_autn k rand token =
     (let sqn_xor_ak = take 6 token; amf = take 2 (drop 6 token); mac = take 8 (drop 8 token);
          sqn = unmask_sqn sqn_xor_ak (f5 k rand)
      in if f1 k sqn rand amf \<noteq> mac then None else Some sqn)"

definition build_auts :: "bytes \<Rightarrow> u64 \<Rightarrow> bytes \<Rightarrow> bytes" where
  "build_auts k sqn_ms rand =
     (let s = sqn_ms AND kSqnMask
      in map2 (XOR) (sqn_bytes s) (f5s k rand) @ f1s k s rand kAmf)"

definition verify_auts :: "bytes \<Rightarrow> bytes \<Rightarrow> bytes \<Rightarrow> u64 option" where
  "verify_auts k auts rand =
     (let sqn_ms = unmask_sqn (take 6 auts) (f5s k rand)
      in if f1s k sqn_ms rand kAmf \<noteq> take 8 (drop 6 auts) then None else Some sqn_ms)"

definition hex_digit :: "u8 \<Rightarrow> char" where
  "hex_digit d = ''0123456789abcdef'' ! unat (d AND 0xF)"

definition hex_prefix :: "bytes \<Rightarrow> nat \<Rightarrow> string" where
  "hex_prefix data n = concat (map (\<lambda>b. [hex_digit (drop_bit 4 b), hex_digit b]) (take n data))"

subsection \<open>Lengths and masks\<close>

lemma length_aka [simp]:
  "length (f5 k rand) = 6" "length (f5s k rand) = 6" "length (f1 k s rand a) = 8" "length (f1s k s rand a) = 8"
  "length (f2 k rand) = 16" "length (sqn_bytes s) = 6" "length kAmf = 2"
  by (simp_all add: f5_def f5s_def f1_def f1s_def f2_def aka_f_def sqn_bytes_def kAmf_def length_hmac)

lemma kSqnMask_mask: "kSqnMask = mask 48"
  by (simp add: kSqnMask_def mask_eq_exp_minus_1)

lemma sqn_and_mask: "s AND kSqnMask = take_bit 48 s"
  by (simp add: kSqnMask_mask take_bit_eq_mask)

lemma map2_xor_cancel: "length xs = length ys \<Longrightarrow> map2 (XOR) (map2 (XOR) xs ys) ys = (xs :: bytes)"
  by (induction xs ys rule: list_induct2) (simp_all add: xor.assoc)

text \<open>Each round of the loop undoes one byte of the big-endian split.\<close>

lemma unmask_round: "push_bit 8 (drop_bit (8 * Suc i) s) OR ucast (byte_at i s) = drop_bit (8 * i) (s :: u64)"
proof (rule bit_word_eqI)
  fix n assume n: "n < LENGTH(64)"
  show "bit (push_bit 8 (drop_bit (8 * Suc i) s) OR ucast (byte_at i s)) n = bit (drop_bit (8 * i) s) n"
  proof (cases "n < 8")
    case True
    then show ?thesis using n by (simp add: bit_or_iff bit_push_bit_iff bit_ucast_iff bit_byte_at bit_drop_bit_eq)
  next
    case False
    then have "8 * Suc i + (n - 8) = 8 * i + n" by simp
    then show ?thesis
      using n False by (simp add: bit_or_iff bit_push_bit_iff bit_ucast_iff bit_byte_at bit_drop_bit_eq ac_simps)
  qed
qed

lemma sqn_bytes_take_bit: "sqn_bytes (take_bit 48 s) = sqn_bytes s"
  by (auto simp: sqn_bytes_def intro!: bit_word_eqI simp: bit_byte_at bit_take_bit_iff)

lemma fold_sqn_bytes: "fold (\<lambda>b s. push_bit 8 s OR ucast b) (sqn_bytes s) (0 :: u64) = take_bit 48 s"
proof -
  let ?t = "take_bit 48 s"
  have "drop_bit 48 ?t = 0" by (rule bit_word_eqI) (simp add: bit_drop_bit_eq bit_take_bit_iff)
  moreover have "sqn_bytes ?t = [byte_at 5 ?t, byte_at 4 ?t, byte_at 3 ?t, byte_at 2 ?t, byte_at 1 ?t, byte_at 0 ?t]"
    by (simp add: sqn_bytes_def upt_rec)
  ultimately have "fold (\<lambda>b s. push_bit 8 s OR ucast b) (sqn_bytes ?t) (0 :: u64) = ?t"
    using unmask_round [of 5 ?t] unmask_round [of 4 ?t] unmask_round [of 3 ?t] unmask_round [of 2 ?t]
      unmask_round [of 1 ?t] unmask_round [of 0 ?t]
    by (simp del: take_bit_eq_0_iff push_bit_numeral)
  then show ?thesis by (simp only: sqn_bytes_take_bit)
qed

lemma unmask_sqn_masked:
  assumes "length ak = 6"
  shows "unmask_sqn (map2 (XOR) (sqn_bytes s) ak) ak = take_bit 48 s"
  by (simp add: unmask_sqn_def map2_xor_cancel assms fold_sqn_bytes)

subsection \<open>The contract of the scheme\<close>

text \<open>
  What the terminal and the network rely on: a token made under the shared key reveals its
  sequence number to the holder of the key, and a resynchronisation token reveals the
  terminal's counter. From these two laws the network can always get past a terminal that is
  ahead of it.
\<close>

locale auth_scheme =
  fixes token :: "bytes \<Rightarrow> u64 \<Rightarrow> bytes \<Rightarrow> bytes"
    and verify :: "bytes \<Rightarrow> bytes \<Rightarrow> bytes \<Rightarrow> u64 option"
    and resync :: "bytes \<Rightarrow> u64 \<Rightarrow> bytes \<Rightarrow> bytes"
    and verify_resync :: "bytes \<Rightarrow> bytes \<Rightarrow> bytes \<Rightarrow> u64 option"
  assumes verify_token: "verify k rand (token k s rand) = Some (take_bit 48 s)"
    and verify_resync_token: "verify_resync k (resync k s rand) rand = Some (take_bit 48 s)"
begin

lemma token_accepted_iff_fresh:
  "unat s < 2 ^ 48 \<Longrightarrow> (\<exists>q. verify k rand (token k s rand) = Some q \<and> c < q) \<longleftrightarrow> c < s"
  by (simp add: verify_token and_mask_small)

lemma resync_recovers:
  assumes "unat c < 2 ^ 48 - 1"
  shows "\<exists>q. verify_resync k (resync k c rand) rand = Some q \<and>
             (\<exists>q'. verify k rand' (token k (q + 1) rand') = Some q' \<and> c < q')"
proof -
  have c: "take_bit 48 c = c" using assms by (intro and_mask_small) simp
  have u: "unat (c + 1) = unat c + 1" using assms by (simp add: unat_word_ariths)
  then have "take_bit 48 (c + 1) = c + 1" using assms by (intro and_mask_small) simp
  then show ?thesis using u c by (simp add: verify_token verify_resync_token word_less_nat_alt)
qed

end

interpretation aka: auth_scheme "\<lambda>k s rand. autn (generate k s rand)" verify_autn build_auts verify_auts
proof
  fix k rand :: bytes and s :: u64
  let ?s = "take_bit 48 s"
  have "verify_autn k rand (autn (generate k s rand)) = Some (unmask_sqn (map2 (XOR) (sqn_bytes ?s) (f5 k rand)) (f5 k rand))"
    by (simp add: verify_autn_def autn_def generate_def Let_def sqn_and_mask unmask_sqn_masked)
  then show "verify_autn k rand (autn (generate k s rand)) = Some (take_bit 48 s)"
    by (simp add: unmask_sqn_masked)
  show "verify_auts k (build_auts k s rand) rand = Some (take_bit 48 s)"
    by (simp add: verify_auts_def build_auts_def Let_def sqn_and_mask unmask_sqn_masked)
qed

lemma length_autn_generate [simp]: "length (autn (generate k s rand)) = 16"
  by (simp add: autn_def generate_def Let_def)

lemma take_autn_generate [simp]: "take 6 (autn (generate k s rand)) = av_sqn_xor_ak (generate k s rand)"
  by (simp add: autn_def generate_def Let_def)

lemma length_build_auts [simp]: "length (build_auts k s rand) = 14"
  by (simp add: build_auts_def Let_def)

lemma generate_fields [simp]:
  "av_rand (generate k s rand) = rand" "av_xres (generate k s rand) = f2 k rand"
  "av_kasme (generate k s rand) = kasme (f3 k rand) (f4 k rand) (av_sqn_xor_ak (generate k s rand))"
  by (simp_all add: generate_def Let_def)

text \<open>
  Key agreement: whatever the key, the sequence number and the challenge, the holder of
  the key recovers from the AUTN the low 48 bits of the sequence number, computes the
  response the network expects, and derives from the challenge and the first six bytes of
  the AUTN the session key of the network's vector; and the network recovers from an AUTS
  the low 48 bits of the terminal's counter.
\<close>
theorem aka_agreement:
  "verify_autn k rand (autn (generate k sqn rand)) = Some (sqn AND kSqnMask) \<and>
   f2 k rand = av_xres (generate k sqn rand) \<and>
   kasme (f3 k rand) (f4 k rand) (take 6 (autn (generate k sqn rand))) = av_kasme (generate k sqn rand) \<and>
   verify_auts k (build_auts k sqn rand) rand = Some (sqn AND kSqnMask)"
  by (simp add: aka.verify_token aka.verify_resync_token sqn_and_mask)

end
