(* ===== verification/Nas.thy ===== *)
theory Nas
  imports Aka NasMessages
begin

text \<open>
  The NAS entities, \<^verbatim>\<open>stack/nas/src/nas_ue.cpp\<close> and \<^verbatim>\<open>nas_bs.cpp\<close>: attach with the AKA challenge,
  resynchronisation, detach. The random challenge of the network is an argument of the
  operations that draw one. The tables of the network are hash maps; \<open>order\<close> is the
  sequence in which \<^verbatim>\<open>pending_auth_\<close> is iterated, hence also its size and first element.
\<close>

datatype nas_state = DEREGISTERED | REGISTERING | REGISTERED

fun nas_state_str :: "nas_state \<Rightarrow> string" where
  "nas_state_str DEREGISTERED = ''DEREGISTERED''"
| "nas_state_str REGISTERING = ''REGISTERING''"
| "nas_state_str REGISTERED = ''REGISTERED''"

subsection \<open>Terminal\<close>

record nas_ue =
  nu_state :: nas_state
  nu_imsi :: cstring
  nu_tmsi :: u32
  nu_usim_key :: bytes
  nu_session_key :: bytes
  nu_has_usim :: bool
  nu_authenticated :: bool
  nu_auth_pending :: bool
  nu_sqn_ms :: u64

definition nas_ue_init :: nas_ue where
  "nas_ue_init = \<lparr>nu_state = DEREGISTERED, nu_imsi = [], nu_tmsi = 0, nu_usim_key = replicate 32 0,
     nu_session_key = replicate 32 0, nu_has_usim = False, nu_authenticated = False, nu_auth_pending = False,
     nu_sqn_ms = 0\<rparr>"

definition set_usim_key :: "bytes \<Rightarrow> nas_ue \<Rightarrow> nas_ue" where
  "set_usim_key k ue = ue\<lparr>nu_usim_key := k, nu_has_usim := True\<rparr>"

text \<open>The second component of a result lists the PDUs handed to the send callback.\<close>

definition send_attach_request :: "cstring \<Rightarrow> nas_ue \<Rightarrow> nas_ue \<times> bytes list" where
  "send_attach_request imsi ue =
     (if nu_state ue \<noteq> DEREGISTERED then (ue, [])
      else (ue\<lparr>nu_imsi := imsi, nu_authenticated := False, nu_auth_pending := False, nu_state := REGISTERING\<rparr>,
            [nas_encode (nas_msg NAS_ATTACH_REQUEST imsi)]))"

definition send_detach :: "nas_ue \<Rightarrow> nas_ue \<times> bytes list" where
  "send_detach ue =
     (if nu_state ue = DEREGISTERED then (ue, [])
      else (ue\<lparr>nu_tmsi := 0, nu_state := DEREGISTERED\<rparr>, [nas_encode (nas_msg NAS_DETACH (put32 (nu_tmsi ue)))]))"

definition force_deregistered :: "nas_ue \<Rightarrow> nas_ue" where
  "force_deregistered ue =
     (if nu_state ue = DEREGISTERED then ue
      else ue\<lparr>nu_tmsi := 0, nu_authenticated := False, nu_auth_pending := False, nu_state := DEREGISTERED\<rparr>)"

definition auth_failure :: "u8 \<Rightarrow> bytes \<Rightarrow> nas_ue \<Rightarrow> bytes" where
  "auth_failure cause auts ue =
     nas_encode (nas_msg NAS_AUTH_FAILURE ([cause, word_of_nat (length (nu_imsi ue))] @ nu_imsi ue @ auts))"

definition nas_on_auth_request :: "bytes \<Rightarrow> nas_ue \<Rightarrow> nas_ue \<times> bytes list" where
  "nas_on_auth_request v ue =
     (if nu_state ue \<noteq> REGISTERING \<or> \<not> nu_has_usim ue \<or> length v \<noteq> 32 then (ue, [])
      else
        let rand = take 16 v; token = take 16 (drop 16 v); k = nu_usim_key ue in
        case verify_autn k rand token of
          None \<Rightarrow> (ue, [auth_failure kCauseMacFailure [] ue])
        | Some sqn \<Rightarrow>
            if sqn \<le> nu_sqn_ms ue then
              (ue, [auth_failure kCauseSynchFailure (build_auts k (nu_sqn_ms ue) rand) ue])
            else
              (ue\<lparr>nu_sqn_ms := sqn, nu_session_key := kasme (f3 k rand) (f4 k rand) (take 6 token), nu_auth_pending := True\<rparr>,
               [nas_encode (nas_msg NAS_AUTH_RESPONSE (f2 k rand))]))"

definition nas_ue_on_message :: "bytes \<Rightarrow> nas_ue \<Rightarrow> nas_ue \<times> bytes list" where
  "nas_ue_on_message pdu ue =
     (let msg = nas_decode pdu; v = nas_value msg in
      if nas_type msg = NAS_AUTH_REQUEST then nas_on_auth_request v ue
      else if nas_type msg = NAS_ATTACH_ACCEPT then
        (if nu_state ue \<noteq> REGISTERING then (ue, [])
         else
           let ue = (if length v \<ge> 4 then ue\<lparr>nu_tmsi := get32 (v ! 0) (v ! 1) (v ! 2) (v ! 3)\<rparr> else ue);
               ue = (if nu_auth_pending ue then ue\<lparr>nu_authenticated := True, nu_auth_pending := False\<rparr> else ue)
           in (ue\<lparr>nu_state := REGISTERED\<rparr>, []))
      else if nas_type msg = NAS_ATTACH_REJECT then
        (if nu_state ue \<noteq> REGISTERING then (ue, []) else (ue\<lparr>nu_state := DEREGISTERED\<rparr>, []))
      else (ue, []))"

lemmas nas_ue_defs [state_defs] =
  set_usim_key_def send_attach_request_def send_detach_def force_deregistered_def nas_on_auth_request_def
  nas_ue_on_message_def

subsection \<open>Network\<close>

record nas_context =
  nc_imsi :: cstring
  nc_tmsi :: u32
  nc_registered :: bool
  nc_k :: bytes
  nc_xres :: bytes
  nc_session_k :: bytes
  nc_rand :: bytes

record nas_bs =
  nb_contexts :: "u32 \<rightharpoonup> nas_context"
  nb_session_keys :: "u32 \<rightharpoonup> bytes"
  nb_pending :: "u32 \<rightharpoonup> nas_context"
  nb_keys :: "cstring \<rightharpoonup> bytes"
  nb_sqn :: "cstring \<rightharpoonup> u64"
  nb_next_tmsi :: u32

definition nas_bs_init :: nas_bs where
  "nas_bs_init = \<lparr>nb_contexts = Map.empty, nb_session_keys = Map.empty, nb_pending = Map.empty,
     nb_keys = Map.empty, nb_sqn = Map.empty, nb_next_tmsi = 0x00010001\<rparr>"

definition nas_fresh_context :: "cstring \<Rightarrow> u32 \<Rightarrow> nas_context" where
  "nas_fresh_context imsi tmsi = \<lparr>nc_imsi = imsi, nc_tmsi = tmsi, nc_registered = False, nc_k = replicate 32 0,
     nc_xres = [], nc_session_k = replicate 32 0, nc_rand = replicate 16 0\<rparr>"

definition subscriber_sqn :: "cstring \<Rightarrow> nas_bs \<Rightarrow> u64" where
  "subscriber_sqn imsi bs = (case nb_sqn bs imsi of None \<Rightarrow> 0 | Some s \<Rightarrow> s)"

definition set_subscriber_sqn :: "cstring \<Rightarrow> u64 \<Rightarrow> nas_bs \<Rightarrow> nas_bs" where
  "set_subscriber_sqn imsi s bs = bs\<lparr>nb_sqn := (nb_sqn bs)(imsi \<mapsto> s)\<rparr>"

definition add_subscriber :: "cstring \<Rightarrow> bytes \<Rightarrow> nas_bs \<Rightarrow> nas_bs" where
  "add_subscriber imsi k bs = bs\<lparr>nb_keys := (nb_keys bs)(imsi \<mapsto> k)\<rparr>"

definition adopt_ue :: "u32 \<Rightarrow> cstring \<Rightarrow> nas_bs \<Rightarrow> nas_bs" where
  "adopt_ue tmsi imsi bs =
     bs\<lparr>nb_contexts := (nb_contexts bs)(tmsi \<mapsto> (nas_fresh_context imsi tmsi)\<lparr>nc_registered := True\<rparr>),
        nb_session_keys := (case nb_session_keys bs tmsi of
            None \<Rightarrow> (nb_session_keys bs)(tmsi \<mapsto> replicate 32 0) | Some _ \<Rightarrow> nb_session_keys bs)\<rparr>"

definition nas_release_ue :: "u32 \<Rightarrow> nas_bs \<Rightarrow> nas_bs" where
  "nas_release_ue tmsi bs =
     bs\<lparr>nb_contexts := (nb_contexts bs)(tmsi := None), nb_session_keys := (nb_session_keys bs)(tmsi := None)\<rparr>"

definition nas_session_key :: "u32 \<Rightarrow> nas_bs \<Rightarrow> bytes option" where
  "nas_session_key tmsi bs = nb_session_keys bs tmsi"

definition is_ue_registered :: "u32 \<Rightarrow> nas_bs \<Rightarrow> bool" where
  "is_ue_registered tmsi bs = (case nb_contexts bs tmsi of None \<Rightarrow> False | Some ctx \<Rightarrow> nc_registered ctx)"

definition nas_find_ue :: "u32 \<Rightarrow> nas_bs \<Rightarrow> nas_context option" where
  "nas_find_ue tmsi bs = nb_contexts bs tmsi"

text \<open>\<open>order\<close> is here the iteration order of \<^verbatim>\<open>ue_contexts_\<close>.\<close>

definition find_ue_by_imsi :: "u32 list \<Rightarrow> cstring \<Rightarrow> nas_bs \<Rightarrow> nas_context option" where
  "find_ue_by_imsi order imsi bs =
     (case find (\<lambda>t. case nb_contexts bs t of None \<Rightarrow> False | Some ctx \<Rightarrow> nc_imsi ctx = imsi \<and> nc_registered ctx) order of
        None \<Rightarrow> None | Some t \<Rightarrow> nb_contexts bs t)"

definition send_challenge :: "bytes \<Rightarrow> nas_context \<Rightarrow> nas_bs \<Rightarrow> nas_bs \<times> (u32 \<times> bytes) list" where
  "send_challenge r ctx bs =
     (let raw = subscriber_sqn (nc_imsi ctx) bs + 1;
          v = generate (nc_k ctx) (raw AND kSqnMask) r;
          pending = ctx\<lparr>nc_rand := av_rand v, nc_xres := av_xres v, nc_session_k := av_kasme v\<rparr>
      in (bs\<lparr>nb_sqn := (nb_sqn bs)(nc_imsi ctx \<mapsto> raw), nb_pending := (nb_pending bs)(nc_tmsi ctx \<mapsto> pending)\<rparr>,
          [(nc_tmsi ctx, nas_encode (nas_msg NAS_AUTH_REQUEST (av_rand v @ autn v)))]))"

text \<open>The first pending challenge, in iteration order, that satisfies a predicate.\<close>

definition nas_find_pending :: "u32 list \<Rightarrow> (nas_context \<Rightarrow> bool) \<Rightarrow> nas_bs \<Rightarrow> u32 option" where
  "nas_find_pending order P bs =
     find (\<lambda>t. case nb_pending bs t of None \<Rightarrow> False | Some ctx \<Rightarrow> P ctx) order"

definition nas_on_auth_response :: "u32 list \<Rightarrow> bytes \<Rightarrow> nas_bs \<Rightarrow> nas_bs \<times> (u32 \<times> bytes) list" where
  "nas_on_auth_response order v bs =
     (if length v \<noteq> 16 then (bs, [])
      else
        (case nas_find_pending order (\<lambda>ctx. nc_xres ctx = v) bs of
           None \<Rightarrow>
             (case order of
                [t] \<Rightarrow>
                  let doomed = the (nb_pending bs t) in
                  (bs\<lparr>nb_pending := Map.empty\<rparr>,
                   [(nc_tmsi doomed, nas_encode (nas_msg NAS_ATTACH_REJECT (put32 (nc_tmsi doomed))))])
              | _ \<Rightarrow> (bs, []))
         | Some t \<Rightarrow>
             let ctx = (the (nb_pending bs t))\<lparr>nc_registered := True\<rparr> in
             (bs\<lparr>nb_pending := (nb_pending bs)(t := None),
                 nb_contexts := (nb_contexts bs)(nc_tmsi ctx \<mapsto> ctx),
                 nb_session_keys := (nb_session_keys bs)(t \<mapsto> nc_session_k ctx)\<rparr>,
              [(nc_tmsi ctx, nas_encode (nas_msg NAS_ATTACH_ACCEPT (put32 (nc_tmsi ctx))))])))"

definition nas_on_auth_failure :: "u32 list \<Rightarrow> bytes \<Rightarrow> bytes \<Rightarrow> nas_bs \<Rightarrow> nas_bs \<times> (u32 \<times> bytes) list" where
  "nas_on_auth_failure order r v bs =
     (if length v < 2 \<or> length v < 2 + unat (v ! 1) then (bs, [])
      else
        let cause = v ! 0; n = unat (v ! 1); imsi = take n (drop 2 v) in
        case nas_find_pending order (\<lambda>ctx. nc_imsi ctx = imsi) bs of
          None \<Rightarrow> (bs, [])
        | Some t \<Rightarrow>
            let ctx = the (nb_pending bs t);
                dropped = bs\<lparr>nb_pending := (nb_pending bs)(t := None)\<rparr>
            in
            if cause = kCauseSynchFailure \<and> length v \<ge> 2 + n + 14 then
              (case verify_auts (nc_k ctx) (take 14 (drop (2 + n) v)) (nc_rand ctx) of
                 Some sqn_ms \<Rightarrow> send_challenge r ctx (set_subscriber_sqn imsi (sqn_ms AND kSqnMask) dropped)
               | None \<Rightarrow> (dropped, []))
            else (dropped, []))"

definition nas_on_attach_request :: "bytes \<Rightarrow> bytes \<Rightarrow> nas_bs \<Rightarrow> nas_bs \<times> (u32 \<times> bytes) list" where
  "nas_on_attach_request r imsi bs =
     (let tmsi = nb_next_tmsi bs;
          bs = bs\<lparr>nb_next_tmsi := tmsi + 1\<rparr>;
          ctx = nas_fresh_context imsi tmsi
      in case nb_keys bs imsi of
           Some k \<Rightarrow> send_challenge r (ctx\<lparr>nc_k := k\<rparr>) bs
         | None \<Rightarrow>
             (bs\<lparr>nb_contexts := (nb_contexts bs)(tmsi \<mapsto> ctx\<lparr>nc_registered := True\<rparr>)\<rparr>,
              [(tmsi, nas_encode (nas_msg NAS_ATTACH_ACCEPT (put32 tmsi)))]))"

definition nas_on_detach :: "u32 \<Rightarrow> bytes \<Rightarrow> nas_bs \<Rightarrow> nas_bs" where
  "nas_on_detach tmsi v bs =
     (let t = (if length v \<ge> 4 then get32 (v ! 0) (v ! 1) (v ! 2) (v ! 3) else tmsi) in
      case nb_contexts bs t of
        None \<Rightarrow> bs
      | Some _ \<Rightarrow> bs\<lparr>nb_contexts := (nb_contexts bs)(t := None)\<rparr>)"

definition nas_bs_handle_message ::
  "u32 list \<Rightarrow> bytes \<Rightarrow> u32 \<Rightarrow> bytes \<Rightarrow> nas_bs \<Rightarrow> nas_bs \<times> (u32 \<times> bytes) list" where
  "nas_bs_handle_message order r tmsi pdu bs =
     (let msg = nas_decode pdu; v = nas_value msg in
      if nas_type msg = NAS_AUTH_RESPONSE then nas_on_auth_response order v bs
      else if nas_type msg = NAS_AUTH_FAILURE then nas_on_auth_failure order r v bs
      else if nas_type msg = NAS_ATTACH_REQUEST then nas_on_attach_request r v bs
      else if nas_type msg = NAS_DETACH then (nas_on_detach tmsi v bs, [])
      else (bs, []))"

lemmas nas_bs_defs [state_defs] =
  subscriber_sqn_def set_subscriber_sqn_def add_subscriber_def adopt_ue_def nas_release_ue_def send_challenge_def
  nas_find_pending_def nas_on_auth_response_def nas_on_auth_failure_def nas_on_attach_request_def nas_on_detach_def
  nas_bs_handle_message_def

subsection \<open>Steps of an attach\<close>

lemma nas_decode_simps:
  "length v < 65536 \<Longrightarrow> nas_decode (nas_encode (nas_msg t v)) = nas_msg t v"
  by simp

lemma put32_nth [simp]:
  "put32 x ! 0 = byte_at 0 x" "put32 x ! Suc 0 = byte_at (Suc 0) x" "put32 x ! 2 = byte_at 2 x" "put32 x ! 3 = byte_at 3 x"
  by (simp_all add: put32_def)

text \<open>The terminal meets a challenge made under its own key.\<close>

lemma nas_ue_challenged:
  assumes "nu_state ue = REGISTERING" "nu_has_usim ue" "length r = 16"
  shows "nas_ue_on_message (nas_encode (nas_msg NAS_AUTH_REQUEST (r @ autn (generate (nu_usim_key ue) q r)))) ue =
     (let k = nu_usim_key ue; s = take_bit 48 q in
      if s \<le> nu_sqn_ms ue then (ue, [auth_failure kCauseSynchFailure (build_auts k (nu_sqn_ms ue) r) ue])
      else (ue\<lparr>nu_sqn_ms := s, nu_session_key := av_kasme (generate k q r), nu_auth_pending := True\<rparr>,
            [nas_encode (nas_msg NAS_AUTH_RESPONSE (f2 k r))]))"
  using assms by (simp add: nas_ue_on_message_def nas_decode_simps nas_type_defs nas_on_auth_request_def Let_def aka.verify_token)

lemma nas_ue_accepted:
  assumes "nu_state ue = REGISTERING"
  shows "nas_ue_on_message (nas_encode (nas_msg NAS_ATTACH_ACCEPT (put32 t))) ue =
     (ue\<lparr>nu_tmsi := t, nu_authenticated := nu_auth_pending ue \<or> nu_authenticated ue, nu_auth_pending := False, nu_state := REGISTERED\<rparr>, [])"
  using assms by (cases ue) (auto simp: nas_ue_on_message_def nas_decode_simps nas_type_defs Let_def wire_simps)

lemma nas_bs_challenges:
  assumes "nb_keys bs imsi = Some k" "length imsi < 65536"
  shows "nas_bs_handle_message order r tmsi (nas_encode (nas_msg NAS_ATTACH_REQUEST imsi)) bs =
     send_challenge r ((nas_fresh_context imsi (nb_next_tmsi bs))\<lparr>nc_k := k\<rparr>) (bs\<lparr>nb_next_tmsi := nb_next_tmsi bs + 1\<rparr>)"
  using assms by (simp add: nas_bs_handle_message_def nas_decode_simps nas_type_defs nas_on_attach_request_def Let_def)

lemma nas_find_pending_unique:
  assumes "nb_pending bs t = Some ctx" "P ctx" "t \<in> set order"
    and "\<And>t' c. nb_pending bs t' = Some c \<Longrightarrow> P c \<Longrightarrow> t' = t"
  shows "nas_find_pending order P bs = Some t"
proof -
  let ?Q = "\<lambda>t. case nb_pending bs t of None \<Rightarrow> False | Some ctx \<Rightarrow> P ctx"
  obtain t' where t': "find ?Q order = Some t'"
    using assms(1-3) by (cases "find ?Q order") (auto simp: find_None_iff)
  then have "?Q t'" by (auto simp: find_Some_iff)
  then have "t' = t" using assms(4) by (auto split: option.splits)
  with t' show ?thesis by (simp add: nas_find_pending_def)
qed

lemma nas_bs_accepts:
  assumes "nb_pending bs t = Some ctx" "nc_tmsi ctx = t" "length (nc_xres ctx) = 16" "t \<in> set order"
    and "\<And>t' c. nb_pending bs t' = Some c \<Longrightarrow> nc_xres c = nc_xres ctx \<Longrightarrow> t' = t"
  shows "nas_bs_handle_message order r tmsi (nas_encode (nas_msg NAS_AUTH_RESPONSE (nc_xres ctx))) bs =
     (bs\<lparr>nb_pending := (nb_pending bs)(t := None), nb_contexts := (nb_contexts bs)(t \<mapsto> ctx\<lparr>nc_registered := True\<rparr>),
         nb_session_keys := (nb_session_keys bs)(t \<mapsto> nc_session_k ctx)\<rparr>,
      [(t, nas_encode (nas_msg NAS_ATTACH_ACCEPT (put32 t)))])"
  using assms(1-3) nas_find_pending_unique [OF assms(1) _ assms(4), of "\<lambda>c. nc_xres c = nc_xres ctx", OF _ assms(5)]
  by (simp add: nas_bs_handle_message_def nas_decode_simps nas_type_defs nas_on_auth_response_def Let_def)

subsection \<open>Properties\<close>

text \<open>
  C15. End-to-end attach: a terminal with a USIM and a network that knows the subscriber under
  the same key, whose sequence counter is ahead of the terminal's, complete the attach over
  the wire formats. The terminal ends registered and authenticated with the TMSI the network
  assigned and the network's sequence number; the network counts that TMSI as registered,
  and both sides hold the same session key. Other challenges may be pending, as long as none
  expects the same response.
\<close>
theorem nas_attach_end_to_end:
  assumes "nu_state ue = DEREGISTERED" "nu_has_usim ue" "nb_keys bs imsi = Some (nu_usim_key ue)"
    and "length imsi < 65536" "length r = 16"
    and "q = subscriber_sqn imsi bs + 1" "unat q < 2 ^ 48" "nu_sqn_ms ue < q"
    and "t = nb_next_tmsi bs" "t \<in> set order"
    and "\<forall>t' c. nb_pending bs t' = Some c \<longrightarrow> nc_xres c \<noteq> f2 (nu_usim_key ue) r"
  shows "\<exists>req chal resp acc ue1 ue2 ue3 bs1 bs2.
     send_attach_request imsi ue = (ue1, [req]) \<and>
     nas_bs_handle_message order0 r 0 req bs = (bs1, [(t, chal)]) \<and>
     nas_ue_on_message chal ue1 = (ue2, [resp]) \<and>
     nas_bs_handle_message order r' 0 resp bs1 = (bs2, [(t, acc)]) \<and>
     nas_ue_on_message acc ue2 = (ue3, []) \<and>
     nu_state ue3 = REGISTERED \<and> nu_authenticated ue3 \<and> nu_tmsi ue3 = t \<and> nu_sqn_ms ue3 = q \<and>
     is_ue_registered t bs2 \<and> nas_session_key t bs2 = Some (nu_session_key ue3)"
proof -
  define k where "k = nu_usim_key ue"
  define ue1 where "ue1 = ue\<lparr>nu_imsi := imsi, nu_authenticated := False, nu_auth_pending := False, nu_state := REGISTERING\<rparr>"
  define v where "v = generate k q r"
  define pend where "pend = (nas_fresh_context imsi t)\<lparr>nc_k := k, nc_rand := r, nc_xres := f2 k r, nc_session_k := av_kasme v\<rparr>"
  define bs1 where "bs1 = bs\<lparr>nb_next_tmsi := t + 1, nb_sqn := (nb_sqn bs)(imsi \<mapsto> q), nb_pending := (nb_pending bs)(t \<mapsto> pend)\<rparr>"
  define ue2 where "ue2 = ue1\<lparr>nu_sqn_ms := q, nu_session_key := av_kasme v, nu_auth_pending := True\<rparr>"
  have q: "take_bit 48 q = q" using assms(7) by (rule and_mask_small)
  have u1: "nu_state ue1 = REGISTERING" "nu_has_usim ue1" "nu_usim_key ue1 = k" "nu_sqn_ms ue1 = nu_sqn_ms ue"
    using assms(2) by (simp_all add: ue1_def k_def)
  have 1: "send_attach_request imsi ue = (ue1, [nas_encode (nas_msg NAS_ATTACH_REQUEST imsi)])"
    using assms(1) by (simp add: send_attach_request_def ue1_def)
  have 2: "nas_bs_handle_message order0 r 0 (nas_encode (nas_msg NAS_ATTACH_REQUEST imsi)) bs
      = (bs1, [(t, nas_encode (nas_msg NAS_AUTH_REQUEST (r @ autn v)))])"
    using assms(3,4,6,9) q
    by (simp add: nas_bs_challenges send_challenge_def bs1_def pend_def v_def k_def nas_fresh_context_def
        subscriber_sqn_def sqn_and_mask Let_def)
  have 3: "nas_ue_on_message (nas_encode (nas_msg NAS_AUTH_REQUEST (r @ autn v))) ue1
      = (ue2, [nas_encode (nas_msg NAS_AUTH_RESPONSE (nc_xres pend))])"
    using u1 assms(5,8) q nas_ue_challenged [of ue1 r q]
    by (simp add: ue2_def v_def pend_def Let_def linorder_not_le [symmetric])
  have 4: "nas_bs_handle_message order r' 0 (nas_encode (nas_msg NAS_AUTH_RESPONSE (nc_xres pend))) bs1
      = (bs1\<lparr>nb_pending := (nb_pending bs1)(t := None), nb_contexts := (nb_contexts bs1)(t \<mapsto> pend\<lparr>nc_registered := True\<rparr>),
           nb_session_keys := (nb_session_keys bs1)(t \<mapsto> nc_session_k pend)\<rparr>,
         [(t, nas_encode (nas_msg NAS_ATTACH_ACCEPT (put32 t)))])"
    using assms(10,11)
    by (intro nas_bs_accepts) (auto simp: bs1_def pend_def nas_fresh_context_def k_def split: if_splits)
  have 5: "nu_state ue2 = REGISTERING" by (simp add: ue2_def ue1_def)
  show ?thesis
    using 1 2 3 4 nas_ue_accepted [OF 5, of t]
    by (simp add: ue2_def pend_def is_ue_registered_def nas_session_key_def)
qed

definition nas_demo_ue :: nas_ue where
  "nas_demo_ue = set_usim_key (replicate 32 1) nas_ue_init"

definition nas_demo_bs :: nas_bs where
  "nas_demo_bs = add_subscriber (cstr ''460010001'') (replicate 32 1) nas_bs_init"

lemma nas_demo_facts:
  "nu_state nas_demo_ue = DEREGISTERED" "nu_has_usim nas_demo_ue" "nu_usim_key nas_demo_ue = replicate 32 1"
  "nu_sqn_ms nas_demo_ue = 0" "nb_keys nas_demo_bs (cstr ''460010001'') = Some (replicate 32 1)"
  "nb_pending nas_demo_bs = Map.empty" "nb_next_tmsi nas_demo_bs = 0x10001"
  "subscriber_sqn (cstr ''460010001'') nas_demo_bs = 0" "length (cstr ''460010001'') = 9"
  by (simp_all add: nas_demo_ue_def nas_demo_bs_def set_usim_key_def nas_ue_init_def add_subscriber_def nas_bs_init_def
      subscriber_sqn_def cstr_def)

theorem nas_attach_end_to_end_witness:
  "\<exists>req chal resp acc ue1 ue2 ue3 bs1 bs2.
     send_attach_request (cstr ''460010001'') nas_demo_ue = (ue1, [req]) \<and>
     nas_bs_handle_message [] (replicate 16 7) 0 req nas_demo_bs = (bs1, [(0x10001, chal)]) \<and>
     nas_ue_on_message chal ue1 = (ue2, [resp]) \<and>
     nas_bs_handle_message [0x10001] [] 0 resp bs1 = (bs2, [(0x10001, acc)]) \<and>
     nas_ue_on_message acc ue2 = (ue3, []) \<and>
     nu_state ue3 = REGISTERED \<and> nu_authenticated ue3 \<and> nu_tmsi ue3 = 0x10001 \<and> nu_sqn_ms ue3 = 1 \<and>
     is_ue_registered 0x10001 bs2 \<and> nas_session_key 0x10001 bs2 = Some (nu_session_key ue3)"
  by (rule nas_attach_end_to_end) (simp_all add: nas_demo_facts)

subsection \<open>Freshness at the terminal\<close>

datatype nas_ue_op = NuMsg bytes | NuAttach cstring | NuDetach | NuForce

fun nas_ue_step :: "nas_ue_op \<Rightarrow> nas_ue \<Rightarrow> nas_ue \<times> bytes list" where
  "nas_ue_step (NuMsg pdu) ue = nas_ue_on_message pdu ue"
| "nas_ue_step (NuAttach imsi) ue = send_attach_request imsi ue"
| "nas_ue_step NuDetach ue = send_detach ue"
| "nas_ue_step NuForce ue = (force_deregistered ue, [])"

definition nas_ue_run :: "nas_ue_op list \<Rightarrow> nas_ue \<Rightarrow> nas_ue" where
  "nas_ue_run ops ue = fold (\<lambda>op u. fst (nas_ue_step op u)) ops ue"

lemma nas_ue_step_sqn:
  "nu_usim_key (fst (nas_ue_step op ue)) = nu_usim_key ue \<and> nu_sqn_ms ue \<le> nu_sqn_ms (fst (nas_ue_step op ue)) \<and>
   (nu_session_key (fst (nas_ue_step op ue)) \<noteq> nu_session_key ue \<longrightarrow> nu_sqn_ms ue < nu_sqn_ms (fst (nas_ue_step op ue)))"
  by (cases op) (auto simp: nas_ue_defs Let_def split: option.split)

lemma nas_ue_run_sqn:
  "nu_usim_key (nas_ue_run ops ue) = nu_usim_key ue \<and> nu_sqn_ms ue \<le> nu_sqn_ms (nas_ue_run ops ue)"
proof (induction ops rule: rev_induct)
  case (snoc op ops)
  then show ?case
    using nas_ue_step_sqn [of op "nas_ue_run ops ue"] by (auto simp: nas_ue_run_def intro: order.trans)
qed (simp add: nas_ue_run_def)

text \<open>
  C19. Freshness: when a terminal has answered a challenge (its session key is the one of that
  challenge), no later delivery of the same PDU is answered with a response or changes the
  terminal, whatever PDUs, attaches, detaches and resets happen in between; and along any
  such run its sequence counter never decreases, and increases whenever the session key
  changes.
\<close>
theorem nas_replay_rejected:
  assumes "nas_type (nas_decode chal) = NAS_AUTH_REQUEST"
    and "nas_ue_on_message chal ue = (ue1, out)" "nu_sqn_ms ue1 \<noteq> nu_sqn_ms ue"
  shows "fst (nas_ue_on_message chal (nas_ue_run ops ue1)) = nas_ue_run ops ue1 \<and>
         (\<forall>v \<in> set (snd (nas_ue_on_message chal (nas_ue_run ops ue1))). nas_type (nas_decode v) \<noteq> NAS_AUTH_RESPONSE) \<and>
         nu_sqn_ms ue1 \<le> nu_sqn_ms (nas_ue_run ops ue1) \<and>
         (nu_session_key (fst (nas_ue_step op (nas_ue_run ops ue1))) \<noteq> nu_session_key (nas_ue_run ops ue1) \<longrightarrow>
            nu_sqn_ms (nas_ue_run ops ue1) < nu_sqn_ms (fst (nas_ue_step op (nas_ue_run ops ue1))))"
proof -
  let ?v = "nas_value (nas_decode chal)" and ?u = "nas_ue_run ops ue1" and ?k = "nu_usim_key ue"
  have keys: "nu_usim_key ue1 = ?k" using nas_ue_step_sqn [of "NuMsg chal" ue] assms(2) by simp
  have r: "nas_on_auth_request ?v ue = (ue1, out)"
    using assms(1,2) by (simp add: nas_ue_on_message_def Let_def)
  obtain q where q: "verify_autn ?k (take 16 ?v) (drop 16 ?v) = Some q" "nu_sqn_ms ue1 = q" and len: "length ?v = 32"
    using r assms(3) by (auto simp: nas_on_auth_request_def Let_def split: if_splits option.splits)
  have run: "nu_usim_key ?u = ?k" "q \<le> nu_sqn_ms ?u" using nas_ue_run_sqn [of ops ue1] keys q(2) by auto
  have dec: "nas_type (nas_decode (auth_failure c a u)) = NAS_AUTH_FAILURE" for c a u
    by (simp add: auth_failure_def nas_decode_def nas_encode_def tlv_fields Let_def)
  have "nas_ue_on_message chal ?u = (?u, if nu_state ?u \<noteq> REGISTERING \<or> \<not> nu_has_usim ?u then []
      else [auth_failure kCauseSynchFailure (build_auts ?k (nu_sqn_ms ?u) (take 16 ?v)) ?u])"
    using assms(1) q(1) run len by (simp add: nas_ue_on_message_def nas_on_auth_request_def Let_def)
  then show ?thesis
    using dec run q nas_ue_step_sqn [of op ?u] by (simp add: nas_type_defs)
qed

lemma nas_demo_challenge:
  "let ue = fst (send_attach_request (cstr ''460010001'') nas_demo_ue);
       chal = nas_encode (nas_msg NAS_AUTH_REQUEST (replicate 16 7 @ autn (generate (replicate 32 1) 1 (replicate 16 7))))
   in nas_type (nas_decode chal) = NAS_AUTH_REQUEST \<and> nu_sqn_ms ue = 0 \<and>
      nu_sqn_ms (fst (nas_ue_on_message chal ue)) = 1"
proof -
  let ?ue = "fst (send_attach_request (cstr ''460010001'') nas_demo_ue)"
  have u: "nu_state ?ue = REGISTERING" "nu_has_usim ?ue" "nu_usim_key ?ue = replicate 32 1" "nu_sqn_ms ?ue = 0"
    by (simp_all add: send_attach_request_def nas_demo_facts)
  have "take_bit 48 (1 :: u64) = 1" by simp
  then show ?thesis
    using nas_ue_challenged [OF u(1,2), of "replicate 16 7" 1] u
    by (simp add: Let_def nas_decode_simps)
qed

theorem nas_replay_rejected_witness:
  "let ue = fst (send_attach_request (cstr ''460010001'') nas_demo_ue);
       chal = nas_encode (nas_msg NAS_AUTH_REQUEST (replicate 16 7 @ autn (generate (replicate 32 1) 1 (replicate 16 7))));
       ue1 = fst (nas_ue_on_message chal ue);
       u = nas_ue_run [NuForce, NuAttach (cstr ''460010001'')] ue1
   in fst (nas_ue_on_message chal u) = u"
proof -
  let ?ue = "fst (send_attach_request (cstr ''460010001'') nas_demo_ue)"
  let ?chal = "nas_encode (nas_msg NAS_AUTH_REQUEST (replicate 16 7 @ autn (generate (replicate 32 1) 1 (replicate 16 7))))"
  show ?thesis
    unfolding Let_def
    using nas_replay_rejected [of ?chal ?ue "fst (nas_ue_on_message ?chal ?ue)" "snd (nas_ue_on_message ?chal ?ue)"
        "[NuForce, NuAttach (cstr ''460010001'')]" NuDetach] nas_demo_challenge
    by (simp add: Let_def)
qed

subsection \<open>Resynchronisation\<close>

lemma nas_bs_resyncs:
  assumes "nb_pending bs t = Some ctx" "t \<in> set order" "nc_imsi ctx = nu_imsi ue" "length (nu_imsi ue) < 256"
    and "\<And>t' c. nb_pending bs t' = Some c \<Longrightarrow> nc_imsi c = nu_imsi ue \<Longrightarrow> t' = t"
    and "unat c < 2 ^ 48"
  shows "nas_bs_handle_message order r' tmsi (auth_failure kCauseSynchFailure (build_auts (nc_k ctx) c (nc_rand ctx)) ue) bs =
     send_challenge r' ctx (set_subscriber_sqn (nu_imsi ue) c (bs\<lparr>nb_pending := (nb_pending bs)(t := None)\<rparr>))"
proof -
  let ?v = "[kCauseSynchFailure, word_of_nat (length (nu_imsi ue))] @ nu_imsi ue @ build_auts (nc_k ctx) c (nc_rand ctx)"
  have d: "nas_decode (nas_encode (nas_msg NAS_AUTH_FAILURE ?v)) = nas_msg NAS_AUTH_FAILURE ?v"
    using assms(4) by (simp add: nas_decode_simps)
  have n: "unat (word_of_nat (length (nu_imsi ue)) :: u8) = length (nu_imsi ue)"
    using assms(4) by (simp add: unat_of_nat)
  have f: "nas_find_pending order (\<lambda>c. nc_imsi c = nu_imsi ue) bs = Some t"
    using nas_find_pending_unique [of bs t ctx "\<lambda>c. nc_imsi c = nu_imsi ue" order, OF assms(1,3,2) assms(5)] by simp
  have c: "take_bit 48 c = c" using assms(6) by (rule and_mask_small)
  have m: "nas_bs_handle_message order r' tmsi (auth_failure kCauseSynchFailure (build_auts (nc_k ctx) c (nc_rand ctx)) ue) bs
      = nas_on_auth_failure order r' ?v bs"
    unfolding nas_bs_handle_message_def auth_failure_def d Let_def by (simp add: nas_type_defs)
  show ?thesis
    using assms(1) n f c
    unfolding m nas_on_auth_failure_def Let_def
    by (simp add: aka.verify_resync_token sqn_and_mask)
qed

text \<open>
  C20. Resynchronisation: when the terminal has already seen the sequence number of a
  challenge, it reports a synchronisation failure without changing; the network recovers the
  terminal's counter from it and issues a new challenge that the terminal answers with the
  response the network now expects, deriving the session key the network now holds. This
  needs the terminal's counter to be below $2^{48} - 1$ and an IMSI of at most 255 bytes with
  one challenge pending.
\<close>
theorem nas_resync_recovers:
  assumes "nu_state ue = REGISTERING" "nu_has_usim ue" "length r = 16" "length r' = 16"
    and "take_bit 48 q \<le> nu_sqn_ms ue" "unat (nu_sqn_ms ue) < 2 ^ 48 - 1"
    and "nb_pending bs t = Some ctx" "t \<in> set order" "nc_tmsi ctx = t" "nc_imsi ctx = nu_imsi ue" "nc_k ctx = nu_usim_key ue" "nc_rand ctx = r"
    and "length (nu_imsi ue) < 256" "\<forall>t' c. nb_pending bs t' = Some c \<and> nc_imsi c = nu_imsi ue \<longrightarrow> t' = t"
  shows "\<exists>fail chal ue2 bs1 p.
     nas_ue_on_message (nas_encode (nas_msg NAS_AUTH_REQUEST (r @ autn (generate (nu_usim_key ue) q r)))) ue = (ue, [fail]) \<and>
     nas_bs_handle_message order r' tmsi fail bs = (bs1, [(t, chal)]) \<and>
     nas_ue_on_message chal ue = (ue2, [nas_encode (nas_msg NAS_AUTH_RESPONSE (nc_xres p))]) \<and>
     nb_pending bs1 t = Some p \<and> nu_session_key ue2 = nc_session_k p \<and> nu_sqn_ms ue2 = nu_sqn_ms ue + 1"
proof -
  let ?k = "nu_usim_key ue" and ?c = "nu_sqn_ms ue"
  have u: "unat (?c + 1) = unat ?c + 1" using assms(6) by (simp add: unat_word_ariths)
  have c1: "take_bit 48 (?c + 1) = ?c + 1" using assms(6) u by (intro and_mask_small) simp
  have fresh: "\<not> ?c + 1 \<le> ?c" using u by (simp add: word_le_nat_alt)
  have 1: "nas_ue_on_message (nas_encode (nas_msg NAS_AUTH_REQUEST (r @ autn (generate ?k q r)))) ue
      = (ue, [auth_failure kCauseSynchFailure (build_auts ?k ?c r) ue])"
    using nas_ue_challenged [OF assms(1,2,3), of q] assms(5) by (simp add: Let_def)
  have 2: "nas_bs_handle_message order r' tmsi (auth_failure kCauseSynchFailure (build_auts ?k ?c r) ue) bs =
     send_challenge r' ctx (set_subscriber_sqn (nu_imsi ue) ?c (bs\<lparr>nb_pending := (nb_pending bs)(t := None)\<rparr>))"
    using nas_bs_resyncs [OF assms(7,8,10,13), of ?c r' tmsi] assms(6,11,12,14) by auto
  have 3: "nas_ue_on_message (nas_encode (nas_msg NAS_AUTH_REQUEST (r' @ autn (generate ?k (?c + 1) r')))) ue
      = (ue\<lparr>nu_sqn_ms := ?c + 1, nu_session_key := av_kasme (generate ?k (?c + 1) r'), nu_auth_pending := True\<rparr>,
         [nas_encode (nas_msg NAS_AUTH_RESPONSE (f2 ?k r'))])"
    using nas_ue_challenged [OF assms(1,2,4), of "?c + 1"] c1 fresh by (simp add: Let_def)
  show ?thesis
    using 1 2 3 assms(9,10,11) c1
    by (simp add: send_challenge_def set_subscriber_sqn_def subscriber_sqn_def sqn_and_mask Let_def)
qed

definition nas_demo_ahead :: nas_ue where
  "nas_demo_ahead = nas_demo_ue\<lparr>nu_state := REGISTERING, nu_imsi := cstr ''460010001'', nu_sqn_ms := 5\<rparr>"

definition nas_demo_pending :: nas_bs where
  "nas_demo_pending = nas_demo_bs\<lparr>nb_pending := [0x10001 \<mapsto>
     (nas_fresh_context (cstr ''460010001'') 0x10001)\<lparr>nc_k := replicate 32 1, nc_rand := replicate 16 7\<rparr>]\<rparr>"

theorem nas_resync_recovers_witness:
  "\<exists>fail chal ue2 bs1 p.
     nas_ue_on_message (nas_encode (nas_msg NAS_AUTH_REQUEST (replicate 16 7 @
       autn (generate (nu_usim_key nas_demo_ahead) 1 (replicate 16 7))))) nas_demo_ahead = (nas_demo_ahead, [fail]) \<and>
     nas_bs_handle_message [0x10001] (replicate 16 8) 0 fail nas_demo_pending = (bs1, [(0x10001, chal)]) \<and>
     nas_ue_on_message chal nas_demo_ahead = (ue2, [nas_encode (nas_msg NAS_AUTH_RESPONSE (nc_xres p))]) \<and>
     nb_pending bs1 0x10001 = Some p \<and> nu_session_key ue2 = nc_session_k p \<and> nu_sqn_ms ue2 = nu_sqn_ms nas_demo_ahead + 1"
  by (rule nas_resync_recovers [where ctx = "(nas_fresh_context (cstr ''460010001'') 0x10001)\<lparr>nc_k := replicate 32 1, nc_rand := replicate 16 7\<rparr>"])
    (simp_all add: nas_demo_ahead_def nas_demo_pending_def nas_demo_facts nas_fresh_context_def word_le_nat_alt)

subsection \<open>What the network registers\<close>

datatype nas_bs_op =
    NbMsg "u32 list" bytes u32 bytes | NbAdopt u32 cstring | NbRelease u32 | NbSubscriber cstring bytes | NbSqn cstring u64

fun nas_bs_step :: "nas_bs_op \<Rightarrow> nas_bs \<Rightarrow> nas_bs \<times> (u32 \<times> bytes) list" where
  "nas_bs_step (NbMsg order r tmsi pdu) bs = nas_bs_handle_message order r tmsi pdu bs"
| "nas_bs_step (NbAdopt tmsi imsi) bs = (adopt_ue tmsi imsi bs, [])"
| "nas_bs_step (NbRelease tmsi) bs = (nas_release_ue tmsi bs, [])"
| "nas_bs_step (NbSubscriber imsi k) bs = (add_subscriber imsi k bs, [])"
| "nas_bs_step (NbSqn imsi s) bs = (set_subscriber_sqn imsi s bs, [])"

text \<open>
  \<open>nas_bs_reach keys bs sent\<close>: the network reaches \<open>bs\<close> by operations in any order, having handed
  out the PDUs \<open>sent\<close>; whoever provisions a subscriber gives it the one key that the table
  \<open>keys\<close> has for it.
\<close>

inductive nas_bs_reach :: "(cstring \<rightharpoonup> bytes) \<Rightarrow> nas_bs \<Rightarrow> (u32 \<times> bytes) list \<Rightarrow> bool" for keys where
  start: "nas_bs_reach keys nas_bs_init []"
| step: "nas_bs_reach keys bs sent \<Longrightarrow> (\<And>imsi k. op = NbSubscriber imsi k \<Longrightarrow> keys imsi = Some k) \<Longrightarrow>
    nas_bs_step op bs = (bs', out) \<Longrightarrow> nas_bs_reach keys bs' (sent @ out)"

text \<open>
  A pending challenge holds the response and the session key of a vector made under the key
  of its subscriber, and the challenge of that vector was sent.
\<close>

definition nas_pending_ok :: "(cstring \<rightharpoonup> bytes) \<Rightarrow> (u32 \<times> bytes) set \<Rightarrow> u32 \<Rightarrow> nas_context \<Rightarrow> bool" where
  "nas_pending_ok keys sent t ctx \<longleftrightarrow>
     nc_tmsi ctx = t \<and> keys (nc_imsi ctx) = Some (nc_k ctx) \<and> nc_xres ctx = f2 (nc_k ctx) (nc_rand ctx) \<and>
     (\<exists>s. nc_session_k ctx = av_kasme (generate (nc_k ctx) s (nc_rand ctx)) \<and>
        (t, nas_encode (nas_msg NAS_AUTH_REQUEST (nc_rand ctx @ autn (generate (nc_k ctx) s (nc_rand ctx))))) \<in> sent)"

definition nas_bs_ok :: "(cstring \<rightharpoonup> bytes) \<Rightarrow> (u32 \<times> bytes) set \<Rightarrow> nas_bs \<Rightarrow> bool" where
  "nas_bs_ok keys sent bs \<longleftrightarrow>
     (\<forall>t ctx. nb_pending bs t = Some ctx \<longrightarrow> nas_pending_ok keys sent t ctx) \<and>
     (\<forall>t ctx. nb_contexts bs t = Some ctx \<longrightarrow> nc_tmsi ctx = t \<and> nc_registered ctx) \<and>
     (\<forall>imsi k. nb_keys bs imsi = Some k \<longrightarrow> keys imsi = Some k)"

lemma nas_bs_ok_mono: "nas_bs_ok keys sent bs \<Longrightarrow> sent \<subseteq> sent' \<Longrightarrow> nas_bs_ok keys sent' bs"
  unfolding nas_bs_ok_def nas_pending_ok_def by blast

lemma nas_bs_ok_challenge:
  assumes ok: "nas_bs_ok keys sent bs" and k: "keys (nc_imsi ctx) = Some (nc_k ctx)"
  shows "nas_bs_ok keys (sent \<union> set (snd (send_challenge r ctx bs))) (fst (send_challenge r ctx bs))"
proof -
  let ?sent = "sent \<union> set (snd (send_challenge r ctx bs))"
  let ?v = "generate (nc_k ctx) ((subscriber_sqn (nc_imsi ctx) bs + 1) AND kSqnMask) r"
  let ?p = "ctx\<lparr>nc_rand := av_rand ?v, nc_xres := av_xres ?v, nc_session_k := av_kasme ?v\<rparr>"
  have sent: "(nc_tmsi ctx, nas_encode (nas_msg NAS_AUTH_REQUEST (r @ autn ?v))) \<in> ?sent"
    by (simp add: send_challenge_def Let_def)
  have "nas_pending_ok keys ?sent (nc_tmsi ctx) ?p"
    unfolding nas_pending_ok_def
    by (intro conjI exI [of _ "(subscriber_sqn (nc_imsi ctx) bs + 1) AND kSqnMask"])
      (use k in simp, use k in simp, simp, simp, use sent in \<open>simp del: Un_iff\<close>)
  moreover have "nb_pending (fst (send_challenge r ctx bs)) = (nb_pending bs)(nc_tmsi ctx \<mapsto> ?p)"
    by (simp add: send_challenge_def Let_def)
  moreover have "nb_contexts (fst (send_challenge r ctx bs)) = nb_contexts bs" "nb_keys (fst (send_challenge r ctx bs)) = nb_keys bs"
    by (simp_all add: send_challenge_def Let_def)
  moreover have "nas_bs_ok keys ?sent bs" by (rule nas_bs_ok_mono [OF ok]) simp
  ultimately show ?thesis by (auto simp: nas_bs_ok_def)
qed

lemma nas_find_pending_Some:
  "nas_find_pending order P bs = Some t \<Longrightarrow> \<exists>ctx. nb_pending bs t = Some ctx \<and> P ctx"
  by (auto simp: nas_find_pending_def find_Some_iff split: option.splits)

lemma nas_bs_ok_response: "nas_bs_ok keys sent bs \<Longrightarrow> nas_bs_ok keys sent (fst (nas_on_auth_response order v bs))"
  by (auto simp: nas_on_auth_response_def nas_bs_ok_def Let_def nas_pending_ok_def
      dest!: nas_find_pending_Some split: option.splits list.splits)

lemma nas_bs_ok_failure:
  assumes ok: "nas_bs_ok keys sent bs"
  shows "nas_bs_ok keys (sent \<union> set (snd (nas_on_auth_failure order r v bs))) (fst (nas_on_auth_failure order r v bs))"
proof -
  have drop: "nas_bs_ok keys sent (bs\<lparr>nb_pending := (nb_pending bs)(t := None)\<rparr>)" for t
    using ok by (auto simp: nas_bs_ok_def)
  have sqn: "nas_bs_ok keys sent (set_subscriber_sqn i s b) = nas_bs_ok keys sent b" for i s b
    by (simp add: nas_bs_ok_def set_subscriber_sqn_def)
  have "keys (nc_imsi (the (nb_pending bs t))) = Some (nc_k (the (nb_pending bs t)))"
    if "nas_find_pending order P bs = Some t" for P t
    using nas_find_pending_Some [OF that] ok by (auto simp: nas_bs_ok_def nas_pending_ok_def)
  then have "nas_bs_ok keys (sent \<union> set (snd (send_challenge r (the (nb_pending bs t)) (set_subscriber_sqn i s (bs\<lparr>nb_pending := (nb_pending bs)(t := None)\<rparr>)))))
      (fst (send_challenge r (the (nb_pending bs t)) (set_subscriber_sqn i s (bs\<lparr>nb_pending := (nb_pending bs)(t := None)\<rparr>))))"
    if "nas_find_pending order P bs = Some t" for P t i s
    using that by (intro nas_bs_ok_challenge) (simp_all add: sqn drop)
  then show ?thesis
    using ok drop by (auto simp: nas_on_auth_failure_def Let_def split: option.split)
qed

lemma nas_bs_ok_attach:
  assumes ok: "nas_bs_ok keys sent bs"
  shows "nas_bs_ok keys (sent \<union> set (snd (nas_on_attach_request r imsi bs))) (fst (nas_on_attach_request r imsi bs))"
proof (cases "nb_keys bs imsi")
  case (Some k)
  have "nas_bs_ok keys sent (bs\<lparr>nb_next_tmsi := t\<rparr>)" for t using ok by (simp add: nas_bs_ok_def)
  moreover have "keys imsi = Some k" using ok Some by (simp add: nas_bs_ok_def)
  ultimately show ?thesis
    using Some nas_bs_ok_challenge [of keys sent _ "(nas_fresh_context imsi (nb_next_tmsi bs))\<lparr>nc_k := k\<rparr>"]
    by (simp add: nas_on_attach_request_def Let_def nas_fresh_context_def)
next
  case None
  have "nas_bs_ok keys (insert x sent) bs" for x by (rule nas_bs_ok_mono [OF ok]) auto
  with None show ?thesis
    by (auto simp: nas_on_attach_request_def Let_def nas_bs_ok_def nas_fresh_context_def)
qed

lemma nas_bs_step_ok:
  assumes ok: "nas_bs_ok keys sent bs" and k: "\<And>imsi k. op = NbSubscriber imsi k \<Longrightarrow> keys imsi = Some k"
  shows "nas_bs_ok keys (sent \<union> set (snd (nas_bs_step op bs))) (fst (nas_bs_step op bs))"
proof (cases op)
  case (NbMsg order r tmsi pdu)
  have "nas_bs_ok keys sent (nas_on_detach t v bs)" for t v
    using ok by (auto simp: nas_on_detach_def nas_bs_ok_def Let_def split: option.split)
  moreover have "nas_bs_ok keys (sent \<union> X) b" if "nas_bs_ok keys sent b" for X b by (rule nas_bs_ok_mono [OF that]) simp
  ultimately show ?thesis
    using NbMsg nas_bs_ok_response [OF ok] nas_bs_ok_failure [OF ok] nas_bs_ok_attach [OF ok] ok
    by (simp add: nas_bs_handle_message_def Let_def)
qed (use ok k in \<open>auto simp: nas_bs_ok_def adopt_ue_def nas_release_ue_def add_subscriber_def set_subscriber_sqn_def
  nas_fresh_context_def\<close>)

lemma nas_bs_reach_ok: "nas_bs_reach keys bs sent \<Longrightarrow> nas_bs_ok keys (set sent) bs"
proof (induction rule: nas_bs_reach.induct)
  case start
  show ?case by (simp add: nas_bs_ok_def nas_bs_init_def)
next
  case (step bs sent op bs' out)
  then have "nas_bs_ok keys (set sent \<union> set (snd (nas_bs_step op bs))) (fst (nas_bs_step op bs))"
    by (intro nas_bs_step_ok) simp_all
  then show ?case by (simp add: step.hyps(3))
qed

text \<open>
  C16. In every state the network reaches, each subscriber being provisioned with one key, a NAS
  message can only create or change the registration of a known subscriber if it is an
  authentication response equal to f2 of the provisioned key and of the random challenge
  of an authentication request that was sent to the TMSI under which the registration is
  filed, made under that key; the challenge is used up, and the session key installed is the
  one of the same vector. (Contexts handed over by another cell are adopted without a NAS
  message.)
\<close>
theorem nas_registers_only_authenticated:
  assumes "nas_bs_reach keys bs sent" "nas_bs_handle_message order r tmsi pdu bs = (bs', out)"
    and "nb_contexts bs' t = Some ctx" "nb_contexts bs t \<noteq> Some ctx" "nb_keys bs (nc_imsi ctx) = Some k"
  shows "nas_type (nas_decode pdu) = NAS_AUTH_RESPONSE \<and> keys (nc_imsi ctx) = Some k \<and>
         (\<exists>p s. nb_pending bs t = Some p \<and> nc_imsi p = nc_imsi ctx \<and> nb_pending bs' t = None \<and>
            (t, nas_encode (nas_msg NAS_AUTH_REQUEST (nc_rand p @ autn (generate k s (nc_rand p))))) \<in> set sent \<and>
            nas_value (nas_decode pdu) = f2 k (nc_rand p) \<and>
            nas_session_key t bs' = Some (av_kasme (generate k s (nc_rand p))))"
proof -
  let ?v = "nas_value (nas_decode pdu)"
  note ok = nas_bs_reach_ok [OF assms(1)]
  have ch: "nb_contexts (fst (send_challenge r c b)) = nb_contexts b" for c b
    by (simp add: send_challenge_def Let_def)
  have "nb_contexts (nas_on_detach x y bs) t = Some ctx \<Longrightarrow> nb_contexts bs t = Some ctx" for x y
    by (auto simp: nas_on_detach_def Let_def split: option.splits if_splits)
  moreover have "nb_contexts (fst (nas_on_auth_failure order r ?v bs)) = nb_contexts bs"
    by (auto simp: nas_on_auth_failure_def Let_def ch set_subscriber_sqn_def split: option.split)
  moreover have "nb_contexts (fst (nas_on_attach_request r ?v bs)) t \<noteq> Some ctx"
    using assms(4,5) by (auto simp: nas_on_attach_request_def Let_def ch nas_fresh_context_def split: option.splits)
  ultimately have ty: "nas_type (nas_decode pdu) = NAS_AUTH_RESPONSE" and m: "nas_on_auth_response order ?v bs = (bs', out)"
    using assms(2-4) by (auto simp: nas_bs_handle_message_def Let_def split: if_splits)
  obtain t' where f: "nas_find_pending order (\<lambda>c. nc_xres c = ?v) bs = Some t'"
    using m assms(3,4) by (auto simp: nas_on_auth_response_def Let_def split: if_splits option.splits list.splits)
  then obtain p where p: "nb_pending bs t' = Some p" "nc_xres p = ?v" by (auto dest: nas_find_pending_Some)
  have po: "nas_pending_ok keys (set sent) t' p" and key: "keys (nc_imsi ctx) = Some k"
    using ok p(1) assms(5) by (auto simp: nas_bs_ok_def)
  have t: "t' = t"
    using m f p(1) po assms(3,4) by (auto simp: nas_on_auth_response_def nas_pending_ok_def Let_def split: if_splits)
  have e: "ctx = p\<lparr>nc_registered := True\<rparr>" "nb_pending bs' t = None" "nas_session_key t bs' = Some (nc_session_k p)"
    using m f p po assms(3,4) t
    by (auto simp: nas_on_auth_response_def nas_pending_ok_def nas_session_key_def Let_def split: if_splits)
  then have "nc_k p = k" using po key by (simp add: nas_pending_ok_def)
  with ty key e p po t show ?thesis by (auto simp: nas_pending_ok_def)
qed

definition nas_demo_challenged :: nas_bs where
  "nas_demo_challenged = fst (nas_bs_handle_message [] (replicate 16 7) 0
     (nas_encode (nas_msg NAS_ATTACH_REQUEST (cstr ''460010001''))) nas_demo_bs)"

lemma nas_demo_challenged_reach:
  "\<exists>sent. nas_bs_reach [cstr ''460010001'' \<mapsto> replicate 32 1] nas_demo_challenged sent"
proof -
  let ?keys = "[cstr ''460010001'' \<mapsto> replicate 32 1] :: cstring \<rightharpoonup> bytes"
  have a: "nas_bs_reach ?keys nas_demo_bs []"
    using nas_bs_reach.step [OF nas_bs_reach.start [of ?keys], of "NbSubscriber (cstr ''460010001'') (replicate 32 1)"]
    by (simp add: nas_demo_bs_def)
  show ?thesis
    using nas_bs_reach.step [OF a, of "NbMsg [] (replicate 16 7) 0 (nas_encode (nas_msg NAS_ATTACH_REQUEST (cstr ''460010001'')))"]
    unfolding nas_demo_challenged_def nas_bs_step.simps by (metis nas_bs_op.distinct(5) prod.collapse)
qed

lemma nas_demo_challenged_facts:
  "\<exists>p. nb_pending nas_demo_challenged = [0x10001 \<mapsto> p] \<and> nc_tmsi p = 0x10001 \<and> nc_imsi p = cstr ''460010001'' \<and>
       nc_xres p = f2 (replicate 32 1) (replicate 16 7)"
  "nb_contexts nas_demo_challenged = Map.empty"
  "nb_keys nas_demo_challenged = [cstr ''460010001'' \<mapsto> replicate 32 1]"
proof -
  have c: "nas_demo_challenged = fst (send_challenge (replicate 16 7)
      ((nas_fresh_context (cstr ''460010001'') (nb_next_tmsi nas_demo_bs))\<lparr>nc_k := replicate 32 1\<rparr>)
      (nas_demo_bs\<lparr>nb_next_tmsi := nb_next_tmsi nas_demo_bs + 1\<rparr>))"
    unfolding nas_demo_challenged_def by (subst nas_bs_challenges) (simp_all add: nas_demo_facts)
  show "\<exists>p. nb_pending nas_demo_challenged = [0x10001 \<mapsto> p] \<and> nc_tmsi p = 0x10001 \<and> nc_imsi p = cstr ''460010001'' \<and>
       nc_xres p = f2 (replicate 32 1) (replicate 16 7)"
    "nb_contexts nas_demo_challenged = Map.empty"
    "nb_keys nas_demo_challenged = [cstr ''460010001'' \<mapsto> replicate 32 1]"
    unfolding c
    by (auto simp: send_challenge_def Let_def nas_demo_facts nas_fresh_context_def)
      (auto simp: nas_demo_bs_def add_subscriber_def nas_bs_init_def intro!: exI [where P = "\<lambda>p. [65537 \<mapsto> _] = [65537 \<mapsto> p] \<and> _ p"])
qed

theorem nas_registers_only_authenticated_witness:
  "let pdu = nas_encode (nas_msg NAS_AUTH_RESPONSE (f2 (replicate 32 1) (replicate 16 7)));
       bs' = fst (nas_bs_handle_message [0x10001] [] 0 pdu nas_demo_challenged)
   in nb_contexts bs' 0x10001 \<noteq> None \<and> nas_session_key 0x10001 bs' \<noteq> None"
proof -
  let ?pdu = "nas_encode (nas_msg NAS_AUTH_RESPONSE (f2 (replicate 32 1) (replicate 16 7)))"
  obtain p where p: "nb_pending nas_demo_challenged = [0x10001 \<mapsto> p]" "nc_tmsi p = 0x10001" "nc_imsi p = cstr ''460010001''"
      "nc_xres p = f2 (replicate 32 1) (replicate 16 7)"
    using nas_demo_challenged_facts(1) by blast
  obtain bs' out where b: "nas_bs_handle_message [0x10001] [] 0 ?pdu nas_demo_challenged = (bs', out)" by fastforce
  have c: "nb_contexts bs' 0x10001 = Some (p\<lparr>nc_registered := True\<rparr>)"
  proof -
    have u: "t' = 0x10001" if "nb_pending nas_demo_challenged t' = Some c'" for t' c'
      using that by (simp only: p(1)) (simp split: if_splits)
    have l: "length (nc_xres p) = 16" and m: "nb_pending nas_demo_challenged 0x10001 = Some p"
      by (simp_all only: p(1,4) length_aka fun_upd_same)
    have "(0x10001 :: u32) \<in> set [0x10001]" by simp
    note acc = nas_bs_accepts [OF m p(2) l this u, where r = "[]" and tmsi = 0, unfolded p(4) b]
    then have "bs' = nas_demo_challenged\<lparr>nb_pending := (nb_pending nas_demo_challenged)(0x10001 := None),
        nb_contexts := (nb_contexts nas_demo_challenged)(0x10001 \<mapsto> p\<lparr>nc_registered := True\<rparr>),
        nb_session_keys := (nb_session_keys nas_demo_challenged)(0x10001 \<mapsto> nc_session_k p)\<rparr>"
      by (rule Pair_inject)
    then show ?thesis by simp
  qed
  have "nb_contexts nas_demo_challenged 0x10001 \<noteq> Some (p\<lparr>nc_registered := True\<rparr>)"
    by (simp only: nas_demo_challenged_facts(2)) simp
  moreover have "nb_keys nas_demo_challenged (nc_imsi (p\<lparr>nc_registered := True\<rparr>)) = Some (replicate 32 1)"
    by (simp only: nas_demo_challenged_facts(3)) (simp add: p(3))
  moreover obtain sent where "nas_bs_reach [cstr ''460010001'' \<mapsto> replicate 32 1] nas_demo_challenged sent"
    using nas_demo_challenged_reach by blast
  ultimately have "nas_session_key 0x10001 bs' \<noteq> None"
    using nas_registers_only_authenticated [OF _ b c] by blast
  then show ?thesis using c by (simp only: Let_def b fst_conv) blast
qed

end
