(* ===== verification/CoreNet.thy ===== *)
theory CoreNet
  imports Nas CnMessages
begin

text \<open>
  The core network, \<^verbatim>\<open>stack/cn/src/amf.cpp\<close> and \<^verbatim>\<open>upf.cpp\<close>: the AMF authenticates and registers
  terminals over messages from the radio node, arbitrates handovers, and hands out session
  keys; the UPF anchors the user plane. The random challenge is an argument. The lemmas give
  an abstract registration service that the AMF refines, the attach through the AMF, and
  what the UPF routes.
\<close>

subsection \<open>AMF\<close>

record amf_context =
  ac_imsi :: cstring
  ac_tmsi :: u32
  ac_registered :: bool
  ac_serving_rnti :: u16
  ac_serving_cell :: u16

record amf =
  am_contexts :: "u32 \<rightharpoonup> amf_context"
  am_pending :: "u32 \<rightharpoonup> amf_context"
  am_xres :: "u32 \<rightharpoonup> bytes"
  am_sqn :: "cstring \<rightharpoonup> u64"
  am_rand :: "u32 \<rightharpoonup> bytes"
  am_ho_target :: "u32 \<rightharpoonup> u16"
  am_keys :: "cstring \<rightharpoonup> bytes"
  am_session_keys :: "u32 \<rightharpoonup> bytes"
  am_next_tmsi :: u32

definition amf_init :: amf where
  "amf_init = \<lparr>am_contexts = Map.empty, am_pending = Map.empty, am_xres = Map.empty, am_sqn = Map.empty,
     am_rand = Map.empty, am_ho_target = Map.empty, am_keys = Map.empty, am_session_keys = Map.empty,
     am_next_tmsi = 0x00010001\<rparr>"

definition amf_add_subscriber :: "cstring \<Rightarrow> bytes \<Rightarrow> amf \<Rightarrow> amf" where
  "amf_add_subscriber imsi k a = a\<lparr>am_keys := (am_keys a)(imsi \<mapsto> k)\<rparr>"

definition amf_is_ue_registered :: "u32 \<Rightarrow> amf \<Rightarrow> bool" where
  "amf_is_ue_registered tmsi a = (am_contexts a tmsi \<noteq> None)"

definition amf_find_ue :: "u32 \<Rightarrow> amf \<Rightarrow> amf_context option" where
  "amf_find_ue tmsi a = am_contexts a tmsi"

definition amf_release_ue :: "u32 \<Rightarrow> amf \<Rightarrow> amf" where
  "amf_release_ue tmsi a =
     a\<lparr>am_contexts := (am_contexts a)(tmsi := None), am_pending := (am_pending a)(tmsi := None),
       am_xres := (am_xres a)(tmsi := None), am_session_keys := (am_session_keys a)(tmsi := None)\<rparr>"

text \<open>\<^verbatim>\<open>{tmsi:4}{rnti:2}{len:2} ++ nas_pdu\<close>, the payload of a \<^verbatim>\<open>DOWNLINK_NAS\<close> (and of an \<^verbatim>\<open>UPLINK_NAS\<close>).\<close>

definition nas_transport :: "u32 \<Rightarrow> u16 \<Rightarrow> bytes \<Rightarrow> bytes" where
  "nas_transport tmsi rnti pdu = put32 tmsi @ put16 rnti @ put16 (size16 pdu) @ pdu"

definition amf_context_for :: "cstring \<Rightarrow> u32 \<Rightarrow> u16 \<Rightarrow> amf_context" where
  "amf_context_for imsi tmsi rnti = \<lparr>ac_imsi = imsi, ac_tmsi = tmsi, ac_registered = False, ac_serving_rnti = rnti, ac_serving_cell = 0\<rparr>"

text \<open>
  The challenge: both the first one of an attach and the one after a resynchronisation run
  this code.
\<close>

definition amf_challenge :: "bytes \<Rightarrow> bytes \<Rightarrow> amf_context \<Rightarrow> amf \<Rightarrow> amf \<times> cn_message list" where
  "amf_challenge r k ctx a =
     (let imsi = ac_imsi ctx; tmsi = ac_tmsi ctx;
          raw = (case am_sqn a imsi of None \<Rightarrow> 0 | Some s \<Rightarrow> s) + 1;
          av = generate k (raw AND kSqnMask) r;
          pdu = nas_encode (nas_msg NAS_AUTH_REQUEST (av_rand av @ autn av))
      in (a\<lparr>am_sqn := (am_sqn a)(imsi \<mapsto> raw), am_pending := (am_pending a)(tmsi \<mapsto> ctx),
            am_session_keys := (am_session_keys a)(tmsi \<mapsto> av_kasme av), am_xres := (am_xres a)(tmsi \<mapsto> av_xres av),
            am_rand := (am_rand a)(tmsi \<mapsto> av_rand av)\<rparr>,
          [cn_msg CN_DOWNLINK_NAS (nas_transport tmsi (ac_serving_rnti ctx) pdu)]))"

definition amf_on_initial_ue :: "bytes \<Rightarrow> bytes \<Rightarrow> amf \<Rightarrow> amf \<times> cn_message list" where
  "amf_on_initial_ue r v a =
     (if length v < 3 then (a, [])
      else
        let rnti = get16_at v 0; nas = nas_decode (drop 2 v) in
        if nas_type nas \<noteq> NAS_ATTACH_REQUEST then (a, [])
        else
          let imsi = nas_value nas; tmsi = am_next_tmsi a;
              a = a\<lparr>am_next_tmsi := tmsi + 1\<rparr>; ctx = amf_context_for imsi tmsi rnti
          in case am_keys a imsi of
               Some k \<Rightarrow> amf_challenge r k ctx a
             | None \<Rightarrow>
                 (a\<lparr>am_contexts := (am_contexts a)(tmsi \<mapsto> ctx\<lparr>ac_registered := True\<rparr>)\<rparr>,
                  [cn_msg CN_DOWNLINK_NAS
                     (nas_transport tmsi rnti (nas_encode (nas_msg NAS_ATTACH_ACCEPT (put32 tmsi))))]))"

definition amf_drop_pending :: "u32 \<Rightarrow> amf \<Rightarrow> amf" where
  "amf_drop_pending tmsi a =
     a\<lparr>am_pending := (am_pending a)(tmsi := None), am_xres := (am_xres a)(tmsi := None), am_rand := (am_rand a)(tmsi := None)\<rparr>"

text \<open>
  \<^verbatim>\<open>keys_[fimsi]\<close> and \<^verbatim>\<open>pending_rand_[tmsi]\<close> create a zero entry when there is none; \<open>amf_key\<close> and
  \<open>amf_rand_of\<close> read them, the created key is kept in the table.
\<close>

definition amf_key :: "cstring \<Rightarrow> amf \<Rightarrow> bytes" where
  "amf_key imsi a = (case am_keys a imsi of None \<Rightarrow> replicate 32 0 | Some k \<Rightarrow> k)"

definition amf_rand_of :: "u32 \<Rightarrow> amf \<Rightarrow> bytes" where
  "amf_rand_of tmsi a = (case am_rand a tmsi of None \<Rightarrow> replicate 16 0 | Some r \<Rightarrow> r)"

definition amf_on_auth_failure :: "bytes \<Rightarrow> u32 \<Rightarrow> u16 \<Rightarrow> bytes \<Rightarrow> amf \<Rightarrow> amf \<times> cn_message list" where
  "amf_on_auth_failure r tmsi rnti v a =
     (if length v < 2 \<or> length v < 2 + unat (v ! 1) then (a, [])
      else
        let cause = v ! 0; n = unat (v ! 1); imsi = take n (drop 2 v) in
        case am_pending a tmsi of
          None \<Rightarrow> (a, [])
        | Some ctx \<Rightarrow>
            if ac_imsi ctx \<noteq> imsi then (a, [])
            else if cause = kCauseSynchFailure \<and> length v \<ge> 2 + n + 14 then
              let k = amf_key imsi a; a = amf_add_subscriber imsi k a in
              (case verify_auts k (take 14 (drop (2 + n) v)) (amf_rand_of tmsi a) of
                 None \<Rightarrow> (amf_drop_pending tmsi a, [])
               | Some sqn_ms \<Rightarrow>
                   amf_challenge r k (amf_context_for imsi tmsi rnti)
                     (amf_drop_pending tmsi (a\<lparr>am_sqn := (am_sqn a)(imsi \<mapsto> sqn_ms AND kSqnMask)\<rparr>)))
            else (amf_drop_pending tmsi a, []))"

definition amf_on_auth_response :: "u32 \<Rightarrow> u16 \<Rightarrow> bytes \<Rightarrow> amf \<Rightarrow> amf \<times> cn_message list" where
  "amf_on_auth_response tmsi rnti v a =
     (case am_pending a tmsi of
        None \<Rightarrow> (a, [])
      | Some ctx \<Rightarrow>
          if am_xres a tmsi = Some v then
            let a = amf_drop_pending tmsi a; t = ac_tmsi ctx;
                a = a\<lparr>am_contexts := (am_contexts a)(t \<mapsto> ctx\<lparr>ac_registered := True\<rparr>)\<rparr>;
                key = (case am_session_keys a t of None \<Rightarrow> replicate 32 0 | Some k \<Rightarrow> k)
            in (a, [cn_msg CN_DOWNLINK_NAS (nas_transport t rnti (nas_encode (nas_msg NAS_ATTACH_ACCEPT (put32 t)))),
                    cn_msg CN_SESSION_KEY (put32 t @ put16 rnti @ key)])
          else
            (amf_drop_pending tmsi a,
             [cn_msg CN_DOWNLINK_NAS (nas_transport tmsi rnti (nas_encode (nas_msg NAS_ATTACH_REJECT (put32 tmsi))))]))"

definition amf_on_uplink_nas :: "bytes \<Rightarrow> bytes \<Rightarrow> amf \<Rightarrow> amf \<times> cn_message list" where
  "amf_on_uplink_nas r v a =
     (if length v < 10 then (a, [])
      else
        let tmsi = get32_at v 0; rnti = get16_at v 4; nas = nas_decode (drop 8 v) in
        if nas_type nas = NAS_AUTH_FAILURE then amf_on_auth_failure r tmsi rnti (nas_value nas) a
        else if nas_type nas = NAS_AUTH_RESPONSE \<and> length (nas_value nas) = 16
        then amf_on_auth_response tmsi rnti (nas_value nas) a
        else if nas_type nas = NAS_DETACH then (amf_release_ue tmsi a, [])
        else (a, []))"

definition amf_on_ho_required :: "bytes \<Rightarrow> amf \<Rightarrow> amf \<times> cn_message list" where
  "amf_on_ho_required v a =
     (if length v < 8 then (a, [])
      else (a\<lparr>am_ho_target := (am_ho_target a)(get32_at v 0 \<mapsto> get16_at v 4)\<rparr>, [cn_msg CN_HO_COMMAND v]))"

definition amf_on_ho_notify :: "bytes \<Rightarrow> amf \<Rightarrow> amf \<times> cn_message list" where
  "amf_on_ho_notify v a =
     (if length v < 6 then (a, [])
      else
        let tmsi = get32_at v 0;
            tgt = (case am_ho_target a tmsi of None \<Rightarrow> 0 | Some c \<Rightarrow> c);
            ctxs = (case am_contexts a tmsi of
                      None \<Rightarrow> am_contexts a
                    | Some ctx \<Rightarrow> (am_contexts a)(tmsi \<mapsto> ctx\<lparr>ac_serving_rnti := get16_at v 4\<rparr>))
        in (a\<lparr>am_contexts := ctxs, am_ho_target := (am_ho_target a)(tmsi := None)\<rparr>,
            [cn_msg CN_HO_PREPARED (put32 tmsi @ put16 tgt @ drop 4 v)]))"

definition amf_handle :: "bytes \<Rightarrow> cn_message \<Rightarrow> amf \<Rightarrow> amf \<times> cn_message list" where
  "amf_handle r msg a =
     (let v = cn_value msg in
      if cn_type msg = CN_NG_SETUP then (a, [cn_msg CN_NG_SETUP_OK []])
      else if cn_type msg = CN_INITIAL_UE_MSG then amf_on_initial_ue r v a
      else if cn_type msg = CN_UPLINK_NAS then amf_on_uplink_nas r v a
      else if cn_type msg = CN_HO_REQUIRED then amf_on_ho_required v a
      else if cn_type msg = CN_HO_NOTIFY then amf_on_ho_notify v a
      else (a, []))"

subsection \<open>UPF\<close>

record upf_route =
  rt_rnti :: u16
  rt_gnb_cell :: u16

type_synonym upf = "u32 \<rightharpoonup> upf_route"

text \<open>\<^verbatim>\<open>routes_[tmsi]\<close>: the entry, or a fresh zero entry.\<close>

definition upf_route_of :: "u32 \<Rightarrow> upf \<Rightarrow> upf_route" where
  "upf_route_of tmsi u = (case u tmsi of None \<Rightarrow> \<lparr>rt_rnti = 0, rt_gnb_cell = 0\<rparr> | Some rt \<Rightarrow> rt)"

text \<open>The second component is what the uplink sink receives.\<close>

definition upf_handle :: "cn_message \<Rightarrow> upf \<Rightarrow> upf \<times> (u32 \<times> bytes) list" where
  "upf_handle msg u =
     (let v = cn_value msg in
      if cn_type msg = CN_UL_DATA then
        (if length v < 6 then (u, [])
         else
           let tmsi = get32_at v 0
           in (u(tmsi \<mapsto> (upf_route_of tmsi u)\<lparr>rt_rnti := get16_at v 4\<rparr>), [(tmsi, drop 6 v)]))
      else if cn_type msg = CN_PATH_SWITCH then
        (if length v < 8 then (u, [])
         else (u(get32_at v 0 \<mapsto> \<lparr>rt_rnti = get16_at v 4, rt_gnb_cell = get16_at v 6\<rparr>), []))
      else (u, []))"

definition upf_send_downlink :: "u32 \<Rightarrow> bytes \<Rightarrow> upf \<Rightarrow> cn_message list" where
  "upf_send_downlink tmsi pdu u =
     (case u tmsi of
        None \<Rightarrow> []
      | Some rt \<Rightarrow> [cn_msg CN_DL_DATA (put32 tmsi @ put16 (rt_rnti rt) @ pdu)])"

lemmas amf_defs [state_defs] =
  amf_add_subscriber_def amf_release_ue_def amf_challenge_def amf_on_initial_ue_def amf_drop_pending_def
  amf_on_auth_failure_def amf_on_auth_response_def amf_on_uplink_nas_def amf_on_ho_required_def
  amf_on_ho_notify_def amf_handle_def

subsection \<open>The registration service the AMF implements\<close>

text \<open>
  Abstractly a TMSI is unused, challenged (with the IMSI and the challenge it was sent) or
  registered. \<open>reg_step K\<close> are the moves of the service over a subscriber table \<open>K\<close>: a
  subscriber with a key becomes registered only by presenting f2 of that key and its
  challenge.
\<close>

datatype reg = Challenged cstring bytes | Registered cstring

type_synonym reg_state = "u32 \<rightharpoonup> reg"

datatype reg_event = RegAttach cstring | RegResponse u32 bytes | RegFailure u32 | RegDetach u32 | RegOther

inductive reg_step :: "(cstring \<rightharpoonup> bytes) \<Rightarrow> reg_event \<Rightarrow> reg_state \<Rightarrow> reg_state \<Rightarrow> bool" for K where
  attach_known: "s t = None \<Longrightarrow> K imsi \<noteq> None \<Longrightarrow> reg_step K (RegAttach imsi) s (s(t \<mapsto> Challenged imsi r))"
| attach_open: "s t = None \<Longrightarrow> K imsi = None \<Longrightarrow> reg_step K (RegAttach imsi) s (s(t \<mapsto> Registered imsi))"
| accept: "s t = Some (Challenged imsi r) \<Longrightarrow> K imsi = Some k \<Longrightarrow> res = f2 k r \<Longrightarrow>
    reg_step K (RegResponse t res) s (s(t \<mapsto> Registered imsi))"
| refuse: "s t = Some (Challenged imsi r) \<Longrightarrow> K imsi = Some k \<Longrightarrow> res \<noteq> f2 k r \<Longrightarrow>
    reg_step K (RegResponse t res) s (s(t := None))"
| unasked: "\<forall>imsi r. s t \<noteq> Some (Challenged imsi r) \<Longrightarrow> reg_step K (RegResponse t res) s s"
| failed: "s t = Some (Challenged imsi r) \<Longrightarrow> reg_step K (RegFailure t) s (s(t := None))"
| rechallenge: "s t = Some (Challenged imsi r) \<Longrightarrow> reg_step K (RegFailure t) s (s(t \<mapsto> Challenged imsi r'))"
| foreign: "reg_step K (RegFailure t) s s"
| detach: "reg_step K (RegDetach t) s (s(t := None))"
| other: "reg_step K RegOther s s"

inductive_cases reg_stepE: "reg_step K e s s'"

text \<open>What a message to the AMF means to the service.\<close>

definition amf_event :: "cn_message \<Rightarrow> reg_event" where
  "amf_event msg =
     (let v = cn_value msg in
      if cn_type msg = CN_INITIAL_UE_MSG \<and> length v \<ge> 3 \<and> nas_type (nas_decode (drop 2 v)) = NAS_ATTACH_REQUEST
      then RegAttach (nas_value (nas_decode (drop 2 v)))
      else if cn_type msg = CN_UPLINK_NAS \<and> length v \<ge> 10 then
        let nas = nas_decode (drop 8 v); t = get32_at v 0 in
        if nas_type nas = NAS_AUTH_FAILURE then RegFailure t
        else if nas_type nas = NAS_AUTH_RESPONSE \<and> length (nas_value nas) = 16 then RegResponse t (nas_value nas)
        else if nas_type nas = NAS_DETACH then RegDetach t
        else RegOther
      else RegOther)"

text \<open>The abstraction function.\<close>

definition amf_abs :: "amf \<Rightarrow> reg_state" where
  "amf_abs a t =
     (case am_pending a t of
        Some ctx \<Rightarrow> Some (Challenged (ac_imsi ctx) (amf_rand_of t a))
      | None \<Rightarrow> (case am_contexts a t of Some ctx \<Rightarrow> Some (Registered (ac_imsi ctx)) | None \<Rightarrow> None))"

definition amf_ok :: "amf \<Rightarrow> bool" where
  "amf_ok a \<longleftrightarrow>
     (\<forall>t ctx. am_pending a t = Some ctx \<longrightarrow>
        ac_tmsi ctx = t \<and> am_contexts a t = None \<and>
        (\<exists>k r s. am_keys a (ac_imsi ctx) = Some k \<and> am_rand a t = Some r \<and> am_xres a t = Some (f2 k r) \<and>
           am_session_keys a t = Some (av_kasme (generate k s r)))) \<and>
     (\<forall>t ctx. am_contexts a t = Some ctx \<longrightarrow> ac_tmsi ctx = t)"

lemma amf_okD:
  assumes "amf_ok a" "am_pending a t = Some ctx"
  obtains k r s where "ac_tmsi ctx = t" "am_contexts a t = None" "am_keys a (ac_imsi ctx) = Some k" "am_rand a t = Some r"
    "am_xres a t = Some (f2 k r)" "am_session_keys a t = Some (av_kasme (generate k s r))"
  using assms unfolding amf_ok_def by blast

lemma amf_init_ok: "amf_ok amf_init"
  by (simp add: amf_ok_def amf_init_def)

lemma amf_challenge_ok:
  assumes "amf_ok a" "am_keys a (ac_imsi ctx) = Some k" "am_contexts a (ac_tmsi ctx) = None"
  shows "amf_ok (fst (amf_challenge r k ctx a))"
  using assms by (auto simp: amf_ok_def amf_challenge_def Let_def)

lemma amf_challenge_abs:
  "amf_abs (fst (amf_challenge r k ctx a)) = (amf_abs a)(ac_tmsi ctx \<mapsto> Challenged (ac_imsi ctx) r)"
  "am_keys (fst (amf_challenge r k ctx a)) = am_keys a"
  by (auto simp: amf_abs_def amf_challenge_def amf_rand_of_def Let_def fun_eq_iff split: option.split)

lemma amf_drop_ok: "amf_ok a \<Longrightarrow> amf_ok (amf_drop_pending t a)"
  by (auto simp: amf_ok_def amf_drop_pending_def)

lemma amf_drop_abs: "amf_ok a \<Longrightarrow> am_pending a t = Some ctx \<Longrightarrow> amf_abs (amf_drop_pending t a) = (amf_abs a)(t := None)"
  by (auto simp: amf_abs_def amf_drop_pending_def amf_rand_of_def amf_ok_def fun_eq_iff split: option.split)

lemma amf_same_key: "am_keys a imsi = Some k \<Longrightarrow> amf_add_subscriber imsi (amf_key imsi a) a = a"
  by (simp add: amf_key_def amf_add_subscriber_def fun_upd_idem)

text \<open>Simulation, handler by handler.\<close>

definition amf_simulates :: "reg_event \<Rightarrow> amf \<Rightarrow> amf \<Rightarrow> bool" where
  "amf_simulates e a a' \<longleftrightarrow> amf_ok a' \<and> am_keys a' = am_keys a \<and> reg_step (am_keys a) e (amf_abs a) (amf_abs a')"

lemma amf_sim_initial:
  assumes "amf_ok a" "amf_abs a (am_next_tmsi a) = None" "3 \<le> length v" "nas_type (nas_decode (drop 2 v)) = NAS_ATTACH_REQUEST"
  shows "amf_simulates (RegAttach (nas_value (nas_decode (drop 2 v)))) a (fst (amf_on_initial_ue r v a))"
proof -
  let ?t = "am_next_tmsi a" and ?a = "a\<lparr>am_next_tmsi := am_next_tmsi a + 1\<rparr>"
  let ?imsi = "nas_value (nas_decode (drop 2 v))"
  have ok: "amf_ok ?a" and abs: "amf_abs ?a = amf_abs a" and free: "am_contexts a ?t = None" "am_pending a ?t = None"
    using assms by (auto simp: amf_ok_def amf_abs_def amf_rand_of_def fun_eq_iff split: option.splits)
  have known: "amf_simulates (RegAttach ?imsi) a (fst (amf_challenge r k (amf_context_for ?imsi ?t rnti) ?a))" if "am_keys a ?imsi = Some k" for k rnti
    using that ok abs free assms(2)
    by (auto simp: amf_simulates_def amf_challenge_abs amf_context_for_def intro!: amf_challenge_ok reg_step.attach_known)
  have opn: "amf_simulates (RegAttach ?imsi) a (?a\<lparr>am_contexts := (am_contexts a)(?t \<mapsto> (amf_context_for ?imsi ?t rnti)\<lparr>ac_registered := True\<rparr>)\<rparr>)"
    if "am_keys a ?imsi = None" for rnti
  proof -
    let ?a' = "?a\<lparr>am_contexts := (am_contexts a)(?t \<mapsto> (amf_context_for ?imsi ?t rnti)\<lparr>ac_registered := True\<rparr>)\<rparr>"
    have "amf_abs ?a' = (amf_abs a)(?t \<mapsto> Registered ?imsi)"
      using free by (auto simp: amf_abs_def amf_rand_of_def amf_context_for_def fun_eq_iff split: option.split)
    moreover have "amf_ok ?a'"
      using assms(1) free by (auto simp: amf_ok_def amf_context_for_def)
    ultimately show ?thesis
      using that assms(2) by (simp add: amf_simulates_def reg_step.attach_open)
  qed
  show ?thesis
    using known opn assms(3,4)
    by (auto simp: amf_on_initial_ue_def Let_def split: option.split)
qed

lemma amf_sim_failure:
  assumes "amf_ok a"
  shows "amf_simulates (RegFailure tmsi) a (fst (amf_on_auth_failure r tmsi rnti v a))"
proof (cases "am_pending a tmsi")
  case (Some ctx)
  obtain k where k: "am_keys a (ac_imsi ctx) = Some k" "ac_tmsi ctx = tmsi" "am_contexts a tmsi = None"
    using amf_okD [OF assms Some] by metis
  have s: "amf_abs a tmsi = Some (Challenged (ac_imsi ctx) (amf_rand_of tmsi a))"
    using Some by (simp add: amf_abs_def)
  have dropped: "amf_simulates (RegFailure tmsi) a (amf_drop_pending tmsi a)"
    using amf_drop_ok [OF assms] amf_drop_abs [OF assms Some] reg_step.failed [where s = "amf_abs a" and t = tmsi, OF s]
    by (auto simp: amf_simulates_def amf_drop_pending_def)
  have again: "amf_simulates (RegFailure tmsi) a (fst (amf_challenge r k (amf_context_for (ac_imsi ctx) tmsi rnti)
      (amf_drop_pending tmsi (a\<lparr>am_sqn := q\<rparr>))))" for q
  proof -
    let ?b = "amf_drop_pending tmsi (a\<lparr>am_sqn := q\<rparr>)"
    have b: "amf_ok (a\<lparr>am_sqn := q\<rparr>)" "am_pending (a\<lparr>am_sqn := q\<rparr>) tmsi = Some ctx"
      "amf_abs (a\<lparr>am_sqn := q\<rparr>) = amf_abs a"
      using assms Some by (auto simp: amf_ok_def amf_abs_def amf_rand_of_def fun_eq_iff split: option.split)
    have "amf_abs ?b = (amf_abs a)(tmsi := None)" "amf_ok ?b"
      using amf_drop_abs [OF b(1,2)] amf_drop_ok [OF b(1)] b(3) by simp_all
    moreover have "am_keys ?b = am_keys a" "am_contexts ?b = am_contexts a" by (simp_all add: amf_drop_pending_def)
    ultimately show ?thesis
      using reg_step.rechallenge [where s = "amf_abs a" and t = tmsi, OF s, of "am_keys a" r] k
      by (auto simp: amf_simulates_def amf_challenge_abs amf_context_for_def intro!: amf_challenge_ok)
  qed
  have same: "amf_simulates (RegFailure tmsi) a a" by (simp add: amf_simulates_def assms reg_step.foreign)
  show ?thesis
    using Some dropped again same amf_same_key [OF k(1)] k(1)
    by (auto simp: amf_on_auth_failure_def amf_key_def Let_def split: option.split)
qed (simp add: amf_on_auth_failure_def Let_def amf_simulates_def reg_step.foreign assms)

lemma amf_sim_response:
  assumes "amf_ok a"
  shows "amf_simulates (RegResponse tmsi v) a (fst (amf_on_auth_response tmsi rnti v a))"
proof (cases "am_pending a tmsi")
  case (Some ctx)
  obtain k r q where c: "am_keys a (ac_imsi ctx) = Some k" "ac_tmsi ctx = tmsi" "am_contexts a tmsi = None" "am_rand a tmsi = Some r"
    "am_xres a tmsi = Some (f2 k r)" "am_session_keys a tmsi = Some (av_kasme (generate k q r))"
    using amf_okD [OF assms Some] by metis
  have s: "amf_abs a tmsi = Some (Challenged (ac_imsi ctx) r)"
    using Some c by (simp add: amf_abs_def amf_rand_of_def)
  have dropped: "amf_simulates (RegResponse tmsi v) a (amf_drop_pending tmsi a)" if "v \<noteq> f2 k r"
    using amf_drop_ok [OF assms] amf_drop_abs [OF assms Some] reg_step.refuse [where s = "amf_abs a" and t = tmsi and K = "am_keys a", OF s c(1) that]
    by (auto simp: amf_simulates_def amf_drop_pending_def)
  let ?a' = "(amf_drop_pending tmsi a)\<lparr>am_contexts := (am_contexts a)(tmsi \<mapsto> ctx\<lparr>ac_registered := True\<rparr>)\<rparr>"
  have "amf_abs ?a' = (amf_abs a)(tmsi \<mapsto> Registered (ac_imsi ctx))"
    by (auto simp: amf_abs_def amf_drop_pending_def amf_rand_of_def fun_eq_iff split: option.split)
  moreover have "amf_ok ?a'" using assms c by (auto simp: amf_ok_def amf_drop_pending_def)
  ultimately have "amf_simulates (RegResponse tmsi v) a ?a'" if "v = f2 k r"
    using reg_step.accept [where s = "amf_abs a" and t = tmsi and K = "am_keys a", OF s c(1) that] by (simp add: amf_simulates_def amf_drop_pending_def)
  then show ?thesis
    using Some dropped c by (auto simp: amf_on_auth_response_def amf_drop_pending_def Let_def)
next
  case None
  then have "\<forall>imsi r. amf_abs a tmsi \<noteq> Some (Challenged imsi r)" by (auto simp: amf_abs_def split: option.splits)
  then show ?thesis using None assms by (simp add: amf_on_auth_response_def amf_simulates_def reg_step.unasked)
qed

lemma amf_sim_release: "amf_ok a \<Longrightarrow> amf_simulates (RegDetach tmsi) a (amf_release_ue tmsi a)"
proof -
  assume ok: "amf_ok a"
  have "amf_abs (amf_release_ue tmsi a) = (amf_abs a)(tmsi := None)"
    by (auto simp: amf_abs_def amf_release_ue_def amf_rand_of_def fun_eq_iff split: option.split)
  moreover have "amf_ok (amf_release_ue tmsi a)" using ok by (auto simp: amf_ok_def amf_release_ue_def)
  ultimately show ?thesis by (simp add: amf_simulates_def reg_step.detach) (simp add: amf_release_ue_def)
qed

lemma amf_ok_exclusive: "amf_ok a \<Longrightarrow> am_contexts a t = Some ctx \<Longrightarrow> am_pending a t = None"
  by (metis amf_okD not_None_eq)

lemma amf_ok_ho_target: "amf_ok (a\<lparr>am_ho_target := h\<rparr>) = amf_ok a"
  by (simp add: amf_ok_def)

lemma amf_ok_serving:
  assumes "amf_ok a" "am_contexts a t = Some ctx"
  shows "amf_ok (a\<lparr>am_contexts := (am_contexts a)(t \<mapsto> ctx\<lparr>ac_serving_rnti := x\<rparr>), am_ho_target := h\<rparr>)"
proof -
  have ne: "t' \<noteq> t" if "am_pending a t' = Some c" for t' c
    using amf_ok_exclusive [OF assms] that by auto
  have "ac_tmsi ctx = t" using assms by (simp add: amf_ok_def)
  then show ?thesis using assms(1) ne unfolding amf_ok_def by simp
qed

lemma amf_sim_ho_required:
  assumes "amf_ok a"
  shows "amf_simulates RegOther a (fst (amf_on_ho_required v a))"
proof -
  have "amf_abs (fst (amf_on_ho_required v a)) = amf_abs a"
    by (auto simp: amf_abs_def amf_rand_of_def amf_on_ho_required_def fun_eq_iff split: option.split)
  then show ?thesis
    using assms by (auto simp: amf_simulates_def amf_on_ho_required_def amf_ok_ho_target intro: reg_step.other)
qed

lemma amf_sim_ho_notify:
  assumes "amf_ok a"
  shows "amf_simulates RegOther a (fst (amf_on_ho_notify v a))"
proof -
  let ?t = "get32_at v 0"
  have "amf_abs (fst (amf_on_ho_notify v a)) = amf_abs a"
    by (auto simp: amf_abs_def amf_rand_of_def amf_on_ho_notify_def Let_def fun_eq_iff split: option.split)
  moreover have "amf_ok (fst (amf_on_ho_notify v a))"
  proof (cases "am_contexts a ?t")
    case None
    then show ?thesis using assms by (simp add: amf_on_ho_notify_def Let_def) (simp add: amf_ok_def)
  next
    case (Some ctx)
    then show ?thesis using assms amf_ok_serving [OF assms Some] by (simp add: amf_on_ho_notify_def Let_def)
  qed
  moreover have "am_keys (fst (amf_on_ho_notify v a)) = am_keys a" by (simp add: amf_on_ho_notify_def Let_def)
  ultimately show ?thesis by (simp add: amf_simulates_def reg_step.other)
qed

lemma amf_handle_simulates:
  assumes "amf_ok a" "amf_abs a (am_next_tmsi a) = None"
  shows "amf_simulates (amf_event msg) a (fst (amf_handle r msg a))"
proof -
  have o: "amf_simulates RegOther a a" using assms by (simp add: amf_simulates_def reg_step.other)
  let ?v = "cn_value msg"
  consider "cn_type msg = CN_INITIAL_UE_MSG" | "cn_type msg = CN_UPLINK_NAS" | "cn_type msg = CN_HO_REQUIRED"
    | "cn_type msg = CN_HO_NOTIFY" | "cn_type msg \<notin> {CN_INITIAL_UE_MSG, CN_UPLINK_NAS, CN_HO_REQUIRED, CN_HO_NOTIFY}"
    by blast
  then show ?thesis
  proof cases
    case 1
    then show ?thesis
      using o amf_sim_initial [OF assms, of ?v r]
      by (auto simp: amf_handle_def amf_event_def Let_def cn_type_defs amf_on_initial_ue_def)
  next
    case 2
    then show ?thesis
      using o amf_sim_failure [OF assms(1)] amf_sim_response [OF assms(1)] amf_sim_release [OF assms(1)]
      by (auto simp: amf_handle_def amf_event_def Let_def cn_type_defs amf_on_uplink_nas_def)
  next
    case 3
    then show ?thesis
      using amf_sim_ho_required [OF assms(1)] by (simp add: amf_handle_def amf_event_def Let_def cn_type_defs)
  next
    case 4
    then show ?thesis
      using amf_sim_ho_notify [OF assms(1)] by (simp add: amf_handle_def amf_event_def Let_def cn_type_defs)
  next
    case 5
    then show ?thesis using o by (auto simp: amf_handle_def amf_event_def Let_def)
  qed
qed

text \<open>
  C17. Refinement: from any AMF state that satisfies the invariant (the initial one does) and
  whose next TMSI is unused, handling any core-network message with any random challenge
  leads to a state that satisfies the invariant again, leaves the subscriber keys alone, and
  corresponds to a step of the abstract registration service for the event the message
  carries. In particular a subscriber with a key becomes registered only by f2 of its key
  and its own challenge.
\<close>
theorem amf_refines_registration:
  assumes "amf_ok a" "amf_abs a (am_next_tmsi a) = None"
  shows "amf_ok (fst (amf_handle r msg a)) \<and> am_keys (fst (amf_handle r msg a)) = am_keys a \<and>
         reg_step (am_keys a) (amf_event msg) (amf_abs a) (amf_abs (fst (amf_handle r msg a)))"
  using amf_handle_simulates [OF assms, of msg r] by (simp add: amf_simulates_def)

theorem amf_refines_registration_witness:
  "let a = amf_add_subscriber (cstr ''460010001'') (replicate 32 1) amf_init;
       msg = cn_msg CN_INITIAL_UE_MSG (put16 0x101 @ nas_encode (nas_msg NAS_ATTACH_REQUEST (cstr ''460010001'')))
   in reg_step (am_keys a) (amf_event msg) (amf_abs a) (amf_abs (fst (amf_handle (replicate 16 7) msg a)))"
proof -
  let ?a = "amf_add_subscriber (cstr ''460010001'') (replicate 32 1) amf_init"
  have "amf_ok ?a" "amf_abs ?a (am_next_tmsi ?a) = None"
    by (simp_all add: amf_ok_def amf_abs_def amf_add_subscriber_def amf_init_def)
  then show ?thesis
    unfolding Let_def using amf_refines_registration [of ?a] by blast
qed

subsection \<open>Attach through the AMF\<close>

lemma get32_at_put32_append [simp]: "get32_at (put32 x @ ys) 0 = x"
  by (simp add: get32_at_put32)

lemma get16_at_4 [simp]: "get16_at (put32 x @ put16 y @ zs) 4 = y"
  by (simp add: get16_at_def put32_def put16_def wire_simps nth_append)

lemma get16_at_0 [simp]: "get16_at (put16 y @ zs) 0 = y"
  by (rule get16_at_put16)

lemma drop_transport [simp]: "drop 8 (nas_transport t rnti pdu) = pdu" "length (nas_transport t rnti pdu) = 8 + length pdu"
  "get32_at (nas_transport t rnti pdu) 0 = t" "get16_at (nas_transport t rnti pdu) 4 = rnti"
  by (simp_all add: nas_transport_def)

lemma amf_on_attach:
  assumes "am_keys a imsi = Some k" "length imsi < 65536"
  shows "amf_handle r (cn_msg CN_INITIAL_UE_MSG (put16 rnti @ nas_encode (nas_msg NAS_ATTACH_REQUEST imsi))) a =
     amf_challenge r k (amf_context_for imsi (am_next_tmsi a) rnti) (a\<lparr>am_next_tmsi := am_next_tmsi a + 1\<rparr>)"
  using assms
  by (simp add: amf_handle_def amf_on_initial_ue_def Let_def cn_type_defs nas_decode_simps)

lemma amf_on_right_response:
  assumes "am_pending a t = Some ctx" "ac_tmsi ctx = t" "am_xres a t = Some v" "length v = 16" "am_session_keys a t = Some key"
  shows "amf_handle r (cn_msg CN_UPLINK_NAS (nas_transport t rnti (nas_encode (nas_msg NAS_AUTH_RESPONSE v)))) a =
     ((amf_drop_pending t a)\<lparr>am_contexts := (am_contexts a)(t \<mapsto> ctx\<lparr>ac_registered := True\<rparr>)\<rparr>,
      [cn_msg CN_DOWNLINK_NAS (nas_transport t rnti (nas_encode (nas_msg NAS_ATTACH_ACCEPT (put32 t)))),
       cn_msg CN_SESSION_KEY (put32 t @ put16 rnti @ key)])"
proof -
  have d: "nas_decode (nas_encode (nas_msg NAS_AUTH_RESPONSE v)) = nas_msg NAS_AUTH_RESPONSE v"
    using assms(4) by (simp add: nas_decode_simps)
  have "amf_on_uplink_nas r (nas_transport t rnti (nas_encode (nas_msg NAS_AUTH_RESPONSE v))) a = amf_on_auth_response t rnti v a"
    using assms(4) by (simp add: amf_on_uplink_nas_def Let_def d) (simp add: nas_type_defs)
  then show ?thesis
    using assms by (simp add: amf_handle_def Let_def cn_type_defs amf_on_auth_response_def amf_drop_pending_def)
qed

text \<open>
  C18. Attach through the separated core: a terminal and an AMF that share the subscriber key,
  with the radio node only carrying NAS PDUs in the transport formats, complete the attach.
  The terminal is registered and authenticated under the TMSI the AMF allocated, the AMF
  counts it as registered, and the SESSION KEY message the AMF sends to the radio node for
  the terminal's C-RNTI carries exactly the key the terminal derived.
\<close>
theorem amf_attach_end_to_end:
  assumes "nu_state ue = DEREGISTERED" "nu_has_usim ue" "am_keys a imsi = Some (nu_usim_key ue)"
    and "length imsi < 65536" "length r = 16"
    and "q = (case am_sqn a imsi of None \<Rightarrow> 0 | Some s \<Rightarrow> s) + 1" "unat q < 2 ^ 48" "nu_sqn_ms ue < q"
    and "t = am_next_tmsi a"
  shows "\<exists>req chal resp acc key ue1 ue2 ue3 a1 a2.
     send_attach_request imsi ue = (ue1, [req]) \<and>
     amf_handle r (cn_msg CN_INITIAL_UE_MSG (put16 rnti @ req)) a = (a1, [cn_msg CN_DOWNLINK_NAS (nas_transport t rnti chal)]) \<and>
     nas_ue_on_message chal ue1 = (ue2, [resp]) \<and>
     amf_handle r' (cn_msg CN_UPLINK_NAS (nas_transport t rnti resp)) a1 =
       (a2, [cn_msg CN_DOWNLINK_NAS (nas_transport t rnti acc), cn_msg CN_SESSION_KEY (put32 t @ put16 rnti @ key)]) \<and>
     nas_ue_on_message acc ue2 = (ue3, []) \<and>
     nu_state ue3 = REGISTERED \<and> nu_authenticated ue3 \<and> nu_tmsi ue3 = t \<and> nu_session_key ue3 = key \<and>
     amf_is_ue_registered t a2"
proof -
  define k where "k = nu_usim_key ue"
  define v where "v = generate k q r"
  define ue1 where "ue1 = ue\<lparr>nu_imsi := imsi, nu_authenticated := False, nu_auth_pending := False, nu_state := REGISTERING\<rparr>"
  define ue2 where "ue2 = ue1\<lparr>nu_sqn_ms := q, nu_session_key := av_kasme v, nu_auth_pending := True\<rparr>"
  define ctx where "ctx = amf_context_for imsi t rnti"
  define a1 where "a1 = fst (amf_challenge r k ctx (a\<lparr>am_next_tmsi := t + 1\<rparr>))"
  have q: "take_bit 48 q = q" using assms(7) by (rule and_mask_small)
  have u1: "nu_state ue1 = REGISTERING" "nu_has_usim ue1" "nu_usim_key ue1 = k" "nu_sqn_ms ue1 = nu_sqn_ms ue"
    using assms(2) by (simp_all add: ue1_def k_def)
  have 1: "send_attach_request imsi ue = (ue1, [nas_encode (nas_msg NAS_ATTACH_REQUEST imsi)])"
    using assms(1) by (simp add: send_attach_request_def ue1_def)
  have 2: "amf_challenge r k ctx (a\<lparr>am_next_tmsi := t + 1\<rparr>) =
      (a1, [cn_msg CN_DOWNLINK_NAS (nas_transport t rnti (nas_encode (nas_msg NAS_AUTH_REQUEST (r @ autn v))))])"
    using assms(6) q by (simp add: a1_def amf_challenge_def ctx_def amf_context_for_def v_def sqn_and_mask Let_def)
  have 3: "nas_ue_on_message (nas_encode (nas_msg NAS_AUTH_REQUEST (r @ autn v))) ue1
      = (ue2, [nas_encode (nas_msg NAS_AUTH_RESPONSE (f2 k r))])"
    using u1 assms(5,8) q nas_ue_challenged [of ue1 r q]
    by (simp add: ue2_def v_def Let_def linorder_not_le [symmetric])
  have a1: "am_pending a1 t = Some ctx" "ac_tmsi ctx = t" "am_xres a1 t = Some (f2 k r)" "am_session_keys a1 t = Some (av_kasme v)"
    using assms(6) q by (simp_all add: a1_def amf_challenge_def ctx_def amf_context_for_def v_def sqn_and_mask Let_def)
  have 4: "nu_state ue2 = REGISTERING" by (simp add: ue2_def ue1_def)
  define a2 where "a2 = (amf_drop_pending t a1)\<lparr>am_contexts := (am_contexts a1)(t \<mapsto> ctx\<lparr>ac_registered := True\<rparr>)\<rparr>"
  define ue3 where "ue3 = ue2\<lparr>nu_tmsi := t, nu_authenticated := nu_auth_pending ue2 \<or> nu_authenticated ue2,
      nu_auth_pending := False, nu_state := REGISTERED\<rparr>"
  have 5: "amf_handle r (cn_msg CN_INITIAL_UE_MSG (put16 rnti @ nas_encode (nas_msg NAS_ATTACH_REQUEST imsi))) a =
      (a1, [cn_msg CN_DOWNLINK_NAS (nas_transport t rnti (nas_encode (nas_msg NAS_AUTH_REQUEST (r @ autn v))))])"
    using 2 unfolding amf_on_attach [OF assms(3,4)] assms(9) [symmetric] ctx_def k_def .
  have 6: "amf_handle r' (cn_msg CN_UPLINK_NAS (nas_transport t rnti (nas_encode (nas_msg NAS_AUTH_RESPONSE (f2 k r))))) a1 =
      (a2, [cn_msg CN_DOWNLINK_NAS (nas_transport t rnti (nas_encode (nas_msg NAS_ATTACH_ACCEPT (put32 t)))),
            cn_msg CN_SESSION_KEY (put32 t @ put16 rnti @ av_kasme v)])"
    unfolding a2_def by (rule amf_on_right_response [OF a1(1-3) _ a1(4)]) simp
  have 7: "nas_ue_on_message (nas_encode (nas_msg NAS_ATTACH_ACCEPT (put32 t))) ue2 = (ue3, [])"
    unfolding ue3_def by (rule nas_ue_accepted [OF 4])
  have "nu_state ue3 = REGISTERED" "nu_authenticated ue3" "nu_tmsi ue3 = t" "nu_session_key ue3 = av_kasme v" "amf_is_ue_registered t a2"
    by (simp_all add: ue3_def ue2_def a2_def amf_is_ue_registered_def)
  with 1 3 5 6 7 show ?thesis by blast
qed

theorem amf_attach_end_to_end_witness:
  "let a = amf_add_subscriber (cstr ''460010001'') (replicate 32 1) amf_init in
   \<exists>req chal resp acc key ue1 ue2 ue3 a1 a2.
     send_attach_request (cstr ''460010001'') nas_demo_ue = (ue1, [req]) \<and>
     amf_handle (replicate 16 7) (cn_msg CN_INITIAL_UE_MSG (put16 0x101 @ req)) a =
       (a1, [cn_msg CN_DOWNLINK_NAS (nas_transport 0x10001 0x101 chal)]) \<and>
     nas_ue_on_message chal ue1 = (ue2, [resp]) \<and>
     amf_handle [] (cn_msg CN_UPLINK_NAS (nas_transport 0x10001 0x101 resp)) a1 =
       (a2, [cn_msg CN_DOWNLINK_NAS (nas_transport 0x10001 0x101 acc), cn_msg CN_SESSION_KEY (put32 0x10001 @ put16 0x101 @ key)]) \<and>
     nas_ue_on_message acc ue2 = (ue3, []) \<and>
     nu_state ue3 = REGISTERED \<and> nu_authenticated ue3 \<and> nu_tmsi ue3 = 0x10001 \<and> nu_session_key ue3 = key \<and>
     amf_is_ue_registered 0x10001 a2"
  unfolding Let_def
  by (rule amf_attach_end_to_end [where q = 1]) (simp_all add: nas_demo_facts amf_add_subscriber_def amf_init_def)

subsection \<open>User plane\<close>

definition upf_run :: "cn_message list \<Rightarrow> upf" where
  "upf_run msgs = fold (\<lambda>m u. fst (upf_handle m u)) msgs Map.empty"

text \<open>The C-RNTI a message announces for a TMSI.\<close>

definition upf_announces :: "u32 \<Rightarrow> cn_message \<Rightarrow> u16 option" where
  "upf_announces t msg =
     (let v = cn_value msg in
      if (cn_type msg = CN_UL_DATA \<and> 6 \<le> length v \<or> cn_type msg = CN_PATH_SWITCH \<and> 8 \<le> length v) \<and> get32_at v 0 = t
      then Some (get16_at v 4) else None)"

lemma upf_handle_route:
  "map_option rt_rnti (fst (upf_handle m u) t) =
     (case upf_announces t m of None \<Rightarrow> map_option rt_rnti (u t) | Some r \<Rightarrow> Some r)"
  by (auto simp: upf_handle_def upf_announces_def Let_def cn_type_defs)

lemma upf_run_route:
  "map_option rt_rnti (upf_run msgs t) = (case List.map_filter (upf_announces t) (rev msgs) of [] \<Rightarrow> None | r # _ \<Rightarrow> Some r)"
proof (induction msgs rule: rev_induct)
  case Nil
  show ?case by (simp add: upf_run_def map_filter_simps)
next
  case (snoc m msgs)
  have "map_option rt_rnti (upf_run (msgs @ [m]) t) = map_option rt_rnti (fst (upf_handle m (upf_run msgs)) t)"
    by (simp add: upf_run_def)
  then show ?case
    using snoc by (simp add: upf_handle_route map_filter_simps split: option.split)
qed

text \<open>
  The anchor follows the terminal: after any sequence of messages, a downlink packet for a
  TMSI goes out addressed to the C-RNTI of the most recent well-formed uplink packet or path
  switch for that TMSI, unchanged, and is dropped if there was none; malformed and other
  messages have no effect.
\<close>
theorem upf_routes_to_latest:
  "upf_send_downlink t pdu (upf_run msgs) =
     (case List.map_filter (upf_announces t) (rev msgs) of
        [] \<Rightarrow> []
      | r # _ \<Rightarrow> [cn_msg CN_DL_DATA (put32 t @ put16 r @ pdu)])"
  using upf_run_route [of msgs t]
  by (auto simp: upf_send_downlink_def split: list.splits option.splits)

end
