(* ===== verification/Qos.thy ===== *)
theory Qos
  imports RlcAm RlcUm MacPdu U2u
begin

text \<open>
  QoS bearers, \<^verbatim>\<open>stack/core/include/core/qos.h\<close>: service classes and their logical channels, the
  bearers with their RLC entities, and the strict-priority scheduler with a minimum share
  for best effort. The lemmas show that picking loses and reorders nothing, follows the
  priority order, and serves best effort at least at every fourth pick.
\<close>

datatype qci = QCI_VOICE | QCI_VIDEO | QCI_SIG | QCI_BEST_EFFORT

fun qci_of :: "media_kind \<Rightarrow> qci" where
  "qci_of SIG = QCI_SIG"
| "qci_of VOICE = QCI_VOICE"
| "qci_of VIDEO = QCI_VIDEO"
| "qci_of MSG = QCI_BEST_EFFORT"

fun lcid_of :: "qci \<Rightarrow> u8" where
  "lcid_of QCI_SIG = LCID_APP_SIG"
| "lcid_of QCI_VOICE = LCID_APP_VOICE"
| "lcid_of QCI_VIDEO = LCID_APP_VIDEO"
| "lcid_of QCI_BEST_EFFORT = LCID_APP_DTCH"

fun status_lcid_of :: "qci \<Rightarrow> u8" where
  "status_lcid_of QCI_SIG = LCID_RLC_STATUS_SIG"
| "status_lcid_of _ = LCID_RLC_STATUS"

definition qci_of_lcid :: "u8 \<Rightarrow> qci option" where
  "qci_of_lcid lcid =
     (if lcid = LCID_APP_SIG then Some QCI_SIG
      else if lcid = LCID_APP_VOICE then Some QCI_VOICE
      else if lcid = LCID_APP_VIDEO then Some QCI_VIDEO
      else if lcid = LCID_APP_DTCH then Some QCI_BEST_EFFORT
      else None)"

definition qci_of_status_lcid :: "u8 \<Rightarrow> qci option" where
  "qci_of_status_lcid lcid =
     (if lcid = LCID_RLC_STATUS_SIG then Some QCI_SIG
      else if lcid = LCID_RLC_STATUS then Some QCI_BEST_EFFORT
      else None)"

fun bearer_kind_name :: "qci \<Rightarrow> string" where
  "bearer_kind_name QCI_SIG = ''sig''"
| "bearer_kind_name QCI_VOICE = ''voice''"
| "bearer_kind_name QCI_VIDEO = ''video''"
| "bearer_kind_name QCI_BEST_EFFORT = ''be''"

record app_pdu =
  ap_lcid :: u8
  ap_cipher :: bool
  ap_bytes :: bytes

record ('tx, 'rx) bearer =
  b_qci :: qci
  b_tx :: 'tx
  b_rx :: 'rx
  b_queue :: "app_pdu list"
  b_established :: bool

type_synonym am_bearer = "(am_tx_state, am_rx_state) bearer"
type_synonym um_bearer = "(um_tx_state, um_rx_state) bearer"

definition make_am_bearer :: "qci \<Rightarrow> am_bearer" where
  "make_am_bearer q = \<lparr>b_qci = q, b_tx = am_tx_init am_node_bearer_config, b_rx = am_rx_init am_node_bearer_config,
     b_queue = [], b_established = False\<rparr>"

definition make_um_bearer :: "qci \<Rightarrow> um_bearer" where
  "make_um_bearer q =
     (let cfg = um_default_config\<lparr>uc_t_reorder_ms := 100\<rparr>
      in \<lparr>b_qci = q, b_tx = um_tx_init cfg, b_rx = um_rx_init cfg, b_queue = [], b_established = False\<rparr>)"

record bearer_set =
  bs_ctrl :: "app_pdu list"
  bs_sig :: am_bearer
  bs_voice :: um_bearer
  bs_video :: um_bearer
  bs_be :: am_bearer
  bs_since_be :: u32

definition bearer_set_init :: bearer_set where
  "bearer_set_init = \<lparr>bs_ctrl = [], bs_sig = make_am_bearer QCI_SIG, bs_voice = make_um_bearer QCI_VOICE,
     bs_video = make_um_bearer QCI_VIDEO, bs_be = make_am_bearer QCI_BEST_EFFORT, bs_since_be = 0\<rparr>"

text \<open>
  The accessors that return references in the source are a reader and an updater here. Like
  the source, \<open>am_of\<close> maps everything but SIG to best effort and \<open>um_of\<close> everything but VOICE
  to video.
\<close>

definition am_of :: "qci \<Rightarrow> bearer_set \<Rightarrow> am_bearer" where
  "am_of q s = (if q = QCI_SIG then bs_sig s else bs_be s)"

definition am_of_update :: "qci \<Rightarrow> (am_bearer \<Rightarrow> am_bearer) \<Rightarrow> bearer_set \<Rightarrow> bearer_set" where
  "am_of_update q f s = (if q = QCI_SIG then s\<lparr>bs_sig := f (bs_sig s)\<rparr> else s\<lparr>bs_be := f (bs_be s)\<rparr>)"

definition um_of :: "qci \<Rightarrow> bearer_set \<Rightarrow> um_bearer" where
  "um_of q s = (if q = QCI_VOICE then bs_voice s else bs_video s)"

definition um_of_update :: "qci \<Rightarrow> (um_bearer \<Rightarrow> um_bearer) \<Rightarrow> bearer_set \<Rightarrow> bearer_set" where
  "um_of_update q f s = (if q = QCI_VOICE then s\<lparr>bs_voice := f (bs_voice s)\<rparr> else s\<lparr>bs_video := f (bs_video s)\<rparr>)"

fun queue_of :: "qci \<Rightarrow> bearer_set \<Rightarrow> app_pdu list" where
  "queue_of QCI_SIG s = b_queue (bs_sig s)"
| "queue_of QCI_VOICE s = b_queue (bs_voice s)"
| "queue_of QCI_VIDEO s = b_queue (bs_video s)"
| "queue_of QCI_BEST_EFFORT s = b_queue (bs_be s)"

fun set_queue_of :: "qci \<Rightarrow> app_pdu list \<Rightarrow> bearer_set \<Rightarrow> bearer_set" where
  "set_queue_of QCI_SIG xs s = s\<lparr>bs_sig := (bs_sig s)\<lparr>b_queue := xs\<rparr>\<rparr>"
| "set_queue_of QCI_VOICE xs s = s\<lparr>bs_voice := (bs_voice s)\<lparr>b_queue := xs\<rparr>\<rparr>"
| "set_queue_of QCI_VIDEO xs s = s\<lparr>bs_video := (bs_video s)\<lparr>b_queue := xs\<rparr>\<rparr>"
| "set_queue_of QCI_BEST_EFFORT xs s = s\<lparr>bs_be := (bs_be s)\<lparr>b_queue := xs\<rparr>\<rparr>"

fun established_of :: "qci \<Rightarrow> bearer_set \<Rightarrow> bool" where
  "established_of QCI_SIG s = b_established (bs_sig s)"
| "established_of QCI_VOICE s = b_established (bs_voice s)"
| "established_of QCI_VIDEO s = b_established (bs_video s)"
| "established_of QCI_BEST_EFFORT s = b_established (bs_be s)"

fun set_established_of :: "qci \<Rightarrow> bool \<Rightarrow> bearer_set \<Rightarrow> bearer_set" where
  "set_established_of QCI_SIG e s = s\<lparr>bs_sig := (bs_sig s)\<lparr>b_established := e\<rparr>\<rparr>"
| "set_established_of QCI_VOICE e s = s\<lparr>bs_voice := (bs_voice s)\<lparr>b_established := e\<rparr>\<rparr>"
| "set_established_of QCI_VIDEO e s = s\<lparr>bs_video := (bs_video s)\<lparr>b_established := e\<rparr>\<rparr>"
| "set_established_of QCI_BEST_EFFORT e s = s\<lparr>bs_be := (bs_be s)\<lparr>b_established := e\<rparr>\<rparr>"

definition bearers_empty :: "bearer_set \<Rightarrow> bool" where
  "bearers_empty s \<longleftrightarrow>
     bs_ctrl s = [] \<and> b_queue (bs_sig s) = [] \<and> b_queue (bs_voice s) = [] \<and> b_queue (bs_video s) = [] \<and> b_queue (bs_be s) = []"

definition pick_queue :: "bearer_set \<Rightarrow> qci \<times> bearer_set" where
  "pick_queue s =
     (if queue_of QCI_BEST_EFFORT s \<noteq> [] \<and> bs_since_be s \<ge> 3 then (QCI_BEST_EFFORT, s\<lparr>bs_since_be := 0\<rparr>)
      else
        (case find (\<lambda>q. queue_of q s \<noteq> []) [QCI_SIG, QCI_VOICE, QCI_VIDEO, QCI_BEST_EFFORT] of
           Some q \<Rightarrow> (q, if q \<noteq> QCI_BEST_EFFORT then s\<lparr>bs_since_be := bs_since_be s + 1\<rparr> else s)
         | None \<Rightarrow> (QCI_BEST_EFFORT, s)))"

text \<open>
  \<open>None\<close> in the first component stands for the control queue. The source must not be called on
  an empty set (\<^verbatim>\<open>front()\<close> of an empty queue); the model returns no PDU there.
\<close>

definition pop_next :: "bearer_set \<Rightarrow> ((qci option \<times> app_pdu) \<times> bearer_set) option" where
  "pop_next s =
     (case bs_ctrl s of
        p # ps \<Rightarrow> Some ((None, p), s\<lparr>bs_ctrl := ps\<rparr>)
      | [] \<Rightarrow>
          let (q, s') = pick_queue s in
          (case queue_of q s' of
             [] \<Rightarrow> None
           | p # ps \<Rightarrow> Some ((Some q, p), set_queue_of q ps s')))"

subsection \<open>Channels and classes\<close>

lemma lcid_round_trip:
  "qci_of_lcid (lcid_of q) = Some q" "qci_of_status_lcid (status_lcid_of QCI_SIG) = Some QCI_SIG"
  "qci_of_status_lcid (status_lcid_of QCI_BEST_EFFORT) = Some QCI_BEST_EFFORT"
  by (cases q; simp add: qci_of_lcid_def LCID_APP_SIG_def LCID_APP_VOICE_def LCID_APP_VIDEO_def LCID_APP_DTCH_def)
    (simp_all add: qci_of_status_lcid_def LCID_RLC_STATUS_SIG_def LCID_RLC_STATUS_def)

lemma queue_of_set [simp]: "queue_of q (set_queue_of q' xs s) = (if q = q' then xs else queue_of q s)"
  by (cases q; cases q'; simp)

lemma ctrl_set_queue [simp]: "bs_ctrl (set_queue_of q xs s) = bs_ctrl s" "bs_since_be (set_queue_of q xs s) = bs_since_be s"
  by (cases q; simp)+

lemma pick_queue_frame [simp]:
  "queue_of q (snd (pick_queue s)) = queue_of q s" "bs_ctrl (snd (pick_queue s)) = bs_ctrl s"
proof -
  have "queue_of q (s\<lparr>bs_since_be := n\<rparr>) = queue_of q s" for n by (cases q) simp_all
  then show "queue_of q (snd (pick_queue s)) = queue_of q s" by (auto simp: pick_queue_def split: option.split)
  show "bs_ctrl (snd (pick_queue s)) = bs_ctrl s" by (auto simp: pick_queue_def split: option.split)
qed

text \<open>Which class is picked.\<close>

lemma pick_queue_cases:
  "fst (pick_queue s) =
     (if queue_of QCI_BEST_EFFORT s \<noteq> [] \<and> bs_since_be s \<ge> 3 then QCI_BEST_EFFORT
      else if queue_of QCI_SIG s \<noteq> [] then QCI_SIG
      else if queue_of QCI_VOICE s \<noteq> [] then QCI_VOICE
      else if queue_of QCI_VIDEO s \<noteq> [] then QCI_VIDEO
      else QCI_BEST_EFFORT)"
  by (simp add: pick_queue_def)

lemma pick_queue_since:
  "fst (pick_queue s) \<noteq> QCI_BEST_EFFORT \<Longrightarrow> bs_since_be (snd (pick_queue s)) = bs_since_be s + 1"
  by (auto simp: pick_queue_def split: if_splits option.split)

lemma pick_queue_nonempty:
  "\<not> bearers_empty s \<Longrightarrow> bs_ctrl s = [] \<Longrightarrow> queue_of (fst (pick_queue s)) s \<noteq> []"
  by (auto simp: pick_queue_cases bearers_empty_def)

lemma pop_next_ctrl_free:
  assumes "bs_ctrl s = []" "\<not> bearers_empty s"
  shows "pop_next s = Some ((Some (fst (pick_queue s)), hd (queue_of (fst (pick_queue s)) s)),
           set_queue_of (fst (pick_queue s)) (tl (queue_of (fst (pick_queue s)) s)) (snd (pick_queue s)))"
  using assms pick_queue_nonempty [OF assms(2,1)] pick_queue_frame(1) [of "fst (pick_queue s)" s]
  by (auto simp: pop_next_def split_beta split: list.split)

lemma pop_next_frame:
  assumes "\<not> bearers_empty s"
  shows "\<exists>c p s'. pop_next s = Some ((c, p), s') \<and>
     (case c of
        None \<Rightarrow> bs_ctrl s = p # bs_ctrl s' \<and> (\<forall>q. queue_of q s' = queue_of q s)
      | Some k \<Rightarrow> bs_ctrl s = [] \<and> bs_ctrl s' = [] \<and> queue_of k s = p # queue_of k s' \<and>
          (\<forall>q. q \<noteq> k \<longrightarrow> queue_of q s' = queue_of q s) \<and>
          k = (if queue_of QCI_BEST_EFFORT s \<noteq> [] \<and> bs_since_be s \<ge> 3 then QCI_BEST_EFFORT
               else the (find (\<lambda>q. queue_of q s \<noteq> []) [QCI_SIG, QCI_VOICE, QCI_VIDEO, QCI_BEST_EFFORT])))"
proof (cases "bs_ctrl s")
  case (Cons p ps)
  have "queue_of q (s\<lparr>bs_ctrl := ps\<rparr>) = queue_of q s" for q by (cases q) simp_all
  with Cons show ?thesis by (simp add: pop_next_def)
next
  case Nil
  let ?k = "fst (pick_queue s)"
  have "?k = (if queue_of QCI_BEST_EFFORT s \<noteq> [] \<and> bs_since_be s \<ge> 3 then QCI_BEST_EFFORT
      else the (find (\<lambda>q. queue_of q s \<noteq> []) [QCI_SIG, QCI_VOICE, QCI_VIDEO, QCI_BEST_EFFORT]))"
    using assms Nil by (auto simp: pick_queue_def bearers_empty_def)
  moreover have "queue_of ?k s \<noteq> []" by (rule pick_queue_nonempty [OF assms Nil])
  ultimately show ?thesis
    using pop_next_ctrl_free [OF Nil assms] Nil by simp
qed

text \<open>
  Picking: from a set that is not empty a PDU is always returned; it is the head of the
  control queue if that has one, and otherwise the head of one class's queue, namely best
  effort if it waits and has been passed over three times, else the first non-empty of
  signalling, voice, video, best effort. All other queues, and the rest of the picked one,
  are unchanged, so no PDU is lost, duplicated or reordered within its class.
\<close>
theorem qos_pop_next:
  assumes "\<not> bearers_empty s"
  shows "\<exists>c p s'. pop_next s = Some ((c, p), s') \<and>
     (case c of
        None \<Rightarrow> bs_ctrl s = p # bs_ctrl s' \<and> (\<forall>q. queue_of q s' = queue_of q s)
      | Some k \<Rightarrow> bs_ctrl s = [] \<and> bs_ctrl s' = [] \<and> queue_of k s = p # queue_of k s' \<and>
          (\<forall>q. q \<noteq> k \<longrightarrow> queue_of q s' = queue_of q s) \<and>
          k = (if queue_of QCI_BEST_EFFORT s \<noteq> [] \<and> bs_since_be s \<ge> 3 then QCI_BEST_EFFORT
               else the (find (\<lambda>q. queue_of q s \<noteq> []) [QCI_SIG, QCI_VOICE, QCI_VIDEO, QCI_BEST_EFFORT])))"
  using assms by (rule pop_next_frame)

definition qos_demo :: bearer_set where
  "qos_demo = set_queue_of QCI_BEST_EFFORT [\<lparr>ap_lcid = LCID_APP_DTCH, ap_cipher = True, ap_bytes = [1]\<rparr>]
     (set_queue_of QCI_SIG (replicate 9 \<lparr>ap_lcid = LCID_APP_SIG, ap_cipher = True, ap_bytes = [2]\<rparr>) bearer_set_init)"

theorem qos_pop_next_witness:
  "\<exists>p s'. pop_next qos_demo = Some ((Some QCI_SIG, p), s') \<and> queue_of QCI_SIG qos_demo = p # queue_of QCI_SIG s'"
proof -
  have "\<not> bearers_empty qos_demo" "bs_ctrl qos_demo = []" "queue_of QCI_SIG qos_demo \<noteq> []" "\<not> bs_since_be qos_demo \<ge> 3"
    by (simp_all add: qos_demo_def bearers_empty_def bearer_set_init_def make_am_bearer_def word_le_nat_alt)
  then show ?thesis using qos_pop_next [of qos_demo] by (auto split: option.splits)
qed

subsection \<open>The minimum share of best effort\<close>

datatype qos_op = QPush qci app_pdu | QPop

fun qos_run :: "qos_op list \<Rightarrow> bearer_set \<Rightarrow> (qci option \<times> app_pdu) list \<times> bearer_set" where
  "qos_run [] s = ([], s)"
| "qos_run (QPush q p # ops) s = qos_run ops (set_queue_of q (queue_of q s @ [p]) s)"
| "qos_run (QPop # ops) s =
     (case pop_next s of
        None \<Rightarrow> qos_run ops s
      | Some (x, s') \<Rightarrow> (case qos_run ops s' of (xs, s'') \<Rightarrow> (x # xs, s'')))"

definition qos_patience :: "bearer_set \<Rightarrow> nat" where
  "qos_patience s = 3 - min 3 (unat (bs_since_be s))"

lemma qos_patience_step:
  assumes "queue_of QCI_BEST_EFFORT s \<noteq> []" "fst (pick_queue s) \<noteq> QCI_BEST_EFFORT"
  shows "qos_patience s = Suc (qos_patience (snd (pick_queue s)))"
proof -
  have n: "\<not> bs_since_be s \<ge> 3" using assms by (auto simp: pick_queue_cases)
  then have "unat (bs_since_be s + 1) = unat (bs_since_be s) + 1"
    by (simp add: word_le_nat_alt unat_word_ariths)
  then show ?thesis
    using n pick_queue_since [OF assms(2)] by (simp add: qos_patience_def word_le_nat_alt)
qed

lemma qos_best_effort_served:
  assumes "bs_ctrl s = []" "queue_of QCI_BEST_EFFORT s = p # ps" "qos_patience s < length (filter (\<lambda>x. x = QPop) ops)"
  shows "(Some QCI_BEST_EFFORT, p) \<in> set (take (Suc (qos_patience s)) (fst (qos_run ops s)))"
  using assms
proof (induction ops arbitrary: s ps)
  case (Cons op ops)
  show ?case
  proof (cases op)
    case (QPush q x)
    have "qos_patience (set_queue_of q (queue_of q s @ [x]) s) = qos_patience s" by (simp add: qos_patience_def)
    then show ?thesis
      using QPush Cons.prems Cons.IH [of "set_queue_of q (queue_of q s @ [x]) s"]
      by (cases "q = QCI_BEST_EFFORT") auto
  next
    case QPop
    have ne: "\<not> bearers_empty s" using Cons.prems(2) by (auto simp: bearers_empty_def)
    let ?k = "fst (pick_queue s)"
    let ?s = "set_queue_of ?k (tl (queue_of ?k s)) (snd (pick_queue s))"
    have run: "fst (qos_run (op # ops) s) = (Some ?k, hd (queue_of ?k s)) # fst (qos_run ops ?s)"
      using QPop pop_next_ctrl_free [OF Cons.prems(1) ne] by (simp add: split_beta)
    show ?thesis
    proof (cases "?k = QCI_BEST_EFFORT")
      case True
      then show ?thesis using run Cons.prems(2) by simp
    next
      case False
      have p: "qos_patience s = Suc (qos_patience ?s)"
        using qos_patience_step [OF _ False] Cons.prems(2) by (simp add: qos_patience_def)
      have "(Some QCI_BEST_EFFORT, p) \<in> set (take (Suc (qos_patience ?s)) (fst (qos_run ops ?s)))"
        by (rule Cons.IH) (use Cons.prems False p QPop in auto)
      then show ?thesis using run p by simp
    qed
  qed
qed simp

text \<open>
  C32. No starvation: while no control PDUs are queued, a best-effort PDU at the head of its
  queue is among the next four PDUs picked, whatever is queued in any class in between.
\<close>
theorem qos_best_effort_min_share:
  assumes "bs_ctrl s = []" "queue_of QCI_BEST_EFFORT s = p # ps" "4 \<le> length (filter (\<lambda>x. x = QPop) ops)"
  shows "(Some QCI_BEST_EFFORT, p) \<in> set (take 4 (fst (qos_run ops s)))"
proof -
  have "qos_patience s \<le> 3" by (simp add: qos_patience_def)
  then show ?thesis
    using qos_best_effort_served [OF assms(1,2), of ops] assms(3)
      set_take_subset_set_take [of "Suc (qos_patience s)" 4 "fst (qos_run ops s)"] by auto
qed

theorem qos_best_effort_min_share_witness:
  "(Some QCI_BEST_EFFORT, \<lparr>ap_lcid = LCID_APP_DTCH, ap_cipher = True, ap_bytes = [1]\<rparr>) \<in> set (take 4 (fst (qos_run (replicate 4 QPop) qos_demo)))"
  by (rule qos_best_effort_min_share [where ps = "[]"]) (simp_all add: qos_demo_def bearer_set_init_def)

end
