(* ===== verification/Timers.thy ===== *)
theory Timers
  imports Prelude
begin

text \<open>
  The timer table, \<^verbatim>\<open>stack/core/src/timer_list.cpp\<close>: one-shot and periodic timers on an explicit
  millisecond clock of 32 bits that wraps. A callback may schedule and cancel timers, so the
  model takes its effect on the table as a parameter \<open>run\<close> and returns the callbacks fired.
\<close>

record 'c timer_entry =
  te_id :: u32
  te_deadline :: u32
  te_interval :: u32
  te_cb :: 'c

record 'c timer_list =
  tl_entries :: "'c timer_entry list"
  tl_next_id :: u32
  tl_last_now :: u32

definition TIMER_NONE :: u32 where "TIMER_NONE = 0xFFFFFFFF"

definition timer_list_init :: "'c timer_list" where
  "timer_list_init = \<lparr>tl_entries = [], tl_next_id = 1, tl_last_now = 0\<rparr>"

definition timer_schedule :: "u32 \<Rightarrow> bool \<Rightarrow> 'c \<Rightarrow> 'c timer_list \<Rightarrow> u32 \<times> 'c timer_list" where
  "timer_schedule delay periodic cb t =
     (let e = \<lparr>te_id = tl_next_id t, te_deadline = tl_last_now t + delay,
               te_interval = (if periodic then delay else 0), te_cb = cb\<rparr>
      in (te_id e, t\<lparr>tl_entries := tl_entries t @ [e], tl_next_id := tl_next_id t + 1\<rparr>))"

text \<open>\<^verbatim>\<open>erase(find_if(...))\<close>: the first entry with the id.\<close>

fun erase_first :: "('a \<Rightarrow> bool) \<Rightarrow> 'a list \<Rightarrow> 'a list" where
  "erase_first P [] = []"
| "erase_first P (x # xs) = (if P x then xs else x # erase_first P xs)"

fun update_first :: "('a \<Rightarrow> bool) \<Rightarrow> ('a \<Rightarrow> 'a) \<Rightarrow> 'a list \<Rightarrow> 'a list" where
  "update_first P f [] = []"
| "update_first P f (x # xs) = (if P x then f x # xs else x # update_first P f xs)"

definition timer_cancel :: "u32 \<Rightarrow> 'c timer_list \<Rightarrow> 'c timer_list" where
  "timer_cancel i t = t\<lparr>tl_entries := erase_first (\<lambda>e. te_id e = i) (tl_entries t)\<rparr>"

definition timer_clear :: "'c timer_list \<Rightarrow> 'c timer_list" where
  "timer_clear t = t\<lparr>tl_entries := []\<rparr>"

text \<open>\<^verbatim>\<open>static_cast<int32_t>(now - deadline) >= 0\<close>.\<close>

definition timer_due :: "u32 \<Rightarrow> u32 \<Rightarrow> bool" where
  "timer_due now deadline \<longleftrightarrow> 0 \<le> sint (now - deadline)"

definition timer_rearm :: "u32 \<Rightarrow> 'c timer_entry \<Rightarrow> 'c timer_entry" where
  "timer_rearm now e =
     (let d = te_deadline e + te_interval e
      in e\<lparr>te_deadline := (if timer_due now d then now + te_interval e else d)\<rparr>)"

text \<open>The loop over the snapshot of due ids; \<open>run\<close> is what a callback does to the table.\<close>

fun timer_fire :: "('c \<Rightarrow> 'c timer_list \<Rightarrow> 'c timer_list) \<Rightarrow> u32 \<Rightarrow> u32 list \<Rightarrow> 'c timer_list \<Rightarrow> 'c timer_list \<times> 'c list" where
  "timer_fire run now [] t = (t, [])"
| "timer_fire run now (i # is) t =
     (case find (\<lambda>e. te_id e = i) (tl_entries t) of
        None \<Rightarrow> timer_fire run now is t
      | Some e \<Rightarrow>
          let es = (if te_interval e > 0 then update_first (\<lambda>e. te_id e = i) (timer_rearm now) (tl_entries t)
                    else erase_first (\<lambda>e. te_id e = i) (tl_entries t));
              (t', fired) = timer_fire run now is (run (te_cb e) (t\<lparr>tl_entries := es\<rparr>))
          in (t', te_cb e # fired))"

definition timer_tick ::
  "('c \<Rightarrow> 'c timer_list \<Rightarrow> 'c timer_list) \<Rightarrow> u32 \<Rightarrow> 'c timer_list \<Rightarrow> 'c timer_list \<times> 'c list \<times> u32" where
  "timer_tick run now t =
     (let t = (if sint (now - tl_last_now t) > 0 then t\<lparr>tl_last_now := now\<rparr> else t);
          due = map te_id (filter (\<lambda>e. timer_due now (te_deadline e)) (tl_entries t));
          (t', fired) = timer_fire run now due t
      in (t', fired, foldl min TIMER_NONE (map (\<lambda>e. te_deadline e - now) (tl_entries t'))))"

subsection \<open>The clock\<close>

lemma sint_neg_of_nat:
  assumes "0 < n" "n < 2 ^ 31"
  shows "sint (- word_of_nat n :: u32) < 0"
proof -
  have "(- word_of_nat n :: u32) = word_of_int (- int n)" by simp
  then have "sint (- word_of_nat n :: u32) = signed_take_bit 31 (- int n)"
    by (simp only: sint_sbintrunc') simp
  also have "\<dots> = - int n"
    using assms by (subst signed_take_bit_int_eq_self_iff) simp
  finally show ?thesis using assms(1) by simp
qed

lemma sint_neg_small: "0 < unat x \<Longrightarrow> unat x < 2 ^ 31 \<Longrightarrow> sint (- x :: u32) < 0"
  using sint_neg_of_nat [of "unat x"] by simp

lemma timer_rearm_not_due:
  assumes "0 < te_interval e" "unat (te_interval e) < 2 ^ 31"
  shows "\<not> timer_due now (te_deadline (timer_rearm now e))"
proof (cases "timer_due now (te_deadline e + te_interval e)")
  case True
  have "0 < unat (te_interval e)" using assms(1) by (simp add: word_less_nat_alt)
  then show ?thesis
    using True sint_neg_small [OF _ assms(2)] by (simp add: timer_rearm_def timer_due_def Let_def)
next
  case False
  then show ?thesis by (simp add: timer_rearm_def Let_def)
qed

subsection \<open>Firing\<close>

lemma te_id_rearm [simp]: "te_id (timer_rearm now e) = te_id e"
  by (simp add: timer_rearm_def Let_def)

lemma erase_first_skip: "\<forall>x \<in> set xs. \<not> P x \<Longrightarrow> erase_first P (xs @ ys) = xs @ erase_first P ys"
  by (induction xs) auto

lemma update_first_skip: "\<forall>x \<in> set xs. \<not> P x \<Longrightarrow> update_first P f (xs @ ys) = xs @ update_first P f ys"
  by (induction xs) auto

lemma find_skip: "\<forall>x \<in> set xs. \<not> P x \<Longrightarrow> find P (xs @ ys) = find P ys"
  by (induction xs) auto

text \<open>What a tick makes of one entry when callbacks leave the table alone.\<close>

definition timer_next :: "u32 \<Rightarrow> 'c timer_entry \<Rightarrow> 'c timer_entry list" where
  "timer_next now e =
     (if timer_due now (te_deadline e) then (if te_interval e > 0 then [timer_rearm now e] else []) else [e])"

lemma timer_fire_passive:
  assumes "distinct (map te_id (old @ todo))"
  shows "timer_fire (\<lambda>_ t. t) now (map te_id (filter (\<lambda>e. timer_due now (te_deadline e)) todo)) (t\<lparr>tl_entries := old @ todo\<rparr>) =
     (t\<lparr>tl_entries := old @ concat (map (timer_next now) todo)\<rparr>,
      map te_cb (filter (\<lambda>e. timer_due now (te_deadline e)) todo))"
  using assms
proof (induction todo arbitrary: old)
  case (Cons e todo)
  have notin: "\<forall>x \<in> set old. te_id x \<noteq> te_id e" using Cons.prems by (force simp: image_iff)
  show ?case
  proof (cases "timer_due now (te_deadline e)")
    case False
    then show ?thesis using Cons.IH [of "old @ [e]"] Cons.prems by (simp add: timer_next_def)
  next
    case True
    show ?thesis
    proof (cases "te_interval e > 0")
      case per: True
      have "distinct (map te_id ((old @ [timer_rearm now e]) @ todo))" using Cons.prems by simp
      from Cons.IH [OF this] show ?thesis
        using True per notin by (simp add: find_skip update_first_skip timer_next_def Let_def split_beta)
    next
      case one: False
      have "distinct (map te_id (old @ todo))" using Cons.prems by simp
      from Cons.IH [OF this] show ?thesis
        using True one notin by (simp add: find_skip erase_first_skip timer_next_def Let_def split_beta)
    qed
  qed
qed simp

text \<open>The identifiers stay distinct and below the next one until that wraps.\<close>

definition timer_ok :: "'c timer_list \<Rightarrow> bool" where
  "timer_ok t \<longleftrightarrow> distinct (map te_id (tl_entries t)) \<and> (\<forall>e \<in> set (tl_entries t). te_id e < tl_next_id t)"

lemma set_erase_first: "set (erase_first P xs) \<subseteq> set xs"
  by (induction xs) auto

lemma distinct_erase_first: "distinct (map f xs) \<Longrightarrow> distinct (map f (erase_first P xs))"
  by (induction xs) (use set_erase_first in fastforce)+

lemma map_update_first: "(\<And>x. g (f x) = g x) \<Longrightarrow> map g (update_first P f xs) = map g xs"
  by (induction xs) auto

lemma timer_schedule_ok:
  assumes "timer_ok t" "unat (tl_next_id t) < 2 ^ 32 - 1"
  shows "timer_ok (snd (timer_schedule delay per cb t))"
proof -
  have "tl_next_id t < tl_next_id t + 1" using assms(2) by (simp add: word_less_nat_alt unat_word_ariths)
  then show ?thesis
    using assms(1) by (auto simp: timer_ok_def timer_schedule_def Let_def)
qed

lemma timer_cancel_ok: "timer_ok t \<Longrightarrow> timer_ok (timer_cancel i t)"
  using set_erase_first by (fastforce simp: timer_ok_def timer_cancel_def intro: distinct_erase_first)

lemma map_id_timer_next:
  "set (map te_id (concat (map (timer_next now) es))) \<subseteq> te_id ` set es"
  "distinct (map te_id es) \<Longrightarrow> distinct (map te_id (concat (map (timer_next now) es)))"
proof (induction es)
  case (Cons e es)
  { case 1 show ?case using Cons.IH(1) by (auto simp: timer_next_def) }
  { case 2 show ?case using Cons.IH 2 by (auto simp: timer_next_def) }
qed simp_all

lemma timer_next_not_due:
  assumes "e' \<in> set (timer_next now e)" "unat (te_interval e) < 2 ^ 31"
  shows "\<not> timer_due now (te_deadline e')"
  using assms timer_rearm_not_due [of e now] by (auto simp: timer_next_def split: if_splits)

lemma foldl_min:
  fixes m :: "'a::linorder"
  shows "foldl min m xs \<le> m \<and> (\<forall>x \<in> set xs. foldl min m xs \<le> x) \<and> (foldl min m xs = m \<or> foldl min m xs \<in> set xs)"
proof (induction xs arbitrary: m)
  case (Cons x xs)
  show ?case using Cons [of "min m x"] by (auto simp: min_def split: if_splits)
qed simp

text \<open>
  A tick with callbacks that do not touch the table, on a table with distinct identifiers
  and intervals below $2^{31}$: it fires exactly the callbacks of the due timers, in table
  order and once each; fired one-shot timers are gone, fired periodic timers are re-armed,
  all others are untouched; nothing in the resulting table is due, whatever the clock did
  (including wrap-around and long stalls); and the value returned is the smallest time to a
  deadline of the new table, or TIMER NONE if it is empty.
\<close>
theorem timer_tick_fires_due:
  assumes "timer_ok t" "\<forall>e \<in> set (tl_entries t). unat (te_interval e) < 2 ^ 31"
  shows "case timer_tick (\<lambda>_ t. t) now t of (t', fired, wait) \<Rightarrow>
     fired = map te_cb (filter (\<lambda>e. timer_due now (te_deadline e)) (tl_entries t)) \<and>
     tl_entries t' = concat (map (timer_next now) (tl_entries t)) \<and> timer_ok t' \<and>
     (\<forall>e \<in> set (tl_entries t'). \<not> timer_due now (te_deadline e) \<and> wait \<le> te_deadline e - now) \<and>
     (if tl_entries t' = [] then wait = TIMER_NONE else \<exists>e \<in> set (tl_entries t'). wait = te_deadline e - now)"
proof -
  define u where "u = (if sint (now - tl_last_now t) > 0 then t\<lparr>tl_last_now := now\<rparr> else t)"
  define es where "es = concat (map (timer_next now) (tl_entries t))"
  let ?w = "foldl min TIMER_NONE (map (\<lambda>e. te_deadline e - now) es)"
  have d: "distinct (map te_id ([] @ tl_entries t))" using assms(1) by (simp add: timer_ok_def)
  have e: "tl_entries u = tl_entries t" "tl_next_id u = tl_next_id t" by (simp_all add: u_def)
  have "u\<lparr>tl_entries := [] @ tl_entries t\<rparr> = u" by (simp add: u_def)
  then have fire: "timer_fire (\<lambda>_ t. t) now (map te_id (filter (\<lambda>e. timer_due now (te_deadline e)) (tl_entries u))) u =
      (u\<lparr>tl_entries := es\<rparr>, map te_cb (filter (\<lambda>e. timer_due now (te_deadline e)) (tl_entries t)))"
    using timer_fire_passive [OF d, of now u] unfolding e es_def by simp
  have tick: "timer_tick (\<lambda>_ t. t) now t =
      (u\<lparr>tl_entries := es\<rparr>, map te_cb (filter (\<lambda>e. timer_due now (te_deadline e)) (tl_entries t)), ?w)"
    unfolding timer_tick_def Let_def u_def [symmetric] fire by simp
  have ok: "timer_ok (u\<lparr>tl_entries := es\<rparr>)"
  proof -
    have "te_id x < tl_next_id t" if "x \<in> set es" for x
    proof -
      have "te_id x \<in> te_id ` set (tl_entries t)" using map_id_timer_next(1) [of now "tl_entries t"] that by (auto simp: es_def)
      then show ?thesis using assms(1) by (auto simp: timer_ok_def)
    qed
    then show ?thesis using map_id_timer_next(2) [of "tl_entries t" now] d e by (auto simp: timer_ok_def es_def)
  qed
  have nd: "\<not> timer_due now (te_deadline x)" if "x \<in> set es" for x
    using that assms(2) timer_next_not_due by (fastforce simp: es_def)
  have w: "\<forall>x \<in> set es. ?w \<le> te_deadline x - now" "?w = TIMER_NONE \<or> (\<exists>x \<in> set es. ?w = te_deadline x - now)"
    using foldl_min [of TIMER_NONE "map (\<lambda>e. te_deadline e - now) es"] by auto
  have "if es = [] then ?w = TIMER_NONE else \<exists>e \<in> set es. ?w = te_deadline e - now"
  proof (cases "es = []")
    case False
    then obtain x where x: "x \<in> set es" using hd_in_set by blast
    have top: "TIMER_NONE \<le> y \<Longrightarrow> y = TIMER_NONE" for y :: u32
    proof -
      have "TIMER_NONE = - 1" by (simp add: TIMER_NONE_def)
      then show "TIMER_NONE \<le> y \<Longrightarrow> y = TIMER_NONE" using word_order.extremum_unique [of y] by simp
    qed
    have "\<exists>e \<in> set es. ?w = te_deadline e - now"
      using w(2)
    proof
      assume n: "?w = TIMER_NONE"
      then have "?w = te_deadline x - now" using w(1) x top [of "te_deadline x - now"] by metis
      with x show ?thesis by blast
    qed
    then show ?thesis using False by simp
  qed simp
  then show ?thesis unfolding tick es_def [symmetric] using ok nd w(1) by simp
qed

definition timers_demo :: "string timer_list" where
  "timers_demo = snd (timer_schedule 100 False ''once'' (snd (timer_schedule 30 True ''tick'' timer_list_init)))"

theorem timer_tick_fires_due_witness:
  "case timer_tick (\<lambda>_ t. t) 100 timers_demo of (t', fired, wait) \<Rightarrow>
     fired = [''tick'', ''once''] \<and> map te_deadline (tl_entries t') = [130] \<and> wait = 30"
proof -
  have demo: "tl_entries timers_demo =
      [\<lparr>te_id = 1, te_deadline = 30, te_interval = 30, te_cb = ''tick''\<rparr>, \<lparr>te_id = 2, te_deadline = 100, te_interval = 0, te_cb = ''once''\<rparr>]"
    "tl_next_id timers_demo = 3"
    by (simp_all add: timers_demo_def timer_schedule_def timer_list_init_def)
  have due: "timer_due 100 30" "timer_due 100 100" "timer_due 100 60" by code_simp+
  have "timer_ok timers_demo" "\<forall>e \<in> set (tl_entries timers_demo). unat (te_interval e) < 2 ^ 31"
    by (simp_all add: timer_ok_def demo word_less_nat_alt)
  from timer_tick_fires_due [OF this, of 100] show ?thesis
    by (auto simp: demo due timer_next_def timer_rearm_def Let_def split_beta)
qed

end
