(* ===== verification/Conf.thy ===== *)
theory Conf
  imports U2u
begin

text \<open>
  The conference bridge of the base station, \<^verbatim>\<open>stack/core/src/bs_node.cpp\<close>: the membership it
  splices together by snooping the SIP-lite signalling it forwards, and the purge of a
  terminal that vanished. The membership vectors of the source are lists; the lemmas show
  that they never hold a duplicate, so that the size comparisons of the source are
  comparisons of sets, that the signalling implements an abstract bridge over sets, and
  that a conference is stored exactly as long as it has two members or an open invitation.
\<close>

subsection \<open>State\<close>

record conference =
  cf_host :: cstring
  cf_members :: "cstring list"
  cf_invited :: "cstring list"
  cf_resolved :: "cstring list"
  cf_ever_multi :: bool

definition conference_init :: conference where
  "conference_init = \<lparr>cf_host = [], cf_members = [], cf_invited = [], cf_resolved = [], cf_ever_multi = False\<rparr>"

type_synonym confs = "u32 \<rightharpoonup> conference"

text \<open>The events of a conference, with the reasons the source gives them.\<close>

datatype leave_reason = HANGUP | BUSY | DECLINE | CANCELLED | DETACHED
datatype end_reason = HOST_LEFT | EMPTY | NO_PARTIES

datatype conf_event =
    CONF_START u32 cstring
  | CONF_JOIN u32 cstring
  | CONF_LEAVE u32 cstring leave_reason
  | CONF_END u32 end_reason

subsection \<open>Operations\<close>

definition conf_maybe_end :: "u32 \<Rightarrow> confs \<Rightarrow> confs \<times> conf_event list" where
  "conf_maybe_end cid confs =
     (case confs cid of
        None \<Rightarrow> (confs, [])
      | Some c \<Rightarrow>
          if length (cf_members c) \<ge> 2 \<or> length (cf_invited c) \<noteq> length (cf_resolved c) then (confs, [])
          else (confs(cid := None), [CONF_END cid (if cf_ever_multi c then EMPTY else NO_PARTIES)]))"

definition conf_leave :: "u32 \<Rightarrow> cstring \<Rightarrow> leave_reason \<Rightarrow> confs \<Rightarrow> confs \<times> conf_event list" where
  "conf_leave cid imsi reason confs =
     (case confs cid of
        None \<Rightarrow> (confs, [])
      | Some c \<Rightarrow>
          let c' = c\<lparr>cf_members := filter (\<lambda>m. m \<noteq> imsi) (cf_members c)\<rparr> in
          if imsi = cf_host c then (confs(cid := None), [CONF_LEAVE cid imsi reason, CONF_END cid HOST_LEFT])
          else let (confs', evs) = conf_maybe_end cid (confs(cid \<mapsto> c'))
               in (confs', CONF_LEAVE cid imsi reason # evs))"

definition conf_resolve :: "cstring \<Rightarrow> conference \<Rightarrow> conference" where
  "conf_resolve imsi c = c\<lparr>cf_resolved := cf_resolved c @ [imsi]\<rparr>"

abbreviation conf_ringing :: "cstring \<Rightarrow> conference \<Rightarrow> bool" where
  "conf_ringing imsi c \<equiv> imsi \<in> set (cf_invited c) \<and> imsi \<notin> set (cf_resolved c)"

definition conf_on_invite :: "u32 \<Rightarrow> cstring \<Rightarrow> cstring \<Rightarrow> confs \<Rightarrow> confs \<times> conf_event list" where
  "conf_on_invite cid src dst confs =
     (let c = (case confs cid of None \<Rightarrow> conference_init | Some c \<Rightarrow> c);
          fresh = (cf_host c = []);
          c1 = (if fresh then c\<lparr>cf_host := src, cf_members := cf_members c @ [src]\<rparr> else c);
          c2 = (if src = cf_host c1 \<and> dst \<notin> set (cf_invited c1)
                then c1\<lparr>cf_invited := cf_invited c1 @ [dst]\<rparr> else c1)
      in (confs(cid \<mapsto> c2), if fresh then [CONF_START cid src] else []))"

definition conf_on_ok :: "u32 \<Rightarrow> cstring \<Rightarrow> conference \<Rightarrow> confs \<Rightarrow> confs \<times> conf_event list" where
  "conf_on_ok cid src c confs =
     (if src \<in> set (cf_members c) then (confs, [])
      else
        let c1 = c\<lparr>cf_members := cf_members c @ [src]\<rparr>;
            c2 = (if conf_ringing src c1 then conf_resolve src c1 else c1);
            c3 = c2\<lparr>cf_ever_multi := cf_ever_multi c2 \<or> length (cf_members c2) \<ge> 2\<rparr>
        in (confs(cid \<mapsto> c3), [CONF_JOIN cid src]))"

text \<open>A refused or cancelled invitation: both cases of the source differ in party and reason only.\<close>

definition conf_give_up :: "u32 \<Rightarrow> cstring \<Rightarrow> leave_reason \<Rightarrow> conference \<Rightarrow> confs \<Rightarrow> confs \<times> conf_event list" where
  "conf_give_up cid party reason c confs =
     (if conf_ringing party c then
        let (confs', evs) = conf_maybe_end cid (confs(cid \<mapsto> conf_resolve party c))
        in (confs', CONF_LEAVE cid party reason # evs)
      else (confs, []))"

definition snoop_conf_sig :: "cstring \<Rightarrow> cstring \<Rightarrow> sig_message \<Rightarrow> confs \<Rightarrow> confs \<times> conf_event list" where
  "snoop_conf_sig src dst msg confs =
     (let cid = sm_conf_id msg in
      if sm_method msg = INVITE then conf_on_invite cid src dst confs
      else
        case confs cid of
          None \<Rightarrow> (confs, [])
        | Some c \<Rightarrow>
            (case sm_method msg of
               OK_200 \<Rightarrow> conf_on_ok cid src c confs
             | BYE \<Rightarrow> if src \<in> set (cf_members c) then conf_leave cid src HANGUP confs else (confs, [])
             | BUSY_486 \<Rightarrow> conf_give_up cid src BUSY c confs
             | DECLINE_603 \<Rightarrow> conf_give_up cid src DECLINE c confs
             | CANCEL \<Rightarrow> if src = cf_host c then conf_give_up cid dst CANCELLED c confs else (confs, [])
             | _ \<Rightarrow> (confs, [])))"

text \<open>\<open>order\<close> is the iteration order of \<^verbatim>\<open>confs_\<close>.\<close>

fun purge_conf_ids :: "u32 list \<Rightarrow> cstring \<Rightarrow> confs \<Rightarrow> confs \<times> conf_event list" where
  "purge_conf_ids [] imsi confs = (confs, [])"
| "purge_conf_ids (cid # ids) imsi confs =
     (let (confs1, evs1) =
            (case confs cid of
               None \<Rightarrow> (confs, [])
             | Some c \<Rightarrow>
                 if cf_host c = imsi \<or> imsi \<in> set (cf_members c) then conf_leave cid imsi DETACHED confs
                 else (confs, []));
          (confs2, evs2) = purge_conf_ids ids imsi confs1
      in (confs2, evs1 @ evs2))"

definition purge_conf_member :: "u32 list \<Rightarrow> cstring \<Rightarrow> confs \<Rightarrow> confs \<times> conf_event list" where
  "purge_conf_member order imsi confs = purge_conf_ids order imsi confs"

definition conf_member_count :: "u32 \<Rightarrow> confs \<Rightarrow> nat" where
  "conf_member_count cid confs = (case confs cid of None \<Rightarrow> 0 | Some c \<Rightarrow> length (cf_members c))"

lemmas conf_defs [state_defs] =
  conf_maybe_end_def conf_leave_def conf_resolve_def conf_on_invite_def conf_on_ok_def conf_give_up_def

subsection \<open>Well-formedness\<close>

definition conf_wf :: "conference \<Rightarrow> bool" where
  "conf_wf c \<longleftrightarrow>
     cf_host c \<noteq> [] \<and> cf_host c \<in> set (cf_members c) \<and>
     distinct (cf_members c) \<and> distinct (cf_invited c) \<and> distinct (cf_resolved c) \<and>
     set (cf_resolved c) \<subseteq> set (cf_invited c) \<and>
     (2 \<le> length (cf_members c) \<longrightarrow> cf_ever_multi c)"

definition conf_live :: "conference \<Rightarrow> bool" where
  "conf_live c \<longleftrightarrow> 2 \<le> length (cf_members c) \<or> (\<exists>p. conf_ringing p c)"

definition confs_ok :: "confs \<Rightarrow> bool" where
  "confs_ok confs \<longleftrightarrow> (\<forall>cid c. confs cid = Some c \<longrightarrow> conf_wf c \<and> conf_live c)"

text \<open>The comparison of sizes in the source decides whether an invitation is open.\<close>

lemma conf_sizes:
  assumes "conf_wf c"
  shows "length (cf_invited c) = length (cf_resolved c) \<longleftrightarrow> \<not> (\<exists>p. conf_ringing p c)"
proof -
  have d: "length (cf_invited c) = card (set (cf_invited c))" "length (cf_resolved c) = card (set (cf_resolved c))"
    and sub: "set (cf_resolved c) \<subseteq> set (cf_invited c)"
    using assms by (simp_all add: conf_wf_def distinct_card)
  have "card (set (cf_invited c)) = card (set (cf_resolved c)) \<longleftrightarrow> set (cf_invited c) = set (cf_resolved c)"
    using sub card_subset_eq [OF _ sub] by auto
  then show ?thesis using d sub by auto
qed

lemma conf_wf_two:
  assumes "conf_wf c" "p \<in> set (cf_members c)" "p \<noteq> cf_host c"
  shows "2 \<le> length (cf_members c)"
proof -
  have "card {p, cf_host c} \<le> card (set (cf_members c))"
    using assms by (intro card_mono) (auto simp: conf_wf_def)
  then show ?thesis using assms by (simp add: conf_wf_def distinct_card)
qed

lemma conf_maybe_end_eq:
  assumes "confs cid = Some c" "conf_wf c"
  shows "fst (conf_maybe_end cid confs) = (if conf_live c then confs else confs(cid := None))"
  using assms conf_sizes [OF assms(2)] by (auto simp: conf_maybe_end_def conf_live_def)

subsection \<open>The bridge over sets\<close>

text \<open>
  What a conference is meant to be: a host, the parties that hear each other, the parties
  ever asked and those of them that still ring. It closes when nobody rings and fewer than
  two parties are left.
\<close>

record bridge =
  bg_host :: cstring
  bg_members :: "cstring set"
  bg_asked :: "cstring set"
  bg_ringing :: "cstring set"

datatype bridge_op = Invite cstring cstring | Join cstring | Hangup cstring | Refuse cstring
  | Withdraw cstring cstring | NoChange

definition bridge_close :: "bridge \<Rightarrow> bridge option" where
  "bridge_close b = (if card (bg_members b) < 2 \<and> bg_ringing b = {} then None else Some b)"

fun bridge_step :: "bridge_op \<Rightarrow> bridge option \<Rightarrow> bridge option" where
  "bridge_step (Invite s p) None = Some \<lparr>bg_host = s, bg_members = {s}, bg_asked = {p}, bg_ringing = {p}\<rparr>"
| "bridge_step (Invite s p) (Some b) =
     (if s = bg_host b \<and> p \<notin> bg_asked b
      then Some (b\<lparr>bg_asked := insert p (bg_asked b), bg_ringing := insert p (bg_ringing b)\<rparr>) else Some b)"
| "bridge_step (Join p) (Some b) =
     (if p \<in> bg_members b then Some b
      else Some (b\<lparr>bg_members := insert p (bg_members b), bg_ringing := bg_ringing b - {p}\<rparr>))"
| "bridge_step (Hangup p) (Some b) =
     (if p \<notin> bg_members b then Some b
      else if p = bg_host b then None
      else bridge_close (b\<lparr>bg_members := bg_members b - {p}\<rparr>))"
| "bridge_step (Refuse p) (Some b) =
     (if p \<in> bg_ringing b then bridge_close (b\<lparr>bg_ringing := bg_ringing b - {p}\<rparr>) else Some b)"
| "bridge_step (Withdraw s p) (Some b) =
     (if s = bg_host b \<and> p \<in> bg_ringing b
      then bridge_close (b\<lparr>bg_ringing := bg_ringing b - {p}\<rparr>) else Some b)"
| "bridge_step _ b = b"

definition conf_op :: "cstring \<Rightarrow> cstring \<Rightarrow> sig_message \<Rightarrow> bridge_op" where
  "conf_op src dst msg =
     (case sm_method msg of
        INVITE \<Rightarrow> Invite src dst
      | OK_200 \<Rightarrow> Join src
      | BYE \<Rightarrow> Hangup src
      | BUSY_486 \<Rightarrow> Refuse src
      | DECLINE_603 \<Rightarrow> Refuse src
      | CANCEL \<Rightarrow> Withdraw src dst
      | _ \<Rightarrow> NoChange)"

definition conf_abs :: "conference \<Rightarrow> bridge" where
  "conf_abs c = \<lparr>bg_host = cf_host c, bg_members = set (cf_members c), bg_asked = set (cf_invited c),
     bg_ringing = set (cf_invited c) - set (cf_resolved c)\<rparr>"

definition confs_abs :: "confs \<Rightarrow> u32 \<rightharpoonup> bridge" where
  "confs_abs confs cid = map_option conf_abs (confs cid)"

lemma confs_abs_upd: "confs_abs (confs(cid := x)) = (confs_abs confs)(cid := map_option conf_abs x)"
  by (auto simp: confs_abs_def)

lemma conf_abs_live:
  "conf_wf c \<Longrightarrow> bridge_close (conf_abs c) = (if conf_live c then Some (conf_abs c) else None)"
  by (auto simp: bridge_close_def conf_abs_def conf_live_def conf_wf_def distinct_card)

text \<open>What one operation on one conference has to satisfy.\<close>

definition conf_implements :: "u32 \<Rightarrow> bridge_op \<Rightarrow> confs \<Rightarrow> confs \<Rightarrow> bool" where
  "conf_implements cid bop confs confs' \<longleftrightarrow>
     confs_ok confs' \<and> confs_abs confs' = (confs_abs confs)(cid := bridge_step bop (confs_abs confs cid))"

lemma conf_implements_put:
  assumes "confs_ok confs" "conf_wf c" "conf_live c" "bridge_step bop (confs_abs confs cid) = Some (conf_abs c)"
  shows "conf_implements cid bop confs (confs(cid \<mapsto> c))"
  using assms by (simp add: conf_implements_def confs_abs_upd) (simp add: confs_ok_def)

lemma conf_implements_end:
  assumes "confs_ok confs" "bridge_step bop (confs_abs confs cid) = None"
  shows "conf_implements cid bop confs (confs(cid := None))"
  using assms by (simp add: conf_implements_def confs_abs_upd) (simp add: confs_ok_def)

lemma conf_implements_same:
  "confs_ok confs \<Longrightarrow> bridge_step bop (confs_abs confs cid) = confs_abs confs cid \<Longrightarrow> conf_implements cid bop confs confs"
  by (simp add: conf_implements_def)

lemma conf_implements_close:
  assumes "confs_ok confs" "conf_wf c" "bridge_step bop (confs_abs confs cid) = bridge_close (conf_abs c)"
  shows "conf_implements cid bop confs (fst (conf_maybe_end cid (confs(cid \<mapsto> c))))"
proof -
  have "fst (conf_maybe_end cid (confs(cid \<mapsto> c))) = (if conf_live c then confs(cid \<mapsto> c) else confs(cid := None))"
    using conf_maybe_end_eq [of "confs(cid \<mapsto> c)" cid c] assms(2) by simp
  then show ?thesis
    using assms conf_abs_live [OF assms(2)] by (simp add: conf_implements_put conf_implements_end)
qed

lemma confs_okD: "confs_ok confs \<Longrightarrow> confs cid = Some c \<Longrightarrow> conf_wf c \<and> conf_live c"
  by (simp add: confs_ok_def)

lemma conf_implements_invite:
  assumes "confs_ok confs" "src \<noteq> []"
  shows "conf_implements cid (Invite src dst) confs (fst (conf_on_invite cid src dst confs))"
proof (cases "confs cid")
  case None
  then show ?thesis
    using assms by (auto simp: conf_on_invite_def conference_init_def conf_wf_def conf_live_def conf_abs_def confs_abs_def
        intro!: conf_implements_put)
next
  case (Some c)
  have wf: "conf_wf c" "conf_live c" using confs_okD [OF assms(1) Some] by auto
  then have h: "cf_host c \<noteq> []" by (simp add: conf_wf_def)
  show ?thesis
    unfolding conf_on_invite_def Let_def fst_conv
    by (rule conf_implements_put)
      (use assms wf h Some in \<open>auto simp: conf_wf_def conf_live_def conf_abs_def confs_abs_def\<close>)
qed

lemma conf_implements_ok:
  assumes "confs_ok confs" "confs cid = Some c"
  shows "conf_implements cid (Join src) confs (fst (conf_on_ok cid src c confs))"
proof (cases "src \<in> set (cf_members c)")
  case True
  then show ?thesis
    using assms by (auto simp: conf_on_ok_def confs_abs_def conf_abs_def intro!: conf_implements_same)
next
  case False
  have wf: "conf_wf c" using confs_okD [OF assms] by auto
  have "cf_members c \<noteq> []" using wf by (auto simp: conf_wf_def)
  then have two: "2 \<le> length (cf_members c @ [src])" by (cases "cf_members c") auto
  let ?c1 = "c\<lparr>cf_members := cf_members c @ [src]\<rparr>"
  let ?c2 = "if conf_ringing src ?c1 then conf_resolve src ?c1 else ?c1"
  let ?c3 = "?c2\<lparr>cf_ever_multi := cf_ever_multi ?c2 \<or> length (cf_members ?c2) \<ge> 2\<rparr>"
  have "conf_implements cid (Join src) confs (confs(cid \<mapsto> ?c3))"
    by (rule conf_implements_put)
      (use assms wf False two in \<open>auto simp: conf_wf_def conf_live_def conf_abs_def confs_abs_def conf_resolve_def\<close>)
  then show ?thesis using False by (simp add: conf_on_ok_def Let_def)
qed

lemma conf_implements_give_up:
  assumes "confs_ok confs" "confs cid = Some c" "bridge_step bop (Some (conf_abs c)) = bridge_step (Refuse p) (Some (conf_abs c))"
  shows "conf_implements cid bop confs (fst (conf_give_up cid p reason c confs))"
proof (cases "conf_ringing p c")
  case True
  have "conf_wf (conf_resolve p c)"
    using True confs_okD [OF assms(1,2)] by (auto simp: conf_wf_def conf_resolve_def)
  moreover have "bridge_step bop (confs_abs confs cid) = bridge_close (conf_abs (conf_resolve p c))"
    using True assms(2,3) by (simp add: confs_abs_def conf_abs_def conf_resolve_def Diff_insert [symmetric])
  ultimately show ?thesis
    using True assms(1) by (simp add: conf_give_up_def split_beta conf_implements_close)
next
  case False
  then show ?thesis
    using assms by (auto simp: conf_give_up_def confs_abs_def conf_abs_def intro!: conf_implements_same)
qed

lemma conf_implements_leave:
  assumes "confs_ok confs" "confs cid = Some c" "p \<in> set (cf_members c)"
  shows "conf_implements cid (Hangup p) confs (fst (conf_leave cid p reason confs))"
proof (cases "p = cf_host c")
  case True
  then show ?thesis
    using assms by (auto simp: conf_leave_def confs_abs_def conf_abs_def intro!: conf_implements_end)
next
  case False
  let ?c = "c\<lparr>cf_members := filter (\<lambda>m. m \<noteq> p) (cf_members c)\<rparr>"
  have wf: "conf_wf c" using confs_okD [OF assms(1,2)] by auto
  have "2 \<le> length (cf_members c)" if "2 \<le> length (filter (\<lambda>m. m \<noteq> p) (cf_members c))"
    using that length_filter_le [of "\<lambda>m. m \<noteq> p" "cf_members c"] by linarith
  then have "conf_wf ?c" using wf False by (auto simp: conf_wf_def)
  moreover have "bridge_step (Hangup p) (confs_abs confs cid) = bridge_close (conf_abs ?c)"
    using assms(2,3) False by (simp add: confs_abs_def conf_abs_def set_diff_eq)
  ultimately show ?thesis
    using assms False by (simp add: conf_leave_def split_beta Let_def conf_implements_close)
qed

lemma snoop_implements:
  assumes "confs_ok confs" "src \<noteq> []"
  shows "conf_implements (sm_conf_id msg) (conf_op src dst msg) confs (fst (snoop_conf_sig src dst msg confs))"
proof (cases "sm_method msg = INVITE")
  case True
  then show ?thesis using assms by (simp add: snoop_conf_sig_def conf_op_def conf_implements_invite)
next
  case False
  let ?i = "sm_conf_id msg"
  show ?thesis
  proof (cases "confs ?i")
    case None
    then show ?thesis
      using False assms by (cases "sm_method msg")
        (auto simp: snoop_conf_sig_def conf_op_def confs_abs_def intro!: conf_implements_same)
  next
    case (Some c)
    have same: "conf_implements ?i (conf_op src dst msg) confs confs"
      if "bridge_step (conf_op src dst msg) (Some (conf_abs c)) = Some (conf_abs c)"
      using that Some assms by (auto simp: confs_abs_def intro!: conf_implements_same)
    show ?thesis
      using False Some assms same
      by (cases "sm_method msg")
        (auto simp: snoop_conf_sig_def conf_op_def conf_abs_def conf_implements_ok conf_implements_leave
          intro!: conf_implements_give_up)
  qed
qed

subsection \<open>Runs\<close>

text \<open>
  One signalling message the base station forwards: source, destination, decoded payload.
  \<open>decode_u2u\<close> refuses an empty source, so a message always names one.
\<close>

type_synonym conf_sig = "cstring \<times> cstring \<times> sig_message"

definition conf_sig_step :: "conf_sig \<Rightarrow> confs \<Rightarrow> confs" where
  "conf_sig_step s confs = (case s of (src, dst, msg) \<Rightarrow> fst (snoop_conf_sig src dst msg confs))"

definition bridge_sig_step :: "conf_sig \<Rightarrow> (u32 \<rightharpoonup> bridge) \<Rightarrow> (u32 \<rightharpoonup> bridge)" where
  "bridge_sig_step s bs =
     (case s of (src, dst, msg) \<Rightarrow> bs(sm_conf_id msg := bridge_step (conf_op src dst msg) (bs (sm_conf_id msg))))"

interpretation conf: simulation conf_sig_step bridge_sig_step confs_abs confs_ok "\<lambda>s. fst s \<noteq> []"
proof
  fix op :: conf_sig and s assume "confs_ok s" "fst op \<noteq> []"
  then show "confs_ok (conf_sig_step op s)" "confs_abs (conf_sig_step op s) = bridge_sig_step op (confs_abs s)"
    using snoop_implements [of s "fst op" "snd (snd op)" "fst (snd op)"]
    by (simp_all add: conf_sig_step_def bridge_sig_step_def conf_implements_def split_beta)
qed

text \<open>
  C10. The conference bridge implements the abstract bridge: after any sequence of signalling
  messages with non-empty sources, the membership lists represent the sets that the abstract
  bridge reaches by the same messages, and every stored conference is well-formed (its host is
  a member, no list has duplicates, only invited parties are resolved) and live (two
  members or an open invitation).
\<close>
theorem conf_refines_bridge:
  assumes "\<forall>s \<in> set sigs. fst s \<noteq> []"
  shows "confs_abs (fold conf_sig_step sigs Map.empty) = fold bridge_sig_step sigs Map.empty \<and>
         confs_ok (fold conf_sig_step sigs Map.empty)"
proof -
  have "confs_ok Map.empty" "confs_abs Map.empty = Map.empty" by (simp_all add: confs_ok_def confs_abs_def fun_eq_iff)
  then show ?thesis using conf.sim_run [OF _ assms, of Map.empty] by simp
qed

definition conf_sig_of :: "sig_method \<Rightarrow> sig_message" where
  "conf_sig_of m = \<lparr>sm_method = m, sm_call_id = 1, sm_media = VOICE, sm_conf_id = 7\<rparr>"

definition conf_demo_sigs :: "conf_sig list" where
  "conf_demo_sigs =
     [(cstr ''A'', cstr ''B'', conf_sig_of INVITE), (cstr ''A'', cstr ''C'', conf_sig_of INVITE),
      (cstr ''B'', cstr ''A'', conf_sig_of OK_200), (cstr ''C'', cstr ''A'', conf_sig_of DECLINE_603)]"

theorem conf_refines_bridge_witness:
  "\<exists>c. fold conf_sig_step conf_demo_sigs Map.empty 7 = Some c \<and> cf_members c = [cstr ''A'', cstr ''B''] \<and>
       confs_ok (fold conf_sig_step conf_demo_sigs Map.empty)"
proof -
  have "\<forall>s \<in> set conf_demo_sigs. fst s \<noteq> []" by (simp add: conf_demo_sigs_def cstr_def)
  then show ?thesis
    using conf_refines_bridge [of conf_demo_sigs]
    by (simp add: conf_demo_sigs_def conf_sig_step_def snoop_conf_sig_def conf_sig_of_def conf_defs conference_init_def cstr_def)
qed

subsection \<open>Purging a terminal\<close>

text \<open>Without a bridge between the list and its sets, a party that hosts is a member.\<close>

lemma purge_one:
  assumes "confs_ok confs"
  shows "conf_implements cid (Hangup imsi) confs
     (fst (case confs cid of None \<Rightarrow> (confs, [])
       | Some c \<Rightarrow> if cf_host c = imsi \<or> imsi \<in> set (cf_members c) then conf_leave cid imsi DETACHED confs else (confs, [])))"
proof (cases "confs cid")
  case None
  with assms show ?thesis by (auto simp: confs_abs_def intro!: conf_implements_same)
next
  case (Some c)
  have h: "cf_host c \<in> set (cf_members c)" using confs_okD [OF assms Some] by (simp add: conf_wf_def)
  show ?thesis
  proof (cases "imsi \<in> set (cf_members c)")
    case True
    with conf_implements_leave [OF assms Some] Some show ?thesis by simp
  next
    case False
    with h Some assms show ?thesis
      by (auto simp: confs_abs_def conf_abs_def intro!: conf_implements_same)
  qed
qed

lemma purge_ids:
  assumes "confs_ok confs" "distinct ids"
  shows "confs_ok (fst (purge_conf_ids ids imsi confs)) \<and>
     confs_abs (fst (purge_conf_ids ids imsi confs)) =
       (\<lambda>cid. if cid \<in> set ids then bridge_step (Hangup imsi) (confs_abs confs cid) else confs_abs confs cid)"
  using assms
proof (induction ids arbitrary: confs)
  case (Cons cid ids)
  let ?one = "fst (case confs cid of None \<Rightarrow> (confs, [])
       | Some c \<Rightarrow> if cf_host c = imsi \<or> imsi \<in> set (cf_members c) then conf_leave cid imsi DETACHED confs else (confs, []))"
  have one: "confs_ok ?one" "confs_abs ?one = (confs_abs confs)(cid := bridge_step (Hangup imsi) (confs_abs confs cid))"
    using purge_one [OF Cons.prems(1)] by (simp_all add: conf_implements_def)
  have "fst (purge_conf_ids (cid # ids) imsi confs) = fst (purge_conf_ids ids imsi ?one)"
    by (simp add: split_beta)
  then show ?case
    using Cons.IH [OF one(1)] Cons.prems(2) one(2) by (auto simp: fun_eq_iff)
qed simp

lemma bridge_hangup_gone: "bridge_step (Hangup p) b = Some b' \<Longrightarrow> p \<notin> bg_members b'"
  by (cases b) (auto simp: bridge_close_def split: if_splits)

text \<open>
  Purging a terminal is a hangup in every conference: whatever the order in which the
  hash map is traversed, afterwards the terminal is in no conference, conferences it hosted
  are closed, those that would be left with fewer than two members and nobody ringing are
  closed as well, and all the others are as before.
\<close>
theorem purge_conf_member_hangs_up_everywhere:
  assumes "confs_ok confs" "set order = dom confs" "distinct order"
  shows "confs_abs (fst (purge_conf_member order imsi confs)) = bridge_step (Hangup imsi) \<circ> confs_abs confs \<and>
         confs_ok (fst (purge_conf_member order imsi confs)) \<and>
         (\<forall>cid c. fst (purge_conf_member order imsi confs) cid = Some c \<longrightarrow> imsi \<notin> set (cf_members c))"
proof -
  let ?r = "fst (purge_conf_member order imsi confs)"
  have ok: "confs_ok ?r" using purge_ids [OF assms(1,3)] by (simp add: purge_conf_member_def)
  have eq: "confs_abs ?r = bridge_step (Hangup imsi) \<circ> confs_abs confs"
  proof
    fix cid
    have "confs_abs confs cid = None" if "cid \<notin> dom confs" using that by (auto simp: confs_abs_def)
    then show "confs_abs ?r cid = (bridge_step (Hangup imsi) \<circ> confs_abs confs) cid"
      using purge_ids [OF assms(1,3), of imsi] assms(2) by (auto simp: purge_conf_member_def)
  qed
  have "imsi \<notin> set (cf_members c)" if "?r cid = Some c" for cid c
  proof -
    have "bridge_step (Hangup imsi) (confs_abs confs cid) = Some (conf_abs c)"
      using that fun_cong [OF eq, of cid] by (simp add: confs_abs_def)
    then show ?thesis using bridge_hangup_gone by (fastforce simp: conf_abs_def)
  qed
  with ok eq show ?thesis by blast
qed

theorem purge_conf_member_hangs_up_everywhere_witness:
  "let confs = fold conf_sig_step conf_demo_sigs Map.empty in
   confs 7 \<noteq> None \<and> fst (purge_conf_member [7] (cstr ''A'') confs) 7 = None"
proof -
  let ?c = "fold conf_sig_step conf_demo_sigs Map.empty"
  have c: "?c = [7 \<mapsto> \<lparr>cf_host = cstr ''A'', cf_members = [cstr ''A'', cstr ''B''], cf_invited = [cstr ''B'', cstr ''C''],
      cf_resolved = [cstr ''B'', cstr ''C''], cf_ever_multi = True\<rparr>]" (is "_ = [7 \<mapsto> ?d]")
    by (simp add: conf_demo_sigs_def conf_sig_step_def snoop_conf_sig_def conf_sig_of_def conf_defs conference_init_def cstr_def)
  have "confs_ok ?c" unfolding c by (auto simp: confs_ok_def conf_wf_def conf_live_def cstr_def)
  then have "confs_abs (fst (purge_conf_member [7] (cstr ''A'') ?c)) = bridge_step (Hangup (cstr ''A'')) \<circ> confs_abs ?c"
    using purge_conf_member_hangs_up_everywhere [of ?c "[7]" "cstr ''A''"] by (simp add: c)
  from fun_cong [OF this, of 7] show ?thesis
    unfolding c by (simp add: confs_abs_def conf_abs_def)
qed

text \<open>
  Joining asks for no invitation: whoever answers 200 OK with the number of a conference is
  a member of it from then on.
\<close>

lemma conf_uninvited_joins:
  assumes "confs cid = Some c" "p \<notin> set (cf_members c)" "sm_method msg = OK_200" "sm_conf_id msg = cid"
  shows "\<exists>c'. fst (snoop_conf_sig p dst msg confs) cid = Some c' \<and> p \<in> set (cf_members c')"
  using assms by (simp add: snoop_conf_sig_def conf_on_ok_def conf_resolve_def Let_def)

end
