(* ===== verification/BsFlow.thy ===== *)
theory BsFlow
  imports Harq Qos Pdcp
begin

text \<open>
  The downlink flow that the base station keeps for every terminal
  (\<^verbatim>\<open>stack/core/include/core/bs_node.h\<close>, \<^verbatim>\<open>BsNode::DlFlow\<close>): bearers, HARQ entities, ciphering state
  and link adaptation, with the operations of \<^verbatim>\<open>stack/core/src/bs_node.cpp\<close> that work on one flow:
  enqueueing with backpressure, the drain loop of the scheduler, suspension and resumption,
  HARQ feedback, CQI reports. The fields for uplink power control (\<^verbatim>\<open>ul_snr_ewma\<close>, \<^verbatim>\<open>last_tpc_ms\<close>) are
  floating-point measurements that stay at their initial value as long as bursts arrive
  without metrics, and \<^verbatim>\<open>last_cqi_logged\<close> throttles a log line; they are left out.
\<close>

subsection \<open>State\<close>

record dl_flow =
  df_harq_tx :: harq_tx
  df_harq_rx :: harq_rx
  df_bearers :: bearer_set
  df_enqueued :: nat
  df_dropped :: nat
  df_up_key :: bytes
  df_sec_on :: bool
  df_dl_seq :: u64
  df_cqi :: int
  df_mcs :: int
  df_suspended :: bool
  df_last_activity_ms :: u32

definition dl_flow_init :: dl_flow where
  "dl_flow_init = \<lparr>df_harq_tx = harq_tx_init harq_default_config, df_harq_rx = harq_rx_reset,
     df_bearers = bearer_set_init, df_enqueued = 0, df_dropped = 0, df_up_key = replicate 32 0,
     df_sec_on = False, df_dl_seq = 0, df_cqi = -1, df_mcs = 0, df_suspended = False,
     df_last_activity_ms = 0\<rparr>"

subsection \<open>Enqueueing\<close>

definition lcid_queue :: "u8 \<Rightarrow> bearer_set \<Rightarrow> app_pdu list" where
  "lcid_queue lcid s = (case qci_of_lcid lcid of Some q \<Rightarrow> queue_of q s | None \<Rightarrow> bs_ctrl s)"

definition set_lcid_queue :: "u8 \<Rightarrow> app_pdu list \<Rightarrow> bearer_set \<Rightarrow> bearer_set" where
  "set_lcid_queue lcid xs s =
     (case qci_of_lcid lcid of Some q \<Rightarrow> set_queue_of q xs s | None \<Rightarrow> s\<lparr>bs_ctrl := xs\<rparr>)"

text \<open>
  \<^verbatim>\<open>downlink_send\<close> on the flow it looked up. The source calls \<^verbatim>\<open>pop_front\<close> on a full queue, which for
  a bound of 0 is an empty one and undefined behaviour; \<open>tl\<close> leaves it empty.
\<close>

definition flow_send :: "nat \<Rightarrow> u8 \<Rightarrow> bytes \<Rightarrow> dl_flow \<Rightarrow> dl_flow" where
  "flow_send max_queue lcid sdu f =
     (let q = lcid_queue lcid (df_bearers f);
          full = (length q \<ge> max_queue);
          q' = (if full then tl q else q);
          cipher = (df_sec_on f \<and> (lcid = LCID_NAS_DCCH \<or> qci_of_lcid lcid \<noteq> None));
          pdu = \<lparr>ap_lcid = lcid, ap_cipher = cipher, ap_bytes = sdu\<rparr>
      in f\<lparr>df_bearers := set_lcid_queue lcid (q' @ [pdu]) (df_bearers f),
           df_dropped := (if full then df_dropped f + 1 else df_dropped f),
           df_enqueued := df_enqueued f + 1\<rparr>)"

text \<open>The loops \<^verbatim>\<open>for (pdu : pdus) downlink_send(rnti, lcid, pdcp::tx(rlc::tm_tx(pdu)))\<close>.\<close>

definition flow_send_all :: "nat \<Rightarrow> u8 \<Rightarrow> bytes list \<Rightarrow> dl_flow \<Rightarrow> dl_flow" where
  "flow_send_all max_queue lcid pdus f =
     fold (\<lambda>pdu. flow_send max_queue lcid (pdcp_tx (tm_tx pdu))) pdus f"

subsection \<open>Bearers\<close>

definition ensure_bs_bearer :: "qci \<Rightarrow> dl_flow \<Rightarrow> dl_flow" where
  "ensure_bs_bearer q f =
     (if q = QCI_BEST_EFFORT then f
      else f\<lparr>df_bearers := set_established_of q True (df_bearers f)\<rparr>)"

definition bs_bearer_teardowns :: "dl_flow \<Rightarrow> dl_flow" where
  "bs_bearer_teardowns f =
     f\<lparr>df_bearers := fold (\<lambda>q. set_established_of q False) [QCI_SIG, QCI_VOICE, QCI_VIDEO] (df_bearers f)\<rparr>"

text \<open>An SDU submitted to the downlink RLC entity of its class, and the PDUs queued.\<close>

definition flow_submit_am :: "nat \<Rightarrow> u32 \<Rightarrow> qci \<Rightarrow> bytes \<Rightarrow> dl_flow \<Rightarrow> dl_flow" where
  "flow_submit_am max_queue now q sdu f =
     (let (tx', pdus) = am_tx now sdu False (b_tx (am_of q (df_bearers f)))
      in flow_send_all max_queue (lcid_of q) pdus
           (f\<lparr>df_bearers := am_of_update q (\<lambda>b. b\<lparr>b_tx := tx'\<rparr>) (df_bearers f)\<rparr>))"

definition flow_submit_um :: "nat \<Rightarrow> qci \<Rightarrow> bytes \<Rightarrow> dl_flow \<Rightarrow> dl_flow" where
  "flow_submit_um max_queue q sdu f =
     (let (tx', pdus) = um_tx sdu (b_tx (um_of q (df_bearers f)))
      in flow_send_all max_queue (lcid_of q) pdus
           (f\<lparr>df_bearers := um_of_update q (\<lambda>b. b\<lparr>b_tx := tx'\<rparr>) (df_bearers f)\<rparr>))"

definition flow_submit :: "nat \<Rightarrow> u32 \<Rightarrow> qci \<Rightarrow> bytes \<Rightarrow> dl_flow \<Rightarrow> dl_flow" where
  "flow_submit max_queue now q sdu f =
     (if q = QCI_SIG \<or> q = QCI_BEST_EFFORT then flow_submit_am max_queue now q sdu f
      else flow_submit_um max_queue q sdu f)"

subsection \<open>The drain loop\<close>

definition flow_seal :: "app_pdu \<Rightarrow> dl_flow \<Rightarrow> bytes \<times> dl_flow" where
  "flow_seal pdu f =
     (if ap_cipher pdu
      then (protect (df_up_key f) (df_dl_seq f) (ap_bytes pdu), f\<lparr>df_dl_seq := df_dl_seq f + 1\<rparr>)
      else (ap_bytes pdu, f))"

definition bearers_total :: "bearer_set \<Rightarrow> nat" where
  "bearers_total s = length (bs_ctrl s) + length (queue_of QCI_SIG s) + length (queue_of QCI_VOICE s) +
     length (queue_of QCI_VIDEO s) + length (queue_of QCI_BEST_EFFORT s)"

lemma queue_of_since [simp]: "queue_of q (s\<lparr>bs_since_be := n\<rparr>) = queue_of q s"
  by (cases q) simp_all

lemma queue_of_ctrl [simp]: "queue_of q (s\<lparr>bs_ctrl := xs\<rparr>) = queue_of q s"
  by (cases q) simp_all

lemma pop_next_total: "pop_next s = Some (x, s') \<Longrightarrow> bearers_total s = Suc (bearers_total s')"
  by (cases "fst (pick_queue s)")
    (auto simp: pop_next_def bearers_total_def split_beta simp del: queue_of.simps set_queue_of.simps split: list.splits)

text \<open>The \<^verbatim>\<open>while\<close> loop of \<^verbatim>\<open>schedule_downlink\<close> for one flow; every pass consumes a queued PDU.\<close>

function flow_drain :: "dl_flow \<Rightarrow> cpp_exception + dl_flow \<times> harq_event list" where
  "flow_drain f =
     (if bearers_empty (df_bearers f) \<or> harq_in_flight (df_harq_tx f) \<ge> length (ht_procs (df_harq_tx f)) then Inr (f, [])
      else if df_suspended f \<and> bs_ctrl (df_bearers f) = [] then Inr (f, [])
      else
        case pop_next (df_bearers f) of
          None \<Rightarrow> Inr (f, [])
        | Some ((c, pdu), bearers') \<Rightarrow>
            let (sdu, f1) = flow_seal pdu (f\<lparr>df_bearers := bearers'\<rparr>) in
            (case harq_send (df_harq_tx f1) (build_pdu [(ap_lcid pdu, sdu)]) of
               Inl e \<Rightarrow> Inl e
             | Inr (tx', None) \<Rightarrow> Inr (f1\<lparr>df_harq_tx := tx'\<rparr>, [])
             | Inr (tx', Some e) \<Rightarrow>
                 (case flow_drain (f1\<lparr>df_harq_tx := tx'\<rparr>) of
                    Inl ex \<Rightarrow> Inl ex
                  | Inr (f2, es) \<Rightarrow> Inr (f2, e # es))))"
  by auto
termination
  by (relation "measure (\<lambda>f. bearers_total (df_bearers f))")
    (auto simp: flow_seal_def dest!: pop_next_total split: if_splits)

declare flow_drain.simps [simp del]

subsection \<open>Feedback, suspension, link adaptation\<close>

definition flow_poll_timeouts :: "u32 \<Rightarrow> dl_flow \<Rightarrow> dl_flow \<times> harq_event list" where
  "flow_poll_timeouts now f =
     (let (tx', es) = harq_poll_timeouts now (df_harq_tx f) in (f\<lparr>df_harq_tx := tx'\<rparr>, es))"

text \<open>The HARQ feedback of the terminal, \<^verbatim>\<open>case mac::LCID_HARQ_ACK\<close>.\<close>

definition flow_on_harq_ack :: "u32 \<Rightarrow> bytes \<Rightarrow> dl_flow \<Rightarrow> dl_flow \<times> harq_event list" where
  "flow_on_harq_ack now sdu f =
     (if length sdu < 2 then (f, [])
      else
        let proc = sdu ! 0 AND 0x7F; tx = harq_advance now (df_harq_tx f) in
        if sdu ! 1 \<noteq> 0 then (f\<lparr>df_harq_tx := harq_on_ack proc tx\<rparr>, [])
        else let (tx', e) = harq_on_nack proc tx
             in (f\<lparr>df_harq_tx := tx'\<rparr>, case e of None \<Rightarrow> [] | Some e \<Rightarrow> [e]))"

text \<open>The CQI report, \<^verbatim>\<open>case mac::LCID_CQI_REPORT\<close>; the caller has skipped empty SDUs.\<close>

definition flow_on_cqi :: "bytes \<Rightarrow> dl_flow \<Rightarrow> dl_flow" where
  "flow_on_cqi sdu f =
     (let cqi = uint (sdu ! 0 AND 0x1F)
      in f\<lparr>df_cqi := cqi, df_mcs := (if cqi \<ge> 14 then 1 else 0)\<rparr>)"

definition flow_suspend :: "dl_flow \<Rightarrow> dl_flow" where
  "flow_suspend f = f\<lparr>df_suspended := True, df_harq_tx := harq_tx_reset (df_harq_tx f), df_harq_rx := harq_rx_reset\<rparr>"

definition flow_resume :: "u32 \<Rightarrow> dl_flow \<Rightarrow> dl_flow" where
  "flow_resume now f =
     f\<lparr>df_suspended := False, df_harq_tx := harq_tx_reset (df_harq_tx f), df_harq_rx := harq_rx_reset,
       df_last_activity_ms := now\<rparr>"

definition flow_arm_security :: "bytes \<Rightarrow> dl_flow \<Rightarrow> dl_flow" where
  "flow_arm_security key f = f\<lparr>df_up_key := key, df_sec_on := True\<rparr>"

lemmas flow_defs [state_defs] =
  flow_send_def flow_send_all_def ensure_bs_bearer_def bs_bearer_teardowns_def flow_submit_am_def flow_submit_um_def
  flow_submit_def flow_poll_timeouts_def flow_on_harq_ack_def flow_on_cqi_def flow_suspend_def flow_resume_def
  flow_arm_security_def

subsection \<open>What a drain does\<close>

text \<open>The SDUs handed to MAC for a list of PDUs: the \<open>n\<close>-th ciphered one is sealed with count \<open>seq + n\<close>.\<close>

fun seal_all :: "bytes \<Rightarrow> u64 \<Rightarrow> app_pdu list \<Rightarrow> (u8 \<times> bytes) list" where
  "seal_all key seq [] = []"
| "seal_all key seq (p # ps) =
     (if ap_cipher p then (ap_lcid p, protect key seq (ap_bytes p)) # seal_all key (seq + 1) ps
      else (ap_lcid p, ap_bytes p) # seal_all key seq ps)"

definition picked :: "nat \<Rightarrow> bearer_set \<Rightarrow> app_pdu list" where
  "picked n s = map snd (fst (qos_run (replicate n QPop) s))"

definition after_picks :: "nat \<Rightarrow> bearer_set \<Rightarrow> bearer_set" where
  "after_picks n s = snd (qos_run (replicate n QPop) s)"

definition on_air :: "harq_tx \<Rightarrow> harq_event \<Rightarrow> u8 \<times> bytes \<Rightarrow> bool" where
  "on_air tx e sdu \<longleftrightarrow>
     he_type e = NEW_TX \<and> unat (he_proc e) < length (ht_procs tx) \<and> he_ndi e \<in> {0, 1} \<and>
     link_encode (build_pdu [sdu]) (he_proc e) (he_ndi e) = Inr (he_coded e)"

lemma picked_0 [simp]: "picked 0 s = []" "after_picks 0 s = s"
  by (simp_all add: picked_def after_picks_def)

lemma picked_Suc:
  assumes "pop_next s = Some ((c, p), s')"
  shows "picked (Suc n) s = p # picked n s'" "after_picks (Suc n) s = after_picks n s'"
  using assms by (simp_all add: picked_def after_picks_def split_beta)

definition flow_idle :: "dl_flow \<Rightarrow> bool" where
  "flow_idle f \<longleftrightarrow>
     bearers_empty (df_bearers f) \<or>
     harq_in_flight (df_harq_tx f) = length (ht_procs (df_harq_tx f)) \<or>
     df_suspended f \<and> bs_ctrl (df_bearers f) = []"

lemma harq_idle_exists:
  assumes "\<not> harq_in_flight tx \<ge> length (ht_procs tx)"
  shows "\<exists>p < length (ht_procs tx). \<not> hp_busy (ht_procs tx ! p)"
proof (rule ccontr)
  assume "\<not> ?thesis"
  then have "filter hp_busy (ht_procs tx) = ht_procs tx" by (intro filter_True) (auto simp: in_set_conv_nth)
  with assms show False by (simp add: harq_in_flight_def)
qed

lemma harq_send_room:
  assumes "harq_tx_inv tx" "\<not> harq_in_flight tx \<ge> length (ht_procs tx)"
  obtains tx' e where "harq_send tx pdu = Inr (tx', Some e)" "harq_tx_inv tx'" "length (ht_procs tx') = length (ht_procs tx)"
    "he_type e = NEW_TX" "unat (he_proc e) < length (ht_procs tx)" "he_ndi e \<in> {0, 1}"
    "link_encode pdu (he_proc e) (he_ndi e) = Inr (he_coded e)"
proof -
  obtain tx' e where s: "harq_send tx pdu = Inr (tx', Some e)" "harq_tx_inv tx'" "he_type e = NEW_TX"
      "event_carries tx' e pdu" "length (ht_procs tx') = length (ht_procs tx)"
    using harq_send_cases [OF assms(1), of pdu] harq_idle_exists [OF assms(2)] by blast
  then have "unat (he_proc e) < length (ht_procs tx)" "he_ndi e \<in> {0, 1}" "link_encode pdu (he_proc e) (he_ndi e) = Inr (he_coded e)"
    by (auto simp: event_carries_def)
  with s that show ?thesis by blast
qed

lemma flow_idle_stop:
  "flow_idle f \<Longrightarrow> flow_drain f = Inr (f, [])"
  by (subst flow_drain.simps) (auto simp: flow_idle_def)

lemma pop_next_Some: "\<not> bearers_empty s \<Longrightarrow> \<exists>c p s'. pop_next s = Some ((c, p), s')"
  using pop_next_ctrl_free [of s] by (cases "bs_ctrl s") (auto simp: pop_next_def)

lemma harq_in_flight_le: "harq_in_flight tx \<le> length (ht_procs tx)"
  by (simp add: harq_in_flight_def)

text \<open>One pass of the loop of a flow that is not idle.\<close>

lemma flow_drain_pass:
  assumes inv: "harq_tx_inv (df_harq_tx f)" and busy: "\<not> flow_idle f"
  obtains c p bearers' tx' e where
    "pop_next (df_bearers f) = Some ((c, p), bearers')" "harq_tx_inv tx'" "length (ht_procs tx') = length (ht_procs (df_harq_tx f))"
    "on_air (df_harq_tx f) e (ap_lcid p, fst (flow_seal p f))"
    "flow_drain f = (case flow_drain (f\<lparr>df_bearers := bearers', df_dl_seq := df_dl_seq (snd (flow_seal p f)), df_harq_tx := tx'\<rparr>) of
       Inl ex \<Rightarrow> Inl ex | Inr (f2, es) \<Rightarrow> Inr (f2, e # es))"
proof -
  have room: "\<not> harq_in_flight (df_harq_tx f) \<ge> length (ht_procs (df_harq_tx f))"
    using busy harq_in_flight_le [of "df_harq_tx f"] by (auto simp: flow_idle_def)
  obtain c p bearers' where pop: "pop_next (df_bearers f) = Some ((c, p), bearers')"
    using pop_next_Some busy unfolding flow_idle_def by blast
  obtain tx' e where h: "harq_send (df_harq_tx f) (build_pdu [(ap_lcid p, fst (flow_seal p f))]) = Inr (tx', Some e)" "harq_tx_inv tx'"
      "length (ht_procs tx') = length (ht_procs (df_harq_tx f))" "on_air (df_harq_tx f) e (ap_lcid p, fst (flow_seal p f))"
    by (rule harq_send_room [OF inv room]) (auto simp: on_air_def)
  have "flow_drain f = (case flow_drain (f\<lparr>df_bearers := bearers', df_dl_seq := df_dl_seq (snd (flow_seal p f)), df_harq_tx := tx'\<rparr>) of
       Inl ex \<Rightarrow> Inl ex | Inr (f2, es) \<Rightarrow> Inr (f2, e # es))"
    using busy room pop h(1) by (subst flow_drain.simps) (auto simp: flow_seal_def flow_idle_def)
  with pop h that show ?thesis by blast
qed

lemma flow_drain_spec:
  assumes "harq_tx_inv (df_harq_tx f)"
  shows "\<exists>f' es. flow_drain f = Inr (f', es) \<and> harq_tx_inv (df_harq_tx f') \<and> flow_idle f' \<and>
     length (ht_procs (df_harq_tx f')) = length (ht_procs (df_harq_tx f)) \<and>
     list_all2 (on_air (df_harq_tx f)) es (seal_all (df_up_key f) (df_dl_seq f) (picked (length es) (df_bearers f))) \<and>
     bearers_total (df_bearers f) = length es + bearers_total (df_bearers f') \<and>
     f' = f\<lparr>df_harq_tx := df_harq_tx f', df_bearers := after_picks (length es) (df_bearers f),
            df_dl_seq := df_dl_seq f + of_nat (length (filter ap_cipher (picked (length es) (df_bearers f))))\<rparr>"
  using assms
proof (induction "bearers_total (df_bearers f)" arbitrary: f rule: less_induct)
  case less
  show ?case
  proof (cases "flow_idle f")
    case True
    with less.prems show ?thesis by (simp add: flow_idle_stop)
  next
    case False
    obtain c p bearers' tx' e where
      pop: "pop_next (df_bearers f) = Some ((c, p), bearers')" and tx: "harq_tx_inv tx'"
        "length (ht_procs tx') = length (ht_procs (df_harq_tx f))"
      and air: "on_air (df_harq_tx f) e (ap_lcid p, fst (flow_seal p f))"
      and step: "flow_drain f = (case flow_drain (f\<lparr>df_bearers := bearers', df_dl_seq := df_dl_seq (snd (flow_seal p f)), df_harq_tx := tx'\<rparr>) of
         Inl ex \<Rightarrow> Inl ex | Inr (f2, es) \<Rightarrow> Inr (f2, e # es))"
      by (rule flow_drain_pass [OF less.prems False])
    let ?g = "f\<lparr>df_bearers := bearers', df_dl_seq := df_dl_seq (snd (flow_seal p f)), df_harq_tx := tx'\<rparr>"
    have "bearers_total (df_bearers ?g) < bearers_total (df_bearers f)"
      using pop_next_total [OF pop] by simp
    from less.hyps [OF this] tx obtain f' es where
      g: "flow_drain ?g = Inr (f', es)" "harq_tx_inv (df_harq_tx f')" "flow_idle f'"
        "length (ht_procs (df_harq_tx f')) = length (ht_procs tx')"
        "list_all2 (on_air tx') es (seal_all (df_up_key f) (df_dl_seq ?g) (picked (length es) bearers'))"
        "bearers_total bearers' = length es + bearers_total (df_bearers f')"
        "f' = ?g\<lparr>df_harq_tx := df_harq_tx f', df_bearers := after_picks (length es) bearers',
            df_dl_seq := df_dl_seq ?g + of_nat (length (filter ap_cipher (picked (length es) bearers')))\<rparr>"
      by auto
    have "on_air tx' = on_air (df_harq_tx f)" using tx(2) by (simp add: on_air_def fun_eq_iff)
    then show ?thesis
      using g step air tx pop_next_total [OF pop] picked_Suc [OF pop, of "length es"]
      by (auto simp: flow_seal_def algebra_simps)
  qed
qed

subsection \<open>Delivery to the terminal\<close>

definition queued :: "bearer_set \<Rightarrow> app_pdu set" where
  "queued s = set (bs_ctrl s) \<union> (\<Union>q. set (queue_of q s))"

lemma pop_next_split:
  assumes "pop_next s = Some ((c, p), s')"
  shows "case c of None \<Rightarrow> bs_ctrl s = p # bs_ctrl s' \<and> (\<forall>q. queue_of q s' = queue_of q s)
     | Some k \<Rightarrow> bs_ctrl s = [] \<and> bs_ctrl s' = [] \<and> queue_of k s = p # queue_of k s' \<and>
         (\<forall>q. q \<noteq> k \<longrightarrow> queue_of q s' = queue_of q s)"
proof -
  have ne: "\<not> bearers_empty s"
    using assms by (auto simp: pop_next_def bearers_empty_def pick_queue_def split: option.splits if_splits)
  show ?thesis using pop_next_frame [OF ne] assms by (auto split: option.splits)
qed

lemma pop_next_queued:
  assumes "pop_next s = Some ((c, p), s')"
  shows "p \<in> queued s" "queued s' \<subseteq> queued s"
proof -
  note q = pop_next_split [OF assms]
  have "p \<in> queued s \<and> queued s' \<subseteq> queued s"
  proof (cases c)
    case None
    with q show ?thesis by (auto simp: queued_def)
  next
    case (Some k)
    then have k: "queue_of k s = p # queue_of k s'" "\<forall>q. q \<noteq> k \<longrightarrow> queue_of q s' = queue_of q s" "bs_ctrl s' = []"
      using q by auto
    have "set (queue_of q s') \<subseteq> set (queue_of q s)" for q using k(1,2) by (cases "q = k") auto
    then have "(\<Union>q. set (queue_of q s')) \<subseteq> (\<Union>q. set (queue_of q s))" by (intro UN_mono) auto
    moreover have "p \<in> set (queue_of k s)" by (simp add: k(1))
    ultimately show ?thesis using k(3) unfolding queued_def by auto
  qed
  then show "p \<in> queued s" "queued s' \<subseteq> queued s" by simp_all
qed

lemma picked_queued: "set (picked n s) \<subseteq> queued s"
proof (induction n arbitrary: s)
  case (Suc n)
  show ?case
  proof (cases "pop_next s")
    case None
    then show ?thesis using Suc [of s] by (simp add: picked_def)
  next
    case (Some r)
    obtain c p s' where r: "r = ((c, p), s')" by (metis surj_pair)
    with Some pop_next_queued [of s c p s'] Suc [of s'] picked_Suc [of s c p s' n] show ?thesis by auto
  qed
qed simp

lemma length_seal_all [simp]: "length (seal_all key seq ps) = length ps"
  by (induction key seq ps rule: seal_all.induct) simp_all

text \<open>Each sealed SDU opens under the same key to the PDU it came from.\<close>

definition opens_to :: "bytes \<Rightarrow> u8 \<times> bytes \<Rightarrow> app_pdu \<Rightarrow> bool" where
  "opens_to key sdu p \<longleftrightarrow>
     fst sdu = ap_lcid p \<and> (if ap_cipher p then unprotect key (snd sdu) = Some (ap_bytes p) else snd sdu = ap_bytes p) \<and>
     length (snd sdu) \<le> length (ap_bytes p) + 13"

lemma length_protect: "length (protect key seq sdu) \<le> length sdu + 13"
  by (simp add: protect_eq Let_def)

lemma seal_all_opens: "list_all2 (opens_to key) (seal_all key seq ps) ps"
  by (induction key seq ps rule: seal_all.induct)
    (auto simp: opens_to_def pdcp_codec.dec_enc length_protect)

lemma length_build_pdu_1: "length (build_pdu [(lcid, sdu)]) \<le> 3 + length sdu"
  by (simp add: mac_subheader_def Let_def)

lemma on_air_received:
  assumes "on_air tx e sdu" "length (ht_procs tx) \<le> 128" "harq_rx_run soft"
    and "opens_to key sdu p" "ap_lcid p < LCID_PADDING" "length (ap_bytes p) \<le> 32000"
  shows "\<exists>soft'. harq_receive soft (he_coded e) =
       Inr (soft', \<lparr>hr_delivered = True, hr_need_feedback = True, hr_ack = True, hr_proc = he_proc e, hr_mac_pdu = build_pdu [sdu]\<rparr>) \<and>
     parse_pdu (build_pdu [sdu]) = [sdu]"
proof -
  have len: "length (snd sdu) \<le> 32013" using assms(4,6) by (simp add: opens_to_def)
  then have "mac_carries [sdu]" using assms(4,5) by (auto simp: mac_carries_def opens_to_def)
  then have "parse_pdu (build_pdu [sdu]) = [sdu]" using mac_codec.dec_enc by simp
  moreover have "2 * length (build_pdu [sdu]) + 6 < 65536"
    using len length_build_pdu_1 [of "fst sdu" "snd sdu"] by simp
  ultimately show ?thesis
    using harq_receive_intact [OF harq_rx_run_ok [OF assms(3)], of "build_pdu [sdu]" "he_proc e" "he_ndi e" "he_coded e"] assms(1,2)
    by (auto simp: on_air_def)
qed

text \<open>
  C9. One downlink scheduling pass: the drain loop of a flow always ends normally and stops only
  when all queues are empty, every HARQ process is busy, or the flow is suspended and no
  control PDU waits. The frames it puts on the air are, in scheduler order, the PDUs the
  scheduler picked: a terminal that gets the \<open>i\<close>-th frame intact decodes a MAC PDU with
  exactly one SDU on the logical channel of the \<open>i\<close>-th picked PDU, and with the key of the
  flow opens it to the bytes that were queued (or finds them in clear if the PDU was
  queued before security was on).
\<close>
theorem downlink_drain_delivers:
  assumes "harq_tx_inv (df_harq_tx f)" "length (ht_procs (df_harq_tx f)) \<le> 128"
    and "\<forall>p \<in> queued (df_bearers f). ap_lcid p < LCID_PADDING \<and> length (ap_bytes p) \<le> 32000"
  shows "\<exists>f' es. flow_drain f = Inr (f', es) \<and> flow_idle f' \<and>
     (let ps = picked (length es) (df_bearers f) in
      length ps = length es \<and> df_bearers f' = after_picks (length es) (df_bearers f) \<and>
      (\<forall>i < length es. \<forall>soft. harq_rx_run soft \<longrightarrow>
         (\<exists>soft' sdu. harq_receive soft (he_coded (es ! i)) =
            Inr (soft', \<lparr>hr_delivered = True, hr_need_feedback = True, hr_ack = True,
              hr_proc = he_proc (es ! i), hr_mac_pdu = build_pdu [(ap_lcid (ps ! i), sdu)]\<rparr>) \<and>
            parse_pdu (build_pdu [(ap_lcid (ps ! i), sdu)]) = [(ap_lcid (ps ! i), sdu)] \<and>
            (if ap_cipher (ps ! i) then unprotect (df_up_key f) sdu = Some (ap_bytes (ps ! i))
             else sdu = ap_bytes (ps ! i)))))"
proof -
  obtain f' es where d: "flow_drain f = Inr (f', es)" "flow_idle f'"
      "list_all2 (on_air (df_harq_tx f)) es (seal_all (df_up_key f) (df_dl_seq f) (picked (length es) (df_bearers f)))"
      "f' = f\<lparr>df_harq_tx := df_harq_tx f', df_bearers := after_picks (length es) (df_bearers f),
            df_dl_seq := df_dl_seq f + of_nat (length (filter ap_cipher (picked (length es) (df_bearers f))))\<rparr>"
    using flow_drain_spec [OF assms(1)] by blast
  let ?ps = "picked (length es) (df_bearers f)"
  let ?ss = "seal_all (df_up_key f) (df_dl_seq f) ?ps"
  have len: "length ?ps = length es" using list_all2_lengthD [OF d(3)] by simp
  have b: "df_bearers f' = after_picks (length es) (df_bearers f)" by (subst d(4)) simp
  have "\<exists>soft' sdu. harq_receive soft (he_coded (es ! i)) =
            Inr (soft', \<lparr>hr_delivered = True, hr_need_feedback = True, hr_ack = True,
              hr_proc = he_proc (es ! i), hr_mac_pdu = build_pdu [(ap_lcid (?ps ! i), sdu)]\<rparr>) \<and>
            parse_pdu (build_pdu [(ap_lcid (?ps ! i), sdu)]) = [(ap_lcid (?ps ! i), sdu)] \<and>
            (if ap_cipher (?ps ! i) then unprotect (df_up_key f) sdu = Some (ap_bytes (?ps ! i))
             else sdu = ap_bytes (?ps ! i))" if i: "i < length es" and soft: "harq_rx_run soft" for i soft
  proof -
    have o: "opens_to (df_up_key f) (?ss ! i) (?ps ! i)"
      using list_all2_nthD [OF seal_all_opens] i len by simp
    have "?ps ! i \<in> queued (df_bearers f)" using picked_queued nth_mem i len by (metis subsetD)
    then have p: "ap_lcid (?ps ! i) < LCID_PADDING" "length (ap_bytes (?ps ! i)) \<le> 32000" using assms(3) by auto
    have "(ap_lcid (?ps ! i), snd (?ss ! i)) = ?ss ! i" using o by (auto simp: opens_to_def prod_eq_iff)
    then show ?thesis
      using on_air_received [OF list_all2_nthD [OF d(3) i] assms(2) soft o p] o
      by (intro exI [of _ "snd (?ss ! i)"] ex_comm [THEN iffD1]) (auto simp: opens_to_def)
  qed
  with d(1,2) len b show ?thesis by (auto simp: Let_def)
qed

definition flow_demo :: dl_flow where
  "flow_demo = flow_send 64 LCID_APP_SIG [4, 5] (flow_arm_security (replicate 32 7) (flow_send 64 LCID_CCCH [1, 2, 3] dl_flow_init))"

lemma flow_demo_bearers:
  "bs_ctrl (df_bearers flow_demo) = [\<lparr>ap_lcid = LCID_CCCH, ap_cipher = False, ap_bytes = [1, 2, 3]\<rparr>]"
  "queue_of QCI_SIG (df_bearers flow_demo) = [\<lparr>ap_lcid = LCID_APP_SIG, ap_cipher = True, ap_bytes = [4, 5]\<rparr>]"
  "queue_of QCI_VOICE (df_bearers flow_demo) = []" "queue_of QCI_VIDEO (df_bearers flow_demo) = []"
  "queue_of QCI_BEST_EFFORT (df_bearers flow_demo) = []"
  "df_harq_tx flow_demo = harq_tx_init harq_default_config" "df_suspended flow_demo = False"
  by (simp_all add: flow_demo_def flow_defs Let_def lcid_queue_def set_lcid_queue_def qci_of_lcid_def lcid_defs
      dl_flow_init_def bearer_set_init_def make_am_bearer_def make_um_bearer_def)

lemma flow_demo_queued:
  "queued (df_bearers flow_demo) = {\<lparr>ap_lcid = LCID_CCCH, ap_cipher = False, ap_bytes = [1, 2, 3]\<rparr>,
     \<lparr>ap_lcid = LCID_APP_SIG, ap_cipher = True, ap_bytes = [4, 5]\<rparr>}"
proof -
  have u: "(\<Union>q. set (queue_of q s)) = set (queue_of QCI_SIG s) \<union> set (queue_of QCI_VOICE s) \<union>
      set (queue_of QCI_VIDEO s) \<union> set (queue_of QCI_BEST_EFFORT s)" for s
    by (auto simp del: queue_of.simps) (metis qci.exhaust)
  show ?thesis unfolding queued_def u by (auto simp: flow_demo_bearers simp del: queue_of.simps)
qed

theorem downlink_drain_delivers_witness:
  "\<exists>f' es. flow_drain flow_demo = Inr (f', es) \<and> flow_idle f' \<and> length (picked (length es) (df_bearers flow_demo)) = length es"
proof -
  have "harq_tx_inv (df_harq_tx flow_demo)" "length (ht_procs (df_harq_tx flow_demo)) \<le> 128"
      "\<forall>p \<in> queued (df_bearers flow_demo). ap_lcid p < LCID_PADDING \<and> length (ap_bytes p) \<le> 32000"
    by (simp_all add: flow_demo_bearers flow_demo_queued harq_tx_inv_init lcid_defs)
      (simp add: harq_tx_init_def harq_default_config_def)
  from downlink_drain_delivers [OF this] show ?thesis by (auto simp: Let_def)
qed

subsection \<open>The life of a flow\<close>

text \<open>
  \<open>flow_run n f sent log\<close>: with queue bound \<open>n\<close>, \<open>f\<close> is reached by operations of the node in any
  order, \<open>sent\<close> PDUs were transmitted for the first time, and \<open>log\<close> lists, in the order of
  transmission, every one that was queued for ciphering with the key in force and the HARQ
  event that put it on the air, so that the frame itself is on record.
\<close>

definition ciphered :: "bytes \<Rightarrow> harq_event list \<Rightarrow> app_pdu list \<Rightarrow> (bytes \<times> app_pdu \<times> harq_event) list" where
  "ciphered key es ps = map (\<lambda>(e, p). (key, p, e)) (filter (\<lambda>(e, p). ap_cipher p) (zip es ps))"

text \<open>The nonce a receiver of the frame finds: the frame decoded, its only SDU, the eight bytes after the flags.\<close>

definition frame_nonce :: "bytes \<Rightarrow> bytes option" where
  "frame_nonce coded =
     (case harq_receive harq_rx_reset coded of
        Inl e \<Rightarrow> None
      | Inr (soft, r) \<Rightarrow>
          if \<not> hr_delivered r then None
          else case parse_pdu (hr_mac_pdu r) of [(lcid, sdu)] \<Rightarrow> Some (take 8 (drop 1 sdu)) | _ \<Rightarrow> None)"

inductive flow_run :: "nat \<Rightarrow> dl_flow \<Rightarrow> nat \<Rightarrow> (bytes \<times> app_pdu \<times> harq_event) list \<Rightarrow> bool" for n where
  start: "flow_run n dl_flow_init 0 []"
| send: "flow_run n f k log \<Longrightarrow> flow_run n (flow_send n lcid sdu f) k log"
| submit: "flow_run n f k log \<Longrightarrow> flow_run n (flow_submit n now q sdu f) k log"
| drain: "flow_run n f k log \<Longrightarrow> flow_drain f = Inr (f', es) \<Longrightarrow>
    flow_run n f' (k + length es) (log @ ciphered (df_up_key f) es (picked (length es) (df_bearers f)))"
| am_rx: "flow_run n f k log \<Longrightarrow> flow_run n (f\<lparr>df_bearers := am_of_update q (\<lambda>b. b\<lparr>b_rx := r\<rparr>) (df_bearers f)\<rparr>) k log"
| um_rx: "flow_run n f k log \<Longrightarrow> flow_run n (f\<lparr>df_bearers := um_of_update q (\<lambda>b. b\<lparr>b_rx := r'\<rparr>) (df_bearers f)\<rparr>) k log"
| am_tx: "flow_run n f k log \<Longrightarrow> flow_run n (f\<lparr>df_bearers := am_of_update q (\<lambda>b. b\<lparr>b_tx := t\<rparr>) (df_bearers f)\<rparr>) k log"
| ensure: "flow_run n f k log \<Longrightarrow> flow_run n (ensure_bs_bearer q f) k log"
| teardown: "flow_run n f k log \<Longrightarrow> flow_run n (bs_bearer_teardowns f) k log"
| poll: "flow_run n f k log \<Longrightarrow> flow_run n (fst (flow_poll_timeouts now f)) k log"
| feedback: "flow_run n f k log \<Longrightarrow> flow_run n (fst (flow_on_harq_ack now sdu f)) k log"
| advance: "flow_run n f k log \<Longrightarrow> flow_run n (f\<lparr>df_harq_tx := harq_advance now (df_harq_tx f)\<rparr>) k log"
| harq_rx: "flow_run n f k log \<Longrightarrow> flow_run n (f\<lparr>df_harq_rx := soft\<rparr>) k log"
| cqi: "flow_run n f k log \<Longrightarrow> flow_run n (flow_on_cqi sdu f) k log"
| activity: "flow_run n f k log \<Longrightarrow> flow_run n (f\<lparr>df_last_activity_ms := now, df_suspended := False\<rparr>) k log"
| suspend: "flow_run n f k log \<Longrightarrow> flow_run n (flow_suspend f) k log"
| resume: "flow_run n f k log \<Longrightarrow> flow_run n (flow_resume now f) k log"
| arm: "flow_run n f k log \<Longrightarrow> flow_run n (flow_arm_security key f) k log"

definition same_queues :: "bearer_set \<Rightarrow> bearer_set \<Rightarrow> bool" where
  "same_queues s s' \<longleftrightarrow> bs_ctrl s' = bs_ctrl s \<and> (\<forall>q. queue_of q s' = queue_of q s)"

definition bounded :: "nat \<Rightarrow> bearer_set \<Rightarrow> bool" where
  "bounded n s \<longleftrightarrow> length (bs_ctrl s) \<le> n \<and> (\<forall>q. length (queue_of q s) \<le> n)"

lemma same_queues_upd [simp]:
  "(\<And>b. b_queue (g b) = b_queue b) \<Longrightarrow> same_queues s (am_of_update q g s)"
  "(\<And>b. b_queue (h b) = b_queue b) \<Longrightarrow> same_queues s (um_of_update q h s)"
  "same_queues s (set_established_of q e s)"
proof -
  show "same_queues s (am_of_update q g s)" if "\<And>b. b_queue (g b) = b_queue b"
  proof -
    have "queue_of k (am_of_update q g s) = queue_of k s" for k using that by (cases k) (simp_all add: am_of_update_def)
    then show ?thesis by (simp add: same_queues_def am_of_update_def)
  qed
  show "same_queues s (um_of_update q h s)" if "\<And>b. b_queue (h b) = b_queue b"
  proof -
    have "queue_of k (um_of_update q h s) = queue_of k s" for k using that by (cases k) (simp_all add: um_of_update_def)
    then show ?thesis by (simp add: same_queues_def um_of_update_def)
  qed
  have "queue_of k (set_established_of q e s) = queue_of k s" for k by (cases k; cases q) simp_all
  then show "same_queues s (set_established_of q e s)" by (cases q) (simp_all add: same_queues_def del: queue_of.simps)
qed

lemma same_queues_trans: "same_queues a b \<Longrightarrow> same_queues b c \<Longrightarrow> same_queues a c"
  by (simp add: same_queues_def)

lemma same_queues_measures: "same_queues s s' \<Longrightarrow> bounded n s' = bounded n s \<and> bearers_total s' = bearers_total s"
  by (simp add: same_queues_def bounded_def bearers_total_def del: queue_of.simps)

text \<open>The frame of an event is the MAC PDU with the PDU's bytes sealed under key and count.\<close>

definition sealed_with :: "u64 \<Rightarrow> bytes \<times> app_pdu \<times> harq_event \<Rightarrow> bool" where
  "sealed_with seq = (\<lambda>(key, p, e). unat (he_proc e) < 128 \<and> he_ndi e \<in> {0, 1} \<and>
     link_encode (build_pdu [(ap_lcid p, protect key seq (ap_bytes p))]) (he_proc e) (he_ndi e) = Inr (he_coded e))"

definition flow_ok :: "nat \<Rightarrow> nat \<Rightarrow> (bytes \<times> app_pdu \<times> harq_event) list \<Rightarrow> dl_flow \<Rightarrow> bool" where
  "flow_ok n k log f \<longleftrightarrow>
     harq_tx_inv (df_harq_tx f) \<and> length (ht_procs (df_harq_tx f)) \<le> 128 \<and> bounded n (df_bearers f) \<and>
     df_enqueued f = df_dropped f + k + bearers_total (df_bearers f) \<and>
     df_dl_seq f = of_nat (length log) \<and> list_all2 sealed_with (map of_nat [0..<length log]) log"

lemma flow_ok_cong:
  assumes "flow_ok n k log f" "same_queues (df_bearers f) (df_bearers f')" "harq_tx_inv (df_harq_tx f')"
    "length (ht_procs (df_harq_tx f')) = length (ht_procs (df_harq_tx f))" "df_enqueued f' = df_enqueued f" "df_dropped f' = df_dropped f" "df_dl_seq f' = df_dl_seq f"
  shows "flow_ok n k log f'"
  using assms same_queues_measures [OF assms(2)] by (simp add: flow_ok_def)

lemma same_queues_refl [simp]: "same_queues s s"
  by (simp add: same_queues_def)

lemma lcid_queue_bounded: "bounded n s \<Longrightarrow> length (lcid_queue lcid s) \<le> n"
  by (auto simp: bounded_def lcid_queue_def split: option.split)

lemma set_lcid_queue_bounded: "bounded n s \<Longrightarrow> length xs \<le> n \<Longrightarrow> bounded n (set_lcid_queue lcid xs s)"
  by (auto simp: bounded_def set_lcid_queue_def simp del: queue_of.simps set_queue_of.simps split: option.split)

lemma set_lcid_queue_total:
  "bearers_total (set_lcid_queue lcid xs s) + length (lcid_queue lcid s) = bearers_total s + length xs"
proof (cases "qci_of_lcid lcid")
  case None
  then show ?thesis
    by (simp add: set_lcid_queue_def lcid_queue_def bearers_total_def del: queue_of.simps set_queue_of.simps)
next
  case (Some q)
  then show ?thesis
    by (cases q) (simp_all add: set_lcid_queue_def lcid_queue_def bearers_total_def del: queue_of.simps set_queue_of.simps)
qed

lemma flow_ok_send:
  assumes "flow_ok n k log f" "0 < n"
  shows "flow_ok n k log (flow_send n lcid sdu f)"
proof -
  let ?q = "lcid_queue lcid (df_bearers f)"
  have q: "length ?q \<le> n" using assms lcid_queue_bounded by (auto simp: flow_ok_def)
  show ?thesis
  proof (cases "length ?q \<ge> n")
    case True
    then have "?q \<noteq> []" using assms(2) by auto
    then show ?thesis
      using assms q True set_lcid_queue_total [of lcid "tl ?q @ [p]" "df_bearers f" for p]
      by (auto simp: flow_ok_def flow_send_def Let_def intro!: set_lcid_queue_bounded)
  next
    case False
    then show ?thesis
      using assms q set_lcid_queue_total [of lcid "?q @ [p]" "df_bearers f" for p]
      by (auto simp: flow_ok_def flow_send_def Let_def intro!: set_lcid_queue_bounded)
  qed
qed

lemma flow_ok_send_all:
  "flow_ok n k log f \<Longrightarrow> 0 < n \<Longrightarrow> flow_ok n k log (flow_send_all n lcid pdus f)"
  unfolding flow_send_all_def by (induction pdus arbitrary: f) (simp_all add: flow_ok_send)

lemma flow_ok_submit:
  assumes "flow_ok n k log f" "0 < n"
  shows "flow_ok n k log (flow_submit n now q sdu f)"
proof -
  have inv: "harq_tx_inv (df_harq_tx f)" using assms(1) by (simp add: flow_ok_def)
  have am: "flow_ok n k log (f\<lparr>df_bearers := am_of_update q (\<lambda>b. b\<lparr>b_tx := t\<rparr>) (df_bearers f)\<rparr>)" for t
    by (rule flow_ok_cong [OF assms(1)]) (simp_all add: inv)
  have um: "flow_ok n k log (f\<lparr>df_bearers := um_of_update q (\<lambda>b. b\<lparr>b_tx := t\<rparr>) (df_bearers f)\<rparr>)" for t
    by (rule flow_ok_cong [OF assms(1)]) (simp_all add: inv)
  show ?thesis
    unfolding flow_submit_def flow_submit_am_def flow_submit_um_def Let_def split_beta
    using flow_ok_send_all [OF am assms(2)] flow_ok_send_all [OF um assms(2)] by simp
qed

lemma pop_next_bounded:
  assumes pop: "pop_next s = Some ((c, p), s')" and b: "bounded n s"
  shows "bounded n s'"
proof -
  have q: "case c of None \<Rightarrow> bs_ctrl s = p # bs_ctrl s' \<and> (\<forall>q. queue_of q s' = queue_of q s)
        | Some k \<Rightarrow> bs_ctrl s = [] \<and> bs_ctrl s' = [] \<and> queue_of k s = p # queue_of k s' \<and>
            (\<forall>q. q \<noteq> k \<longrightarrow> queue_of q s' = queue_of q s)"
    by (rule pop_next_split [OF pop])
  show ?thesis
  proof (cases c)
    case None
    with q b show ?thesis by (simp add: bounded_def)
  next
    case (Some k)
    have "length (queue_of q s') \<le> n" for q
    proof (cases "q = k")
      case True
      have "length (queue_of k s) \<le> n" using b by (simp only: bounded_def)
      with True q Some show ?thesis by simp
    next
      case False
      with q Some b show ?thesis by (simp add: bounded_def)
    qed
    with q Some b show ?thesis by (simp add: bounded_def)
  qed
qed

lemma after_picks_bounded: "bounded n s \<Longrightarrow> bounded n (after_picks m s)"
proof (induction m arbitrary: s)
  case (Suc m)
  show ?case
  proof (cases "pop_next s")
    case None
    then show ?thesis using Suc by (simp add: after_picks_def)
  next
    case (Some r)
    obtain c p s' where r: "r = ((c, p), s')" by (metis surj_pair)
    with Some Suc pop_next_bounded [of s c p s' n] picked_Suc [of s c p s' m] show ?thesis by auto
  qed
qed simp

lemma ciphered_sealed:
  assumes "list_all2 (on_air tx) es (seal_all key seq ps)" "length (ht_procs tx) \<le> 128"
  shows "list_all2 sealed_with (map (\<lambda>i. seq + of_nat i) [0..<length (filter ap_cipher ps)]) (ciphered key es ps)"
  using assms(1)
proof (induction ps arbitrary: es seq)
  case (Cons p ps)
  show ?case
  proof (cases "ap_cipher p")
    case True
    have up: "[0..<Suc m] = 0 # map Suc [0..<m]" for m by (simp add: map_Suc_upt upt_conv_Cons)
    from Cons.prems True obtain e es' where es: "es = e # es'" "on_air tx e (ap_lcid p, protect key seq (ap_bytes p))"
        "list_all2 (on_air tx) es' (seal_all key (seq + 1) ps)"
      by (auto simp: list_all2_Cons2)
    have "sealed_with seq (key, p, e)" using es(2) assms(2) by (auto simp: sealed_with_def on_air_def)
    moreover have "(\<lambda>i. seq + of_nat (Suc i)) = (\<lambda>i. (seq + 1) + (of_nat i :: u64))" by (simp add: fun_eq_iff)
    ultimately show ?thesis
      using True Cons.IH [OF es(3)] by (simp add: ciphered_def es(1) up o_def del: upt_Suc of_nat_Suc)
  next
    case False
    with Cons show ?thesis by (auto simp: ciphered_def list_all2_Cons2)
  qed
qed (simp add: ciphered_def)

lemma sealed_nonce:
  assumes "sealed_with seq (key, p, e)" "ap_lcid p < LCID_PADDING" "length (ap_bytes p) \<le> 32000"
  shows "frame_nonce (he_coded e) = Some (pdcp_seq_bytes seq)"
proof -
  let ?sdu = "protect key seq (ap_bytes p)"
  have len: "length ?sdu \<le> 32013" using length_protect [of key seq "ap_bytes p"] assms(3) by simp
  have "mac_carries [(ap_lcid p, ?sdu)]" using len assms(2) by (simp add: mac_carries_def)
  then have "parse_pdu (build_pdu [(ap_lcid p, ?sdu)]) = [(ap_lcid p, ?sdu)]"
    using mac_codec.dec_enc by fastforce
  moreover have "2 * length (build_pdu [(ap_lcid p, ?sdu)]) + 6 < 65536"
    using len length_build_pdu_1 [of "ap_lcid p" ?sdu] by simp
  then obtain soft where "harq_receive harq_rx_reset (he_coded e) = Inr (soft, \<lparr>hr_delivered = True,
      hr_need_feedback = True, hr_ack = True, hr_proc = he_proc e, hr_mac_pdu = build_pdu [(ap_lcid p, ?sdu)]\<rparr>)"
    using harq_receive_intact [OF soft_ok_reset, of "build_pdu [(ap_lcid p, ?sdu)]"] assms(1)
    unfolding sealed_with_def by blast
  moreover have "take 8 (drop 1 ?sdu) = pdcp_seq_bytes seq" by (simp add: protect_eq Let_def)
  ultimately show ?thesis by (simp add: frame_nonce_def)
qed

lemma flow_ok_drain:
  assumes ok: "flow_ok n k log f" and d: "flow_drain f = Inr (f', es)"
  shows "flow_ok n (k + length es) (log @ ciphered (df_up_key f) es (picked (length es) (df_bearers f))) f'"
proof -
  let ?ps = "picked (length es) (df_bearers f)"
  let ?m = "length (filter ap_cipher ?ps)" and ?new = "ciphered (df_up_key f) es ?ps"
  have inv: "harq_tx_inv (df_harq_tx f)" using ok by (simp add: flow_ok_def)
  have s: "harq_tx_inv (df_harq_tx f')" "bearers_total (df_bearers f) = length es + bearers_total (df_bearers f')"
      "length (ht_procs (df_harq_tx f')) = length (ht_procs (df_harq_tx f))"
      "list_all2 (on_air (df_harq_tx f)) es (seal_all (df_up_key f) (df_dl_seq f) ?ps)"
      and f': "f' = f\<lparr>df_harq_tx := df_harq_tx f', df_bearers := after_picks (length es) (df_bearers f), df_dl_seq := df_dl_seq f + of_nat ?m\<rparr>"
    using flow_drain_spec [OF inv] d by auto
  have p: "df_bearers f' = after_picks (length es) (df_bearers f)" "df_enqueued f' = df_enqueued f" "df_dropped f' = df_dropped f"
      "df_dl_seq f' = df_dl_seq f + of_nat ?m"
    by (subst f', simp)+
  have new: "list_all2 sealed_with (map (\<lambda>i. df_dl_seq f + of_nat i) [0..<?m]) ?new"
    using s(4) ok by (intro ciphered_sealed) (auto simp: flow_ok_def)
  then have len: "length ?new = ?m" by (auto dest: list_all2_lengthD)
  have "map (\<lambda>i. of_nat (length log) + of_nat i) [0..<?m] = (map of_nat [length log..<length log + ?m] :: u64 list)"
    by (rule nth_equalityI) simp_all
  then have "list_all2 sealed_with (map of_nat [0..<length (log @ ?new)]) (log @ ?new)"
    using ok new len
    by (auto simp: flow_ok_def upt_add_eq_append [of 0 "length log", simplified] intro!: list_all2_appendI)
  then show ?thesis
    using ok s p len after_picks_bounded [of n "df_bearers f" "length es"] by (simp add: flow_ok_def)
qed

lemma pdcp_seq_bytes_inj: "pdcp_seq_bytes a = pdcp_seq_bytes b \<Longrightarrow> a = b"
proof -
  assume eq: "pdcp_seq_bytes a = pdcp_seq_bytes b"
  have byte: "ucast (drop_bit (8 * i) a) = (ucast (drop_bit (8 * i) b) :: u8)" if "i < 8" for i
    using arg_cong [OF eq, of "\<lambda>xs. xs ! i"] that by (simp add: pdcp_seq_bytes_def del: upt_Suc)
  show "a = b"
  proof (rule bit_word_eqI)
    fix n assume n: "n < LENGTH(64)"
    have "bit (ucast (drop_bit (8 * (n div 8)) x) :: u8) (n mod 8) = bit x n" for x :: u64
      by (simp add: bit_ucast_iff bit_drop_bit_eq)
    moreover have "n div 8 < 8" using n by simp
    ultimately show "bit a n = bit b n" using byte by metis
  qed
qed

lemma harq_advance_inv [simp]: "harq_tx_inv (harq_advance now tx) = harq_tx_inv tx"
  by (simp add: harq_advance_def harq_tx_inv_def)

lemma harq_on_nack_inv: "harq_tx_inv tx \<Longrightarrow> harq_tx_inv (fst (harq_on_nack proc tx))"
  using harq_retx_step [of tx "unat proc" "fst (harq_retx (unat proc) tx)" "snd (harq_retx (unat proc) tx)"]
  by (auto simp: harq_on_nack_def split_beta)

lemma harq_procs_length [simp]:
  "length (ht_procs (harq_advance now tx)) = length (ht_procs tx)"
  "length (ht_procs (harq_on_ack proc tx)) = length (ht_procs tx)"
  "length (ht_procs (harq_tx_reset tx)) = length (ht_procs tx)"
  "length (ht_procs (fst (harq_on_nack proc tx))) = length (ht_procs tx)"
  by (auto simp: harq_advance_def harq_on_ack_def harq_tx_reset_def harq_on_nack_def harq_retx_def Let_def split_beta)

lemma flow_ok_harq:
  assumes "flow_ok n k log f"
  shows "flow_ok n k log (fst (flow_poll_timeouts now f))" "flow_ok n k log (fst (flow_on_harq_ack now sdu f))"
proof -
  have inv: "harq_tx_inv (df_harq_tx f)" using assms by (simp add: flow_ok_def)
  have "harq_tx_inv (fst (harq_poll_timeouts now (df_harq_tx f)))"
    using harq_poll_step [OF inv prod.collapse [symmetric], of now] by blast
  moreover have "ht_cfg (fst (harq_poll_timeouts now (df_harq_tx f))) = ht_cfg (df_harq_tx f)"
    by (rule harq_poll_cfg [OF prod.collapse [symmetric]])
  ultimately have "length (ht_procs (fst (harq_poll_timeouts now (df_harq_tx f)))) = length (ht_procs (df_harq_tx f))"
    using inv by (simp add: harq_tx_inv_def)
  with \<open>harq_tx_inv (fst _)\<close> show "flow_ok n k log (fst (flow_poll_timeouts now f))"
    by (intro flow_ok_cong [OF assms]) (simp_all add: flow_poll_timeouts_def split_beta)
  show "flow_ok n k log (fst (flow_on_harq_ack now sdu f))"
    by (rule flow_ok_cong [OF assms])
      (auto simp: flow_on_harq_ack_def Let_def split_beta inv harq_on_ack_inv harq_on_nack_inv)
qed

lemma flow_run_ok:
  assumes "flow_run n f k log" and pos: "0 < n"
  shows "flow_ok n k log f"
  using assms(1)
proof (induction rule: flow_run.induct)
  case start
  have "queue_of q bearer_set_init = []" for q
    by (cases q) (simp_all add: bearer_set_init_def make_am_bearer_def make_um_bearer_def Let_def)
  then show ?case
    by (simp add: flow_ok_def dl_flow_init_def harq_tx_inv_init bounded_def bearers_total_def del: queue_of.simps)
      (simp add: bearer_set_init_def harq_tx_init_def harq_default_config_def)
next
  case (teardown f k log)
  have "same_queues (df_bearers f) (df_bearers (bs_bearer_teardowns f))"
    unfolding bs_bearer_teardowns_def
    by (simp del: set_established_of.simps)
      (rule same_queues_trans [OF same_queues_upd(3) same_queues_trans [OF same_queues_upd(3) same_queues_upd(3)]])
  then show ?case
    by (rule flow_ok_cong [rotated]) (use teardown in \<open>simp_all add: flow_ok_def bs_bearer_teardowns_def\<close>)
next
  case (send f k log lcid sdu)
  then show ?case using pos by (simp add: flow_ok_send)
next
  case (submit f k log now q sdu)
  then show ?case using pos by (simp add: flow_ok_submit)
next
  case (drain f k log f' es)
  then show ?case by (simp add: flow_ok_drain)
next
  case (poll f k log now)
  then show ?case by (simp add: flow_ok_harq)
next
  case (feedback f k log now sdu)
  then show ?case by (simp add: flow_ok_harq)
qed ((rule flow_ok_cong, assumption); simp add: flow_ok_def ensure_bs_bearer_def flow_on_cqi_def flow_suspend_def
  flow_resume_def flow_arm_security_def harq_reset_inv Let_def)+

lemma flow_backpressure_aux:
  "flow_run n f k log \<Longrightarrow> 0 < n \<Longrightarrow> \<exists>f' es. flow_drain f = Inr (f', es)"
  using flow_run_ok flow_drain_spec by (fastforce simp: flow_ok_def)

lemma lcid_queue_set [simp]: "lcid_queue lcid (set_lcid_queue lcid xs s) = xs"
  by (auto simp: lcid_queue_def set_lcid_queue_def simp del: queue_of.simps set_queue_of.simps split: option.split)

lemma lcid_queue_other:
  "qci_of_lcid other \<noteq> qci_of_lcid lcid \<Longrightarrow> lcid_queue other (set_lcid_queue lcid xs s) = lcid_queue other s"
  by (auto simp: lcid_queue_def set_lcid_queue_def simp del: queue_of.simps set_queue_of.simps split: option.splits)

text \<open>
  C24. Backpressure and accounting: in every state a flow can reach with a positive queue
  bound, no queue is longer than the bound; enqueueing appends the PDU at the back of its
  queue, shedding exactly the oldest entry if the queue is full, and touches no other queue;
  every PDU ever enqueued was either shed at a full queue, transmitted, or still waits; and a
  scheduling pass on the flow does not throw.
\<close>
theorem flow_backpressure:
  assumes "flow_run n f k log" "0 < n"
  shows "(\<forall>lcid. length (lcid_queue lcid (df_bearers f)) \<le> n) \<and>
     (\<forall>lcid sdu. lcid_queue lcid (df_bearers (flow_send n lcid sdu f)) =
        (if length (lcid_queue lcid (df_bearers f)) < n then lcid_queue lcid (df_bearers f)
         else drop 1 (lcid_queue lcid (df_bearers f))) @
           [\<lparr>ap_lcid = lcid, ap_cipher = df_sec_on f \<and> (lcid = LCID_NAS_DCCH \<or> qci_of_lcid lcid \<noteq> None), ap_bytes = sdu\<rparr>]) \<and>
     (\<forall>lcid sdu other. qci_of_lcid other \<noteq> qci_of_lcid lcid \<longrightarrow>
        lcid_queue other (df_bearers (flow_send n lcid sdu f)) = lcid_queue other (df_bearers f)) \<and>
     df_enqueued f = df_dropped f + k + bearers_total (df_bearers f) \<and> (\<exists>f' es. flow_drain f = Inr (f', es))"
proof (intro conjI allI impI)
  fix lcid sdu other
  note ok = flow_run_ok [OF assms, unfolded flow_ok_def]
  show "length (lcid_queue lcid (df_bearers f)) \<le> n" using ok lcid_queue_bounded by blast
  show "lcid_queue lcid (df_bearers (flow_send n lcid sdu f)) =
      (if length (lcid_queue lcid (df_bearers f)) < n then lcid_queue lcid (df_bearers f)
       else drop 1 (lcid_queue lcid (df_bearers f))) @
           [\<lparr>ap_lcid = lcid, ap_cipher = df_sec_on f \<and> (lcid = LCID_NAS_DCCH \<or> qci_of_lcid lcid \<noteq> None), ap_bytes = sdu\<rparr>]"
    by (simp add: flow_send_def Let_def drop_Suc)
  show "lcid_queue other (df_bearers (flow_send n lcid sdu f)) = lcid_queue other (df_bearers f)"
    if "qci_of_lcid other \<noteq> qci_of_lcid lcid"
    by (simp add: flow_send_def Let_def lcid_queue_other [OF that])
  show "df_enqueued f = df_dropped f + k + bearers_total (df_bearers f)" using ok by blast
  show "\<exists>f' es. flow_drain f = Inr (f', es)" using ok flow_drain_spec [of f] by blast
qed

theorem flow_backpressure_witness:
  "lcid_queue LCID_CCCH (df_bearers (flow_send 1 LCID_CCCH [2] (flow_send 1 LCID_CCCH [1] dl_flow_init))) =
     [\<lparr>ap_lcid = LCID_CCCH, ap_cipher = False, ap_bytes = [2]\<rparr>] \<and>
   length (lcid_queue LCID_CCCH (df_bearers (flow_send 1 LCID_CCCH [1] dl_flow_init))) \<le> 1 \<and>
   df_dropped (flow_send 1 LCID_CCCH [2] (flow_send 1 LCID_CCCH [1] dl_flow_init)) = 1"
proof -
  have "flow_run 1 (flow_send 1 LCID_CCCH [1] dl_flow_init) 0 []"
    by (intro flow_run.intros)
  from flow_backpressure [OF this] have "length (lcid_queue LCID_CCCH (df_bearers (flow_send 1 LCID_CCCH [1] dl_flow_init))) \<le> 1"
    by simp
  then show ?thesis
    by (simp add: flow_send_def Let_def lcid_queue_def set_lcid_queue_def qci_of_lcid_def lcid_defs dl_flow_init_def bearer_set_init_def)
qed

text \<open>
  C23. The counts of the cipher never repeat within a flow: the \<open>i\<close>-th PDU that a flow ciphers,
  whatever happens in between (suspension, resumption, new keys), goes on the air as the coded
  frame of its bytes sealed with count \<open>i\<close>; a receiver of that frame (for a PDU of at most
  32000 bytes on a proper logical channel) finds the bytes of \<open>i\<close> as nonce; and for at most
  $2^{64}$ ciphered PDUs these nonces are all different.
\<close>
theorem flow_counts_unique:
  assumes "flow_run n f k log" "0 < n" "length log \<le> 2 ^ 64"
  shows "(\<forall>i < length log. case log ! i of (key, p, e) \<Rightarrow>
       link_encode (build_pdu [(ap_lcid p, protect key (of_nat i) (ap_bytes p))]) (he_proc e) (he_ndi e) = Inr (he_coded e) \<and>
       (ap_lcid p < LCID_PADDING \<and> length (ap_bytes p) \<le> 32000 \<longrightarrow>
          frame_nonce (he_coded e) = Some (pdcp_seq_bytes (of_nat i)))) \<and>
     inj_on (\<lambda>i. pdcp_seq_bytes (of_nat i)) {..<length log}"
proof
  have all: "list_all2 sealed_with (map of_nat [0..<length log]) log"
    using flow_run_ok [OF assms(1,2)] by (simp add: flow_ok_def)
  show "\<forall>i < length log. case log ! i of (key, p, e) \<Rightarrow>
       link_encode (build_pdu [(ap_lcid p, protect key (of_nat i) (ap_bytes p))]) (he_proc e) (he_ndi e) = Inr (he_coded e) \<and>
       (ap_lcid p < LCID_PADDING \<and> length (ap_bytes p) \<le> 32000 \<longrightarrow>
          frame_nonce (he_coded e) = Some (pdcp_seq_bytes (of_nat i)))"
  proof (intro allI impI)
    fix i assume i: "i < length log"
    obtain key p e where l: "log ! i = (key, p, e)" by (metis prod.exhaust)
    have "sealed_with (of_nat i) (key, p, e)" using list_all2_nthD2 [OF all i] i l by simp
    then show "case log ! i of (key, p, e) \<Rightarrow>
       link_encode (build_pdu [(ap_lcid p, protect key (of_nat i) (ap_bytes p))]) (he_proc e) (he_ndi e) = Inr (he_coded e) \<and>
       (ap_lcid p < LCID_PADDING \<and> length (ap_bytes p) \<le> 32000 \<longrightarrow>
          frame_nonce (he_coded e) = Some (pdcp_seq_bytes (of_nat i)))"
      using sealed_nonce [of "of_nat i" key p e] by (simp add: l sealed_with_def)
  qed
  show "inj_on (\<lambda>i. pdcp_seq_bytes (of_nat i)) {..<length log}"
    using assms(3) by (intro inj_onI) (auto dest!: pdcp_seq_bytes_inj simp: word_of_nat_eq_iff take_bit_eq_mod)
qed

theorem flow_counts_unique_witness:
  "\<exists>f' es log. flow_drain flow_demo = Inr (f', es) \<and> flow_run 64 f' (length es) log \<and>
     inj_on (\<lambda>i. pdcp_seq_bytes (of_nat i)) {..<length log}"
proof -
  have run: "flow_run 64 flow_demo 0 []"
    unfolding flow_demo_def by (intro flow_run.intros)
  then obtain f' es where d: "flow_drain flow_demo = Inr (f', es)" using flow_backpressure_aux [OF run] by auto
  let ?log = "ciphered (df_up_key flow_demo) es (picked (length es) (df_bearers flow_demo))"
  have r: "flow_run 64 f' (length es) ?log" using flow_run.drain [OF run d] by simp
  have "length es \<le> bearers_total (df_bearers flow_demo)"
    using flow_drain_spec [of flow_demo] flow_run_ok [OF run] d by (auto simp: flow_ok_def)
  moreover have "bearers_total (df_bearers flow_demo) = 2"
    by (simp add: bearers_total_def flow_demo_bearers del: queue_of.simps)
  moreover have "length ?log \<le> length es"
    unfolding ciphered_def length_map by (rule order_trans [OF length_filter_le]) simp
  ultimately have "length ?log \<le> 2 ^ 64" by simp
  with flow_counts_unique [OF r] r d show ?thesis by auto
qed

end
