(* ===== verification/Effects.thy ===== *)
theory Effects
  imports Fec
begin

text \<open>
  Sequencing of effects, shared by the two nodes. The methods of a node change its state and
  send messages in passing: an action returns the new state and what it sent, in order; an
  attempt may also end with an exception, after which the model has no state. Loops over
  containers become \<open>act_for\<close> and \<open>try_for\<close>. The locales \<open>steps\<close> and \<open>guarded_steps\<close> state once what
  a node proof needs of a relation between the states before and after.
\<close>

type_synonym ('s, 'o) act = "'s \<Rightarrow> 's \<times> 'o list"
type_synonym ('s, 'o) attempt = "'s \<Rightarrow> cpp_exception + 's \<times> 'o list"

definition act_seq :: "('s, 'o) act \<Rightarrow> ('s, 'o) act \<Rightarrow> ('s, 'o) act" where
  "act_seq a b n = (let (n1, o1) = a n; (n2, o2) = b n1 in (n2, o1 @ o2))"

definition act_upd :: "('s \<Rightarrow> 's) \<Rightarrow> ('s, 'o) act" where
  "act_upd g n = (g n, [])"

primrec act_for :: "('a \<Rightarrow> ('s, 'o) act) \<Rightarrow> 'a list \<Rightarrow> ('s, 'o) act" where
  "act_for a [] = act_upd (\<lambda>n. n)"
| "act_for a (x # xs) = act_seq (a x) (act_for a xs)"

definition try_seq :: "('s, 'o) attempt \<Rightarrow> ('s, 'o) attempt \<Rightarrow> ('s, 'o) attempt" where
  "try_seq a b n =
     (case a n of
        Inl e \<Rightarrow> Inl e
      | Inr (n1, o1) \<Rightarrow> (case b n1 of Inl e \<Rightarrow> Inl e | Inr (n2, o2) \<Rightarrow> Inr (n2, o1 @ o2)))"

definition try_act :: "('s, 'o) act \<Rightarrow> ('s, 'o) attempt" where
  "try_act a n = Inr (a n)"

primrec try_for :: "('a \<Rightarrow> ('s, 'o) attempt) \<Rightarrow> 'a list \<Rightarrow> ('s, 'o) attempt" where
  "try_for a [] = try_act (act_upd (\<lambda>n. n))"
| "try_for a (x # xs) = try_seq (a x) (try_for a xs)"

lemmas effect_defs = act_seq_def act_upd_def try_seq_def try_act_def

text \<open>An attempt that takes a step whenever it returns, and one that returns from the states of a guard.\<close>

definition steps_in :: "('s \<Rightarrow> 's \<Rightarrow> bool) \<Rightarrow> ('s, 'o) attempt \<Rightarrow> bool" where
  "steps_in R a \<longleftrightarrow> (\<forall>n n' outs. a n = Inr (n', outs) \<longrightarrow> R n n')"

definition returns_in :: "('s \<Rightarrow> bool) \<Rightarrow> ('s \<Rightarrow> 's \<Rightarrow> bool) \<Rightarrow> ('s, 'o) attempt \<Rightarrow> bool" where
  "returns_in ok R a \<longleftrightarrow> (\<forall>n. ok n \<longrightarrow> (\<exists>n' outs. a n = Inr (n', outs) \<and> R n n'))"

lemma steps_inD: "steps_in R a \<Longrightarrow> a n = Inr (n', outs) \<Longrightarrow> R n n'"
  by (simp add: steps_in_def)

lemma returns_inD: "returns_in ok R a \<Longrightarrow> ok n \<Longrightarrow> \<exists>n' outs. a n = Inr (n', outs) \<and> R n n'"
  by (simp add: returns_in_def)

locale steps =
  fixes R :: "'s \<Rightarrow> 's \<Rightarrow> bool"
  assumes refl: "R n n"
    and trans: "R a b \<Longrightarrow> R b c \<Longrightarrow> R a c"
begin

lemma fold_steps: "(\<And>x n. R n (g x n)) \<Longrightarrow> R n (fold g xs n)"
  by (induction xs arbitrary: n) (simp_all add: refl, blast intro: trans)

lemma upd_step: "R n (g n) \<Longrightarrow> R n (fst (act_upd g n))"
  by (simp add: act_upd_def)

lemma seq_steps: "R n (fst (a n)) \<Longrightarrow> (\<And>m. R m (fst (b m))) \<Longrightarrow> R n (fst (act_seq a b n))"
  by (simp add: act_seq_def split_beta) (blast intro: trans)

lemma for_steps: "(\<And>x n. R n (fst (a x n))) \<Longrightarrow> R n (fst (act_for a xs n))"
  by (induction xs arbitrary: n) (simp_all add: act_upd_def refl seq_steps)

lemma try_act_steps: "(\<And>n. R n (fst (a n))) \<Longrightarrow> steps_in R (try_act a)"
  by (simp add: steps_in_def try_act_def) (metis fst_conv)

lemma try_seq_steps: "steps_in R a \<Longrightarrow> steps_in R b \<Longrightarrow> steps_in R (try_seq a b)"
proof -
  assume a: "steps_in R a" and b: "steps_in R b"
  show ?thesis
    unfolding steps_in_def try_seq_def
    by (auto split: sum.splits dest!: steps_inD [OF a] steps_inD [OF b] intro: trans)
qed

lemma try_for_steps: "(\<And>x. steps_in R (a x)) \<Longrightarrow> steps_in R (try_for a xs)"
  by (induction xs) (simp_all add: try_act_steps act_upd_def refl try_seq_steps)

lemma try_after_steps: "(\<And>n. R n (g n)) \<Longrightarrow> steps_in R a \<Longrightarrow> steps_in R (\<lambda>n. a (g n))"
  unfolding steps_in_def by (blast intro: trans)

end

locale guarded_steps = steps R for R :: "'s \<Rightarrow> 's \<Rightarrow> bool" +
  fixes ok :: "'s \<Rightarrow> bool"
  assumes ok_step: "ok n \<Longrightarrow> R n n' \<Longrightarrow> ok n'"
begin

lemma returns_act: "(\<And>n. R n (fst (a n))) \<Longrightarrow> returns_in ok R (try_act a)"
  by (simp add: returns_in_def try_act_def) (metis prod.collapse)

lemma returns_seq: "returns_in ok R a \<Longrightarrow> returns_in ok R b \<Longrightarrow> returns_in ok R (try_seq a b)"
proof -
  assume a: "returns_in ok R a" and b: "returns_in ok R b"
  have "\<exists>n' outs. try_seq a b n = Inr (n', outs) \<and> R n n'" if n: "ok n" for n
  proof -
    obtain n1 o1 where 1: "a n = Inr (n1, o1)" "R n n1" using returns_inD [OF a n] by blast
    then obtain n2 o2 where "b n1 = Inr (n2, o2)" "R n1 n2" using returns_inD [OF b ok_step [OF n]] by blast
    with 1 show ?thesis by (auto simp: try_seq_def intro: trans)
  qed
  then show ?thesis by (simp add: returns_in_def)
qed

lemma returns_for: "(\<And>x. returns_in ok R (a x)) \<Longrightarrow> returns_in ok R (try_for a xs)"
  by (induction xs) (simp_all add: returns_act returns_seq act_upd_def refl)

lemma returns_after: "(\<And>n. R n (g n)) \<Longrightarrow> returns_in ok R a \<Longrightarrow> returns_in ok R (\<lambda>n. a (g n))"
  unfolding returns_in_def by (blast intro: trans ok_step)

lemma returns_ok: "returns_in ok R a \<Longrightarrow> ok n \<Longrightarrow> a n = Inr (n', outs) \<Longrightarrow> ok n' \<and> R n n'"
  unfolding returns_in_def by (fastforce intro: ok_step)

end

end
