(* ===== verification/BsNode.thy ===== *)
theory BsNode
  imports BsFlow Conf Effects Rach Rrc Nas CnMessages Timers
begin

text \<open>
  The base station, \<^verbatim>\<open>stack/core/src/bs_node.cpp\<close>: it owns the cell side of random access, RRC and
  NAS, one downlink flow per terminal, the conference bridge, and the state of handovers, and
  composes them. Messages to the core network and to the peer cell, and air frames, are
  outputs in the order in which they are sent; the carriers deliver them later, so an answer
  is a separate input. Uplink power control works on floating-point measurements and is
  inert for bursts that arrive without metrics, which is the interface modelled here; the
  aggregation of forwarding events only produces log lines.
\<close>

subsection \<open>State\<close>

record bs_config =
  bc_sib_period_ms :: u32
  bc_max_dl_queue_per_ue :: nat
  bc_cell_id :: u16
  bc_plmn_id :: cstring
  bc_tac :: u16
  bc_auto_handover :: bool
  bc_crnti_base :: u16
  bc_inactive_ms :: u32

definition bs_default_config :: bs_config where
  "bs_default_config = \<lparr>bc_sib_period_ms = 200, bc_max_dl_queue_per_ue = 64, bc_cell_id = 1,
     bc_plmn_id = cstr ''46001'', bc_tac = 1, bc_auto_handover = True, bc_crnti_base = 1, bc_inactive_ms = 0\<rparr>"

record ho_context =
  hx_tmsi :: u32
  hx_imsi :: cstring
  hx_up_key :: bytes
  hx_sec_on :: bool
  hx_from_cell :: u16

record initiated_ho =
  ih_target_cell :: u16
  ih_new_crnti :: u16

record pending_xn_ho =
  px_source_crnti :: u16
  px_target_cell :: u16

record bs_node =
  bn_config :: bs_config
  bn_rach :: rach_bs
  bn_rrc :: rrc_bs
  bn_nas :: nas_bs
  bn_timers :: "unit timer_list"
  bn_confs :: confs
  bn_xn :: bool
  bn_pending_xn_ho :: "u32 \<rightharpoonup> pending_xn_ho"
  bn_ho_coordinator :: bool
  bn_paging_target :: cstring
  bn_initiated_ho :: "u16 \<rightharpoonup> initiated_ho"
  bn_ho_prepared :: "u16 \<rightharpoonup> ho_context"
  bn_next_ho_crnti :: u16
  bn_cn_amf :: bool
  bn_cn_upf :: bool
  bn_ng_setup_ok :: bool
  bn_sib_enabled :: bool
  bn_broadcasting :: bool
  bn_now_ms :: u32
  bn_ul_crnti :: u16
  bn_tmsi_to_crnti :: "u32 \<rightharpoonup> u16"
  bn_flows :: "u16 \<rightharpoonup> dl_flow"
  bn_pending_flow_erase :: "u16 list"

definition bs_node_init :: "bs_config \<Rightarrow> bs_node" where
  "bs_node_init cfg =
     \<lparr>bn_config = cfg,
      bn_rach = rach_set_crnti_base (bc_crnti_base cfg) (rach_set_cell_id (bc_cell_id cfg) rach_bs_init),
      bn_rrc = rrc_set_crnti_base (bc_crnti_base cfg)
        (set_cell_identity (bc_cell_id cfg) (bc_plmn_id cfg) (bc_tac cfg) rrc_bs_init),
      bn_nas = nas_bs_init, bn_timers = timer_list_init, bn_confs = Map.empty, bn_xn = False,
      bn_pending_xn_ho = Map.empty, bn_ho_coordinator = False, bn_paging_target = [],
      bn_initiated_ho = Map.empty, bn_ho_prepared = Map.empty, bn_next_ho_crnti = bc_crnti_base cfg + 0x1000,
      bn_cn_amf = False, bn_cn_upf = False, bn_ng_setup_ok = False, bn_sib_enabled = True, bn_broadcasting = False,
      bn_now_ms = 0, bn_ul_crnti = 0, bn_tmsi_to_crnti = Map.empty, bn_flows = Map.empty, bn_pending_flow_erase = []\<rparr>"

text \<open>
  What a handler takes from outside: the random challenges it may draw, the answer of the
  handover coordinator callback, and the order in which each hash map with given keys is
  traversed. Every input of the node comes with an environment of its own.
\<close>

record bs_env =
  en_rand :: "nat \<Rightarrow> bytes"
  en_coordinator :: "u16 \<Rightarrow> ho_context \<Rightarrow> u16 option"
  it_tmsi :: "u32 set \<Rightarrow> u32 list"
  it_nas :: "u32 set \<Rightarrow> u32 list"
  it_nas_pending :: "u32 set \<Rightarrow> u32 list"
  it_rrc :: "u16 set \<Rightarrow> u16 list"
  it_flows :: "u16 set \<Rightarrow> u16 list"
  it_ho :: "u16 set \<Rightarrow> u16 list"
  it_confs :: "u32 set \<Rightarrow> u32 list"

datatype bs_out = AirOut air_frame int | AmfOut cn_message | UpfOut cn_message | XnOut cn_message

type_synonym bs_act = "(bs_node, bs_out) act"
type_synonym bs_try = "(bs_node, bs_out) attempt"

subsection \<open>Flows\<close>

text \<open>\<^verbatim>\<open>flow(rnti)\<close>: the entry, created when there is none.\<close>

definition flow_of :: "u16 \<Rightarrow> bs_node \<Rightarrow> dl_flow" where
  "flow_of rnti n = (case bn_flows n rnti of None \<Rightarrow> dl_flow_init | Some f \<Rightarrow> f)"

definition with_flow :: "u16 \<Rightarrow> (dl_flow \<Rightarrow> dl_flow) \<Rightarrow> bs_node \<Rightarrow> bs_node" where
  "with_flow rnti g n = n\<lparr>bn_flows := (bn_flows n)(rnti \<mapsto> g (flow_of rnti n))\<rparr>"

definition erase_flow :: "u16 \<Rightarrow> bs_node \<Rightarrow> bs_node" where
  "erase_flow rnti n = n\<lparr>bn_flows := (bn_flows n)(rnti := None)\<rparr>"

abbreviation max_queue :: "bs_node \<Rightarrow> nat" where
  "max_queue n \<equiv> bc_max_dl_queue_per_ue (bn_config n)"

definition mcs_for_frame :: "air_frame \<Rightarrow> bs_node \<Rightarrow> int" where
  "mcs_for_frame frame n =
     (if af_type frame \<noteq> DATA \<or> af_rnti frame = RNTI_BROADCAST then 0
      else case bn_flows n (af_rnti frame) of None \<Rightarrow> 0 | Some f \<Rightarrow> df_mcs f)"

definition dl_mcs :: "u16 \<Rightarrow> bs_node \<Rightarrow> int" where
  "dl_mcs rnti n = (case bn_flows n rnti of None \<Rightarrow> 0 | Some f \<Rightarrow> df_mcs f)"

definition flow_cqi :: "u16 \<Rightarrow> bs_node \<Rightarrow> int" where
  "flow_cqi rnti n = (case bn_flows n rnti of None \<Rightarrow> -1 | Some f \<Rightarrow> df_cqi f)"

definition flow_suspended :: "u16 \<Rightarrow> bs_node \<Rightarrow> bool" where
  "flow_suspended rnti n = (case bn_flows n rnti of None \<Rightarrow> False | Some f \<Rightarrow> df_suspended f)"

definition send_frame :: "air_frame_type \<Rightarrow> u16 \<Rightarrow> bytes \<Rightarrow> bs_act" where
  "send_frame ty rnti payload n =
     (let frame = \<lparr>af_type = ty, af_rnti = rnti, af_payload = payload\<rparr>
      in (n, [AirOut frame (mcs_for_frame frame n)]))"

definition downlink_raw :: "u16 \<Rightarrow> u8 \<Rightarrow> bytes \<Rightarrow> bs_act" where
  "downlink_raw rnti lcid sdu = send_frame DATA rnti (build_pdu [(lcid, sdu)])"

definition downlink_send :: "u16 \<Rightarrow> u8 \<Rightarrow> bytes \<Rightarrow> bs_node \<Rightarrow> bs_node" where
  "downlink_send rnti lcid sdu n = with_flow rnti (flow_send (max_queue n) lcid sdu) n"

definition send_events :: "u16 \<Rightarrow> harq_event list \<Rightarrow> bs_act" where
  "send_events rnti es = act_for (\<lambda>e. send_frame DATA rnti (he_coded e)) es"

definition send_ack :: "u16 \<Rightarrow> harq_result \<Rightarrow> bs_act" where
  "send_ack to res n =
     (if \<not> hr_need_feedback res \<or> to = 0 \<or> to = RNTI_BROADCAST then (n, [])
      else if hr_proc res = 0x7F then (n, [])
      else downlink_raw to LCID_HARQ_ACK [hr_proc res AND 0x7F, if hr_ack res then 1 else 0]
             (with_flow to (\<lambda>f. f\<lparr>df_harq_tx := harq_advance (bn_now_ms n) (df_harq_tx f)\<rparr>) n))"

subsection \<open>Identities\<close>

definition tmsi_for_crnti :: "bs_env \<Rightarrow> u16 \<Rightarrow> bs_node \<Rightarrow> u32" where
  "tmsi_for_crnti env crnti n =
     (case find (\<lambda>t. bn_tmsi_to_crnti n t = Some crnti) (it_tmsi env (dom (bn_tmsi_to_crnti n))) of
        None \<Rightarrow> 0 | Some t \<Rightarrow> t)"

definition crnti_for_imsi :: "bs_env \<Rightarrow> cstring \<Rightarrow> bs_node \<Rightarrow> u16" where
  "crnti_for_imsi env imsi n =
     (case find_ue_by_imsi (it_nas env (dom (nb_contexts (bn_nas n)))) imsi (bn_nas n) of
        None \<Rightarrow> 0
      | Some ctx \<Rightarrow> (case bn_tmsi_to_crnti n (nc_tmsi ctx) of None \<Rightarrow> 0 | Some c \<Rightarrow> c))"

definition erase_crnti :: "u16 \<Rightarrow> bs_node \<Rightarrow> bs_node" where
  "erase_crnti rnti n =
     n\<lparr>bn_tmsi_to_crnti := (\<lambda>t. if bn_tmsi_to_crnti n t = Some rnti then None else bn_tmsi_to_crnti n t)\<rparr>"

definition page :: "cstring \<Rightarrow> bs_node \<Rightarrow> bs_node" where
  "page imsi n = n\<lparr>bn_paging_target := imsi\<rparr>"

subsection \<open>Callbacks of RRC, NAS and random access\<close>

text \<open>The re-establishment callback: the data path follows the context to its new C-RNTI.\<close>

definition on_rrc_reest :: "bs_env \<Rightarrow> u16 \<Rightarrow> u16 \<Rightarrow> bs_node \<Rightarrow> bs_node" where
  "on_rrc_reest env old_rnti new_rnti n =
     (let n1 = (case bn_flows n old_rnti of
                  None \<Rightarrow> n
                | Some f \<Rightarrow> n\<lparr>bn_flows := (bn_flows n)(old_rnti := None, new_rnti \<mapsto> flow_resume (bn_now_ms n) f)\<rparr>)
      in case find (\<lambda>t. bn_tmsi_to_crnti n1 t = Some old_rnti) (it_tmsi env (dom (bn_tmsi_to_crnti n1))) of
           None \<Rightarrow> n1
         | Some t \<Rightarrow> n1\<lparr>bn_tmsi_to_crnti := (bn_tmsi_to_crnti n1)(t \<mapsto> new_rnti)\<rparr>)"

fun rrc_callback :: "bs_env \<Rightarrow> rrc_bs_out \<Rightarrow> bs_node \<Rightarrow> bs_node" where
  "rrc_callback env (RrcBsSend rnti pdu) n = downlink_send rnti LCID_CCCH pdu n"
| "rrc_callback env (RrcBsReest old new) n = on_rrc_reest env old new n"
| "rrc_callback env (RrcBsSuspend rnti) n = with_flow rnti flow_suspend n"

definition rrc_handle :: "bs_env \<Rightarrow> u16 \<Rightarrow> bytes \<Rightarrow> bs_node \<Rightarrow> bs_node" where
  "rrc_handle env rnti pdu n =
     (let (rrc', outs) = rrc_bs_handle_message (it_rrc env (dom (br_contexts (bn_rrc n)))) rnti pdu (bn_rrc n)
      in fold (rrc_callback env) outs (n\<lparr>bn_rrc := rrc'\<rparr>))"

definition rrc_suspend :: "bs_env \<Rightarrow> u16 \<Rightarrow> bs_node \<Rightarrow> bs_node" where
  "rrc_suspend env rnti n =
     (let (rrc', outs) = suspend_context rnti (bn_rrc n)
      in fold (rrc_callback env) outs (n\<lparr>bn_rrc := rrc'\<rparr>))"

text \<open>The NAS send callback: the answer goes out in the clear, then security is armed.\<close>

definition nas_callback :: "u32 \<times> bytes \<Rightarrow> bs_node \<Rightarrow> bs_node" where
  "nas_callback out n =
     (case out of (tmsi, pdu) \<Rightarrow>
        let crnti = (case bn_tmsi_to_crnti n tmsi of Some c \<Rightarrow> c | None \<Rightarrow> bn_ul_crnti n);
            n1 = n\<lparr>bn_tmsi_to_crnti := (bn_tmsi_to_crnti n)(tmsi \<mapsto> crnti)\<rparr>;
            n2 = downlink_send crnti LCID_NAS_DCCH (pdcp_tx (tm_tx pdu)) n1
        in case nas_session_key tmsi (bn_nas n) of
             None \<Rightarrow> n2
           | Some key \<Rightarrow> with_flow crnti (flow_arm_security key) n2)"

definition nas_handle :: "bs_env \<Rightarrow> nat \<Rightarrow> bytes \<Rightarrow> bs_node \<Rightarrow> bs_node" where
  "nas_handle env i pdu n =
     (let (nas', outs) = nas_bs_handle_message (it_nas_pending env (dom (nb_pending (bn_nas n)))) (en_rand env i) 0 pdu (bn_nas n)
      in fold nas_callback outs (n\<lparr>bn_nas := nas'\<rparr>))"

text \<open>MSG2 and MSG4 go on the air; the CCCH message of MSG3 goes to RRC.\<close>

definition rach_callback :: "bs_env \<Rightarrow> rach_bs_out \<Rightarrow> bs_act" where
  "rach_callback env out =
     (case out of
        BsSend ty pdu \<Rightarrow>
          (case ty of
             RACH_MSG2 \<Rightarrow> send_frame MSG2_RAR 0 pdu
           | RACH_MSG4 \<Rightarrow> send_frame MSG4_CR 0 pdu
           | _ \<Rightarrow> act_upd (\<lambda>n. n))
      | Ccch crnti ccch \<Rightarrow> act_upd (rrc_handle env crnti ccch))"

subsection \<open>Core network\<close>

definition attach_core :: "bool \<Rightarrow> bool \<Rightarrow> u16 \<Rightarrow> bs_act" where
  "attach_core amf upf gnb_cell n =
     (n\<lparr>bn_cn_amf := amf, bn_cn_upf := upf\<rparr>,
      if amf then [AmfOut (cn_msg CN_NG_SETUP (put16 gnb_cell))] else [])"

definition attach_xn :: "bs_node \<Rightarrow> bs_node" where
  "attach_xn n = n\<lparr>bn_xn := True\<rparr>"

definition deliver_dl_nas :: "u16 \<Rightarrow> bytes \<Rightarrow> bs_node \<Rightarrow> bs_node" where
  "deliver_dl_nas rnti nas_pdu = downlink_send rnti LCID_NAS_DCCH (pdcp_tx (tm_tx nas_pdu))"

definition cn_send_nas :: "u32 \<Rightarrow> u16 \<Rightarrow> bytes \<Rightarrow> bs_act" where
  "cn_send_nas tmsi rnti nas_pdu n =
     (n, if \<not> bn_cn_amf n then []
         else if tmsi = 0 then [AmfOut (cn_msg CN_INITIAL_UE_MSG (put16 rnti @ nas_pdu))]
         else [AmfOut (cn_msg CN_UPLINK_NAS (put32 tmsi @ put16 rnti @ put16 (size16 nas_pdu) @ nas_pdu))])"

definition cn_send_uplink_data :: "u32 \<Rightarrow> u16 \<Rightarrow> bytes \<Rightarrow> bs_act" where
  "cn_send_uplink_data tmsi rnti data n =
     (n, if bn_cn_upf n then [UpfOut (cn_msg CN_UL_DATA (put32 tmsi @ put16 rnti @ data))] else [])"

definition prepare_handover :: "ho_context \<Rightarrow> bs_node \<Rightarrow> u16 \<times> bs_node" where
  "prepare_handover ctx n =
     (let new_crnti = bn_next_ho_crnti n;
          n1 = n\<lparr>bn_next_ho_crnti := new_crnti + 1, bn_rrc := admit_connected new_crnti (bn_rrc n)\<rparr>;
          n2 = with_flow new_crnti (\<lambda>f. f\<lparr>df_up_key := hx_up_key ctx, df_sec_on := hx_sec_on ctx\<rparr>) n1;
          n3 = (if hx_tmsi ctx \<noteq> 0
                then n2\<lparr>bn_tmsi_to_crnti := (bn_tmsi_to_crnti n2)(hx_tmsi ctx \<mapsto> new_crnti)\<rparr> else n2);
          n4 = (if hx_imsi ctx \<noteq> [] then n3\<lparr>bn_nas := adopt_ue (hx_tmsi ctx) (hx_imsi ctx) (bn_nas n3)\<rparr> else n3)
      in (new_crnti, n4\<lparr>bn_ho_prepared := (bn_ho_prepared n4)(new_crnti \<mapsto> ctx)\<rparr>))"

definition ho_command :: "u16 \<Rightarrow> u16 \<Rightarrow> bytes" where
  "ho_command target new_crnti = rrc_encode (rrc_msg RRC_HO_COMMAND (put16 target @ put16 new_crnti))"

definition on_downlink_nas :: "bytes \<Rightarrow> bs_node \<Rightarrow> bs_node" where
  "on_downlink_nas v n =
     (if length v < 10 then n
      else
        let tmsi = get32_at v 0;
            rnti = (case bn_tmsi_to_crnti n tmsi of Some c \<Rightarrow> c | None \<Rightarrow> get16_at v 4)
        in deliver_dl_nas rnti (drop 8 v) (n\<lparr>bn_tmsi_to_crnti := (bn_tmsi_to_crnti n)(tmsi \<mapsto> rnti)\<rparr>))"

text \<open>
  A SESSION_KEY of more than 38 bytes overruns the array of 32 bytes, which is undefined; here
  the first 32 are kept.
\<close>

definition on_session_key :: "bytes \<Rightarrow> bs_node \<Rightarrow> bs_node" where
  "on_session_key v n =
     (if length v < 38 then n
      else
        let tmsi = get32_at v 0;
            rnti = (case bn_tmsi_to_crnti n tmsi of Some c \<Rightarrow> c | None \<Rightarrow> get16_at v 4)
        in with_flow rnti (flow_arm_security (take 32 (drop 6 v)))
             (n\<lparr>bn_tmsi_to_crnti := (bn_tmsi_to_crnti n)(tmsi \<mapsto> rnti)\<rparr>))"

definition on_cn_ho_command :: "bytes \<Rightarrow> bs_act" where
  "on_cn_ho_command v n =
     (if length v < 6 then (n, [])
      else if get16_at v 4 \<noteq> bc_cell_id (bn_config n) then (n, [])
      else if length v < 6 + 1 + 32 + 1 then (n, [])
      else if length v < 40 + unat (v ! 39) then (n, [])
      else
        let ctx = \<lparr>hx_tmsi = get32_at v 0, hx_imsi = take (unat (v ! 39)) (drop 40 v),
                   hx_up_key = take 32 (drop 7 v), hx_sec_on = (v ! 6 \<noteq> 0), hx_from_cell = 0\<rparr>;
            (new_crnti, n') = prepare_handover ctx n
        in (n', if bn_cn_amf n' then [AmfOut (cn_msg CN_HO_NOTIFY (put32 (hx_tmsi ctx) @ put16 new_crnti))] else []))"

definition on_ho_prepared :: "bs_env \<Rightarrow> bytes \<Rightarrow> bs_node \<Rightarrow> bs_node" where
  "on_ho_prepared env v n =
     (if length v < 8 then n
      else
        let tmsi = get32_at v 0; tgt = get16_at v 4; new_crnti = get16_at v 6 in
        case find (\<lambda>r. case bn_initiated_ho n r of
                         None \<Rightarrow> False
                       | Some ho \<Rightarrow> ih_target_cell ho = tgt \<and> tmsi_for_crnti env r n = tmsi)
               (it_ho env (dom (bn_initiated_ho n))) of
          None \<Rightarrow> n
        | Some src \<Rightarrow>
            downlink_send src LCID_CCCH (ho_command tgt new_crnti)
              (n\<lparr>bn_initiated_ho := (bn_initiated_ho n)(src \<mapsto> \<lparr>ih_target_cell = tgt, ih_new_crnti = new_crnti\<rparr>)\<rparr>))"

definition on_dl_data :: "bytes \<Rightarrow> bs_node \<Rightarrow> bs_node" where
  "on_dl_data v n =
     (if length v < 6 then n
      else with_flow (get16_at v 4)
             (flow_submit_am (max_queue n) (bn_now_ms n) QCI_BEST_EFFORT (drop 6 v)) n)"

definition handle_cn_message :: "bs_env \<Rightarrow> cn_message \<Rightarrow> bs_act" where
  "handle_cn_message env msg n =
     (let v = cn_value msg in
      if cn_type msg = CN_NG_SETUP_OK then (n\<lparr>bn_ng_setup_ok := True\<rparr>, [])
      else if cn_type msg = CN_DOWNLINK_NAS then (on_downlink_nas v n, [])
      else if cn_type msg = CN_SESSION_KEY then (on_session_key v n, [])
      else if cn_type msg = CN_HO_COMMAND then on_cn_ho_command v n
      else if cn_type msg = CN_HO_PREPARED then (on_ho_prepared env v n, [])
      else if cn_type msg = CN_DL_DATA then (on_dl_data v n, [])
      else (n, []))"

subsection \<open>Mobility\<close>

definition ho_context_of :: "bs_env \<Rightarrow> u16 \<Rightarrow> dl_flow \<Rightarrow> bs_node \<Rightarrow> ho_context" where
  "ho_context_of env crnti f n =
     (let tmsi = tmsi_for_crnti env crnti n
      in \<lparr>hx_tmsi = tmsi, hx_imsi = (case nas_find_ue tmsi (bn_nas n) of None \<Rightarrow> [] | Some ue \<Rightarrow> nc_imsi ue),
          hx_up_key = df_up_key f, hx_sec_on = df_sec_on f, hx_from_cell = bc_cell_id (bn_config n)\<rparr>)"

definition ho_blob :: "ho_context \<Rightarrow> bytes" where
  "ho_blob ctx = [if hx_sec_on ctx then 1 else 0] @ hx_up_key ctx @ [word_of_nat (length (hx_imsi ctx))] @ hx_imsi ctx"

definition request_handover :: "bs_env \<Rightarrow> u16 \<Rightarrow> u16 \<Rightarrow> bs_act" where
  "request_handover env crnti target n =
     (case bn_flows n crnti of
        None \<Rightarrow> (n, [])
      | Some f \<Rightarrow>
          if \<not> bn_ho_coordinator n \<and> \<not> bn_cn_amf n \<and> \<not> bn_xn n then (n, [])
          else
            let ctx = ho_context_of env crnti f n in
            if bn_xn n \<and> \<not> bn_ho_coordinator n \<and> \<not> bn_cn_amf n then
              (if bn_initiated_ho n crnti \<noteq> None then (n, [])
               else
                 (n\<lparr>bn_pending_xn_ho := (bn_pending_xn_ho n)(hx_tmsi ctx \<mapsto> \<lparr>px_source_crnti = crnti, px_target_cell = target\<rparr>),
                    bn_initiated_ho := (bn_initiated_ho n)(crnti \<mapsto> \<lparr>ih_target_cell = target, ih_new_crnti = 0\<rparr>)\<rparr>,
                  [XnOut (cn_msg CN_XN_HO_PREPARE
                     (put32 (hx_tmsi ctx) @ put16 (bc_cell_id (bn_config n)) @ put16 target @ ho_blob ctx))]))
            else if bn_cn_amf n \<and> \<not> bn_ho_coordinator n then
              (n\<lparr>bn_initiated_ho := (bn_initiated_ho n)(crnti \<mapsto> \<lparr>ih_target_cell = target, ih_new_crnti = 0\<rparr>)\<rparr>,
               [AmfOut (cn_msg CN_HO_REQUIRED (put32 (hx_tmsi ctx) @ put16 target @ ho_blob ctx))])
            else
              case en_coordinator env target ctx of
                None \<Rightarrow> (n, [])
              | Some new_crnti \<Rightarrow>
                  (let n1 = downlink_send crnti LCID_CCCH (ho_command target new_crnti) n
                   in (n1\<lparr>bn_initiated_ho := (bn_initiated_ho n1)(crnti \<mapsto> \<lparr>ih_target_cell = target, ih_new_crnti = new_crnti\<rparr>)\<rparr>, [])))"

definition release_ho_source :: "bs_env \<Rightarrow> u16 \<Rightarrow> bs_act" where
  "release_ho_source env old_rnti n =
     (let tmsi = tmsi_for_crnti env old_rnti n;
          (n1, outs) =
            (if tmsi \<noteq> 0
             then (n\<lparr>bn_nas := nas_release_ue tmsi (bn_nas n), bn_tmsi_to_crnti := (bn_tmsi_to_crnti n)(tmsi := None)\<rparr>,
                   if bn_cn_amf n then [AmfOut (cn_msg CN_UE_CTX_RELEASE (put32 tmsi))] else [])
             else (n, []));
          n2 = n1\<lparr>bn_rrc := release_context old_rnti (bn_rrc n1)\<rparr>;
          n3 = with_flow old_rnti bs_bearer_teardowns n2
      in (n3\<lparr>bn_pending_flow_erase := bn_pending_flow_erase n3 @ [old_rnti]\<rparr>, outs))"

text \<open>The loop over \<^verbatim>\<open>initiated_ho_\<close>, shared by HO_COMPLETE and XN_HO_COMPLETE.\<close>

definition complete_initiated :: "bs_env \<Rightarrow> u16 \<Rightarrow> bs_act" where
  "complete_initiated env new_crnti n =
     (case find (\<lambda>r. (case bn_initiated_ho n r of None \<Rightarrow> False | Some ho \<Rightarrow> ih_new_crnti ho = new_crnti) \<and> new_crnti \<noteq> 0)
             (it_ho env (dom (bn_initiated_ho n))) of
        None \<Rightarrow> (n, [])
      | Some src \<Rightarrow>
          let (n1, outs) = release_ho_source env src n
          in (n1\<lparr>bn_initiated_ho := (bn_initiated_ho n1)(src := None)\<rparr>, outs))"

text \<open>
  A measurement report: \<open>meas_entries\<close> are the records that lie within the message, and the
  scan keeps whether the serving cell is audible and the first strongest other cell.
\<close>

definition meas_entries :: "bytes \<Rightarrow> (u16 \<times> u8) list" where
  "meas_entries v =
     map (\<lambda>i. (get16 (v ! (1 + 3 * i)) (v ! (2 + 3 * i)), v ! (3 + 3 * i)))
       (takeWhile (\<lambda>i. 1 + 3 * i + 2 < length v) [0..<unat (v ! 0)])"

definition meas_scan :: "u16 \<Rightarrow> (u16 \<times> u8) list \<Rightarrow> bool \<times> u16 \<times> u8" where
  "meas_scan serving entries =
     fold (\<lambda>(cell, strength) (audible, best_cell, best).
             if cell = serving then (True, best_cell, best)
             else if strength > best then (audible, cell, strength)
             else (audible, best_cell, best)) entries (False, 0, 0)"

definition on_meas_report :: "bs_env \<Rightarrow> u16 \<Rightarrow> bytes \<Rightarrow> bs_act" where
  "on_meas_report env rnti v n =
     (if v = [] then (n, [])
      else
        case meas_scan (bc_cell_id (bn_config n)) (meas_entries v) of
          (audible, best_cell, best) \<Rightarrow>
            if \<not> audible \<and> best_cell \<noteq> 0 \<and> bc_auto_handover (bn_config n) \<and> (bn_ho_coordinator n \<or> bn_cn_amf n \<or> bn_xn n)
            then request_handover env rnti best_cell n else (n, []))"

definition on_ho_complete :: "bs_env \<Rightarrow> bytes \<Rightarrow> bs_act" where
  "on_ho_complete env v n =
     (if length v < 2 then (n, [])
      else
        let new_crnti = get16 (v ! 0) (v ! 1);
            (n1, outs) = complete_initiated env new_crnti n
        in (n1, outs @ (case bn_ho_prepared n1 new_crnti of
              None \<Rightarrow> []
            | Some ctx \<Rightarrow> if bn_xn n1 then [XnOut (cn_msg CN_XN_HO_COMPLETE (put32 (hx_tmsi ctx) @ put16 new_crnti))] else [])))"

definition handle_ccch_sdu :: "bs_env \<Rightarrow> u16 \<Rightarrow> bytes \<Rightarrow> bs_act" where
  "handle_ccch_sdu env rnti sdu n =
     (let msg = rrc_decode sdu in
      if rrc_type msg = RRC_MEAS_REPORT then on_meas_report env rnti (rrc_value msg) n
      else if rrc_type msg = RRC_HO_COMPLETE then on_ho_complete env (rrc_value msg) n
      else (rrc_handle env rnti sdu n, []))"

subsection \<open>Forwarding between terminals\<close>

text \<open>\<open>None\<close> is the result \<^verbatim>\<open>false\<close>: nothing was delivered and nothing changed.\<close>

definition forward_u2u_dl :: "bs_env \<Rightarrow> u2u_packet \<Rightarrow> bytes \<Rightarrow> u16 \<Rightarrow> bs_node \<Rightarrow> bs_node option" where
  "forward_u2u_dl env pkt data exclude n =
     (let dst = crnti_for_imsi env (up_dst_imsi pkt) n in
      if dst = 0 \<or> dst = exclude then None
      else case bn_flows n dst of
             None \<Rightarrow> None
           | Some df \<Rightarrow>
               let n1 = (if df_suspended df then page (up_dst_imsi pkt) n else n);
                   q = qci_of (up_kind pkt)
               in Some (with_flow dst (\<lambda>f. flow_submit (max_queue n) (bn_now_ms n) q data (ensure_bs_bearer q f)) n1))"

definition xn_forward_data :: "cstring \<Rightarrow> bytes \<Rightarrow> bs_act" where
  "xn_forward_data dst_imsi sdu n =
     (n, if bn_xn n then [XnOut (cn_msg CN_XN_FWD_DATA ([word_of_nat (length dst_imsi)] @ dst_imsi @ sdu))] else [])"

definition bridge_copy :: "bs_env \<Rightarrow> u16 \<Rightarrow> u2u_packet \<Rightarrow> cstring \<Rightarrow> bs_node \<Rightarrow> bs_node" where
  "bridge_copy env src_rnti pkt imsi n =
     (if imsi = up_src_imsi pkt then n
      else
        let dst = crnti_for_imsi env imsi n in
        if dst = 0 \<or> dst = src_rnti then n
        else case bn_flows n dst of
               None \<Rightarrow> n
             | Some df \<Rightarrow>
                 let bytes = encode_u2u (pkt\<lparr>up_dst_imsi := imsi\<rparr>);
                     n1 = (if df_suspended df then page imsi n else n)
                 in with_flow dst (\<lambda>f. flow_submit_um (max_queue n) QCI_VOICE bytes (ensure_bs_bearer QCI_VOICE f)) n1)"

definition bridge_conf_media :: "bs_env \<Rightarrow> u16 \<Rightarrow> u2u_packet \<Rightarrow> bs_node \<Rightarrow> bs_node" where
  "bridge_conf_media env src_rnti pkt n =
     (case bn_confs n (up_conf_id pkt) of
        None \<Rightarrow> n
      | Some c \<Rightarrow> fold (bridge_copy env src_rnti pkt) (cf_members c) n)"

definition snoop_sig :: "u2u_packet \<Rightarrow> bs_node \<Rightarrow> bs_node" where
  "snoop_sig pkt n =
     (if up_kind pkt = SIG then
        (case decode_sig (up_payload pkt) of
           None \<Rightarrow> n
         | Some msg \<Rightarrow>
             if sm_conf_id msg \<noteq> 0
             then n\<lparr>bn_confs := fst (snoop_conf_sig (up_src_imsi pkt) (up_dst_imsi pkt) msg (bn_confs n))\<rparr> else n)
      else n)"

definition app_echo :: "u16 \<Rightarrow> bytes \<Rightarrow> bs_node \<Rightarrow> bs_node" where
  "app_echo rnti data n = with_flow rnti (flow_submit_am (max_queue n) (bn_now_ms n) QCI_BEST_EFFORT data) n"

definition handle_ul_app_sdu :: "bs_env \<Rightarrow> u16 \<Rightarrow> bytes \<Rightarrow> bs_act" where
  "handle_ul_app_sdu env rnti data n =
     (if bn_cn_upf n then cn_send_uplink_data (tmsi_for_crnti env rnti n) rnti data n
      else
        case decode_u2u data of
          None \<Rightarrow> (app_echo rnti data n, [])
        | Some pkt \<Rightarrow>
            if up_conf_id pkt \<noteq> 0 \<and> \<not> up_ack pkt \<and> up_kind pkt = VOICE then (bridge_conf_media env rnti pkt n, [])
            else
              let n1 = snoop_sig pkt n in
              case forward_u2u_dl env pkt data rnti n1 of
                Some n2 \<Rightarrow> (n2, [])
              | None \<Rightarrow> if bn_xn n1 then xn_forward_data (up_dst_imsi pkt) data n1 else (app_echo rnti data n1, []))"

subsection \<open>Messages of the peer cell\<close>

text \<open>
  The guard of XN_HO_PREPARE admits 41 bytes and the length byte of the IMSI is read at offset
  41; with exactly 41 bytes that read is out of bounds, but whatever it gives, the IMSI stays empty.
\<close>

definition on_xn_ho_prepare :: "bytes \<Rightarrow> bs_act" where
  "on_xn_ho_prepare v n =
     (if length v < 41 then (n, [])
      else if get16_at v 6 \<noteq> bc_cell_id (bn_config n) then (n, [])
      else
        let ilen = unat (v ! 41);
            ctx = \<lparr>hx_tmsi = get32_at v 0, hx_imsi = (if length v \<ge> 42 + ilen then take ilen (drop 42 v) else []),
                   hx_up_key = take 32 (drop 9 v), hx_sec_on = (v ! 8 \<noteq> 0), hx_from_cell = get16_at v 4\<rparr>;
            (new_crnti, n') = prepare_handover ctx n
        in (n', [XnOut (cn_msg CN_XN_HO_PREPARE_ACK (put32 (hx_tmsi ctx) @ put16 new_crnti))]))"

definition on_xn_ho_prepare_ack :: "bytes \<Rightarrow> bs_node \<Rightarrow> bs_node" where
  "on_xn_ho_prepare_ack v n =
     (if length v < 6 then n
      else
        let tmsi = get32_at v 0; new_crnti = get16_at v 4 in
        case bn_pending_xn_ho n tmsi of
          None \<Rightarrow> n
        | Some px \<Rightarrow>
            if new_crnti = 0 then n
            else
              let src = px_source_crnti px; target = px_target_cell px;
                  n1 = downlink_send src LCID_CCCH (ho_command target new_crnti)
                         (n\<lparr>bn_pending_xn_ho := (bn_pending_xn_ho n)(tmsi := None)\<rparr>)
              in n1\<lparr>bn_initiated_ho := (bn_initiated_ho n1)(src \<mapsto> \<lparr>ih_target_cell = target, ih_new_crnti = new_crnti\<rparr>)\<rparr>)"

definition on_xn_fwd_data :: "bs_env \<Rightarrow> bytes \<Rightarrow> bs_node \<Rightarrow> bs_node" where
  "on_xn_fwd_data env v n =
     (if length v < 2 then n
      else
        let ilen = unat (v ! 0) in
        if length v < 1 + ilen then n
        else
          let data = drop (1 + ilen) v in
          case decode_u2u data of
            None \<Rightarrow> n
          | Some pkt \<Rightarrow> (case forward_u2u_dl env pkt data 0 n of None \<Rightarrow> n | Some n' \<Rightarrow> n'))"

definition handle_xn_message :: "bs_env \<Rightarrow> cn_message \<Rightarrow> bs_act" where
  "handle_xn_message env msg n =
     (let v = cn_value msg in
      if cn_type msg = CN_XN_HO_PREPARE then on_xn_ho_prepare v n
      else if cn_type msg = CN_XN_HO_PREPARE_ACK then (on_xn_ho_prepare_ack v n, [])
      else if cn_type msg = CN_XN_HO_COMPLETE then (if length v < 6 then (n, []) else complete_initiated env (get16_at v 4) n)
      else if cn_type msg = CN_XN_FWD_DATA then (on_xn_fwd_data env v n, [])
      else (n, []))"

subsection \<open>Uplink\<close>

definition refresh_activity :: "u16 \<Rightarrow> bs_node \<Rightarrow> bs_node" where
  "refresh_activity rnti n =
     (let f = flow_of rnti n;
          n1 = with_flow rnti (\<lambda>f. f\<lparr>df_last_activity_ms := bn_now_ms n, df_suspended := False\<rparr>) n
      in if df_suspended f then n1\<lparr>bn_rrc := reactivate_context rnti (bn_rrc n1)\<rparr> else n1)"

text \<open>Deciphering and unwrapping, shared by the NAS and the application channels; \<open>None\<close> is a failed check.\<close>

definition open_sdu :: "dl_flow \<Rightarrow> bytes \<Rightarrow> bytes option" where
  "open_sdu f sdu =
     (if df_sec_on f then map_option (\<lambda>inner. pdcp_rx (tm_rx inner)) (unprotect (df_up_key f) sdu)
      else Some (pdcp_rx (tm_rx sdu)))"

definition teardown_ue :: "bs_env \<Rightarrow> u16 \<Rightarrow> u32 \<Rightarrow> bs_node \<Rightarrow> bs_node" where
  "teardown_ue env rnti tmsi n =
     (let n1 = erase_crnti rnti n;
          n2 = (case nas_find_ue tmsi (bn_nas n1) of
                  None \<Rightarrow> n1
                | Some ctx \<Rightarrow> n1\<lparr>bn_confs := fst (purge_conf_member (it_confs env (dom (bn_confs n1))) (nc_imsi ctx) (bn_confs n1))\<rparr>)
      in erase_flow rnti (with_flow rnti bs_bearer_teardowns n2))"

definition on_nas_sdu :: "bs_env \<Rightarrow> nat \<Rightarrow> u16 \<Rightarrow> bytes \<Rightarrow> bs_act" where
  "on_nas_sdu env i rnti sdu n0 =
     (let n = with_flow rnti (\<lambda>f. f) n0 in
      case open_sdu (flow_of rnti n) sdu of
        None \<Rightarrow> (n, [])
      | Some nas_pdu \<Rightarrow>
          let detach = (nas_type (nas_decode nas_pdu) = NAS_DETACH) in
          if bn_cn_amf n then
            let tmsi = tmsi_for_crnti env rnti n; (n1, outs) = cn_send_nas tmsi rnti nas_pdu n
            in (if detach then teardown_ue env rnti tmsi n1 else n1, outs)
          else
            let n1 = nas_handle env i nas_pdu n
            in (if detach then teardown_ue env rnti (tmsi_for_crnti env rnti n1) n1 else n1, []))"

definition on_app_sdu :: "bs_env \<Rightarrow> u16 \<Rightarrow> qci \<Rightarrow> bytes \<Rightarrow> bs_act" where
  "on_app_sdu env rnti q sdu n =
     (case open_sdu (flow_of rnti n) sdu of
        None \<Rightarrow> (with_flow rnti (\<lambda>f. f) n, [])
      | Some pdu \<Rightarrow>
          let n1 = with_flow rnti (ensure_bs_bearer q) n;
              b = df_bearers (flow_of rnti n1) in
          if q = QCI_SIG \<or> q = QCI_BEST_EFFORT then
            let (rx', out) = am_rx pdu (b_rx (am_of q b));
                n2 = with_flow rnti (\<lambda>f. f\<lparr>df_bearers := am_of_update q (\<lambda>b. b\<lparr>b_rx := rx'\<rparr>) (df_bearers f)\<rparr>) n1;
                (n3, outs) = act_for (handle_ul_app_sdu env rnti) (ao_delivered out) n2
            in (if ao_status_needed out
                then downlink_send rnti (status_lcid_of q) (am_build_status (b_rx (am_of q (df_bearers (flow_of rnti n3))))) n3
                else n3, outs)
          else
            let (rx', delivered) = um_poll (um_rx (bn_now_ms n) pdu (b_rx (um_of q b)))
            in act_for (handle_ul_app_sdu env rnti) delivered
                 (with_flow rnti (\<lambda>f. f\<lparr>df_bearers := um_of_update q (\<lambda>b. b\<lparr>b_rx := rx'\<rparr>) (df_bearers f)\<rparr>) n1))"

definition on_status_sdu :: "u16 \<Rightarrow> qci \<Rightarrow> bytes \<Rightarrow> bs_node \<Rightarrow> bs_node" where
  "on_status_sdu rnti q sdu n =
     (let (tx', pdus) = am_on_status (bn_now_ms n) sdu (b_tx (am_of q (df_bearers (flow_of rnti n))))
      in with_flow rnti
           (\<lambda>f. flow_send_all (max_queue n) (lcid_of q) pdus
                  (f\<lparr>df_bearers := am_of_update q (\<lambda>b. b\<lparr>b_tx := tx'\<rparr>) (df_bearers f)\<rparr>)) n)"

text \<open>One SDU of an uplink MAC PDU; \<open>i\<close> is its position, the index of the challenge NAS may draw for it.\<close>

definition handle_ul_sdu :: "bs_env \<Rightarrow> u16 \<Rightarrow> nat \<times> u8 \<times> bytes \<Rightarrow> bs_act" where
  "handle_ul_sdu env rnti x n0 =
     (case x of (i, lcid, sdu) \<Rightarrow>
        if sdu = [] then (n0, [])
        else
          let n = (if lcid = LCID_NAS_DCCH \<or> qci_of_lcid lcid \<noteq> None then refresh_activity rnti n0 else n0) in
          if lcid = LCID_CCCH then handle_ccch_sdu env rnti sdu n
          else if lcid = LCID_NAS_DCCH then on_nas_sdu env i rnti sdu n
          else if lcid = LCID_HARQ_ACK then
            (if length sdu < 2 then (n, [])
             else let (f', es) = flow_on_harq_ack (bn_now_ms n) sdu (flow_of rnti n)
                  in send_events rnti es (with_flow rnti (\<lambda>_. f') n))
          else if lcid = LCID_CQI_REPORT then (with_flow rnti (flow_on_cqi sdu) n, [])
          else
            case qci_of_lcid lcid of
              Some q \<Rightarrow> on_app_sdu env rnti q sdu n
            | None \<Rightarrow>
                (case qci_of_status_lcid lcid of
                   Some q \<Rightarrow> (on_status_sdu rnti q sdu n, [])
                 | None \<Rightarrow> (n, [])))"

definition handle_ul_pdu :: "bs_env \<Rightarrow> u16 \<Rightarrow> bytes \<Rightarrow> bs_act" where
  "handle_ul_pdu env rnti pdu n =
     act_for (handle_ul_sdu env rnti) (enumerate 0 (parse_pdu pdu)) (n\<lparr>bn_ul_crnti := rnti\<rparr>)"

definition handle_dl_data :: "bs_env \<Rightarrow> u16 \<Rightarrow> bytes \<Rightarrow> bs_try" where
  "handle_dl_data env rnti payload n =
     (if is_harq_framed payload then
        (if rrc_find_ue rnti (bn_rrc n) = None then Inr (n, [])
         else
           case harq_receive (df_harq_rx (flow_of rnti n)) payload of
             Inl e \<Rightarrow> Inl e
           | Inr (rx', res) \<Rightarrow>
               let n1 = with_flow rnti (\<lambda>f. f\<lparr>df_harq_rx := rx'\<rparr>) n
               in Inr (act_seq (send_ack rnti res)
                         (if hr_delivered res then handle_ul_pdu env rnti (hr_mac_pdu res) else act_upd (\<lambda>n. n)) n1))
      else Inr (handle_ul_pdu env rnti payload n))"

definition bs_handle_frame :: "bs_env \<Rightarrow> air_frame \<Rightarrow> bs_try" where
  "bs_handle_frame env frame n =
     (case bs_handle_air_frame frame (bn_rach n) of
        (rach', outs, data) \<Rightarrow>
          (let n1 = n\<lparr>bn_rach := rach'\<rparr> in
           case data of
             Some (rnti, payload) \<Rightarrow> handle_dl_data env rnti payload n1
           | None \<Rightarrow> Inr (act_for (rach_callback env) outs n1)))"

definition on_air_bits :: "bs_env \<Rightarrow> u8 list \<Rightarrow> bs_try" where
  "on_air_bits env bits n =
     (case unpack_air_bits bits of
        None \<Rightarrow> Inr (n, [])
      | Some bytes \<Rightarrow>
          (case decode_frame bytes of
             None \<Rightarrow> Inr (n, [])
           | Some frame \<Rightarrow> bs_handle_frame env frame n))"

subsection \<open>The clock\<close>

definition broadcast_sib :: bs_try where
  "broadcast_sib n =
     (if \<not> bn_broadcasting n \<or> \<not> bn_sib_enabled n then Inr (n, [])
      else
        let entries = [(LCID_MIB, mib_encode (broadcast_mib (bn_rrc n))), (LCID_SIB1, sib1_encode (broadcast_sib1 (bn_rrc n)))]
              @ (if bn_paging_target n \<noteq> [] then [(LCID_PAGING, bn_paging_target n)] else [])
        in case link_encode (build_pdu entries) 0x7F 1 of
             Inl e \<Rightarrow> Inl e
           | Inr payload \<Rightarrow> Inr (send_frame DATA RNTI_BROADCAST payload (n\<lparr>bn_paging_target := []\<rparr>)))"

definition start_broadcast :: bs_try where
  "start_broadcast =
     try_seq (\<lambda>n. broadcast_sib (n\<lparr>bn_broadcasting := True\<rparr>))
       (try_act (act_upd (\<lambda>n. n\<lparr>bn_timers := snd (timer_schedule (bc_sib_period_ms (bn_config n)) True () (bn_timers n))\<rparr>)))"

definition sweep_inactive_one :: "bs_env \<Rightarrow> u16 \<Rightarrow> bs_node \<Rightarrow> bs_node" where
  "sweep_inactive_one env rnti n =
     (case bn_flows n rnti of
        None \<Rightarrow> n
      | Some f \<Rightarrow>
          if df_suspended f \<and> bn_now_ms n - df_last_activity_ms f > 5 * bc_inactive_ms (bn_config n) then
            (let n1 = n\<lparr>bn_rrc := release_context rnti (bn_rrc n)\<rparr>;
                 tmsi = tmsi_for_crnti env rnti n1;
                 n2 = (if tmsi \<noteq> 0 then n1\<lparr>bn_tmsi_to_crnti := (bn_tmsi_to_crnti n1)(tmsi := None)\<rparr> else n1)
             in erase_flow rnti n2)
          else if \<not> df_suspended f \<and> df_last_activity_ms f \<noteq> 0 \<and> is_ue_connected rnti (bn_rrc n) \<and>
                  bn_now_ms n - df_last_activity_ms f > bc_inactive_ms (bn_config n)
          then rrc_suspend env rnti n
          else n)"

definition sweep_inactive :: "bs_env \<Rightarrow> bs_node \<Rightarrow> bs_node" where
  "sweep_inactive env n =
     (if bc_inactive_ms (bn_config n) = 0 then n
      else fold (sweep_inactive_one env) (it_flows env (dom (bn_flows n))) n)"

text \<open>\<^verbatim>\<open>pump_flows\<close> for one flow: HARQ timeouts, then the acknowledged and the unacknowledged bearers.\<close>

definition pump_am :: "bs_env \<Rightarrow> u16 \<Rightarrow> qci \<Rightarrow> bs_act" where
  "pump_am env rnti q n =
     (let (tx', pdus) = am_tx_tick (bn_now_ms n) (b_tx (am_of q (df_bearers (flow_of rnti n))));
          n1 = with_flow rnti
                 (\<lambda>f. flow_send_all (max_queue n) (lcid_of q) pdus
                        (f\<lparr>df_bearers := am_of_update q (\<lambda>b. b\<lparr>b_tx := tx'\<rparr>) (df_bearers f)\<rparr>)) n;
          (rx', out) = am_rx_tick (bn_now_ms n) (b_rx (am_of q (df_bearers (flow_of rnti n1))));
          n2 = with_flow rnti (\<lambda>f. f\<lparr>df_bearers := am_of_update q (\<lambda>b. b\<lparr>b_rx := rx'\<rparr>) (df_bearers f)\<rparr>) n1;
          (n3, outs) = act_for (handle_ul_app_sdu env rnti) (ao_delivered out) n2
      in (if ao_status_needed out
          then downlink_send rnti (status_lcid_of q) (am_build_status (b_rx (am_of q (df_bearers (flow_of rnti n3))))) n3
          else n3, outs))"

definition pump_um :: "bs_env \<Rightarrow> u16 \<Rightarrow> qci \<Rightarrow> bs_act" where
  "pump_um env rnti q n =
     (let (rx', delivered) = um_poll (um_tick (bn_now_ms n) (b_rx (um_of q (df_bearers (flow_of rnti n)))))
      in act_for (handle_ul_app_sdu env rnti) delivered
           (with_flow rnti (\<lambda>f. f\<lparr>df_bearers := um_of_update q (\<lambda>b. b\<lparr>b_rx := rx'\<rparr>) (df_bearers f)\<rparr>) n))"

definition pump_flow :: "bs_env \<Rightarrow> u16 \<Rightarrow> bs_act" where
  "pump_flow env rnti =
     act_seq (\<lambda>n. let (f', es) = flow_poll_timeouts (bn_now_ms n) (flow_of rnti n)
                  in send_events rnti es (with_flow rnti (\<lambda>_. f') n))
       (act_seq (act_for (pump_am env rnti) [QCI_SIG, QCI_BEST_EFFORT])
               (act_for (pump_um env rnti) [QCI_VOICE, QCI_VIDEO]))"

definition drain_one :: "u16 \<Rightarrow> bs_try" where
  "drain_one rnti n =
     (case flow_drain (flow_of rnti n) of
        Inl e \<Rightarrow> Inl e
      | Inr (f', es) \<Rightarrow> Inr (send_events rnti es (with_flow rnti (\<lambda>_. f') n)))"

definition schedule_downlink :: "bs_env \<Rightarrow> bs_try" where
  "schedule_downlink env n =
     (let order = it_flows env (dom (bn_flows n))
      in try_seq (try_act (act_for (pump_flow env) order)) (try_for drain_one order) n)"

definition bs_tick :: "bs_env \<Rightarrow> u32 \<Rightarrow> bs_try" where
  "bs_tick env now =
     try_seq
       (\<lambda>n. let n1 = fold erase_flow (bn_pending_flow_erase n) (n\<lparr>bn_now_ms := max now (bn_now_ms n)\<rparr>);
                (timers', fired, d) = timer_tick (\<lambda>_ t. t) (bn_now_ms n1) (bn_timers n1)
            in try_for (\<lambda>_. broadcast_sib) fired (n1\<lparr>bn_pending_flow_erase := [], bn_timers := timers'\<rparr>))
       (\<lambda>n. schedule_downlink env (sweep_inactive env n))"

subsection \<open>The invariant of the node\<close>

text \<open>
  Every flow has a consistent HARQ sender and queues within the configured bound, and every
  conference is well-formed. \<open>keeps n n'\<close>: the configuration stays and the invariant is kept.
\<close>

definition flow_good :: "nat \<Rightarrow> dl_flow \<Rightarrow> bool" where
  "flow_good q f \<longleftrightarrow> harq_tx_inv (df_harq_tx f) \<and> bounded q (df_bearers f)"

definition bs_ok :: "bs_node \<Rightarrow> bool" where
  "bs_ok n \<longleftrightarrow> (\<forall>r f. bn_flows n r = Some f \<longrightarrow> flow_good (max_queue n) f) \<and> confs_ok (bn_confs n)"

definition keeps :: "bs_node \<Rightarrow> bs_node \<Rightarrow> bool" where
  "keeps n n' \<longleftrightarrow> bn_config n' = bn_config n \<and> (0 < max_queue n \<and> bs_ok n \<longrightarrow> bs_ok n')"

lemma keeps_refl [simp]: "keeps n n"
  by (simp add: keeps_def)

lemma keeps_trans: "keeps a b \<Longrightarrow> keeps b c \<Longrightarrow> keeps a c"
  by (simp add: keeps_def)

text \<open>Updates of other fields.\<close>

lemma keeps_frame:
  "bn_config n' = bn_config n \<Longrightarrow> bn_flows n' = bn_flows n \<Longrightarrow> bn_confs n' = bn_confs n \<Longrightarrow> keeps n n'"
  by (simp add: keeps_def bs_ok_def)

lemma keeps_frame_iff [simp]:
  "keeps m (n\<lparr>bn_rach := a1\<rparr>) = keeps m n" "keeps m (n\<lparr>bn_rrc := a2\<rparr>) = keeps m n" "keeps m (n\<lparr>bn_nas := a3\<rparr>) = keeps m n"
  "keeps m (n\<lparr>bn_timers := a4\<rparr>) = keeps m n" "keeps m (n\<lparr>bn_xn := a5\<rparr>) = keeps m n" "keeps m (n\<lparr>bn_pending_xn_ho := a6\<rparr>) = keeps m n"
  "keeps m (n\<lparr>bn_ho_coordinator := a7\<rparr>) = keeps m n" "keeps m (n\<lparr>bn_paging_target := a8\<rparr>) = keeps m n"
  "keeps m (n\<lparr>bn_initiated_ho := a9\<rparr>) = keeps m n" "keeps m (n\<lparr>bn_ho_prepared := a10\<rparr>) = keeps m n"
  "keeps m (n\<lparr>bn_next_ho_crnti := a11\<rparr>) = keeps m n" "keeps m (n\<lparr>bn_cn_amf := a12\<rparr>) = keeps m n"
  "keeps m (n\<lparr>bn_cn_upf := a13\<rparr>) = keeps m n" "keeps m (n\<lparr>bn_ng_setup_ok := a14\<rparr>) = keeps m n"
  "keeps m (n\<lparr>bn_sib_enabled := a15\<rparr>) = keeps m n" "keeps m (n\<lparr>bn_broadcasting := a16\<rparr>) = keeps m n"
  "keeps m (n\<lparr>bn_now_ms := a17\<rparr>) = keeps m n" "keeps m (n\<lparr>bn_ul_crnti := a18\<rparr>) = keeps m n"
  "keeps m (n\<lparr>bn_tmsi_to_crnti := a19\<rparr>) = keeps m n" "keeps m (n\<lparr>bn_pending_flow_erase := a20\<rparr>) = keeps m n"
  by (simp_all add: keeps_def bs_ok_def)

interpretation keeps: guarded_steps keeps "\<lambda>n. 0 < max_queue n \<and> bs_ok n"
  by unfold_locales (auto simp: keeps_def)

lemma flow_good_init [simp]: "flow_good q dl_flow_init"
proof -
  have "queue_of k bearer_set_init = []" for k
    by (cases k) (simp_all add: bearer_set_init_def make_am_bearer_def make_um_bearer_def Let_def)
  then show ?thesis
    by (simp add: flow_good_def dl_flow_init_def harq_tx_inv_init bounded_def del: queue_of.simps) (simp add: bearer_set_init_def)
qed

lemma flow_of_good: "bs_ok n \<Longrightarrow> flow_good (max_queue n) (flow_of r n)"
  by (auto simp: bs_ok_def flow_of_def split: option.split)

lemma keeps_with_flow:
  assumes "\<And>f. 0 < max_queue n \<Longrightarrow> flow_good (max_queue n) f \<Longrightarrow> flow_good (max_queue n) (g f)"
  shows "keeps n (with_flow r g n)"
  using assms flow_of_good [of n r] by (auto simp: keeps_def bs_ok_def with_flow_def)

lemma keeps_put_flow:
  assumes "flow_good (max_queue n) (flow_of r n) \<Longrightarrow> flow_good (max_queue n) f'"
  shows "keeps n (with_flow r (\<lambda>_. f') n)"
  using assms flow_of_good [of n r] by (auto simp: keeps_def bs_ok_def with_flow_def)

lemma keeps_erase_flow: "keeps n (erase_flow r n)"
  by (auto simp: keeps_def bs_ok_def erase_flow_def)

lemma flow_good_same:
  "flow_good q f \<Longrightarrow> same_queues (df_bearers f) (df_bearers f') \<Longrightarrow> harq_tx_inv (df_harq_tx f') \<Longrightarrow> flow_good q f'"
  using same_queues_measures by (auto simp: flow_good_def)

lemma flow_good_send: "0 < q \<Longrightarrow> flow_good q f \<Longrightarrow> flow_good q (flow_send q lcid sdu f)"
  using lcid_queue_bounded [of q "df_bearers f" lcid]
  by (auto simp: flow_good_def flow_send_def Let_def intro!: set_lcid_queue_bounded)

lemma flow_good_send_all: "0 < q \<Longrightarrow> flow_good q f \<Longrightarrow> flow_good q (flow_send_all q lcid pdus f)"
  unfolding flow_send_all_def by (induction pdus arbitrary: f) (simp_all add: flow_good_send)

lemma flow_good_bearers:
  "flow_good q f \<Longrightarrow> flow_good q (f\<lparr>df_bearers := am_of_update k (\<lambda>b. b\<lparr>b_tx := t\<rparr>) (df_bearers f)\<rparr>)"
  "flow_good q f \<Longrightarrow> flow_good q (f\<lparr>df_bearers := am_of_update k (\<lambda>b. b\<lparr>b_rx := r\<rparr>) (df_bearers f)\<rparr>)"
  "flow_good q f \<Longrightarrow> flow_good q (f\<lparr>df_bearers := um_of_update k (\<lambda>b. b\<lparr>b_tx := t'\<rparr>) (df_bearers f)\<rparr>)"
  "flow_good q f \<Longrightarrow> flow_good q (f\<lparr>df_bearers := um_of_update k (\<lambda>b. b\<lparr>b_rx := r'\<rparr>) (df_bearers f)\<rparr>)"
  by ((rule flow_good_same, assumption); simp add: flow_good_def)+

lemma flow_good_submit:
  assumes "0 < q" "flow_good q f"
  shows "flow_good q (flow_submit_am q now k sdu f)" "flow_good q (flow_submit_um q k sdu f)" "flow_good q (flow_submit q now k sdu f)"
  using flow_good_send_all [OF assms(1) flow_good_bearers(1) [OF assms(2)]]
    flow_good_send_all [OF assms(1) flow_good_bearers(3) [OF assms(2)]]
  by (simp_all add: flow_submit_def flow_submit_am_def flow_submit_um_def split_beta)

lemma flow_good_ensure: "flow_good q f \<Longrightarrow> flow_good q (ensure_bs_bearer k f)"
  by (rule flow_good_same, assumption) (auto simp: ensure_bs_bearer_def flow_good_def)

lemma flow_good_teardowns: "flow_good q f \<Longrightarrow> flow_good q (bs_bearer_teardowns f)"
proof -
  assume "flow_good q f"
  moreover have "same_queues (df_bearers f) (df_bearers (bs_bearer_teardowns f))"
    unfolding bs_bearer_teardowns_def
    by (simp del: set_established_of.simps)
      (rule same_queues_trans [OF same_queues_upd(3) same_queues_trans [OF same_queues_upd(3) same_queues_upd(3)]])
  ultimately show ?thesis by (rule flow_good_same) (use \<open>flow_good q f\<close> in \<open>simp add: flow_good_def bs_bearer_teardowns_def\<close>)
qed

lemma flow_good_harq:
  "flow_good q f \<Longrightarrow> flow_good q (fst (flow_poll_timeouts now f))"
  "flow_good q f \<Longrightarrow> flow_good q (fst (flow_on_harq_ack now sdu f))"
  "flow_good q f \<Longrightarrow> flow_good q (flow_suspend f)"
  "flow_good q f \<Longrightarrow> flow_good q (flow_resume now f)"
  using harq_poll_step [of "df_harq_tx f" now "fst (harq_poll_timeouts now (df_harq_tx f))" "snd (harq_poll_timeouts now (df_harq_tx f))"]
  by (auto simp: flow_good_def flow_poll_timeouts_def flow_on_harq_ack_def flow_suspend_def flow_resume_def
      Let_def split_beta harq_on_ack_inv harq_on_nack_inv harq_reset_inv)

lemma flow_good_fields [simp]:
  "flow_good q (f\<lparr>df_harq_rx := rx\<rparr>) = flow_good q f" "flow_good q (f\<lparr>df_up_key := key\<rparr>) = flow_good q f"
  "flow_good q (f\<lparr>df_sec_on := b\<rparr>) = flow_good q f" "flow_good q (f\<lparr>df_last_activity_ms := t\<rparr>) = flow_good q f"
  "flow_good q (f\<lparr>df_suspended := b\<rparr>) = flow_good q f" "flow_good q (flow_arm_security key f) = flow_good q f"
  "flow_good q (flow_on_cqi sdu f) = flow_good q f"
  "flow_good q (f\<lparr>df_harq_tx := harq_advance now (df_harq_tx f)\<rparr>) = flow_good q f"
  by (simp_all add: flow_good_def flow_arm_security_def flow_on_cqi_def Let_def)

lemmas flow_good_rules = flow_good_send flow_good_send_all flow_good_bearers flow_good_submit flow_good_ensure
  flow_good_teardowns flow_good_harq

lemma flow_good_drain: "flow_good q f \<Longrightarrow> \<exists>f' es. flow_drain f = Inr (f', es) \<and> flow_good q f'"
proof -
  assume g: "flow_good q f"
  then obtain f' es where d: "flow_drain f = Inr (f', es)" "harq_tx_inv (df_harq_tx f')"
      "f' = f\<lparr>df_harq_tx := df_harq_tx f', df_bearers := after_picks (length es) (df_bearers f),
            df_dl_seq := df_dl_seq f + of_nat (length (filter ap_cipher (picked (length es) (df_bearers f))))\<rparr>"
    using flow_drain_spec [of f] by (auto simp: flow_good_def)
  have "df_bearers f' = after_picks (length es) (df_bearers f)" by (subst d(3)) simp
  with d g after_picks_bounded [of q "df_bearers f" "length es"] show ?thesis by (auto simp: flow_good_def)
qed

text \<open>The actions of the node, bottom up.\<close>

lemma keeps_downlink_send: "keeps n (downlink_send r lcid sdu n)"
  unfolding downlink_send_def by (rule keeps_with_flow) (rule flow_good_send)

lemma keeps_send_frame [simp]: "fst (send_frame ty r p n) = n"
  by (simp add: send_frame_def Let_def)

lemma keeps_send_events [simp]: "fst (send_events r es n) = n"
  unfolding send_events_def by (induction es arbitrary: n) (simp_all add: act_seq_def act_upd_def split_beta)

lemma keeps_send_ack: "keeps n (fst (send_ack to res n))"
  by (auto simp: send_ack_def downlink_raw_def intro!: keeps_with_flow)

lemma keeps_then_send: "keeps m n \<Longrightarrow> keeps m (downlink_send r lcid sdu n)"
  by (blast intro: keeps_trans keeps_downlink_send)

lemma keeps_then_flow:
  "keeps m n \<Longrightarrow> (\<And>f. 0 < max_queue n \<Longrightarrow> flow_good (max_queue n) f \<Longrightarrow> flow_good (max_queue n) (g f)) \<Longrightarrow> keeps m (with_flow r g n)"
  by (blast intro: keeps_trans keeps_with_flow)

lemma keeps_config: "keeps m n \<Longrightarrow> bn_config n = bn_config m"
  by (simp add: keeps_def)

lemma keeps_reest: "keeps n (on_rrc_reest env old new n)"
  by (auto simp: on_rrc_reest_def Let_def keeps_def bs_ok_def flow_good_harq split: option.splits)

lemma keeps_rrc_callback: "keeps n (rrc_callback env out n)"
  by (cases out) (auto intro!: keeps_downlink_send keeps_reest keeps_with_flow simp: flow_good_harq)

lemma keeps_rrc_handle: "keeps n (rrc_handle env r pdu n)"
  by (auto simp: rrc_handle_def split_beta intro!: keeps_trans [OF _ keeps.fold_steps] keeps_rrc_callback)

lemma keeps_rrc_suspend: "keeps n (rrc_suspend env r n)"
  by (auto simp: rrc_suspend_def split_beta intro!: keeps_trans [OF _ keeps.fold_steps] keeps_rrc_callback)

lemma keeps_nas_callback: "keeps n (nas_callback out n)"
  by (auto simp: nas_callback_def Let_def split: prod.split option.split intro!: keeps_then_send keeps_then_flow)

lemma keeps_nas_handle: "keeps n (nas_handle env i pdu n)"
  by (auto simp: nas_handle_def split_beta intro!: keeps_trans [OF _ keeps.fold_steps] keeps_nas_callback)

lemma keeps_rach_callback: "keeps n (fst (rach_callback env out n))"
  by (auto simp: rach_callback_def act_upd_def keeps_rrc_handle split: rach_bs_out.split rach_msg_type.split)

lemma keeps_prepare: "keeps n (snd (prepare_handover ctx n))"
  by (auto simp: prepare_handover_def Let_def intro!: keeps_then_flow)

lemma keeps_on_downlink_nas: "keeps n (on_downlink_nas v n)"
  by (simp add: on_downlink_nas_def deliver_dl_nas_def Let_def keeps_then_send)

lemma keeps_on_session_key: "keeps n (on_session_key v n)"
  by (auto simp: on_session_key_def Let_def intro!: keeps_then_flow)

lemma keeps_on_cn_ho_command: "keeps n (fst (on_cn_ho_command v n))"
  by (simp add: on_cn_ho_command_def Let_def split_beta keeps_prepare)

lemma keeps_on_ho_prepared: "keeps n (on_ho_prepared env v n)"
  by (simp add: on_ho_prepared_def Let_def keeps_then_send split: option.split)

lemma keeps_on_dl_data: "keeps n (on_dl_data v n)"
  by (simp add: on_dl_data_def keeps_with_flow flow_good_submit)

lemma keeps_cn: "keeps n (fst (handle_cn_message env msg n))"
  by (simp add: handle_cn_message_def Let_def keeps_on_downlink_nas keeps_on_session_key keeps_on_cn_ho_command
      keeps_on_ho_prepared keeps_on_dl_data)

lemma keeps_request_handover: "keeps n (fst (request_handover env r t n))"
  by (simp add: request_handover_def Let_def keeps_downlink_send split: option.split)

lemma keeps_release_ho_source: "keeps n (fst (release_ho_source env r n))"
  by (auto simp: release_ho_source_def Let_def split_beta flow_good_teardowns intro!: keeps_then_flow)

lemma keeps_complete_initiated: "keeps n (fst (complete_initiated env c n))"
  by (simp add: complete_initiated_def Let_def split_beta keeps_release_ho_source split: option.split)

lemma keeps_on_meas_report: "keeps n (fst (on_meas_report env r v n))"
  by (simp add: on_meas_report_def split_beta keeps_request_handover)

lemma keeps_on_ho_complete: "keeps n (fst (on_ho_complete env v n))"
  by (simp add: on_ho_complete_def Let_def split_beta keeps_complete_initiated)

lemma keeps_ccch: "keeps n (fst (handle_ccch_sdu env r sdu n))"
  by (simp add: handle_ccch_sdu_def Let_def keeps_on_meas_report keeps_on_ho_complete keeps_rrc_handle)

lemma keeps_page [simp]: "keeps m (page imsi n) = keeps m n"
  by (simp add: page_def)

lemma page_frame [simp]:
  "bn_config (page imsi n) = bn_config n" "bn_flows (page imsi n) = bn_flows n" "flow_of r (page imsi n) = flow_of r n"
  by (simp_all add: page_def flow_of_def)

lemma keeps_forward: "forward_u2u_dl env pkt data x n = Some n' \<Longrightarrow> keeps n n'"
  by (auto simp: forward_u2u_dl_def Let_def flow_good_submit flow_good_ensure split: option.splits if_splits intro!: keeps_then_flow)

lemma keeps_bridge_copy: "keeps n (bridge_copy env r pkt imsi n)"
  by (auto simp: bridge_copy_def Let_def flow_good_submit flow_good_ensure split: option.splits intro!: keeps_then_flow)

lemma keeps_bridge: "keeps n (bridge_conf_media env r pkt n)"
  by (simp add: bridge_conf_media_def keeps.fold_steps keeps_bridge_copy split: option.split)

lemma snoop_conf_ok: "confs_ok confs \<Longrightarrow> src \<noteq> [] \<Longrightarrow> confs_ok (fst (snoop_conf_sig src dst msg confs))"
  using snoop_implements [of confs src msg dst] by (simp add: conf_implements_def)

lemma decode_u2u_src: "decode_u2u data = Some pkt \<Longrightarrow> up_src_imsi pkt \<noteq> []"
  by (auto simp: decode_u2u_def Let_def split: if_splits)

lemma keeps_snoop: "up_src_imsi pkt \<noteq> [] \<Longrightarrow> keeps n (snoop_sig pkt n)"
  by (auto simp: snoop_sig_def keeps_def bs_ok_def snoop_conf_ok split: option.splits)

lemma keeps_echo: "keeps n (app_echo r data n)"
  by (simp add: app_echo_def keeps_with_flow flow_good_submit)

lemma keeps_ul_app: "keeps n (fst (handle_ul_app_sdu env r data n))"
proof (cases "decode_u2u data")
  case None
  then show ?thesis by (simp add: handle_ul_app_sdu_def cn_send_uplink_data_def keeps_echo)
next
  case (Some pkt)
  have s: "keeps n (snoop_sig pkt n)" by (rule keeps_snoop [OF decode_u2u_src [OF Some]])
  have e: "keeps n (app_echo r data (snoop_sig pkt n))" by (rule keeps_trans [OF s keeps_echo])
  have f: "keeps n n'" if "forward_u2u_dl env pkt data r (snoop_sig pkt n) = Some n'" for n'
    by (rule keeps_trans [OF s keeps_forward [OF that]])
  show ?thesis
    using Some s e f by (auto simp: handle_ul_app_sdu_def cn_send_uplink_data_def xn_forward_data_def Let_def keeps_bridge split: option.split)
qed

lemma keeps_xn: "keeps n (fst (handle_xn_message env msg n))"
proof -
  have "keeps n (fst (on_xn_ho_prepare v n))" for v
    by (simp add: on_xn_ho_prepare_def Let_def split_beta keeps_prepare)
  moreover have "keeps n (on_xn_ho_prepare_ack v n)" for v
    by (simp add: on_xn_ho_prepare_ack_def Let_def keeps_then_send split: option.split)
  moreover have "keeps n (on_xn_fwd_data env v n)" for v
    by (auto simp: on_xn_fwd_data_def Let_def split: option.split dest: keeps_forward)
  ultimately show ?thesis by (simp add: handle_xn_message_def Let_def keeps_complete_initiated)
qed

lemma keeps_refresh: "keeps n (refresh_activity r n)"
  by (auto simp: refresh_activity_def Let_def intro!: keeps_with_flow)

lemma purge_ids_ok: "confs_ok confs \<Longrightarrow> confs_ok (fst (purge_conf_ids ids imsi confs))"
proof (induction ids arbitrary: confs)
  case (Cons cid ids)
  have "confs_ok (fst (case confs cid of None \<Rightarrow> (confs, [])
       | Some c \<Rightarrow> if cf_host c = imsi \<or> imsi \<in> set (cf_members c) then conf_leave cid imsi DETACHED confs else (confs, [])))"
    using purge_one [OF Cons.prems] by (simp only: conf_implements_def)
  from Cons.IH [OF this] show ?case by (simp add: split_beta)
qed simp

lemma keeps_teardown_ue: "keeps n (teardown_ue env r t n)"
proof -
  have p: "keeps m (m\<lparr>bn_confs := fst (purge_conf_member order imsi (bn_confs m))\<rparr>)" for m order imsi
    by (auto simp: keeps_def bs_ok_def purge_conf_member_def purge_ids_ok)
  have e: "keeps n (erase_crnti r n)" by (simp add: erase_crnti_def)
  have t: "keeps m (erase_flow r (with_flow r bs_bearer_teardowns m))" for m
    by (rule keeps_trans [OF keeps_with_flow keeps_erase_flow]) (rule flow_good_teardowns)
  show ?thesis
    unfolding teardown_ue_def Let_def
    by (rule keeps_trans [OF _ t]) (auto split: option.split intro: e keeps_trans [OF e p])
qed

lemma keeps_on_nas_sdu: "keeps n (fst (on_nas_sdu env i r sdu n))"
proof -
  let ?m = "with_flow r (\<lambda>f. f) n"
  have m: "keeps n ?m" by (rule keeps_with_flow)
  have t: "keeps n (teardown_ue env r t ?m)" for t by (rule keeps_trans [OF m keeps_teardown_ue])
  have h: "keeps n (nas_handle env i pdu ?m)" for pdu by (rule keeps_trans [OF m keeps_nas_handle])
  have ht: "keeps n (teardown_ue env r t (nas_handle env i pdu ?m))" for t pdu by (rule keeps_trans [OF h keeps_teardown_ue])
  show ?thesis
    unfolding on_nas_sdu_def Let_def split_beta
    by (auto simp: cn_send_nas_def m t h ht split: option.split)
qed

lemma keeps_on_app_sdu: "keeps n (fst (on_app_sdu env r q sdu n))"
proof (cases "open_sdu (flow_of r n) sdu")
  case None
  then show ?thesis by (simp add: on_app_sdu_def keeps_with_flow)
next
  case (Some pdu)
  let ?n1 = "with_flow r (ensure_bs_bearer q) n"
  have 1: "keeps n ?n1" by (rule keeps_with_flow) (rule flow_good_ensure)
  have am: "keeps n (fst (act_for (handle_ul_app_sdu env r) ds
      (with_flow r (\<lambda>f. f\<lparr>df_bearers := am_of_update q (\<lambda>b. b\<lparr>b_rx := rx\<rparr>) (df_bearers f)\<rparr>) ?n1)))" for ds rx
    by (rule keeps_trans [OF keeps_then_flow [OF 1] keeps.for_steps]) (auto intro: flow_good_bearers keeps_ul_app)
  have um: "keeps n (fst (act_for (handle_ul_app_sdu env r) ds
      (with_flow r (\<lambda>f. f\<lparr>df_bearers := um_of_update q (\<lambda>b. b\<lparr>b_rx := rx\<rparr>) (df_bearers f)\<rparr>) ?n1)))" for ds rx
    by (rule keeps_trans [OF keeps_then_flow [OF 1] keeps.for_steps]) (auto intro: flow_good_bearers keeps_ul_app)
  show ?thesis
  proof (cases "q = QCI_SIG \<or> q = QCI_BEST_EFFORT")
    case True
    show ?thesis
      unfolding on_app_sdu_def Some option.case Let_def split_beta if_P [OF True] fst_conv
      using am keeps_then_send [OF am] by simp
  next
    case False
    show ?thesis
      unfolding on_app_sdu_def Some option.case Let_def split_beta if_not_P [OF False] by (rule um)
  qed
qed

lemma keeps_on_status: "keeps n (on_status_sdu r q sdu n)"
  unfolding on_status_sdu_def split_beta Let_def by (rule keeps_with_flow) (intro flow_good_send_all flow_good_bearers)

lemma keeps_ul_sdu: "keeps n (fst (handle_ul_sdu env r x n))"
proof -
  obtain i lcid sdu where x: "x = (i, lcid, sdu)" by (metis surj_pair)
  have ack: "keeps k (with_flow r (\<lambda>_. fst (flow_on_harq_ack t sdu (flow_of r k))) k)" for k t
    by (rule keeps_put_flow) (rule flow_good_harq)
  have cqi: "keeps k (with_flow r (flow_on_cqi sdu) k)" for k by (rule keeps_with_flow) simp
  have body: "keeps k (fst (
      if lcid = LCID_CCCH then handle_ccch_sdu env r sdu k
      else if lcid = LCID_NAS_DCCH then on_nas_sdu env i r sdu k
      else if lcid = LCID_HARQ_ACK then
        (if length sdu < 2 then (k, [])
         else let (f', es) = flow_on_harq_ack (bn_now_ms k) sdu (flow_of r k)
              in send_events r es (with_flow r (\<lambda>_. f') k))
      else if lcid = LCID_CQI_REPORT then (with_flow r (flow_on_cqi sdu) k, [])
      else
        case qci_of_lcid lcid of
          Some q \<Rightarrow> on_app_sdu env r q sdu k
        | None \<Rightarrow>
            (case qci_of_status_lcid lcid of
               Some q \<Rightarrow> (on_status_sdu r q sdu k, [])
             | None \<Rightarrow> (k, []))))" for k
    by (simp add: keeps_ccch keeps_on_nas_sdu keeps_on_app_sdu keeps_on_status ack cqi split_beta split: option.split)
  have m: "keeps n (if lcid = LCID_NAS_DCCH \<or> qci_of_lcid lcid \<noteq> None then refresh_activity r n else n)"
    by (simp add: keeps_refresh)
  show ?thesis
  proof (cases "sdu = []")
    case True
    then show ?thesis by (simp add: handle_ul_sdu_def x)
  next
    case False
    show ?thesis
      unfolding handle_ul_sdu_def x prod.case Let_def if_not_P [OF False]
      by (rule keeps_trans [OF m body [unfolded Let_def]])
  qed
qed

lemma keeps_ul_pdu: "keeps n (fst (handle_ul_pdu env r pdu n))"
  unfolding handle_ul_pdu_def by (rule keeps_trans [OF _ keeps.for_steps]) (simp_all add: keeps_ul_sdu)

lemma keeps_dl_data: "handle_dl_data env r payload n = Inr (n', outs) \<Longrightarrow> keeps n n'"
proof -
  assume h: "handle_dl_data env r payload n = Inr (n', outs)"
  have w: "keeps n (with_flow r (\<lambda>f. f\<lparr>df_harq_rx := rx\<rparr>) n)" for rx by (rule keeps_with_flow) simp
  have a: "keeps n (fst (act_seq (send_ack r res) b (with_flow r (\<lambda>f. f\<lparr>df_harq_rx := rx\<rparr>) n)))"
    if "\<And>m. keeps m (fst (b m))" for res b rx
    by (rule keeps_trans [OF w], rule keeps.seq_steps, rule keeps_send_ack, rule that)
  have u: "keeps n (fst (handle_ul_pdu env r payload n))" by (rule keeps_ul_pdu)
  have b: "\<And>m. keeps m (fst ((if d then handle_ul_pdu env r p else act_upd (\<lambda>n. n)) m))" for d p
    by (simp add: keeps_ul_pdu act_upd_def)
  show ?thesis
  proof (cases "is_harq_framed payload")
    case False
    with h u show ?thesis by (simp add: handle_dl_data_def)
  next
    case framed: True
    show ?thesis
    proof (cases "rrc_find_ue r (bn_rrc n) = None")
      case True
      with h framed show ?thesis by (simp add: handle_dl_data_def)
    next
      case False
      then obtain rx' res where "harq_receive (df_harq_rx (flow_of r n)) payload = Inr (rx', res)"
        using h framed by (auto simp: handle_dl_data_def split: sum.splits)
      then have "n' = fst (act_seq (send_ack r res) (if hr_delivered res then handle_ul_pdu env r (hr_mac_pdu res) else act_upd (\<lambda>n. n))
          (with_flow r (\<lambda>f. f\<lparr>df_harq_rx := rx'\<rparr>) n))"
        using h framed False unfolding handle_dl_data_def Let_def by simp
      then show ?thesis using a [OF b] by simp
    qed
  qed
qed

lemma keeps_frame_in: "bs_handle_frame env frame n = Inr (n', outs) \<Longrightarrow> keeps n n'"
proof -
  assume h: "bs_handle_frame env frame n = Inr (n', outs)"
  obtain rach' os data where r: "bs_handle_air_frame frame (bn_rach n) = (rach', os, data)" by (metis surj_pair)
  show ?thesis
  proof (cases data)
    case None
    then have "n' = fst (act_for (rach_callback env) os (n\<lparr>bn_rach := rach'\<rparr>))"
      using h r by (simp add: bs_handle_frame_def)
    then show ?thesis
      using keeps_trans [OF _ keeps.for_steps [of "rach_callback env"], of n "n\<lparr>bn_rach := rach'\<rparr>"] by (simp add: keeps_rach_callback)
  next
    case (Some d)
    then have "handle_dl_data env (fst d) (snd d) (n\<lparr>bn_rach := rach'\<rparr>) = Inr (n', outs)"
      using h r by (simp add: bs_handle_frame_def split_beta)
    from keeps_dl_data [OF this] show ?thesis by (rule keeps_trans [rotated]) simp
  qed
qed

text \<open>What runs in a tick also returns.\<close>

abbreviation returns :: "bs_try \<Rightarrow> bool" where
  "returns \<equiv> returns_in (\<lambda>n. 0 < max_queue n \<and> bs_ok n) keeps"

lemma returns_broadcast: "returns broadcast_sib"
  using link_encode_not_Inl
  by (auto simp: returns_in_def broadcast_sib_def Let_def send_frame_def split: sum.split intro!: keeps_frame)

lemma returns_drain: "returns (drain_one r)"
proof -
  have "\<exists>n' outs. drain_one r n = Inr (n', outs) \<and> keeps n n'" if ok: "bs_ok n" for n
  proof -
    obtain f' es where d: "flow_drain (flow_of r n) = Inr (f', es)" "flow_good (max_queue n) f'"
      using flow_good_drain [OF flow_of_good [OF ok]] by blast
    then show ?thesis
      using keeps_put_flow [of n r f'] by (simp add: drain_one_def) (metis keeps_send_events prod.collapse)
  qed
  then show ?thesis by (simp add: returns_in_def)
qed

lemma keeps_pump_am: "keeps n (fst (pump_am env r q n))"
proof -
  have 1: "keeps n (with_flow r (\<lambda>f. flow_send_all (max_queue n) (lcid_of q) pdus
      (f\<lparr>df_bearers := am_of_update q (\<lambda>b. b\<lparr>b_tx := t\<rparr>) (df_bearers f)\<rparr>)) n)" (is "keeps n (?n1 pdus t)") for pdus t
    by (rule keeps_with_flow) (intro flow_good_send_all flow_good_bearers)
  have 2: "keeps n (fst (act_for (handle_ul_app_sdu env r) ds
      (with_flow r (\<lambda>f. f\<lparr>df_bearers := am_of_update q (\<lambda>b. b\<lparr>b_rx := rx\<rparr>) (df_bearers f)\<rparr>) (?n1 pdus t))))" for ds rx pdus t
    by (rule keeps_trans [OF keeps_then_flow [OF 1] keeps.for_steps]) (auto intro: flow_good_bearers keeps_ul_app)
  show ?thesis
    unfolding pump_am_def Let_def split_beta fst_conv using 2 keeps_then_send [OF 2] by simp
qed

lemma keeps_pump_um: "keeps n (fst (pump_um env r q n))"
  unfolding pump_um_def Let_def split_beta
  by (rule keeps_trans [OF keeps_with_flow keeps.for_steps]) (auto intro: flow_good_bearers keeps_ul_app)

lemma keeps_pump: "keeps n (fst (pump_flow env r n))"
proof -
  have "keeps m (with_flow r (\<lambda>_. fst (flow_poll_timeouts t (flow_of r m))) m)" for m t
    by (rule keeps_put_flow) (rule flow_good_harq)
  then show ?thesis
    unfolding pump_flow_def
    by (intro keeps.seq_steps keeps.for_steps) (simp_all add: split_beta keeps_pump_am keeps_pump_um)
qed

lemma returns_schedule: "returns (schedule_downlink env)"
proof -
  have "returns (try_seq (try_act (act_for (pump_flow env) order)) (try_for drain_one order))" for order
    by (intro keeps.returns_seq keeps.returns_act keeps.returns_for keeps.for_steps keeps_pump returns_drain)
  then show ?thesis unfolding returns_in_def schedule_downlink_def Let_def by blast
qed

lemma keeps_sweep: "keeps n (sweep_inactive env n)"
proof -
  have "keeps m (sweep_inactive_one env r m)" for r m
    by (auto simp: sweep_inactive_one_def Let_def keeps_rrc_suspend split: option.split
        intro!: keeps_trans [OF _ keeps_erase_flow])
  then show ?thesis by (simp add: sweep_inactive_def keeps.fold_steps)
qed

text \<open>The first half of a tick: deferred erasures, timers, broadcasts.\<close>

lemma bs_tick_front:
  assumes "0 < max_queue n" "bs_ok n"
  shows "\<exists>n1 o1. bs_tick env now n = try_seq (\<lambda>_. Inr (n1, o1)) (\<lambda>n. schedule_downlink env (sweep_inactive env n)) n \<and>
     keeps n n1 \<and> bs_ok n1 \<and> 0 < max_queue n1"
proof -
  let ?n1 = "fold erase_flow (bn_pending_flow_erase n) (n\<lparr>bn_now_ms := max now (bn_now_ms n)\<rparr>)"
  let ?t = "timer_tick (\<lambda>_ t. t) (bn_now_ms ?n1) (bn_timers ?n1)"
  let ?m = "?n1\<lparr>bn_pending_flow_erase := [], bn_timers := fst ?t\<rparr>"
  have "keeps n ?n1" by (rule keeps_trans [OF _ keeps.fold_steps]) (simp_all add: keeps_erase_flow)
  then have m: "keeps n ?m" by simp
  then have "0 < max_queue ?m" "bs_ok ?m" using assms unfolding keeps_def by metis+
  moreover have "returns (try_for (\<lambda>_. broadcast_sib) (fst (snd ?t)))" by (rule keeps.returns_for) (rule returns_broadcast)
  ultimately obtain n1 o1 where 1: "try_for (\<lambda>_. broadcast_sib) (fst (snd ?t)) ?m = Inr (n1, o1)" "keeps ?m n1"
    unfolding returns_in_def by blast
  have k: "keeps n n1" by (rule keeps_trans [OF m 1(2)])
  then have "bs_ok n1" "0 < max_queue n1" using assms unfolding keeps_def by metis+
  then show ?thesis using 1(1) k by (auto simp: bs_tick_def try_seq_def Let_def split_beta)
qed

lemma returns_tick: "returns (bs_tick env now)"
proof -
  have r: "returns (\<lambda>n. schedule_downlink env (sweep_inactive env n))"
    by (rule keeps.returns_after [OF keeps_sweep returns_schedule])
  have "\<exists>n' outs. bs_tick env now n = Inr (n', outs) \<and> keeps n n'" if n: "0 < max_queue n" "bs_ok n" for n
  proof -
    obtain n1 o1 where 1: "bs_tick env now n = try_seq (\<lambda>_. Inr (n1, o1)) (\<lambda>n. schedule_downlink env (sweep_inactive env n)) n"
        "keeps n n1" "bs_ok n1" "0 < max_queue n1"
      using bs_tick_front [OF n] by blast
    obtain n2 o2 where "schedule_downlink env (sweep_inactive env n1) = Inr (n2, o2)" "keeps n1 n2"
      using r 1(3,4) unfolding returns_in_def by blast
    with 1 show ?thesis by (auto simp: try_seq_def intro: keeps_trans)
  qed
  then show ?thesis by (simp add: returns_in_def)
qed

lemma keeps_try: "returns a \<Longrightarrow> 0 < max_queue n \<Longrightarrow> bs_ok n \<Longrightarrow> a n = Inr (n', outs) \<Longrightarrow> bs_ok n' \<and> bn_config n' = bn_config n"
  unfolding returns_in_def by (fastforce simp: keeps_def)

text \<open>
  The states of a base station: configured and provisioned by its owner, then driven by air
  bursts, the clock, and messages of the core network and of the peer cell, in any order.
\<close>

inductive bs_reach :: "bs_config \<Rightarrow> bs_node \<Rightarrow> bool" for cfg where
  boot: "bs_reach cfg (bs_node_init cfg)"
| burst: "bs_reach cfg n \<Longrightarrow> on_air_bits env bits n = Inr (n', outs) \<Longrightarrow> bs_reach cfg n'"
| tick: "bs_reach cfg n \<Longrightarrow> bs_tick env now n = Inr (n', outs) \<Longrightarrow> bs_reach cfg n'"
| core: "bs_reach cfg n \<Longrightarrow> bs_reach cfg (fst (handle_cn_message env msg n))"
| xn: "bs_reach cfg n \<Longrightarrow> bs_reach cfg (fst (handle_xn_message env msg n))"
| handover: "bs_reach cfg n \<Longrightarrow> bs_reach cfg (fst (request_handover env crnti cell n))"
| prepare: "bs_reach cfg n \<Longrightarrow> bs_reach cfg (snd (prepare_handover ctx n))"
| paging: "bs_reach cfg n \<Longrightarrow> bs_reach cfg (page imsi n)"
| broadcast: "bs_reach cfg n \<Longrightarrow> start_broadcast n = Inr (n', outs) \<Longrightarrow> bs_reach cfg n'"
| wire_core: "bs_reach cfg n \<Longrightarrow> bs_reach cfg (fst (attach_core amf upf cell n))"
| wire_xn: "bs_reach cfg n \<Longrightarrow> bs_reach cfg (attach_xn n)"
| subscriber: "bs_reach cfg n \<Longrightarrow> bs_reach cfg (n\<lparr>bn_nas := add_subscriber imsi key (bn_nas n)\<rparr>)"

lemma bs_reach_ok:
  assumes "bs_reach cfg n" "0 < bc_max_dl_queue_per_ue cfg"
  shows "bn_config n = cfg \<and> bs_ok n"
  using assms(1)
proof (induction rule: bs_reach.induct)
  case boot
  then show ?case by (simp add: bs_node_init_def bs_ok_def confs_ok_def)
next
  case (burst n env bits n' outs)
  then have "keeps n n'" by (auto simp: on_air_bits_def keeps_frame_in split: option.splits)
  with burst assms(2) show ?case by (simp add: keeps_def)
next
  case (tick n env now n' outs)
  with assms(2) keeps_try [OF returns_tick] show ?case by blast
next
  case (broadcast n n' outs)
  have "returns start_broadcast"
    unfolding start_broadcast_def
  proof (rule keeps.returns_seq)
    show "returns (\<lambda>n. broadcast_sib (n\<lparr>bn_broadcasting := True\<rparr>))"
      by (rule keeps.returns_after [OF _ returns_broadcast]) simp
  qed (rule keeps.returns_act, simp add: act_upd_def)
  with broadcast assms(2) keeps_try show ?case by blast
next
  case (core n env msg)
  with keeps_cn [of n env msg] assms(2) show ?case by (simp add: keeps_def)
next
  case (xn n env msg)
  with keeps_xn [of n env msg] assms(2) show ?case by (simp add: keeps_def)
next
  case (handover n env crnti cell)
  with keeps_request_handover [of n env crnti cell] assms(2) show ?case by (simp add: keeps_def)
next
  case (prepare n ctx)
  with keeps_prepare [of n ctx] assms(2) show ?case by (simp add: keeps_def)
qed (auto simp: bs_ok_def page_def attach_core_def attach_xn_def)

text \<open>
  C4. The base station under any inputs: in every state it can reach, with a positive queue
  bound, no downlink queue of any terminal exceeds the bound, the HARQ sender of every terminal
  is consistent (every busy process holds the coded frame of its block within its
  retransmission budget), every conference is well-formed and has two members or an open invitation, and the next tick, whatever the
  clock and the traversal order of its hash maps, returns normally: no exception escapes
  from broadcasting, the inactivity sweep, RLC timers, forwarding or scheduling.
\<close>
theorem bs_node_invariant:
  assumes "bs_reach cfg n" "0 < bc_max_dl_queue_per_ue cfg"
  shows "(\<forall>rnti f. bn_flows n rnti = Some f \<longrightarrow> harq_tx_inv (df_harq_tx f) \<and>
       (\<forall>lcid. length (lcid_queue lcid (df_bearers f)) \<le> bc_max_dl_queue_per_ue cfg)) \<and>
     confs_ok (bn_confs n) \<and> (\<exists>n' outs. bs_tick env now n = Inr (n', outs))"
proof -
  have ok: "bn_config n = cfg" "bs_ok n" using bs_reach_ok [OF assms] by auto
  then have "\<exists>n' outs. bs_tick env now n = Inr (n', outs)" using returns_tick assms(2) unfolding returns_in_def by blast
  moreover have "harq_tx_inv (df_harq_tx f) \<and> length (lcid_queue lcid (df_bearers f)) \<le> bc_max_dl_queue_per_ue cfg"
    if "bn_flows n rnti = Some f" for rnti f lcid
    using ok that by (auto simp: bs_ok_def flow_good_def intro: lcid_queue_bounded)
  ultimately show ?thesis using ok by (auto simp: bs_ok_def)
qed

definition bs_demo_env :: bs_env where
  "bs_demo_env = \<lparr>en_rand = (\<lambda>_. replicate 16 0), en_coordinator = (\<lambda>_ _. None),
     it_tmsi = sorted_list_of_set, it_nas = sorted_list_of_set, it_nas_pending = sorted_list_of_set,
     it_rrc = sorted_list_of_set, it_flows = sorted_list_of_set, it_ho = sorted_list_of_set, it_confs = sorted_list_of_set\<rparr>"

theorem bs_node_invariant_witness:
  "\<exists>n' outs. bs_tick bs_demo_env 100 (attach_xn (bs_node_init bs_default_config)) = Inr (n', outs)"
proof -
  have r: "bs_reach bs_default_config (attach_xn (bs_node_init bs_default_config))"
    by (rule bs_reach.wire_xn [OF bs_reach.boot])
  have "0 < bc_max_dl_queue_per_ue bs_default_config" by (simp add: bs_default_config_def)
  from bs_node_invariant [OF r this, of bs_demo_env 100] show ?thesis by blast
qed

subsection \<open>Scheduling of all flows\<close>

lemma with_flow_other [simp]: "flow_of s (with_flow r g n) = (if s = r then g (flow_of r n) else flow_of s n)"
  by (simp add: flow_of_def with_flow_def)

lemma drain_one_spec:
  assumes "bs_ok n"
  shows "\<exists>n' outs. drain_one r n = Inr (n', outs) \<and> bs_ok n' \<and> flow_idle (flow_of r n') \<and> (\<forall>s. s \<noteq> r \<longrightarrow> flow_of s n' = flow_of s n) \<and>
     (flow_idle (flow_of r n) \<longrightarrow> flow_of r n' = flow_of r n)"
proof -
  have g: "flow_good (max_queue n) (flow_of r n)" by (rule flow_of_good [OF assms])
  obtain f' es where d: "flow_drain (flow_of r n) = Inr (f', es)" "flow_good (max_queue n) f'"
    using flow_good_drain [OF g] by blast
  have i: "flow_idle f'" using flow_drain_spec [of "flow_of r n"] g d(1) by (auto simp: flow_good_def)
  have same: "flow_idle (flow_of r n) \<Longrightarrow> f' = flow_of r n" using flow_idle_stop d(1) by fastforce
  have "drain_one r n = Inr (with_flow r (\<lambda>_. f') n, snd (send_events r es (with_flow r (\<lambda>_. f') n)))"
    using d(1) by (simp add: drain_one_def) (metis keeps_send_events prod.collapse)
  moreover have "bs_ok (with_flow r (\<lambda>_. f') n)" using d(2) assms by (auto simp: bs_ok_def with_flow_def)
  ultimately show ?thesis using i same by auto
qed

lemma drain_all_idle:
  assumes "bs_ok n" "\<forall>r. r \<notin> set rs \<longrightarrow> P r (flow_of r n)" "\<And>r f. flow_idle f \<Longrightarrow> P r f"
  shows "\<exists>n' outs. try_for drain_one rs n = Inr (n', outs) \<and> (\<forall>r. P r (flow_of r n'))"
  using assms(1,2)
proof (induction rs arbitrary: n)
  case Nil
  then show ?case by (simp add: try_act_def act_upd_def)
next
  case (Cons r rs)
  obtain n1 o1 where 1: "drain_one r n = Inr (n1, o1)" "bs_ok n1" "flow_idle (flow_of r n1)" "\<forall>s. s \<noteq> r \<longrightarrow> flow_of s n1 = flow_of s n"
    using drain_one_spec [OF Cons.prems(1)] by blast
  have "\<forall>s. s \<notin> set rs \<longrightarrow> P s (flow_of s n1)"
  proof (intro allI impI)
    fix s assume "s \<notin> set rs"
    then show "P s (flow_of s n1)"
      by (cases "s = r") (use 1 Cons.prems(2) assms(3) in auto)
  qed
  from Cons.IH [OF 1(2) this] 1(1) show ?case by (auto simp: try_seq_def)
qed

text \<open>Pumping creates no flows.\<close>

definition grows :: "u16 \<Rightarrow> bs_node \<Rightarrow> bs_node \<Rightarrow> bool" where
  "grows r n n' \<longleftrightarrow> dom (bn_flows n') \<subseteq> insert r (dom (bn_flows n))"

lemma grows_trans: "grows r a b \<Longrightarrow> grows r b c \<Longrightarrow> grows r a c"
  unfolding grows_def by blast

lemma grows_refl [simp]: "grows r n n"
  by (auto simp: grows_def)

interpretation grows: steps "grows r" for r
  by unfold_locales (simp_all, rule grows_trans)

lemma grows_with [simp]: "grows r n (with_flow r g n)"
  by (auto simp: grows_def with_flow_def)

lemma grows_with_old: "bn_flows n s = Some f \<Longrightarrow> grows r n (with_flow s g n)"
  by (auto simp: grows_def with_flow_def)

lemma grows_send [simp]: "grows r n (downlink_send r lcid sdu n)"
  by (simp add: downlink_send_def)

lemma grows_forward: "forward_u2u_dl env pkt data x n = Some n' \<Longrightarrow> grows r n n'"
  by (auto simp: forward_u2u_dl_def Let_def page_def grows_def with_flow_def split: option.splits if_splits)

lemma grows_ul_app: "grows r n (fst (handle_ul_app_sdu env r data n))"
proof -
  have b: "grows r m (bridge_conf_media env r pkt m)" for pkt m
  proof -
    have "grows r k (bridge_copy env r pkt imsi k)" for imsi k
      by (auto simp: bridge_copy_def Let_def page_def grows_def with_flow_def split: option.splits)
    then show ?thesis by (simp add: bridge_conf_media_def grows.fold_steps split: option.split)
  qed
  have s: "bn_flows (snoop_sig pkt n) = bn_flows n" for pkt by (simp add: snoop_sig_def split: option.split)
  have e: "grows r m (app_echo r data m)" for m by (simp add: app_echo_def)
  have "grows r (snoop_sig pkt n) m \<Longrightarrow> grows r n m" for pkt m by (simp add: grows_def s)
  then show ?thesis
    using grows_forward [of env _ data r "snoop_sig _ n"] e [of "snoop_sig _ n"] e [of n] b
    by (auto simp: handle_ul_app_sdu_def cn_send_uplink_data_def xn_forward_data_def Let_def grows_def s split: option.split)
qed

lemma grows_pump: "grows r n (fst (pump_flow env r n))"
proof -
  have am: "grows r m (fst (pump_am env r q m))" for q m
  proof -
    have "grows r m (fst (act_for (handle_ul_app_sdu env r) ds (with_flow r g (with_flow r h m))))" for ds g h
      by (rule grows_trans [OF grows_trans [OF grows_with grows_with] grows.for_steps]) (rule grows_ul_app)
    then show ?thesis
      unfolding pump_am_def Let_def split_beta fst_conv by (auto intro: grows_trans [OF _ grows_send])
  qed
  have um: "grows r m (fst (pump_um env r q m))" for q m
    unfolding pump_um_def Let_def split_beta by (rule grows_trans [OF grows_with grows.for_steps]) (rule grows_ul_app)
  have seq: "grows r m (fst (act_seq a b m))" if "\<And>m. grows r m (fst (a m))" "\<And>m. grows r m (fst (b m))" for a b m
    using that by (simp add: act_seq_def split_beta) (blast intro: grows_trans)
  show ?thesis
    unfolding pump_flow_def by (intro seq grows.for_steps) (simp_all add: split_beta am um)
qed

lemma pump_all_dom: "dom (bn_flows (fst (act_for (pump_flow env) rs n))) \<subseteq> set rs \<union> dom (bn_flows n)"
proof (induction rs arbitrary: n)
  case (Cons r rs)
  have "dom (bn_flows (fst (pump_flow env r n))) \<subseteq> insert r (dom (bn_flows n))"
    using grows_pump by (simp only: grows_def)
  with Cons [of "fst (pump_flow env r n)"] show ?case by (auto simp: act_seq_def split_beta)
qed (simp add: act_upd_def)

text \<open>
  C5. No transmission opportunity is wasted: after a tick, whatever was delivered, forwarded,
  retransmitted or suspended in it, no flow has a PDU waiting while one of its HARQ processes
  is free, except for the application PDUs of a suspended flow, which wait for its resumption.
\<close>
theorem bs_tick_work_conserving:
  assumes "bs_reach cfg n" "0 < bc_max_dl_queue_per_ue cfg" "\<forall>S. set (it_flows env S) = S"
  shows "\<exists>n' outs. bs_tick env now n = Inr (n', outs) \<and> (\<forall>rnti f. bn_flows n' rnti = Some f \<longrightarrow> flow_idle f)"
proof -
  have ok: "bs_ok n" "0 < max_queue n" using bs_reach_ok [OF assms(1,2)] assms(2) by auto
  have s: "\<exists>n' outs. schedule_downlink env m = Inr (n', outs) \<and> (\<forall>r. flow_idle (flow_of r n'))" if m: "bs_ok m" "0 < max_queue m" for m
  proof -
    let ?rs = "it_flows env (dom (bn_flows m))"
    let ?p = "act_for (pump_flow env) ?rs m"
    have p: "bs_ok (fst ?p)" using keeps.for_steps [of "pump_flow env" m ?rs] keeps_pump m by (auto simp: keeps_def)
    have "bn_flows (fst ?p) r = None" if "r \<notin> set ?rs" for r
      using that pump_all_dom [of env ?rs m] assms(3) by auto
    moreover have "flow_idle dl_flow_init"
      by (simp add: flow_idle_def dl_flow_init_def bearers_empty_def bearer_set_init_def make_am_bearer_def make_um_bearer_def Let_def)
    ultimately have i: "\<forall>r. r \<notin> set ?rs \<longrightarrow> flow_idle (flow_of r (fst ?p))" by (simp add: flow_of_def)
    obtain n' outs where "try_for drain_one ?rs (fst ?p) = Inr (n', outs)" "\<forall>r. flow_idle (flow_of r n')"
      using drain_all_idle [of "fst ?p" ?rs "\<lambda>_. flow_idle", OF p i] by auto
    then show ?thesis by (simp add: schedule_downlink_def try_seq_def try_act_def split_beta)
  qed
  obtain n1 o1 where t: "bs_tick env now n = try_seq (\<lambda>_. Inr (n1, o1)) (\<lambda>n. schedule_downlink env (sweep_inactive env n)) n"
      "bs_ok n1" "0 < max_queue n1"
    using bs_tick_front [OF ok(2,1)] by blast
  have "bs_ok (sweep_inactive env n1)" "0 < max_queue (sweep_inactive env n1)"
    using keeps_sweep [of n1 env] t(2,3) by (simp_all add: keeps_def)
  from s [OF this] obtain n' outs where "schedule_downlink env (sweep_inactive env n1) = Inr (n', outs)" "\<forall>r. flow_idle (flow_of r n')"
    by blast
  then show ?thesis using t(1) by (auto simp: try_seq_def flow_of_def split: option.splits)
qed

theorem bs_tick_work_conserving_witness:
  "\<exists>n' outs. bs_tick bs_demo_env 100 (attach_xn (bs_node_init bs_default_config)) = Inr (n', outs) \<and>
     (\<forall>rnti f. bn_flows n' rnti = Some f \<longrightarrow> flow_idle f)"
proof (rule bs_tick_work_conserving)
  show "bs_reach bs_default_config (attach_xn (bs_node_init bs_default_config))"
    by (rule bs_reach.wire_xn [OF bs_reach.boot])
qed (simp_all add: bs_default_config_def bs_demo_env_def)

subsection \<open>Handover over Xn\<close>

lemma xn_prepare_fields:
  fixes t :: u32 and a b :: u16 and sec :: u8 and key imsi :: bytes
  assumes "length key = 32" "length imsi < 256"
  defines "v \<equiv> put32 t @ put16 a @ put16 b @ [sec] @ key @ [word_of_nat (length imsi)] @ imsi"
  shows "length v = 42 + length imsi" "get32_at v 0 = t" "get16_at v 4 = a" "get16_at v 6 = b" "v ! 8 = sec"
    "take 32 (drop 9 v) = key" "unat (v ! 41) = length imsi" "drop 42 v = imsi"
proof -
  have l: "unat (word_of_nat (length imsi) :: u8) = length imsi" using assms(2) by (simp add: unat_of_nat)
  show "length v = 42 + length imsi" "get32_at v 0 = t" using assms(1) by (simp_all add: v_def wire_simps)
  show "get16_at v 4 = a" "get16_at v 6 = b"
    using assms(1) get16_at_drop [of 4 v] get16_at_drop [of 6 v] by (simp_all add: v_def wire_simps)
  show "v ! 8 = sec" "take 32 (drop 9 v) = key" "drop 42 v = imsi" using assms(1) by (simp_all add: v_def nth_append)
  have "v ! 41 = word_of_nat (length imsi)" using assms(1) by (simp add: v_def nth_append)
  with l show "unat (v ! 41) = length imsi" by simp
qed

text \<open>A source cell in which a terminal is served, and a target cell that can take it over.\<close>

definition ho_source_ready :: "bs_env \<Rightarrow> u16 \<Rightarrow> u32 \<Rightarrow> cstring \<Rightarrow> dl_flow \<Rightarrow> u16 \<Rightarrow> bs_node \<Rightarrow> bool" where
  "ho_source_ready env c tmsi imsi f new s \<longleftrightarrow>
     bn_xn s \<and> \<not> bn_ho_coordinator s \<and> \<not> bn_cn_amf s \<and> bc_auto_handover (bn_config s) \<and>
     bn_flows s c = Some f \<and> length (df_up_key f) = 32 \<and>
     tmsi \<noteq> 0 \<and> tmsi_for_crnti env c s = tmsi \<and>
     (\<exists>ctx. nas_find_ue tmsi (bn_nas s) = Some ctx \<and> nc_imsi ctx = imsi) \<and> imsi \<noteq> [] \<and> length imsi < 256 \<and>
     bn_initiated_ho s c = None \<and> (\<forall>r ho. bn_initiated_ho s r = Some ho \<longrightarrow> ih_new_crnti ho \<noteq> new) \<and>
     (\<forall>S. set (it_ho env S) = S)"

definition ho_target_ready :: "u16 \<Rightarrow> u16 \<Rightarrow> bs_node \<Rightarrow> bool" where
  "ho_target_ready cell new t \<longleftrightarrow>
     bn_xn t \<and> bc_cell_id (bn_config t) = cell \<and> bn_next_ho_crnti t = new \<and> new \<noteq> 0 \<and>
     (\<forall>r ho. bn_initiated_ho t r = Some ho \<longrightarrow> ih_new_crnti ho \<noteq> new) \<and> bn_flows t new = None"

text \<open>Preparation at the target.\<close>

lemma xn_prepare_target:
  fixes tmsi :: u32 and from_cell :: u16 and sec :: bool and key imsi :: bytes
  assumes t: "ho_target_ready cell new t" and k: "length key = 32" "imsi \<noteq> []" "length imsi < 256" and "tmsi \<noteq> 0"
  defines "ctx \<equiv> \<lparr>hx_tmsi = tmsi, hx_imsi = imsi, hx_up_key = key, hx_sec_on = sec, hx_from_cell = from_cell\<rparr>"
  shows "handle_xn_message env (cn_msg CN_XN_HO_PREPARE (put32 tmsi @ put16 from_cell @ put16 cell @ ho_blob ctx)) t =
     (snd (prepare_handover ctx t), [XnOut (cn_msg CN_XN_HO_PREPARE_ACK (put32 tmsi @ put16 new))])"
proof -
  let ?v = "put32 tmsi @ put16 from_cell @ put16 cell @ [if sec then 1 else 0] @ key @ [word_of_nat (length imsi)] @ imsi"
  note v = xn_prepare_fields [OF k(1,3), of tmsi from_cell cell "if sec then 1 else 0"]
  have "fst (prepare_handover ctx t) = new" using t by (simp add: prepare_handover_def ho_target_ready_def Let_def)
  moreover have "on_xn_ho_prepare ?v t = (snd (prepare_handover ctx t), [XnOut (cn_msg CN_XN_HO_PREPARE_ACK (put32 tmsi @ put16 (fst (prepare_handover ctx t))))])"
    using t unfolding on_xn_ho_prepare_def v Let_def
    by (simp add: v ho_target_ready_def ctx_def split_beta)
  ultimately show ?thesis
    by (simp add: handle_xn_message_def Let_def ho_blob_def ctx_def)
qed

lemma prepare_handover_result:
  fixes ctx :: ho_context and t :: bs_node
  assumes "bn_flows t new = None" "bn_next_ho_crnti t = new" "hx_tmsi ctx \<noteq> 0" "hx_imsi ctx \<noteq> []"
  defines "t' \<equiv> snd (prepare_handover ctx t)"
  shows "bn_flows t' new = Some (dl_flow_init\<lparr>df_up_key := hx_up_key ctx, df_sec_on := hx_sec_on ctx\<rparr>)"
    "bn_tmsi_to_crnti t' (hx_tmsi ctx) = Some new" "is_ue_connected new (bn_rrc t')" "is_ue_registered (hx_tmsi ctx) (bn_nas t')"
    "map_option nc_imsi (nas_find_ue (hx_tmsi ctx) (bn_nas t')) = Some (hx_imsi ctx)"
    "bn_ho_prepared t' new = Some ctx" "bn_xn t' = bn_xn t" "bn_initiated_ho t' = bn_initiated_ho t"
  using assms
  by (simp_all add: prepare_handover_def Let_def with_flow_def flow_of_def is_ue_connected_def admit_connected_def
      rrc_put_context_def is_ue_registered_def adopt_ue_def nas_find_ue_def nas_fresh_context_def)

text \<open>The request and the answer at the source.\<close>

lemma xn_request_source:
  assumes s: "ho_source_ready env c tmsi imsi f new s"
  shows "request_handover env c cell s =
     (s\<lparr>bn_pending_xn_ho := (bn_pending_xn_ho s)(tmsi \<mapsto> \<lparr>px_source_crnti = c, px_target_cell = cell\<rparr>),
        bn_initiated_ho := (bn_initiated_ho s)(c \<mapsto> \<lparr>ih_target_cell = cell, ih_new_crnti = 0\<rparr>)\<rparr>,
      [XnOut (cn_msg CN_XN_HO_PREPARE (put32 tmsi @ put16 (bc_cell_id (bn_config s)) @ put16 cell @
         ho_blob \<lparr>hx_tmsi = tmsi, hx_imsi = imsi, hx_up_key = df_up_key f, hx_sec_on = df_sec_on f,
                  hx_from_cell = bc_cell_id (bn_config s)\<rparr>))])"
  using s by (auto simp: ho_source_ready_def request_handover_def ho_context_of_def Let_def)

lemma xn_ack_source:
  assumes "bn_pending_xn_ho s tmsi = Some \<lparr>px_source_crnti = c, px_target_cell = cell\<rparr>" "new \<noteq> 0"
  shows "handle_xn_message env (cn_msg CN_XN_HO_PREPARE_ACK (put32 tmsi @ put16 new)) s =
     ((downlink_send c LCID_CCCH (ho_command cell new) (s\<lparr>bn_pending_xn_ho := (bn_pending_xn_ho s)(tmsi := None)\<rparr>))
        \<lparr>bn_initiated_ho := (bn_initiated_ho s)(c \<mapsto> \<lparr>ih_target_cell = cell, ih_new_crnti = new\<rparr>)\<rparr>, [])"
proof -
  have "get16_at (put32 tmsi @ put16 new) 4 = new" "get32_at (put32 tmsi @ put16 new) 0 = tmsi"
    using get16_at_drop [of 4 "put32 tmsi @ put16 new"] get16_at_put16 [of new "[]"] by (simp_all add: wire_simps)
  with assms show ?thesis
    by (simp add: handle_xn_message_def xn_type_defs on_xn_ho_prepare_ack_def Let_def downlink_send_def with_flow_def)
qed

text \<open>Completion: the target reports, the source releases.\<close>

lemma complete_none:
  assumes "\<forall>r ho. bn_initiated_ho n r = Some ho \<longrightarrow> ih_new_crnti ho \<noteq> new"
  shows "complete_initiated env new n = (n, [])"
proof -
  have "find (\<lambda>r. (case bn_initiated_ho n r of None \<Rightarrow> False | Some ho \<Rightarrow> ih_new_crnti ho = new) \<and> new \<noteq> 0) xs = None" for xs
    using assms by (auto simp: find_None_iff split: option.splits)
  then show ?thesis by (simp add: complete_initiated_def)
qed

lemma complete_found:
  assumes "bn_initiated_ho n c = Some ho" "ih_new_crnti ho = new" "new \<noteq> 0" "\<forall>S. set (it_ho env S) = S"
    and "\<forall>r ho'. r \<noteq> c \<longrightarrow> bn_initiated_ho n r = Some ho' \<longrightarrow> ih_new_crnti ho' \<noteq> new"
  shows "complete_initiated env new n =
     ((fst (release_ho_source env c n))\<lparr>bn_initiated_ho := (bn_initiated_ho (fst (release_ho_source env c n)))(c := None)\<rparr>, snd (release_ho_source env c n))"
proof -
  let ?P = "\<lambda>r. (case bn_initiated_ho n r of None \<Rightarrow> False | Some ho \<Rightarrow> ih_new_crnti ho = new) \<and> new \<noteq> 0"
  have P: "?P r \<longleftrightarrow> r = c" for r using assms(1-3,5) by (auto split: option.splits)
  have "c \<in> set (it_ho env (dom (bn_initiated_ho n)))" using assms(1,4) by auto
  then have "find (\<lambda>r. r = c) (it_ho env (dom (bn_initiated_ho n))) = Some c"
    by (cases "find (\<lambda>r. r = c) (it_ho env (dom (bn_initiated_ho n)))") (auto simp: find_None_iff find_Some_iff)
  then show ?thesis by (simp add: complete_initiated_def P split_beta Let_def)
qed

lemma release_ho_source_result:
  assumes "tmsi_for_crnti env c n = tmsi" "tmsi \<noteq> 0" "\<not> bn_cn_amf n"
  defines "n' \<equiv> fst (release_ho_source env c n)"
  shows "snd (release_ho_source env c n) = []" "bn_tmsi_to_crnti n' tmsi = None" "\<not> is_ue_connected c (bn_rrc n')"
    "\<not> is_ue_registered tmsi (bn_nas n')" "c \<in> set (bn_pending_flow_erase n')" "bn_pending_xn_ho n' = bn_pending_xn_ho n"
    "bn_initiated_ho n' = bn_initiated_ho n"
  using assms by (simp_all add: release_ho_source_def Let_def with_flow_def is_ue_connected_def release_context_def
      is_ue_registered_def nas_release_ue_def)

lemma handle_ho_complete:
  assumes "bn_ho_prepared t new = Some ctx" "bn_xn t" "\<forall>r ho. bn_initiated_ho t r = Some ho \<longrightarrow> ih_new_crnti ho \<noteq> new"
  shows "handle_ccch_sdu env r (rrc_encode (rrc_msg RRC_HO_COMPLETE (put16 new))) t =
     (t, [XnOut (cn_msg CN_XN_HO_COMPLETE (put32 (hx_tmsi ctx) @ put16 new))])"
proof -
  have "get16 (put16 new ! 0) (put16 new ! 1) = new" by (simp add: put16_def wire_simps)
  then show ?thesis
    using assms by (simp add: handle_ccch_sdu_def rrc_ho_type_defs on_ho_complete_def complete_none Let_def)
qed

text \<open>
  C3. Handover between two cells over Xn, end to end: when a terminal reports that its serving
  cell has become inaudible and another cell is the strongest, the serving cell asks that
  cell to prepare; the answer makes it queue, in the clear and last on the control channel,
  the HO_COMMAND with the target cell and the C-RNTI the target reserved; when the terminal
  confirms there, the target tells the source. In the end the target serves the terminal
  under the new C-RNTI, connected and registered, with the security context of the source,
  and the source has dropped its RRC context, registration and identity and has scheduled
  its flow for erasure, with no handover left pending.
\<close>
theorem xn_handover_end_to_end:
  assumes s: "ho_source_ready env c tmsi imsi f new s" and t: "ho_target_ready cell new t" and "cell \<noteq> 0"
    and v: "v \<noteq> []" "length v < 65536" "meas_scan (bc_cell_id (bn_config s)) (meas_entries v) = (False, cell, strength)"
  shows "\<exists>s1 m1 t1 m2 s2 m3 s3.
     handle_ccch_sdu env c (rrc_encode (rrc_msg RRC_MEAS_REPORT v)) s = (s1, [XnOut m1]) \<and>
     handle_xn_message env' m1 t = (t1, [XnOut m2]) \<and>
     handle_xn_message env m2 s1 = (s2, []) \<and>
     last (bs_ctrl (df_bearers (flow_of c s2))) = \<lparr>ap_lcid = LCID_CCCH, ap_cipher = False, ap_bytes = ho_command cell new\<rparr> \<and>
     handle_ccch_sdu env' new (rrc_encode (rrc_msg RRC_HO_COMPLETE (put16 new))) t1 = (t1, [XnOut m3]) \<and>
     handle_xn_message env m3 s2 = (s3, []) \<and>
     bn_flows t1 new = Some (dl_flow_init\<lparr>df_up_key := df_up_key f, df_sec_on := df_sec_on f\<rparr>) \<and>
     bn_tmsi_to_crnti t1 tmsi = Some new \<and> is_ue_connected new (bn_rrc t1) \<and> is_ue_registered tmsi (bn_nas t1) \<and>
     bn_tmsi_to_crnti s3 tmsi = None \<and> \<not> is_ue_connected c (bn_rrc s3) \<and> \<not> is_ue_registered tmsi (bn_nas s3) \<and>
     c \<in> set (bn_pending_flow_erase s3) \<and> bn_initiated_ho s3 c = None \<and> bn_pending_xn_ho s3 tmsi = None"
proof -
  let ?ctx = "\<lparr>hx_tmsi = tmsi, hx_imsi = imsi, hx_up_key = df_up_key f, hx_sec_on = df_sec_on f, hx_from_cell = bc_cell_id (bn_config s)\<rparr>"
  let ?m1 = "cn_msg CN_XN_HO_PREPARE (put32 tmsi @ put16 (bc_cell_id (bn_config s)) @ put16 cell @ ho_blob ?ctx)"
  let ?m2 = "cn_msg CN_XN_HO_PREPARE_ACK (put32 tmsi @ put16 new)"
  let ?m3 = "cn_msg CN_XN_HO_COMPLETE (put32 tmsi @ put16 new)"
  have ready: "bn_xn s" "\<not> bn_cn_amf s" "bc_auto_handover (bn_config s)" "length (df_up_key f) = 32" "tmsi \<noteq> 0" "imsi \<noteq> []" "length imsi < 256"
      "tmsi_for_crnti env c s = tmsi" "\<forall>S. set (it_ho env S) = S" "\<forall>r ho. bn_initiated_ho s r = Some ho \<longrightarrow> ih_new_crnti ho \<noteq> new"
    using s by (auto simp: ho_source_ready_def)
  have tgt: "bn_xn t" "new \<noteq> 0" "bn_next_ho_crnti t = new" "bn_flows t new = None" "\<forall>r ho. bn_initiated_ho t r = Some ho \<longrightarrow> ih_new_crnti ho \<noteq> new"
    using t by (auto simp: ho_target_ready_def)
  define s1 where "s1 = fst (request_handover env c cell s)"
  have 1: "handle_ccch_sdu env c (rrc_encode (rrc_msg RRC_MEAS_REPORT v)) s = (s1, [XnOut ?m1])"
    using v \<open>cell \<noteq> 0\<close> ready xn_request_source [OF s, of cell]
    by (simp add: handle_ccch_sdu_def rrc_ho_type_defs on_meas_report_def s1_def)
  define t1 where "t1 = snd (prepare_handover ?ctx t)"
  have 2: "handle_xn_message env' ?m1 t = (t1, [XnOut ?m2])"
    unfolding t1_def by (rule xn_prepare_target [OF t ready(4,6,7,5)])
  have s1: "bn_pending_xn_ho s1 tmsi = Some \<lparr>px_source_crnti = c, px_target_cell = cell\<rparr>" "bn_initiated_ho s1 = (bn_initiated_ho s)(c \<mapsto> \<lparr>ih_target_cell = cell, ih_new_crnti = 0\<rparr>)"
      "bn_tmsi_to_crnti s1 = bn_tmsi_to_crnti s" "\<not> bn_cn_amf s1"
    using ready(2) by (simp_all add: s1_def xn_request_source [OF s])
  define s2 where "s2 = (downlink_send c LCID_CCCH (ho_command cell new) (s1\<lparr>bn_pending_xn_ho := (bn_pending_xn_ho s1)(tmsi := None)\<rparr>))
        \<lparr>bn_initiated_ho := (bn_initiated_ho s1)(c \<mapsto> \<lparr>ih_target_cell = cell, ih_new_crnti = new\<rparr>)\<rparr>"
  have 3: "handle_xn_message env ?m2 s1 = (s2, [])"
    unfolding s2_def by (rule xn_ack_source [OF s1(1) tgt(2)])
  have cmd: "last (bs_ctrl (df_bearers (flow_of c s2))) = \<lparr>ap_lcid = LCID_CCCH, ap_cipher = False, ap_bytes = ho_command cell new\<rparr>"
    by (simp add: s2_def downlink_send_def with_flow_def flow_of_def flow_send_def Let_def lcid_queue_def set_lcid_queue_def qci_of_lcid_def lcid_defs)
  note p = prepare_handover_result [of t new ?ctx, OF tgt(4,3), folded t1_def]
  have 4: "handle_ccch_sdu env' new (rrc_encode (rrc_msg RRC_HO_COMPLETE (put16 new))) t1 = (t1, [XnOut ?m3])"
    using handle_ho_complete [of t1 new ?ctx] p ready(5,6) tgt by simp
  have s2: "bn_initiated_ho s2 = (bn_initiated_ho s)(c \<mapsto> \<lparr>ih_target_cell = cell, ih_new_crnti = new\<rparr>)" "bn_pending_xn_ho s2 tmsi = None"
      "bn_tmsi_to_crnti s2 = bn_tmsi_to_crnti s" "\<not> bn_cn_amf s2"
    using s1 by (simp_all add: s2_def downlink_send_def with_flow_def)
  have tm: "tmsi_for_crnti env c s2 = tmsi" using ready(8) by (simp add: tmsi_for_crnti_def s2(3))
  note r = release_ho_source_result [OF tm ready(5) s2(4)]
  let ?s3 = "(fst (release_ho_source env c s2))\<lparr>bn_initiated_ho := (bn_initiated_ho (fst (release_ho_source env c s2)))(c := None)\<rparr>"
  have "get16_at (put32 tmsi @ put16 new) 4 = new"
    using get16_at_drop [of 4 "put32 tmsi @ put16 new"] get16_at_put16 [of new "[]"] by simp
  then have 5: "handle_xn_message env ?m3 s2 = (?s3, [])"
    using complete_found [of s2 c "\<lparr>ih_target_cell = cell, ih_new_crnti = new\<rparr>" new env] ready(9,10) tgt(2) r(1)
    by (simp add: handle_xn_message_def xn_type_defs s2(1))
  show ?thesis
    using 1 2 3 4 5 cmd p ready(5,6) r s2(2)
    by (intro exI [of _ s1] exI [of _ ?m1] exI [of _ t1] exI [of _ ?m2] exI [of _ s2] exI [of _ ?m3] exI [of _ ?s3]) simp
qed

definition ho_demo_source :: bs_node where
  "ho_demo_source = (attach_xn (bs_node_init bs_default_config))
     \<lparr>bn_flows := [1 \<mapsto> flow_arm_security (replicate 32 7) dl_flow_init], bn_tmsi_to_crnti := [5 \<mapsto> 1],
      bn_nas := adopt_ue 5 (cstr ''460010001'') nas_bs_init, bn_rrc := admit_connected 1 rrc_bs_init\<rparr>"

definition ho_demo_target :: bs_node where
  "ho_demo_target = attach_xn (bs_node_init (bs_default_config\<lparr>bc_cell_id := 2, bc_crnti_base := 0x101\<rparr>))"

theorem xn_handover_end_to_end_witness:
  "\<exists>s1 m1 t1 m2. handle_ccch_sdu bs_demo_env 1 (rrc_encode (rrc_msg RRC_MEAS_REPORT [1, 2, 0, 9])) ho_demo_source = (s1, [XnOut m1]) \<and>
     handle_xn_message bs_demo_env m1 ho_demo_target = (t1, [XnOut m2]) \<and>
     bn_flows t1 0x1101 = Some (dl_flow_init\<lparr>df_up_key := replicate 32 7, df_sec_on := True\<rparr>) \<and> is_ue_registered 5 (bn_nas t1)"
proof -
  let ?f = "flow_arm_security (replicate 32 7) dl_flow_init"
  have s: "ho_source_ready bs_demo_env 1 5 (cstr ''460010001'') ?f 0x1101 ho_demo_source"
    by (simp add: ho_source_ready_def ho_demo_source_def attach_xn_def bs_node_init_def bs_default_config_def flow_arm_security_def
        tmsi_for_crnti_def bs_demo_env_def nas_find_ue_def adopt_ue_def nas_fresh_context_def cstr_def)
  have t: "ho_target_ready 2 0x1101 ho_demo_target"
    by (simp add: ho_target_ready_def ho_demo_target_def attach_xn_def bs_node_init_def bs_default_config_def)
  have "meas_scan (bc_cell_id (bn_config ho_demo_source)) (meas_entries [1, 2, 0, 9]) = (False, 2, 9)"
    by (simp add: ho_demo_source_def attach_xn_def bs_node_init_def bs_default_config_def meas_scan_def meas_entries_def get16_def)
  from xn_handover_end_to_end [OF s t _ _ _ this, of bs_demo_env] show ?thesis
    by (auto simp: flow_arm_security_def)
qed

subsection \<open>The handover policy\<close>

text \<open>
  What the scan of a measurement report computes: the serving cell is audible iff it is
  listed; the best cell is one of the other listed cells of the greatest strength, and the
  result is 0 when every other cell has strength 0.
\<close>

lemma meas_scan_snoc:
  "meas_scan serving (es @ [(cell, strength)]) =
     (case meas_scan serving es of (audible, best_cell, best) \<Rightarrow>
        if cell = serving then (True, best_cell, best)
        else if strength > best then (audible, cell, strength) else (audible, best_cell, best))"
  by (simp add: meas_scan_def split_beta)

lemma meas_scan_spec:
  assumes "meas_scan serving es = (audible, best_cell, best)"
  shows "(audible \<longleftrightarrow> serving \<in> fst ` set es) \<and> (\<forall>(cell, strength) \<in> set es. cell \<noteq> serving \<longrightarrow> strength \<le> best) \<and>
     (best = 0 \<and> best_cell = 0 \<or> (best_cell, best) \<in> set es \<and> best_cell \<noteq> serving \<and> 0 < best)"
  using assms
proof (induction es arbitrary: audible best_cell best rule: rev_induct)
  case Nil
  then show ?case by (simp add: meas_scan_def)
next
  case (snoc e es)
  obtain cell strength where e: "e = (cell, strength)" by (cases e)
  obtain a0 c0 b0 where 0: "meas_scan serving es = (a0, c0, b0)" by (metis surj_pair)
  note ih = snoc.IH [OF 0]
  show ?case
  proof (cases "cell = serving")
    case True
    with snoc.prems e 0 ih show ?thesis by (auto simp: meas_scan_snoc)
  next
    case False
    show ?thesis
    proof (cases "strength > b0")
      case True
      then have pos: "0 < strength" by (rule le_less_trans [OF word_zero_le])
      have eq: "audible = a0" "best_cell = cell" "best = strength"
        using True False snoc.prems e 0 by (simp_all add: meas_scan_snoc)
      have mid: "st \<le> strength" if "(c, st) \<in> set es" "c \<noteq> serving" for c st
        using ih that True by (auto intro: order.trans less_imp_le)
      show ?thesis unfolding eq using ih e False pos mid by auto
    next
      case f: False
      then have le: "strength \<le> b0" by simp
      have eq: "audible = a0" "best_cell = c0" "best = b0"
        using f False snoc.prems e 0 by (simp_all add: meas_scan_snoc)
      show ?thesis unfolding eq using ih e False le by auto
    qed
  qed
qed

text \<open>
  C25. When a handover is started: a measurement report leads to no action at all unless the
  serving cell is missing from it; then the handover is requested to a cell that the report
  lists with the greatest strength, which is positive, and never to cell 0.
\<close>
theorem handover_policy:
  assumes "on_meas_report env rnti v n \<noteq> (n, [])"
  shows "\<exists>cell strength. on_meas_report env rnti v n = request_handover env rnti cell n \<and>
     bc_cell_id (bn_config n) \<notin> fst ` set (meas_entries v) \<and> (cell, strength) \<in> set (meas_entries v) \<and>
     cell \<noteq> 0 \<and> 0 < strength \<and> (\<forall>(c, s) \<in> set (meas_entries v). s \<le> strength)"
proof -
  obtain a c b where m: "meas_scan (bc_cell_id (bn_config n)) (meas_entries v) = (a, c, b)" by (metis surj_pair)
  have r: "\<not> a" "c \<noteq> 0" "on_meas_report env rnti v n = request_handover env rnti c n"
    using assms by (auto simp: on_meas_report_def m split: if_splits)
  have absent: "bc_cell_id (bn_config n) \<notin> fst ` set (meas_entries v)" and best: "(c, b) \<in> set (meas_entries v)" "0 < b"
    using meas_scan_spec [OF m] r(1,2) by auto
  have "st \<le> b" if "(cl, st) \<in> set (meas_entries v)" for cl st
  proof -
    have "cl \<noteq> bc_cell_id (bn_config n)" using that absent by force
    then show ?thesis using meas_scan_spec [OF m] that by auto
  qed
  with r absent best show ?thesis by blast
qed

theorem handover_policy_witness:
  "\<exists>cell strength. (cell, strength) \<in> set (meas_entries [1, 2, 0, 9]) \<and> cell \<noteq> 0 \<and>
     on_meas_report bs_demo_env 1 [1, 2, 0, 9] ho_demo_source = request_handover bs_demo_env 1 cell ho_demo_source"
proof -
  have s: "ho_source_ready bs_demo_env 1 5 (cstr ''460010001'') (flow_arm_security (replicate 32 7) dl_flow_init) 0x1101 ho_demo_source"
    by (simp add: ho_source_ready_def ho_demo_source_def attach_xn_def bs_node_init_def bs_default_config_def flow_arm_security_def
        tmsi_for_crnti_def bs_demo_env_def nas_find_ue_def adopt_ue_def nas_fresh_context_def cstr_def)
  have "on_meas_report bs_demo_env 1 [1, 2, 0, 9] ho_demo_source = request_handover bs_demo_env 1 2 ho_demo_source"
    using s by (simp add: on_meas_report_def ho_source_ready_def)
      (simp add: ho_demo_source_def attach_xn_def bs_node_init_def bs_default_config_def meas_scan_def meas_entries_def get16_def)
  then have "on_meas_report bs_demo_env 1 [1, 2, 0, 9] ho_demo_source \<noteq> (ho_demo_source, [])"
    using xn_request_source [OF s, of 2] by simp
  from handover_policy [OF this] show ?thesis by blast
qed

text \<open>
  C34. Handover breaks the cipher: the target takes over the key of the source but starts its
  count at zero again. The first PDU the target ciphers is sealed with the same key and the
  same nonce as the first PDU the source ciphered, and whoever hears both frames learns the
  exclusive-or of the two clear texts.
\<close>
theorem handover_reuses_nonce:
  assumes "bn_flows t (bn_next_ho_crnti t) = None"
    and "df_up_key g = hx_up_key ctx" "df_dl_seq g = 0"
    and "ap_cipher p" "ap_cipher q" "length (ap_bytes p) = length (ap_bytes q)"
  shows "let f = flow_of (bn_next_ho_crnti t) (snd (prepare_handover ctx t)) in
     map2 (XOR) (pdcp_ciphertext (fst (flow_seal p g))) (pdcp_ciphertext (fst (flow_seal q f))) = map2 (XOR) (ap_bytes p) (ap_bytes q)"
proof -
  have "df_up_key (flow_of (bn_next_ho_crnti t) (snd (prepare_handover ctx t))) = hx_up_key ctx"
       "df_dl_seq (flow_of (bn_next_ho_crnti t) (snd (prepare_handover ctx t))) = 0"
    using assms(1) by (simp_all add: prepare_handover_def Let_def with_flow_def flow_of_def dl_flow_init_def)
  then show ?thesis using assms pdcp_count_reuse by (simp add: flow_seal_def Let_def)
qed

theorem handover_reuses_nonce_witness:
  "let f = flow_of 0x1101 (snd (prepare_handover \<lparr>hx_tmsi = 5, hx_imsi = [1], hx_up_key = replicate 32 7, hx_sec_on = True, hx_from_cell = 1\<rparr> ho_demo_target));
       g = flow_arm_security (replicate 32 7) dl_flow_init in
   map2 (XOR) (pdcp_ciphertext (fst (flow_seal \<lparr>ap_lcid = 2, ap_cipher = True, ap_bytes = [1, 2]\<rparr> g)))
     (pdcp_ciphertext (fst (flow_seal \<lparr>ap_lcid = 2, ap_cipher = True, ap_bytes = [4, 4]\<rparr> f))) = [5, 6]"
proof -
  have n: "bn_next_ho_crnti ho_demo_target = 0x1101" "bn_flows ho_demo_target 0x1101 = None"
    by (simp_all add: ho_demo_target_def attach_xn_def bs_node_init_def bs_default_config_def)
  show ?thesis
    using handover_reuses_nonce [of ho_demo_target "flow_arm_security (replicate 32 7) dl_flow_init"
        "\<lparr>hx_tmsi = 5, hx_imsi = [1], hx_up_key = replicate 32 7, hx_sec_on = True, hx_from_cell = 1\<rparr>"
        "\<lparr>ap_lcid = 2, ap_cipher = True, ap_bytes = [1, 2]\<rparr>" "\<lparr>ap_lcid = 2, ap_cipher = True, ap_bytes = [4, 4]\<rparr>"] n
    by (simp add: flow_arm_security_def dl_flow_init_def Let_def)
qed

subsection \<open>Detach\<close>

text \<open>
  C39. Local detach: when a terminal detaches, the node removes its flow, every identity that
  pointed to its C-RNTI and its NAS context, and changes nothing else of its state: no other
  flow, identity or context. It does not remove the terminal from its conferences either, although it means to: NAS has already dropped the context in which
  the node looks up the IMSI to purge.
\<close>
theorem detach_releases_but_keeps_conferences:
  assumes "\<not> bn_cn_amf n" "tmsi_for_crnti env rnti n = tmsi"
    and "open_sdu (flow_of rnti n) sdu = Some (nas_encode (nas_msg NAS_DETACH (put32 tmsi)))"
  shows "\<exists>n'. on_nas_sdu env i rnti sdu n = (n', []) \<and>
     bn_flows n' rnti = None \<and> (\<forall>t. bn_tmsi_to_crnti n' t \<noteq> Some rnti) \<and> \<not> is_ue_registered tmsi (bn_nas n') \<and>
     bn_confs n' = bn_confs n \<and>
     n' = n\<lparr>bn_flows := (bn_flows n)(rnti := None),
       bn_tmsi_to_crnti := (\<lambda>t. if bn_tmsi_to_crnti n t = Some rnti then None else bn_tmsi_to_crnti n t),
       bn_nas := (bn_nas n)\<lparr>nb_contexts := (nb_contexts (bn_nas n))(tmsi := None)\<rparr>\<rparr>"
proof -
  let ?m = "with_flow rnti (\<lambda>f. f) n"
  let ?nas = "nas_on_detach 0 (put32 tmsi) (bn_nas n)"
  have h: "nas_handle env i (nas_encode (nas_msg NAS_DETACH (put32 tmsi))) ?m = ?m\<lparr>bn_nas := ?nas\<rparr>"
    by (simp add: nas_handle_def nas_bs_handle_message_def nas_type_defs with_flow_def Let_def)
  have gone: "nas_find_ue tmsi ?nas = None"
    by (auto simp: nas_on_detach_def Let_def get32_byte_at nas_find_ue_def put32_def split: option.split)
  have "tmsi_for_crnti env rnti (?m\<lparr>bn_nas := ?nas\<rparr>) = tmsi" using assms(2) by (simp add: tmsi_for_crnti_def with_flow_def)
  then have e: "on_nas_sdu env i rnti sdu n = (teardown_ue env rnti tmsi (?m\<lparr>bn_nas := ?nas\<rparr>), [])"
    using assms(1,3) h by (simp add: on_nas_sdu_def nas_type_defs with_flow_def [of rnti "\<lambda>f. f" n] flow_of_def)
  have "nas_find_ue tmsi (bn_nas (erase_crnti rnti (?m\<lparr>bn_nas := ?nas\<rparr>))) = None"
    using gone by (simp add: erase_crnti_def)
  then have "teardown_ue env rnti tmsi (?m\<lparr>bn_nas := ?nas\<rparr>) =
      erase_flow rnti (with_flow rnti bs_bearer_teardowns (erase_crnti rnti (?m\<lparr>bn_nas := ?nas\<rparr>)))"
    by (simp add: teardown_ue_def Let_def)
  moreover have nas: "?nas = (bn_nas n)\<lparr>nb_contexts := (nb_contexts (bn_nas n))(tmsi := None)\<rparr>"
  proof (cases "nb_contexts (bn_nas n) tmsi")
    case None
    then have "(nb_contexts (bn_nas n))(tmsi := None) = nb_contexts (bn_nas n)" by (simp add: fun_upd_idem)
    with None show ?thesis by (simp add: nas_on_detach_def Let_def get32_byte_at put32_def)
  next
    case (Some c)
    then show ?thesis by (simp add: nas_on_detach_def Let_def get32_byte_at put32_def)
  qed
  ultimately have e': "on_nas_sdu env i rnti sdu n =
      (erase_flow rnti (with_flow rnti bs_bearer_teardowns (erase_crnti rnti (?m\<lparr>bn_nas := ?nas\<rparr>))), [])"
    using e by simp
  show ?thesis
    by (rule exI, rule conjI, rule e' [unfolded nas])
      (simp add: erase_flow_def with_flow_def erase_crnti_def is_ue_registered_def cong: if_cong)
qed

definition detach_demo :: bs_node where
  "detach_demo = ho_demo_source\<lparr>bn_confs := [9 \<mapsto> conference_init\<lparr>cf_host := cstr ''460010001'', cf_members := [cstr ''460010001'']\<rparr>]\<rparr>"

theorem detach_releases_but_keeps_conferences_witness:
  "\<exists>n'. on_nas_sdu bs_demo_env 0 1 (protect (replicate 32 7) 0 (pdcp_tx (tm_tx (nas_encode (nas_msg NAS_DETACH (put32 5)))))) detach_demo = (n', []) \<and>
     bn_flows n' 1 = None \<and> \<not> is_ue_registered 5 (bn_nas n') \<and> bn_rrc n' = bn_rrc detach_demo \<and>
     map_option cf_members (bn_confs n' 9) = Some [cstr ''460010001'']"
proof -
  let ?m = "nas_encode (nas_msg NAS_DETACH (put32 5))"
  have "\<not> bn_cn_amf detach_demo" "tmsi_for_crnti bs_demo_env 1 detach_demo = 5"
    by (simp_all add: detach_demo_def ho_demo_source_def attach_xn_def bs_node_init_def tmsi_for_crnti_def bs_demo_env_def)
  moreover have "flow_of 1 detach_demo = flow_arm_security (replicate 32 7) dl_flow_init"
    by (simp add: detach_demo_def ho_demo_source_def flow_of_def)
  then have "open_sdu (flow_of 1 detach_demo) (protect (replicate 32 7) 0 (pdcp_tx (tm_tx ?m))) = Some ?m"
    by (simp add: open_sdu_def flow_arm_security_def pdcp_codec.dec_enc pdcp_tx_def pdcp_rx_def tm_tx_def tm_rx_def)
  ultimately show ?thesis
    using detach_releases_but_keeps_conferences [of detach_demo bs_demo_env 1 5 "protect (replicate 32 7) 0 (pdcp_tx (tm_tx ?m))" 0]
    by (auto simp: detach_demo_def)
qed

end
