(* ===== verification/Ledger.thy ===== *)
theory Ledger
  imports Prelude
begin

text \<open>
  A sender that numbers its packets, remembers those without an answer and gives up on the old ones:
  the pings of the node and each media stream. From what the three operations do to the four
  observations, the ledger always balances.
\<close>

datatype ledger_event = Sent u32 bytes | Answered u32 u32 bytes | Swept u32

fun is_sent :: "ledger_event \<Rightarrow> bool" where
  "is_sent (Sent now payload) = True"
| "is_sent ev = False"

lemma length_om_insert_fresh: "k \<notin> fst ` set m \<Longrightarrow> length (om_insert k v m) = Suc (length m)"
  by (induction k v m rule: om_insert.induct) auto

lemma om_ok_filter: "om_ok m \<Longrightarrow> om_ok (filter P m)"
  by (simp add: om_ok_def sorted_wrt_map sorted_wrt_filter)

locale ledger =
  fixes sent arrived lost :: "'s \<Rightarrow> u32" and pending :: "'s \<Rightarrow> (u32, u32) omap" and step :: "ledger_event \<Rightarrow> 's \<Rightarrow> 's"
  assumes send: "sent (step (Sent now payload) s) = sent s + 1" "arrived (step (Sent now payload) s) = arrived s" "lost (step (Sent now payload) s) = lost s"
      "pending (step (Sent now payload) s) = om_insert (sent s + 1) now (pending s)"
    and answer: "sent (step (Answered now seq payload) s) = sent s" "lost (step (Answered now seq payload) s) = lost s"
      "arrived (step (Answered now seq payload) s) = (if om_find (pending s) seq = None then arrived s else arrived s + 1)"
      "pending (step (Answered now seq payload) s) = om_erase seq (pending s)"
    and sweep: "sent (step (Swept now) s) = sent s"
      "\<exists>a l. length (pending s) = a + l + length (pending (step (Swept now) s)) \<and>
         arrived (step (Swept now) s) = arrived s + word_of_nat a \<and> lost (step (Swept now) s) = lost s + word_of_nat l"
      "\<exists>P. pending (step (Swept now) s) = filter P (pending s)"
begin

definition balanced :: "'s \<Rightarrow> bool" where
  "balanced s \<longleftrightarrow> om_ok (pending s) \<and> (\<forall>k \<in> fst ` set (pending s). k \<le> sent s) \<and>
     unat (sent s) = unat (arrived s) + unat (lost s) + length (pending s)"

lemma sent_bound: "unat (sent s) < 2 ^ 32"
  using unsigned_less [of "sent s"] by simp

lemma balanced_send:
  assumes "balanced s" "unat (sent s) + 1 < 2 ^ 32"
  shows "balanced (step (Sent now payload) s) \<and> unat (sent (step (Sent now payload) s)) = unat (sent s) + 1"
proof -
  have n: "unat (sent s + 1) = unat (sent s) + 1"
    using assms(2) by (simp add: unat_word_ariths)
  then have lt: "sent s < sent s + 1" by (simp add: word_less_nat_alt)
  then have "sent s + 1 \<notin> fst ` set (pending s)"
    using assms(1) by (fastforce simp: balanced_def)
  then have "length (om_insert (sent s + 1) now (pending s)) = Suc (length (pending s))"
    by (rule length_om_insert_fresh)
  moreover have "k \<le> sent s + 1" if "k \<in> fst ` set (om_insert (sent s + 1) now (pending s))" for k
    using that assms(1) lt by (auto simp: balanced_def set_om_insert intro: order_trans less_imp_le)
  ultimately show ?thesis
    using assms(1) n by (auto simp: balanced_def send)
qed

lemma balanced_answer:
  assumes "balanced s"
  shows "balanced (step (Answered now seq payload) s)"
proof (cases "om_find (pending s) seq")
  case None
  then show ?thesis using assms by (simp add: balanced_def answer om_erase_absent)
next
  case (Some t)
  then have l: "length (pending s) = Suc (length (om_erase seq (pending s)))"
    using assms by (intro length_om_erase) (simp_all add: balanced_def)
  then have "unat (arrived s) + 1 < 2 ^ 32"
    using assms sent_bound [of s] by (simp add: balanced_def)
  then have "unat (arrived s + 1) = unat (arrived s) + 1" by (simp add: unat_word_ariths)
  then show ?thesis using assms Some l by (auto simp: balanced_def answer om_erase_def om_ok_filter)
qed

lemma balanced_sweep:
  assumes "balanced s"
  shows "balanced (step (Swept now) s)"
proof -
  obtain a l P where p: "length (pending s) = a + l + length (pending (step (Swept now) s))"
    "arrived (step (Swept now) s) = arrived s + word_of_nat a" "lost (step (Swept now) s) = lost s + word_of_nat l"
    "pending (step (Swept now) s) = filter P (pending s)"
    using sweep(2,3) by metis
  have "unat (arrived s) + a < 2 ^ 32" "unat (lost s) + l < 2 ^ 32"
    using assms p(1) sent_bound [of s] by (simp_all add: balanced_def)
  then have "unat (arrived s + word_of_nat a) = unat (arrived s) + a" "unat (lost s + word_of_nat l) = unat (lost s) + l"
    by (simp_all add: unat_word_ariths unat_of_nat)
  then show ?thesis using assms p om_ok_filter [of "pending s" P] by (auto simp: balanced_def sweep(1))
qed

lemma balanced_run:
  assumes "balanced s" "unat (sent s) + length (filter is_sent evs) < 2 ^ 32"
  shows "balanced (fold step evs s) \<and> unat (sent (fold step evs s)) = unat (sent s) + length (filter is_sent evs)"
  using assms
proof (induction evs arbitrary: s)
  case (Cons ev evs)
  then show ?case
    using balanced_send [of s] balanced_answer [of s] balanced_sweep [of s]
    by (cases ev) (auto simp: answer sweep)
qed simp

end

end
