(* ===== verification/UeApp.thy ===== *)
theory UeApp
  imports Qos Timers Effects Ledger Pdcp Rach "HOL-Library.Signed_Division"
begin

text \<open>
  The application side of the terminal, \<^verbatim>\<open>stack/core/src/ue_node.cpp\<close>: pings and their accounting,
  messages, SIP-lite call dialogs, conferences, media streams and the dedicated bearers they
  use. The state is the part of \<^verbatim>\<open>UeNode\<close> these methods work on; the theory of the node extends
  the record, so the operations here are those of the node. A dialog that the source holds
  by reference is named by its position in the queue of dialogs. The actions return, next to
  the new state, the packets they handed to the bearers, in order.
\<close>

subsection \<open>State\<close>

record ue_config =
  uec_imsi :: cstring
  uec_rach :: rach_config
  uec_rar_window_ms :: u32
  uec_cr_window_ms :: u32
  uec_attach_guard_ms :: u32
  uec_backoff_min_ms :: u32
  uec_backoff_max_ms :: u32
  uec_meas_period_ms :: u32
  uec_radio_link_failure_ms :: u32
  uec_first_response_ms :: u32
  uec_ring_timeout_ms :: u32

definition ue_default_config :: ue_config where
  "ue_default_config = \<lparr>uec_imsi = cstr ''460011234567890'', uec_rach = rach_default_config, uec_rar_window_ms = 250,
     uec_cr_window_ms = 500, uec_attach_guard_ms = 3000, uec_backoff_min_ms = 100, uec_backoff_max_ms = 300,
     uec_meas_period_ms = 500, uec_radio_link_failure_ms = 0, uec_first_response_ms = 6000, uec_ring_timeout_ms = 20000\<rparr>"

datatype call_state = CALL_IDLE | OUTGOING_RINGING | INCOMING_RINGING | ESTABLISHED

record call_dialog =
  cd_state :: call_state
  cd_peer :: cstring
  cd_kind :: media_kind
  cd_call_id :: u32
  cd_conf_id :: u32
  cd_got_180 :: bool
  cd_established_log_done :: bool
  cd_first_response_timer :: u32
  cd_noanswer_timer :: u32
  cd_autoanswer_timer :: u32

record out_stream =
  os_kind :: media_kind
  os_peer :: cstring
  os_conf_id :: u32
  os_seq :: u32
  os_tx :: u32
  os_rx_ack :: u32
  os_loss :: u32
  os_rtt_sum :: int
  os_rtt_n :: u32
  os_max_ack_seq :: u32
  os_ack_pending :: "(u32, u32) omap"
  os_media_timer :: u32

record in_stream =
  is_kind :: media_kind
  is_peer :: cstring
  is_conf_id :: u32
  is_rx :: u32
  is_loss :: u32
  is_ack_tx :: u32
  is_expected_seq :: u32

text \<open>The callbacks the node hands to its timer table, with what they capture.\<close>

datatype ue_timer =
    RACH_WINDOW | RACH_RETRY | ATTACH_RETRY | ATTACH_GUARD | RESUME_GUARD | REEST_GUARD
  | MEAS | TRAFFIC | LOSS_SWEEP | TRAFFIC_STATS | STREAM_STATS | STREAM_SWEEP | LINK_METRICS
  | MEDIA cstring media_kind | CONF_MEDIA u32
  | FIRST_RESPONSE cstring u32 | NO_ANSWER cstring u32 | AUTO_ANSWER cstring u32

text \<open>
  The two tables of pending acknowledgements are hash maps that are only searched and swept;
  the sweep counts, so its order does not show, and they are kept sorted here.
\<close>

record ue_app =
  ua_config :: ue_config
  ua_now_ms :: u32
  ua_timers :: "ue_timer timer_list"
  ua_bearers :: bearer_set
  ua_crnti_cache :: u16
  ua_out_streams :: "out_stream list"
  ua_in_streams :: "in_stream list"
  ua_stream_stats_timer :: u32
  ua_stream_sweep_timer :: u32
  ua_dialogs :: "call_dialog list"
  ua_next_call_id :: u32
  ua_next_conf_seq :: u32
  ua_autoanswer_ms :: u32
  ua_last_call_fail :: string
  ua_msg_rx_count :: u32
  ua_last_msg_src :: cstring
  ua_last_msg_text :: cstring
  ua_app_tx_seq :: u32
  ua_app_rx_count :: u32
  ua_app_loss_count :: u32
  ua_last_app_rtt_ms :: int
  ua_rtt_samples :: u32
  ua_rtt_min_ms :: int
  ua_rtt_max_ms :: int
  ua_rtt_sum_ms :: int
  ua_app_tx_time :: "(u32, u32) omap"
  ua_traffic_timer :: u32
  ua_loss_sweep_timer :: u32
  ua_stats_timer :: u32

type_synonym 'a ue_app_act = "('a ue_app_scheme, u2u_packet) act"
definition ue_app_init :: "ue_config \<Rightarrow> ue_app" where
  "ue_app_init cfg = \<lparr>ua_config = cfg, ua_now_ms = 0, ua_timers = timer_list_init, ua_bearers = bearer_set_init,
     ua_crnti_cache = 0, ua_out_streams = [], ua_in_streams = [], ua_stream_stats_timer = 0, ua_stream_sweep_timer = 0,
     ua_dialogs = [], ua_next_call_id = 1, ua_next_conf_seq = 1, ua_autoanswer_ms = 4000, ua_last_call_fail = [],
     ua_msg_rx_count = 0, ua_last_msg_src = [], ua_last_msg_text = [], ua_app_tx_seq = 0, ua_app_rx_count = 0,
     ua_app_loss_count = 0, ua_last_app_rtt_ms = -1, ua_rtt_samples = 0, ua_rtt_min_ms = 2 ^ 63 - 1, ua_rtt_max_ms = 0,
     ua_rtt_sum_ms = 0, ua_app_tx_time = [], ua_traffic_timer = 0, ua_loss_sweep_timer = 0, ua_stats_timer = 0\<rparr>"

subsection \<open>Bearers\<close>

definition enqueue_app_pdu :: "qci \<Rightarrow> u8 \<Rightarrow> bytes \<Rightarrow> 'a ue_app_scheme \<Rightarrow> 'a ue_app_scheme" where
  "enqueue_app_pdu q lcid pdu u =
     (let xs = queue_of q (ua_bearers u);
          xs' = (if length xs \<ge> 64 then tl xs else xs)
      in u\<lparr>ua_bearers := set_queue_of q (xs' @ [\<lparr>ap_lcid = lcid, ap_cipher = False, ap_bytes = pdu\<rparr>]) (ua_bearers u)\<rparr>)"

text \<open>\<^verbatim>\<open>for (pdu : pdus) enqueue_app_pdu(qci, lcid_of(qci), pdcp::tx(rlc::tm_tx(pdu)))\<close>.\<close>

definition enqueue_all :: "qci \<Rightarrow> bytes list \<Rightarrow> 'a ue_app_scheme \<Rightarrow> 'a ue_app_scheme" where
  "enqueue_all q pdus = fold (\<lambda>pdu. enqueue_app_pdu q (lcid_of q) (pdcp_tx (tm_tx pdu))) pdus"

definition submit_am :: "qci \<Rightarrow> bytes \<Rightarrow> bool \<Rightarrow> 'a ue_app_scheme \<Rightarrow> 'a ue_app_scheme" where
  "submit_am q sdu force u =
     (let (tx', pdus) = am_tx (ua_now_ms u) sdu force (b_tx (am_of q (ua_bearers u)))
      in enqueue_all q pdus (u\<lparr>ua_bearers := am_of_update q (\<lambda>b. b\<lparr>b_tx := tx'\<rparr>) (ua_bearers u)\<rparr>))"

definition submit_um :: "qci \<Rightarrow> bytes \<Rightarrow> 'a ue_app_scheme \<Rightarrow> 'a ue_app_scheme" where
  "submit_um q sdu u =
     (let (tx', pdus) = um_tx sdu (b_tx (um_of q (ua_bearers u)))
      in enqueue_all q pdus (u\<lparr>ua_bearers := um_of_update q (\<lambda>b. b\<lparr>b_tx := tx'\<rparr>) (ua_bearers u)\<rparr>))"

definition ensure_bearer :: "qci \<Rightarrow> 'a ue_app_scheme \<Rightarrow> 'a ue_app_scheme" where
  "ensure_bearer q u =
     (if q = QCI_BEST_EFFORT then u else u\<lparr>ua_bearers := set_established_of q True (ua_bearers u)\<rparr>)"

definition release_bearer_if_unused :: "qci \<Rightarrow> 'a ue_app_scheme \<Rightarrow> 'a ue_app_scheme" where
  "release_bearer_if_unused q u =
     (if q = QCI_BEST_EFFORT then u
      else if (if q = QCI_SIG then ua_dialogs u \<noteq> [] else \<exists>d \<in> set (ua_dialogs u). qci_of (cd_kind d) = q) then u
      else u\<lparr>ua_bearers := set_established_of q False (ua_bearers u)\<rparr>)"

definition send_u2u :: "u2u_packet \<Rightarrow> 'a ue_app_act" where
  "send_u2u pkt u =
     (let sdu = encode_u2u pkt; q = qci_of (up_kind pkt); u1 = ensure_bearer q u
      in (if q = QCI_SIG \<or> q = QCI_BEST_EFFORT
          then submit_am q sdu (up_end pkt \<or> up_kind pkt = MSG \<or> up_kind pkt = SIG) u1
          else submit_um q sdu u1, [pkt]))"

subsection \<open>Timers\<close>

definition ua_schedule :: "u32 \<Rightarrow> bool \<Rightarrow> ue_timer \<Rightarrow> 'a ue_app_scheme \<Rightarrow> u32 \<times> 'a ue_app_scheme" where
  "ua_schedule delay periodic cb u =
     (let (i, t) = timer_schedule delay periodic cb (ua_timers u) in (i, u\<lparr>ua_timers := t\<rparr>))"

text \<open>\<^verbatim>\<open>if (*t != 0) { timers_.cancel(*t); *t = 0; }\<close> without the reset of the field.\<close>

definition ua_cancel :: "u32 \<Rightarrow> 'a ue_app_scheme \<Rightarrow> 'a ue_app_scheme" where
  "ua_cancel i u = (if i \<noteq> 0 then u\<lparr>ua_timers := timer_cancel i (ua_timers u)\<rparr> else u)"

subsection \<open>Pings\<close>

text \<open>\<^verbatim>\<open>send_app_data\<close> behind its guard and the wake-up, which belong to the node.\<close>

definition ping :: "bytes \<Rightarrow> 'a ue_app_scheme \<Rightarrow> 'a ue_app_scheme" where
  "ping payload u =
     (let seq = ua_app_tx_seq u + 1
      in submit_am QCI_BEST_EFFORT (put32 seq @ payload) False
           (u\<lparr>ua_app_tx_seq := seq, ua_app_tx_time := om_insert seq (ua_now_ms u) (ua_app_tx_time u)\<rparr>))"

definition handle_pong :: "bytes \<Rightarrow> 'a ue_app_scheme \<Rightarrow> 'a ue_app_scheme" where
  "handle_pong data u =
     (if length data < 4 then u
      else
        let seq = get32_at data 0 in
        case om_find (ua_app_tx_time u) seq of
          None \<Rightarrow> u
        | Some t \<Rightarrow>
            let rtt = uint (ua_now_ms u) - uint t
            in u\<lparr>ua_app_rx_count := ua_app_rx_count u + 1, ua_last_app_rtt_ms := rtt,
                 ua_app_tx_time := om_erase seq (ua_app_tx_time u), ua_rtt_samples := ua_rtt_samples u + 1,
                 ua_rtt_sum_ms := ua_rtt_sum_ms u + rtt, ua_rtt_min_ms := min (ua_rtt_min_ms u) rtt,
                 ua_rtt_max_ms := max (ua_rtt_max_ms u) rtt\<rparr>)"

definition ack_overdue :: "u32 \<Rightarrow> u32 \<times> u32 \<Rightarrow> bool" where
  "ack_overdue now e \<longleftrightarrow> sint (now - snd e) \<ge> 3000"

definition sweep_lost_pings :: "'a ue_app_scheme \<Rightarrow> 'a ue_app_scheme" where
  "sweep_lost_pings u =
     (let lost = filter (ack_overdue (ua_now_ms u)) (ua_app_tx_time u)
      in u\<lparr>ua_app_tx_time := filter (\<lambda>e. \<not> ack_overdue (ua_now_ms u) e) (ua_app_tx_time u),
           ua_app_loss_count := ua_app_loss_count u + word_of_nat (length lost)\<rparr>)"

definition rtt_avg_ms :: "'a ue_app_scheme \<Rightarrow> int" where
  "rtt_avg_ms u = (if ua_rtt_samples u \<noteq> 0 then ua_rtt_sum_ms u sdiv uint (ua_rtt_samples u) else -1)"
subsection \<open>Lookup\<close>

text \<open>The loops that return a pointer to the first match; the pointer is the position.\<close>

fun find_index :: "('a \<Rightarrow> bool) \<Rightarrow> 'a list \<Rightarrow> nat option" where
  "find_index P [] = None"
| "find_index P (x # xs) = (if P x then Some 0 else map_option Suc (find_index P xs))"

definition find_dialog :: "cstring \<Rightarrow> u32 \<Rightarrow> 'a ue_app_scheme \<Rightarrow> nat option" where
  "find_dialog peer call_id u = find_index (\<lambda>d. cd_peer d = peer \<and> cd_call_id d = call_id) (ua_dialogs u)"

definition find_dialog_by_kind :: "media_kind \<Rightarrow> 'a ue_app_scheme \<Rightarrow> nat option" where
  "find_dialog_by_kind kind u =
     (case find_index (\<lambda>d. cd_kind d = kind \<and> cd_state d = ESTABLISHED) (ua_dialogs u) of
        Some i \<Rightarrow> Some i
      | None \<Rightarrow> find_index (\<lambda>d. cd_kind d = kind) (ua_dialogs u))"

definition find_media_dialog :: "cstring \<Rightarrow> media_kind \<Rightarrow> 'a ue_app_scheme \<Rightarrow> nat option" where
  "find_media_dialog peer kind u =
     find_index (\<lambda>d. cd_peer d = peer \<and> cd_kind d = kind \<and> cd_state d = ESTABLISHED) (ua_dialogs u)"

definition find_conf_dialog :: "u32 \<Rightarrow> 'a ue_app_scheme \<Rightarrow> nat option" where
  "find_conf_dialog conf_id u = find_index (\<lambda>d. cd_conf_id d = conf_id \<and> cd_state d = ESTABLISHED) (ua_dialogs u)"

definition has_conf_dialog :: "u32 \<Rightarrow> 'a ue_app_scheme \<Rightarrow> bool" where
  "has_conf_dialog conf_id u \<longleftrightarrow> (\<exists>d \<in> set (ua_dialogs u). cd_conf_id d = conf_id)"

definition find_incoming_ringing :: "'a ue_app_scheme \<Rightarrow> nat option" where
  "find_incoming_ringing u = find_index (\<lambda>d. cd_state d = INCOMING_RINGING) (ua_dialogs u)"

definition find_out_stream :: "cstring \<Rightarrow> media_kind \<Rightarrow> 'a ue_app_scheme \<Rightarrow> nat option" where
  "find_out_stream peer kind u =
     find_index (\<lambda>s. os_conf_id s = 0 \<and> os_peer s = peer \<and> os_kind s = kind) (ua_out_streams u)"

definition find_conf_out_stream :: "u32 \<Rightarrow> 'a ue_app_scheme \<Rightarrow> nat option" where
  "find_conf_out_stream conf_id u = find_index (\<lambda>s. os_conf_id s = conf_id) (ua_out_streams u)"

definition find_in_stream :: "cstring \<Rightarrow> media_kind \<Rightarrow> u32 \<Rightarrow> 'a ue_app_scheme \<Rightarrow> nat option" where
  "find_in_stream peer kind conf_id u =
     find_index (\<lambda>s. is_peer s = peer \<and> is_kind s = kind \<and> is_conf_id s = conf_id) (ua_in_streams u)"

definition active_conf_id :: "'a ue_app_scheme \<Rightarrow> u32" where
  "active_conf_id u =
     (case find (\<lambda>d. cd_conf_id d \<noteq> 0) (ua_dialogs u) of None \<Rightarrow> 0 | Some d \<Rightarrow> cd_conf_id d)"

definition with_dialog :: "nat \<Rightarrow> (call_dialog \<Rightarrow> call_dialog) \<Rightarrow> 'a ue_app_scheme \<Rightarrow> 'a ue_app_scheme" where
  "with_dialog i g u = u\<lparr>ua_dialogs := (ua_dialogs u)[i := g (ua_dialogs u ! i)]\<rparr>"

subsection \<open>Signalling\<close>

definition sig_packet :: "'a ue_app_scheme \<Rightarrow> sig_method \<Rightarrow> cstring \<Rightarrow> u32 \<Rightarrow> media_kind \<Rightarrow> u32 \<Rightarrow> u2u_packet" where
  "sig_packet u method dst call_id media conf_id =
     \<lparr>up_kind = SIG, up_ack = False, up_end = False, up_seq = 0, up_timestamp_ms = ua_now_ms u,
      up_src_imsi = uec_imsi (ua_config u), up_dst_imsi = dst, up_conf_id = 0,
      up_payload = encode_sig \<lparr>sm_method = method, sm_call_id = call_id, sm_media = media, sm_conf_id = conf_id\<rparr>\<rparr>"

definition send_sig_to :: "sig_method \<Rightarrow> cstring \<Rightarrow> u32 \<Rightarrow> media_kind \<Rightarrow> u32 \<Rightarrow> 'a ue_app_act" where
  "send_sig_to method dst call_id media conf_id u = send_u2u (sig_packet u method dst call_id media conf_id) u"

definition send_sig :: "nat \<Rightarrow> sig_method \<Rightarrow> 'a ue_app_act" where
  "send_sig i method u =
     (let d = ua_dialogs u ! i in send_sig_to method (cd_peer d) (cd_call_id d) (cd_kind d) (cd_conf_id d) u)"

subsection \<open>The end of a dialog\<close>

definition cancel_dialog_timers :: "nat \<Rightarrow> 'a ue_app_scheme \<Rightarrow> 'a ue_app_scheme" where
  "cancel_dialog_timers i u =
     (let d = ua_dialogs u ! i
      in with_dialog i (\<lambda>d. d\<lparr>cd_first_response_timer := 0, cd_noanswer_timer := 0, cd_autoanswer_timer := 0\<rparr>)
           (fold ua_cancel [cd_first_response_timer d, cd_noanswer_timer d, cd_autoanswer_timer d] u))"

definition maybe_stop_stream_timers :: "'a ue_app_scheme \<Rightarrow> 'a ue_app_scheme" where
  "maybe_stop_stream_timers u =
     (if ua_out_streams u \<noteq> [] \<or> ua_in_streams u \<noteq> [] then u
      else (fold ua_cancel [ua_stream_stats_timer u, ua_stream_sweep_timer u] u)
             \<lparr>ua_stream_stats_timer := 0, ua_stream_sweep_timer := 0\<rparr>)"

definition ensure_stream_timers :: "'a ue_app_scheme \<Rightarrow> 'a ue_app_scheme" where
  "ensure_stream_timers u =
     (let u1 = (if ua_stream_stats_timer u = 0
                then let (i, u1) = ua_schedule 5000 True STREAM_STATS u in u1\<lparr>ua_stream_stats_timer := i\<rparr> else u)
      in if ua_stream_sweep_timer u1 = 0
         then let (i, u2) = ua_schedule 500 True STREAM_SWEEP u1 in u2\<lparr>ua_stream_sweep_timer := i\<rparr> else u1)"

text \<open>Whose streams die with a dialog: \<open>survives\<close> says that its conference has another dialog.\<close>

definition out_stream_of :: "call_dialog \<Rightarrow> bool \<Rightarrow> out_stream \<Rightarrow> bool" where
  "out_stream_of d survives s \<longleftrightarrow>
     (if cd_conf_id d \<noteq> 0 then os_conf_id s = cd_conf_id d \<and> \<not> survives
      else os_conf_id s = 0 \<and> os_peer s = cd_peer d \<and> os_kind s = cd_kind d)"

definition in_stream_of :: "call_dialog \<Rightarrow> bool \<Rightarrow> in_stream \<Rightarrow> bool" where
  "in_stream_of d survives s \<longleftrightarrow>
     (if cd_conf_id d \<noteq> 0 then is_conf_id s = cd_conf_id d \<and> (is_peer s = cd_peer d \<or> \<not> survives)
      else is_conf_id s = 0 \<and> is_peer s = cd_peer d \<and> is_kind s = cd_kind d)"

definition erase_dialog :: "nat \<Rightarrow> 'a ue_app_scheme \<Rightarrow> 'a ue_app_scheme" where
  "erase_dialog i u =
     (let d = ua_dialogs u ! i;
          u1 = cancel_dialog_timers i u;
          u2 = u1\<lparr>ua_dialogs := take i (ua_dialogs u1) @ drop (Suc i) (ua_dialogs u1)\<rparr>;
          survives = (cd_conf_id d \<noteq> 0 \<and> has_conf_dialog (cd_conf_id d) u2);
          gone = filter (out_stream_of d survives) (ua_out_streams u2);
          u3 = (fold ua_cancel (map os_media_timer gone) u2)
                 \<lparr>ua_out_streams := filter (\<lambda>s. \<not> out_stream_of d survives s) (ua_out_streams u2),
                  ua_in_streams := filter (\<lambda>s. \<not> in_stream_of d survives s) (ua_in_streams u2)\<rparr>
      in release_bearer_if_unused QCI_SIG
           (release_bearer_if_unused (qci_of (cd_kind d)) (maybe_stop_stream_timers u3)))"

definition fail_call :: "nat \<Rightarrow> string \<Rightarrow> 'a ue_app_scheme \<Rightarrow> 'a ue_app_scheme" where
  "fail_call i reason u = erase_dialog i (u\<lparr>ua_last_call_fail := reason\<rparr>)"

fun hangup_method :: "call_state \<Rightarrow> sig_method option" where
  "hangup_method CALL_IDLE = None"
| "hangup_method OUTGOING_RINGING = Some CANCEL"
| "hangup_method INCOMING_RINGING = Some DECLINE_603"
| "hangup_method ESTABLISHED = Some BYE"

definition end_dialog :: "nat \<Rightarrow> 'a ue_app_act" where
  "end_dialog i u =
     (case hangup_method (cd_state (ua_dialogs u ! i)) of
        None \<Rightarrow> (u, [])
      | Some m \<Rightarrow> act_seq (send_sig i m) (act_upd (erase_dialog i)) u)"
subsection \<open>Media\<close>

definition out_stream_init :: "media_kind \<Rightarrow> cstring \<Rightarrow> u32 \<Rightarrow> u32 \<Rightarrow> out_stream" where
  "out_stream_init kind peer conf_id timer =
     \<lparr>os_kind = kind, os_peer = peer, os_conf_id = conf_id, os_seq = 0, os_tx = 0, os_rx_ack = 0, os_loss = 0,
      os_rtt_sum = 0, os_rtt_n = 0, os_max_ack_seq = 0, os_ack_pending = [], os_media_timer = timer\<rparr>"

definition ensure_conf_media :: "nat \<Rightarrow> 'a ue_app_scheme \<Rightarrow> 'a ue_app_scheme" where
  "ensure_conf_media i u =
     (let conf_id = cd_conf_id (ua_dialogs u ! i) in
      if find_conf_out_stream conf_id u \<noteq> None then u
      else
        let u1 = ensure_bearer QCI_VOICE u;
            (t, u2) = ua_schedule (snd (media_profile VOICE) * 2) True (CONF_MEDIA conf_id) u1
        in ensure_stream_timers
             (u2\<lparr>ua_out_streams := ua_out_streams u2 @ [out_stream_init VOICE (cstr ''conf'') conf_id t]\<rparr>))"

text \<open>The caller got 200 OK: acknowledge and open the media gates.\<close>

definition begin_media :: "nat \<Rightarrow> 'a ue_app_act" where
  "begin_media i =
     act_seq (send_sig i ACK)
       (act_upd (\<lambda>u.
          let u1 = cancel_dialog_timers i (with_dialog i (\<lambda>d. d\<lparr>cd_state := ESTABLISHED\<rparr>) u);
              u2 = with_dialog i (\<lambda>d. d\<lparr>cd_established_log_done := True\<rparr>) u1;
              d = ua_dialogs u2 ! i
          in if cd_conf_id d \<noteq> 0 then ensure_conf_media i u2
             else
               let u3 = ensure_bearer (qci_of (cd_kind d)) u2;
                   (t, u4) = ua_schedule (snd (media_profile (cd_kind d))) True (MEDIA (cd_peer d) (cd_kind d)) u3
               in ensure_stream_timers
                    (u4\<lparr>ua_out_streams := ua_out_streams u4 @ [out_stream_init (cd_kind d) (cd_peer d) 0 t]\<rparr>)))"

definition stream_tick :: "u32 \<Rightarrow> out_stream \<Rightarrow> out_stream" where
  "stream_tick now s =
     s\<lparr>os_seq := os_seq s + 1, os_tx := os_tx s + 1, os_ack_pending := om_insert (os_seq s + 1) now (os_ack_pending s)\<rparr>"

definition media_packet :: "out_stream \<Rightarrow> 'a ue_app_scheme \<Rightarrow> u2u_packet" where
  "media_packet s u =
     \<lparr>up_kind = os_kind s, up_ack = False, up_end = False, up_seq = os_seq s, up_timestamp_ms = ua_now_ms u,
      up_src_imsi = uec_imsi (ua_config u), up_dst_imsi = (if os_conf_id s \<noteq> 0 then [] else os_peer s),
      up_conf_id = os_conf_id s, up_payload = make_media_payload (os_kind s) (os_seq s)\<rparr>"

definition send_media_tick :: "nat \<Rightarrow> 'a ue_app_act" where
  "send_media_tick i u =
     (let s = stream_tick (ua_now_ms u) (ua_out_streams u ! i)
      in send_u2u (media_packet s u) (u\<lparr>ua_out_streams := (ua_out_streams u)[i := s]\<rparr>))"

definition sweep_stream :: "u32 \<Rightarrow> out_stream \<Rightarrow> out_stream" where
  "sweep_stream now s =
     (let due = filter (ack_overdue now) (os_ack_pending s);
          proven = filter (\<lambda>e. fst e \<le> os_max_ack_seq s) due;
          lost = filter (\<lambda>e. \<not> fst e \<le> os_max_ack_seq s) due
      in s\<lparr>os_rx_ack := os_rx_ack s + word_of_nat (length proven), os_loss := os_loss s + word_of_nat (length lost),
           os_ack_pending := filter (\<lambda>e. \<not> ack_overdue now e) (os_ack_pending s)\<rparr>)"

definition sweep_stream_acks :: "'a ue_app_scheme \<Rightarrow> 'a ue_app_scheme" where
  "sweep_stream_acks u = u\<lparr>ua_out_streams := map (sweep_stream (ua_now_ms u)) (ua_out_streams u)\<rparr>"

text \<open>An acknowledgement for one of our streams.\<close>

definition stream_ack :: "u32 \<Rightarrow> u32 \<Rightarrow> out_stream \<Rightarrow> out_stream" where
  "stream_ack now seq s =
     (let s1 = s\<lparr>os_max_ack_seq := max (os_max_ack_seq s) seq\<rparr> in
      case om_find (os_ack_pending s1) seq of
        None \<Rightarrow> s1
      | Some t \<Rightarrow>
          s1\<lparr>os_ack_pending := om_erase seq (os_ack_pending s1), os_rx_ack := os_rx_ack s1 + 1,
             os_rtt_sum := os_rtt_sum s1 + (uint now - uint t), os_rtt_n := os_rtt_n s1 + 1\<rparr>)"

text \<open>A media packet on an incoming stream: sequence gaps count as loss.\<close>

definition stream_media :: "u32 \<Rightarrow> in_stream \<Rightarrow> in_stream" where
  "stream_media seq s =
     (let s1 = (if seq \<ge> is_expected_seq s
                then s\<lparr>is_loss := is_loss s + (seq - is_expected_seq s), is_expected_seq := seq + 1\<rparr> else s)
      in s1\<lparr>is_rx := is_rx s1 + 1, is_ack_tx := is_ack_tx s1 + 1\<rparr>)"

subsection \<open>Dialling and hanging up\<close>

definition call_dialog_init :: "call_state \<Rightarrow> cstring \<Rightarrow> media_kind \<Rightarrow> u32 \<Rightarrow> u32 \<Rightarrow> call_dialog" where
  "call_dialog_init state peer kind call_id conf_id =
     \<lparr>cd_state = state, cd_peer = peer, cd_kind = kind, cd_call_id = call_id, cd_conf_id = conf_id, cd_got_180 = False,
      cd_established_log_done = False, cd_first_response_timer = 0, cd_noanswer_timer = 0, cd_autoanswer_timer = 0\<rparr>"

text \<open>A new outgoing dialog with its INVITE and its two timers.\<close>

definition invite :: "cstring \<Rightarrow> media_kind \<Rightarrow> u32 \<Rightarrow> 'a ue_app_act" where
  "invite dst kind conf_id u =
     (let cid = ua_next_call_id u; i = length (ua_dialogs u);
          u1 = u\<lparr>ua_next_call_id := cid + 1, ua_dialogs := ua_dialogs u @ [call_dialog_init OUTGOING_RINGING dst kind cid conf_id]\<rparr>;
          (u2, out) = send_sig i INVITE u1;
          (t1, u3) = ua_schedule (uec_first_response_ms (ua_config u2)) False (FIRST_RESPONSE dst cid) u2;
          u4 = with_dialog i (\<lambda>d. d\<lparr>cd_first_response_timer := t1\<rparr>) u3;
          (t2, u5) = ua_schedule (uec_ring_timeout_ms (ua_config u4)) False (NO_ANSWER dst cid) u4
      in (with_dialog i (\<lambda>d. d\<lparr>cd_noanswer_timer := t2\<rparr>) u5, out))"

text \<open>\<^verbatim>\<open>start_call\<close> and \<^verbatim>\<open>start_conf\<close> behind their guard and the wake-up, which belong to the node.\<close>

definition dial :: "media_kind \<Rightarrow> cstring \<Rightarrow> 'a ue_app_act" where
  "dial kind dst u =
     (if kind = MSG \<or> kind = SIG then (u, [])
      else if find_dialog_by_kind kind u \<noteq> None then (u\<lparr>ua_last_call_fail := ''busy''\<rparr>, [])
      else invite dst kind 0 u)"

definition dial_conf :: "cstring \<Rightarrow> cstring \<Rightarrow> 'a ue_app_act" where
  "dial_conf imsi_b imsi_c u =
     (if ua_dialogs u \<noteq> [] then (u\<lparr>ua_last_call_fail := ''busy''\<rparr>, [])
      else
        let conf_id = push_bit 16 (ucast (ua_crnti_cache u)) OR ua_next_conf_seq u
        in act_for (\<lambda>dst. invite dst VOICE conf_id) [imsi_b, imsi_c]
             (u\<lparr>ua_next_conf_seq := ua_next_conf_seq u + 1\<rparr>))"

text \<open>A message to a peer, behind the same guard.\<close>

definition text_packet :: "cstring \<Rightarrow> cstring \<Rightarrow> 'a ue_app_scheme \<Rightarrow> u2u_packet" where
  "text_packet dst text u =
     \<lparr>up_kind = MSG, up_ack = False, up_end = False, up_seq = 0, up_timestamp_ms = ua_now_ms u,
      up_src_imsi = uec_imsi (ua_config u), up_dst_imsi = dst, up_conf_id = 0, up_payload = text\<rparr>"

definition accept_call :: "nat \<Rightarrow> 'a ue_app_act" where
  "accept_call i =
     act_seq (act_upd (cancel_dialog_timers i))
       (act_seq (send_sig i OK_200) (act_upd (with_dialog i (\<lambda>d. d\<lparr>cd_state := ESTABLISHED\<rparr>))))"

definition answer :: "'a ue_app_act" where
  "answer u = (case find_incoming_ringing u of None \<Rightarrow> (u, []) | Some i \<Rightarrow> accept_call i u)"

definition decline :: "'a ue_app_act" where
  "decline u =
     (case find_incoming_ringing u of
        None \<Rightarrow> (u, [])
      | Some i \<Rightarrow> act_seq (send_sig i DECLINE_603) (act_upd (erase_dialog i)) u)"

definition end_call :: "'a ue_app_act" where
  "end_call u =
     (let by_kind = (case find_dialog_by_kind VOICE u of Some i \<Rightarrow> Some i | None \<Rightarrow> find_dialog_by_kind VIDEO u);
          i = (case find_index (\<lambda>d. cd_state d = ESTABLISHED) (ua_dialogs u) of Some i \<Rightarrow> Some i | None \<Rightarrow> by_kind)
      in case i of None \<Rightarrow> (u, []) | Some i \<Rightarrow> end_dialog i u)"

definition end_call_kind :: "media_kind \<Rightarrow> 'a ue_app_act" where
  "end_call_kind kind u =
     (let i = (case find_dialog_by_kind kind u of
                 Some i \<Rightarrow> Some i
               | None \<Rightarrow> if length (ua_dialogs u) = 1 then Some 0 else None)
      in case i of None \<Rightarrow> (u, []) | Some i \<Rightarrow> end_dialog i u)"

text \<open>The loop of \<^verbatim>\<open>end_conf\<close> would not end on an idle dialog of a conference; \<open>None\<close> stands for that.\<close>

partial_function (option) end_conf :: "'a ue_app_scheme \<Rightarrow> ('a ue_app_scheme \<times> u2u_packet list) option" where
  "end_conf u =
     (case find_index (\<lambda>d. cd_conf_id d \<noteq> 0) (ua_dialogs u) of
        None \<Rightarrow> Some (u, [])
      | Some i \<Rightarrow>
          (case end_dialog i u of
             (u1, o1) \<Rightarrow> Option.bind (end_conf u1) (\<lambda>(u2, o2). Some (u2, o1 @ o2))))"
subsection \<open>Receiving\<close>

definition on_invite :: "cstring \<Rightarrow> sig_message \<Rightarrow> 'a ue_app_act" where
  "on_invite src msg u =
     (case find_dialog src (sm_call_id msg) u of
        Some i \<Rightarrow> send_sig i (if cd_state (ua_dialogs u ! i) = ESTABLISHED then OK_200 else RINGING_180) u
      | None \<Rightarrow>
          if ua_dialogs u \<noteq> [] then send_sig_to BUSY_486 src (sm_call_id msg) (sm_media msg) (sm_conf_id msg) u
          else
            let cid = sm_call_id msg;
                (u1, out) = send_sig 0 RINGING_180
                  (u\<lparr>ua_dialogs := [call_dialog_init INCOMING_RINGING src (sm_media msg) cid (sm_conf_id msg)]\<rparr>)
            in (if ua_autoanswer_ms u1 > 0
                then let (t, u2) = ua_schedule (ua_autoanswer_ms u1) False (AUTO_ANSWER src cid) u1
                     in with_dialog 0 (\<lambda>d. d\<lparr>cd_autoanswer_timer := t\<rparr>) u2
                else u1, out))"

definition on_ringing :: "nat \<Rightarrow> 'a ue_app_scheme \<Rightarrow> 'a ue_app_scheme" where
  "on_ringing i u =
     with_dialog i (\<lambda>d. d\<lparr>cd_got_180 := True, cd_first_response_timer := 0\<rparr>)
       (ua_cancel (cd_first_response_timer (ua_dialogs u ! i)) u)"

definition on_sig_ack :: "nat \<Rightarrow> 'a ue_app_scheme \<Rightarrow> 'a ue_app_scheme" where
  "on_sig_ack i u =
     (if cd_established_log_done (ua_dialogs u ! i) then u
      else
        let u1 = with_dialog i (\<lambda>d. d\<lparr>cd_established_log_done := True\<rparr>) u
        in if cd_conf_id (ua_dialogs u ! i) \<noteq> 0 then ensure_conf_media i u1 else u1)"

definition handle_sig :: "cstring \<Rightarrow> sig_message \<Rightarrow> 'a ue_app_act" where
  "handle_sig src msg u =
     (let d = find_dialog src (sm_call_id msg) u;
          state = (case d of None \<Rightarrow> None | Some i \<Rightarrow> Some (cd_state (ua_dialogs u ! i)));
          i = (case d of None \<Rightarrow> 0 | Some i \<Rightarrow> i) in
      case sm_method msg of
        INVITE \<Rightarrow> on_invite src msg u
      | RINGING_180 \<Rightarrow> if state = Some OUTGOING_RINGING then (on_ringing i u, []) else (u, [])
      | OK_200 \<Rightarrow> if state = Some OUTGOING_RINGING then begin_media i u else (u, [])
      | ACK \<Rightarrow> if state = Some ESTABLISHED then (on_sig_ack i u, []) else (u, [])
      | BYE \<Rightarrow>
          if state = Some ESTABLISHED then act_seq (send_sig i OK_BYE) (act_upd (erase_dialog i)) u
          else if d = None then send_sig_to OK_BYE src (sm_call_id msg) (sm_media msg) 0 u
          else (u, [])
      | OK_BYE \<Rightarrow> (u, [])
      | BUSY_486 \<Rightarrow> if state = Some OUTGOING_RINGING then (fail_call i ''busy'' u, []) else (u, [])
      | DECLINE_603 \<Rightarrow> if state = Some OUTGOING_RINGING then (fail_call i ''declined'' u, []) else (u, [])
      | CANCEL \<Rightarrow> if state = Some INCOMING_RINGING then (erase_dialog i u, []) else (u, []))"

definition on_stream_ack :: "u2u_packet \<Rightarrow> 'a ue_app_scheme \<Rightarrow> 'a ue_app_scheme" where
  "on_stream_ack pkt u =
     (case (if up_conf_id pkt \<noteq> 0 then find_conf_out_stream (up_conf_id pkt) u
            else find_out_stream (up_src_imsi pkt) (up_kind pkt) u) of
        None \<Rightarrow> u
      | Some i \<Rightarrow>
          u\<lparr>ua_out_streams := (ua_out_streams u)[i := stream_ack (ua_now_ms u) (up_seq pkt) (ua_out_streams u ! i)]\<rparr>)"

definition on_stream_end :: "u2u_packet \<Rightarrow> 'a ue_app_scheme \<Rightarrow> 'a ue_app_scheme" where
  "on_stream_end pkt u =
     (case find_in_stream (up_src_imsi pkt) (up_kind pkt) 0 u of
        None \<Rightarrow> u
      | Some i \<Rightarrow>
          maybe_stop_stream_timers (u\<lparr>ua_in_streams := take i (ua_in_streams u) @ drop (Suc i) (ua_in_streams u)\<rparr>))"

text \<open>The first media packet of a stream opens it, and proves the dialog \<open>i\<close> established.\<close>

definition open_in_stream :: "nat \<Rightarrow> u2u_packet \<Rightarrow> 'a ue_app_scheme \<Rightarrow> 'a ue_app_scheme" where
  "open_in_stream i pkt u =
     (let s = \<lparr>is_kind = up_kind pkt, is_peer = up_src_imsi pkt, is_conf_id = up_conf_id pkt, is_rx = 0, is_loss = 0,
               is_ack_tx = 0, is_expected_seq = up_seq pkt\<rparr>;
          u1 = ensure_bearer (qci_of (up_kind pkt)) (ensure_stream_timers (u\<lparr>ua_in_streams := ua_in_streams u @ [s]\<rparr>))
      in on_sig_ack i u1)"

definition on_media :: "u2u_packet \<Rightarrow> 'a ue_app_act" where
  "on_media pkt u =
     (case (if up_conf_id pkt \<noteq> 0 then find_conf_dialog (up_conf_id pkt) u
            else find_media_dialog (up_src_imsi pkt) (up_kind pkt) u) of
        None \<Rightarrow> (u, [])
      | Some i \<Rightarrow>
          let u1 = (if find_in_stream (up_src_imsi pkt) (up_kind pkt) (up_conf_id pkt) u = None
                    then open_in_stream i pkt u else u);
              u2 = (case find_in_stream (up_src_imsi pkt) (up_kind pkt) (up_conf_id pkt) u1 of
                      None \<Rightarrow> u1
                    | Some j \<Rightarrow> u1\<lparr>ua_in_streams := (ua_in_streams u1)[j := stream_media (up_seq pkt) (ua_in_streams u1 ! j)]\<rparr>)
          in send_u2u \<lparr>up_kind = up_kind pkt, up_ack = True, up_end = False, up_seq = up_seq pkt, up_timestamp_ms = ua_now_ms u,
               up_src_imsi = uec_imsi (ua_config u), up_dst_imsi = up_src_imsi pkt, up_conf_id = up_conf_id pkt, up_payload = []\<rparr> u2)"

definition handle_u2u :: "u2u_packet \<Rightarrow> 'a ue_app_act" where
  "handle_u2u pkt u =
     (if up_src_imsi pkt = uec_imsi (ua_config u) then (u, [])
      else if up_ack pkt then (on_stream_ack pkt u, [])
      else if up_end pkt then (on_stream_end pkt u, [])
      else if up_kind pkt = MSG then
        (u\<lparr>ua_msg_rx_count := ua_msg_rx_count u + 1, ua_last_msg_src := up_src_imsi pkt, ua_last_msg_text := up_payload pkt\<rparr>, [])
      else if up_kind pkt = SIG then
        (case decode_sig (up_payload pkt) of None \<Rightarrow> (u, []) | Some msg \<Rightarrow> handle_sig (up_src_imsi pkt) msg u)
      else on_media pkt u)"

definition handle_app_sdu :: "bytes \<Rightarrow> 'a ue_app_act" where
  "handle_app_sdu data u =
     (case decode_u2u data of Some pkt \<Rightarrow> handle_u2u pkt u | None \<Rightarrow> (handle_pong data u, []))"

subsection \<open>Timer callbacks of the application\<close>

definition first_response_expired :: "cstring \<Rightarrow> u32 \<Rightarrow> 'a ue_app_act" where
  "first_response_expired peer cid u =
     (case find_dialog peer cid u of
        None \<Rightarrow> (u, [])
      | Some i \<Rightarrow>
          let u1 = with_dialog i (\<lambda>d. d\<lparr>cd_first_response_timer := 0\<rparr>) u; d = ua_dialogs u1 ! i in
          if cd_state d = OUTGOING_RINGING \<and> \<not> cd_got_180 d
          then act_seq (send_sig i CANCEL) (act_upd (fail_call i ''unreachable'')) u1 else (u1, []))"

definition no_answer_expired :: "cstring \<Rightarrow> u32 \<Rightarrow> 'a ue_app_act" where
  "no_answer_expired peer cid u =
     (case find_dialog peer cid u of
        None \<Rightarrow> (u, [])
      | Some i \<Rightarrow>
          let u1 = with_dialog i (\<lambda>d. d\<lparr>cd_noanswer_timer := 0\<rparr>) u in
          if cd_state (ua_dialogs u1 ! i) = OUTGOING_RINGING
          then act_seq (send_sig i CANCEL) (act_upd (fail_call i ''timeout'')) u1 else (u1, []))"

definition auto_answer_expired :: "cstring \<Rightarrow> u32 \<Rightarrow> 'a ue_app_act" where
  "auto_answer_expired peer cid u =
     (case find_dialog peer cid u of
        None \<Rightarrow> (u, [])
      | Some i \<Rightarrow>
          let u1 = with_dialog i (\<lambda>d. d\<lparr>cd_autoanswer_timer := 0\<rparr>) u in
          if cd_state (ua_dialogs u1 ! i) = INCOMING_RINGING then accept_call i u1 else (u1, []))"

definition media_expired :: "nat option \<Rightarrow> 'a ue_app_act" where
  "media_expired i u = (case i of None \<Rightarrow> (u, []) | Some i \<Rightarrow> send_media_tick i u)"

fun app_timer :: "ue_timer \<Rightarrow> 'a ue_app_act" where
  "app_timer (FIRST_RESPONSE peer cid) u = first_response_expired peer cid u"
| "app_timer (NO_ANSWER peer cid) u = no_answer_expired peer cid u"
| "app_timer (AUTO_ANSWER peer cid) u = auto_answer_expired peer cid u"
| "app_timer (MEDIA peer kind) u = media_expired (find_out_stream peer kind u) u"
| "app_timer (CONF_MEDIA conf_id) u = media_expired (find_conf_out_stream conf_id u) u"
| "app_timer STREAM_SWEEP u = (sweep_stream_acks u, [])"
| "app_timer LOSS_SWEEP u = (sweep_lost_pings u, [])"
| "app_timer cb u = (u, [])"
subsection \<open>Observation\<close>

definition call_state_of :: "'a ue_app_scheme \<Rightarrow> nat" where
  "call_state_of u =
     (let ds = map cd_state (ua_dialogs u) in
      if ESTABLISHED \<in> set ds then 3 else if INCOMING_RINGING \<in> set ds then 2
      else if OUTGOING_RINGING \<in> set ds then 1 else 0)"

fun call_peer_from :: "call_dialog option \<Rightarrow> call_dialog list \<Rightarrow> cstring" where
  "call_peer_from best [] = (case best of None \<Rightarrow> [] | Some d \<Rightarrow> cd_peer d)"
| "call_peer_from best (d # ds) =
     (if cd_state d = ESTABLISHED then cd_peer d
      else call_peer_from (if cd_state d = INCOMING_RINGING \<or> best = None then Some d else best) ds)"

definition call_peer :: "'a ue_app_scheme \<Rightarrow> cstring" where
  "call_peer u = call_peer_from None (ua_dialogs u)"

definition call_established_logged :: "'a ue_app_scheme \<Rightarrow> bool" where
  "call_established_logged u \<longleftrightarrow> (\<exists>d \<in> set (ua_dialogs u). cd_established_log_done d)"

definition stream_tx_count :: "'a ue_app_scheme \<Rightarrow> u32" where
  "stream_tx_count u = sum_list (map os_tx (ua_out_streams u))"

definition stream_rx_count :: "'a ue_app_scheme \<Rightarrow> u32" where
  "stream_rx_count u = sum_list (map is_rx (ua_in_streams u))"

definition stream_rx_count_kind :: "media_kind \<Rightarrow> 'a ue_app_scheme \<Rightarrow> u32" where
  "stream_rx_count_kind kind u = sum_list (map is_rx (filter (\<lambda>s. is_kind s = kind) (ua_in_streams u)))"

definition stream_rx_from :: "cstring \<Rightarrow> 'a ue_app_scheme \<Rightarrow> u32" where
  "stream_rx_from peer u = sum_list (map is_rx (filter (\<lambda>s. is_peer s = peer) (ua_in_streams u)))"

definition stream_loss_count :: "'a ue_app_scheme \<Rightarrow> u32" where
  "stream_loss_count u = sum_list (map os_loss (ua_out_streams u)) + sum_list (map is_loss (ua_in_streams u))"

definition stream_loss_count_kind :: "media_kind \<Rightarrow> 'a ue_app_scheme \<Rightarrow> u32" where
  "stream_loss_count_kind kind u =
     sum_list (map os_loss (filter (\<lambda>s. os_kind s = kind) (ua_out_streams u))) +
     sum_list (map is_loss (filter (\<lambda>s. is_kind s = kind) (ua_in_streams u)))"

definition rtt_avg_of :: "out_stream list \<Rightarrow> int" where
  "rtt_avg_of ss =
     (let n = sum_list (map os_rtt_n ss)
      in if n \<noteq> 0 then sum_list (map os_rtt_sum ss) sdiv uint n else -1)"

definition stream_rtt_avg_ms :: "'a ue_app_scheme \<Rightarrow> int" where
  "stream_rtt_avg_ms u = rtt_avg_of (ua_out_streams u)"

definition stream_rtt_avg_ms_kind :: "media_kind \<Rightarrow> 'a ue_app_scheme \<Rightarrow> int" where
  "stream_rtt_avg_ms_kind kind u = rtt_avg_of (filter (\<lambda>s. os_kind s = kind) (ua_out_streams u))"

definition incoming_peer :: "'a ue_app_scheme \<Rightarrow> cstring" where
  "incoming_peer u = (case ua_in_streams u of [] \<Rightarrow> [] | s # _ \<Rightarrow> is_peer s)"

definition ack_rx_count :: "'a ue_app_scheme \<Rightarrow> u32" where
  "ack_rx_count u = sum_list (map os_rx_ack (ua_out_streams u))"

subsection \<open>What the operations leave alone\<close>
text \<open>Sending touches the bearers only.\<close>

definition bearers_only :: "'a ue_app_scheme \<Rightarrow> 'a ue_app_scheme \<Rightarrow> bool" where
  "bearers_only u u' \<longleftrightarrow> (\<exists>b. u' = u\<lparr>ua_bearers := b\<rparr>)"

lemma bearers_only_refl: "bearers_only u u"
  unfolding bearers_only_def by (rule exI [of _ "ua_bearers u"]) simp

interpretation bearers_only: steps bearers_only
  by unfold_locales (simp add: bearers_only_refl, auto simp: bearers_only_def)

lemma bearers_only_upd [simp]: "bearers_only u (u\<lparr>ua_bearers := b\<rparr>)"
  by (auto simp: bearers_only_def)

lemma bearers_only_enqueue: "bearers_only u (enqueue_app_pdu q lcid pdu u)"
  by (simp add: enqueue_app_pdu_def Let_def)

lemma bearers_only_submit:
  "bearers_only u (submit_am q sdu force u)" "bearers_only u (submit_um q sdu u)" "bearers_only u (ensure_bearer q u)"
  by (auto simp: submit_am_def submit_um_def ensure_bearer_def enqueue_all_def split_beta
      intro!: bearers_only.trans [OF bearers_only_upd bearers_only.fold_steps] bearers_only_enqueue bearers_only.refl)

definition u2u_bearers :: "u2u_packet \<Rightarrow> 'a ue_app_scheme \<Rightarrow> bearer_set" where
  "u2u_bearers pkt u = ua_bearers (fst (send_u2u pkt u))"

lemma send_u2u_eq: "send_u2u pkt u = (u\<lparr>ua_bearers := u2u_bearers pkt u\<rparr>, [pkt])"
proof -
  have "bearers_only u (fst (send_u2u pkt u))"
    by (auto simp: send_u2u_def Let_def intro: bearers_only.trans [OF bearers_only_submit(3)] bearers_only_submit)
  then show ?thesis by (auto simp: bearers_only_def u2u_bearers_def send_u2u_def Let_def)
qed

lemma send_sig_to_eq:
  "send_sig_to m dst cid media conf u =
     (u\<lparr>ua_bearers := u2u_bearers (sig_packet u m dst cid media conf) u\<rparr>, [sig_packet u m dst cid media conf])"
  by (simp add: send_sig_to_def send_u2u_eq)

definition sig_for :: "'a ue_app_scheme \<Rightarrow> sig_method \<Rightarrow> call_dialog \<Rightarrow> u2u_packet" where
  "sig_for u m d = sig_packet u m (cd_peer d) (cd_call_id d) (cd_kind d) (cd_conf_id d)"

lemma send_sig_eq:
  "send_sig i m u = (u\<lparr>ua_bearers := u2u_bearers (sig_for u m (ua_dialogs u ! i)) u\<rparr>, [sig_for u m (ua_dialogs u ! i)])"
  by (simp add: send_sig_def send_sig_to_eq sig_for_def Let_def)

lemma fold_ua_cancel:
  "fold ua_cancel ids u = u\<lparr>ua_timers := fold timer_cancel (filter (\<lambda>i. i \<noteq> 0) ids) (ua_timers u)\<rparr>"
  by (induction ids arbitrary: u) (simp_all add: ua_cancel_def)

text \<open>Bearer bookkeeping and timers touch neither dialogs nor streams.\<close>

lemma bearer_frame [simp]:
  "ua_dialogs (release_bearer_if_unused q u) = ua_dialogs u" "ua_out_streams (release_bearer_if_unused q u) = ua_out_streams u"
  "ua_in_streams (release_bearer_if_unused q u) = ua_in_streams u" "ua_dialogs (ensure_bearer q u) = ua_dialogs u"
  "ua_out_streams (ensure_bearer q u) = ua_out_streams u" "ua_in_streams (ensure_bearer q u) = ua_in_streams u"
  by (simp_all add: release_bearer_if_unused_def ensure_bearer_def)

lemma stream_timer_frame [simp]:
  "ua_dialogs (maybe_stop_stream_timers u) = ua_dialogs u" "ua_out_streams (maybe_stop_stream_timers u) = ua_out_streams u"
  "ua_in_streams (maybe_stop_stream_timers u) = ua_in_streams u" "ua_dialogs (ensure_stream_timers u) = ua_dialogs u"
  "ua_out_streams (ensure_stream_timers u) = ua_out_streams u" "ua_in_streams (ensure_stream_timers u) = ua_in_streams u"
  by (simp_all add: maybe_stop_stream_timers_def fold_ua_cancel ensure_stream_timers_def ua_schedule_def split_beta Let_def del: fold.simps)

lemma schedule_frame [simp]:
  "ua_dialogs (snd (ua_schedule t p cb u)) = ua_dialogs u" "ua_out_streams (snd (ua_schedule t p cb u)) = ua_out_streams u"
  "ua_in_streams (snd (ua_schedule t p cb u)) = ua_in_streams u" "ua_config (snd (ua_schedule t p cb u)) = ua_config u"
  by (simp_all add: ua_schedule_def split_beta)

lemma cancel_frame [simp]:
  "ua_dialogs (ua_cancel t u) = ua_dialogs u" "ua_out_streams (ua_cancel t u) = ua_out_streams u"
  "ua_in_streams (ua_cancel t u) = ua_in_streams u"
  by (simp_all add: ua_cancel_def)

lemma cancel_dialog_timers_eq:
  "ua_dialogs (cancel_dialog_timers i u) =
     (ua_dialogs u)[i := (ua_dialogs u ! i)\<lparr>cd_first_response_timer := 0, cd_noanswer_timer := 0, cd_autoanswer_timer := 0\<rparr>]"
  "ua_out_streams (cancel_dialog_timers i u) = ua_out_streams u" "ua_in_streams (cancel_dialog_timers i u) = ua_in_streams u"
  by (simp_all add: cancel_dialog_timers_def with_dialog_def fold_ua_cancel Let_def del: fold.simps)

lemma find_index_Some: "find_index P xs = Some i \<Longrightarrow> i < length xs \<and> P (xs ! i) \<and> (\<forall>j < i. \<not> P (xs ! j))"
proof (induction xs arbitrary: i)
  case (Cons x xs)
  show ?case
  proof (cases "P x")
    case False
    with Cons.prems obtain k where "find_index P xs = Some k" "i = Suc k" by auto
    with Cons.IH [of k] False show ?thesis by (auto simp: less_Suc_eq_0_disj)
  qed (use Cons.prems in auto)
qed simp

lemma find_index_None: "find_index P xs = None \<longleftrightarrow> (\<forall>x \<in> set xs. \<not> P x)"
  by (induction xs) auto
subsection \<open>Dialogs and the streams they justify\<close>

text \<open>
  No dialog is idle; two dialogs of one kind belong to one conference; at most one call rings
  here. An outgoing stream to a peer has an established dialog with that peer, a stream to
  the bridge a dialog of its conference, and so has every stream received from a conference.
\<close>

definition dialogs_ok :: "call_dialog list \<Rightarrow> bool" where
  "dialogs_ok ds \<longleftrightarrow>
     (\<forall>d \<in> set ds. cd_state d \<noteq> CALL_IDLE) \<and>
     (\<forall>i j. i < j \<and> j < length ds \<and> cd_kind (ds ! i) = cd_kind (ds ! j) \<longrightarrow>
        cd_conf_id (ds ! i) \<noteq> 0 \<and> cd_conf_id (ds ! j) = cd_conf_id (ds ! i)) \<and>
     (\<forall>j < length ds. 0 < j \<longrightarrow> cd_state (ds ! j) \<noteq> INCOMING_RINGING)"

definition out_justified :: "call_dialog list \<Rightarrow> out_stream \<Rightarrow> bool" where
  "out_justified ds s \<longleftrightarrow>
     (if os_conf_id s = 0
      then \<exists>d \<in> set ds. cd_conf_id d = 0 \<and> cd_peer d = os_peer s \<and> cd_kind d = os_kind s \<and> cd_state d = ESTABLISHED
      else \<exists>d \<in> set ds. cd_conf_id d = os_conf_id s)"

definition in_justified :: "call_dialog list \<Rightarrow> in_stream \<Rightarrow> bool" where
  "in_justified ds s \<longleftrightarrow> is_conf_id s = 0 \<or> (\<exists>d \<in> set ds. cd_conf_id d = is_conf_id s)"

definition calls_ok :: "'a ue_app_scheme \<Rightarrow> bool" where
  "calls_ok u \<longleftrightarrow> dialogs_ok (ua_dialogs u) \<and> (\<forall>s \<in> set (ua_out_streams u). out_justified (ua_dialogs u) s) \<and>
     (\<forall>s \<in> set (ua_in_streams u). in_justified (ua_dialogs u) s)"

definition calls_kept :: "'a ue_app_scheme \<Rightarrow> 'a ue_app_scheme \<Rightarrow> bool" where
  "calls_kept u u' \<longleftrightarrow> (calls_ok u \<longrightarrow> calls_ok u')"

interpretation calls: steps calls_kept
  by unfold_locales (auto simp: calls_kept_def)

lemma calls_ok_cong:
  "ua_dialogs u' = ua_dialogs u \<Longrightarrow> ua_out_streams u' = ua_out_streams u \<Longrightarrow> ua_in_streams u' = ua_in_streams u \<Longrightarrow>
     calls_ok u' = calls_ok u"
  by (simp add: calls_ok_def)

lemma calls_ok_init: "calls_ok (ue_app_init cfg)"
  by (simp add: calls_ok_def ue_app_init_def dialogs_ok_def)

lemma fields_only_bearers [simp]:
  "calls_ok (u\<lparr>ua_bearers := b\<rparr>) = calls_ok u" "calls_ok (u\<lparr>ua_timers := t\<rparr>) = calls_ok u"
  "calls_ok (u\<lparr>ua_stream_stats_timer := x\<rparr>) = calls_ok u" "calls_ok (u\<lparr>ua_stream_sweep_timer := x\<rparr>) = calls_ok u"
  "calls_ok (u\<lparr>ua_last_call_fail := r\<rparr>) = calls_ok u" "calls_ok (u\<lparr>ua_next_call_id := x\<rparr>) = calls_ok u"
  "calls_ok (u\<lparr>ua_next_conf_seq := x\<rparr>) = calls_ok u" "calls_ok (u\<lparr>ua_now_ms := x\<rparr>) = calls_ok u"
  "calls_ok (u\<lparr>ua_crnti_cache := r'\<rparr>) = calls_ok u"
  by (simp_all add: calls_ok_def)

text \<open>Dialogs that only move towards the established state.\<close>

definition dialog_le :: "call_dialog \<Rightarrow> call_dialog \<Rightarrow> bool" where
  "dialog_le d d' \<longleftrightarrow> cd_peer d' = cd_peer d \<and> cd_kind d' = cd_kind d \<and> cd_conf_id d' = cd_conf_id d \<and>
     (cd_state d' = cd_state d \<or> cd_state d' = ESTABLISHED)"

lemma dialogs_le_upd: "dialog_le (ds ! i) d \<Longrightarrow> list_all2 dialog_le ds (ds[i := d])"
  by (cases "i < length ds") (auto simp: list_all2_conv_all_nth nth_list_update dialog_le_def)

lemma dialogs_ok_le:
  assumes ok: "dialogs_ok ds" and le: "list_all2 dialog_le ds ds'"
  shows "dialogs_ok ds'"
proof -
  have len: "length ds' = length ds" and
    k: "\<And>k. k < length ds \<Longrightarrow> cd_kind (ds' ! k) = cd_kind (ds ! k) \<and> cd_conf_id (ds' ! k) = cd_conf_id (ds ! k) \<and>
          (cd_state (ds' ! k) = cd_state (ds ! k) \<or> cd_state (ds' ! k) = ESTABLISHED)"
    using le by (auto simp: list_all2_conv_all_nth dialog_le_def)
  have "cd_state (ds' ! j) \<noteq> CALL_IDLE \<and> (0 < j \<longrightarrow> cd_state (ds' ! j) \<noteq> INCOMING_RINGING)" if "j < length ds" for j
  proof -
    have "cd_state (ds ! j) \<noteq> CALL_IDLE" "0 < j \<longrightarrow> cd_state (ds ! j) \<noteq> INCOMING_RINGING"
      using ok that by (simp_all add: dialogs_ok_def)
    with k [OF that] show ?thesis by auto
  qed
  moreover have "cd_conf_id (ds' ! i) \<noteq> 0 \<and> cd_conf_id (ds' ! j) = cd_conf_id (ds' ! i)"
    if "i < j" "j < length ds" "cd_kind (ds' ! i) = cd_kind (ds' ! j)" for i j
    using ok that k [of i] k [of j] by (simp add: dialogs_ok_def)
  ultimately show ?thesis using len by (auto simp: dialogs_ok_def all_set_conv_all_nth)
qed

lemma justified_le:
  assumes "list_all2 dialog_le ds ds'"
  shows "out_justified ds s \<Longrightarrow> out_justified ds' s" "in_justified ds t \<Longrightarrow> in_justified ds' t"
proof -
  have step: "\<exists>d' \<in> set ds'. dialog_le x d'" if "x \<in> set ds" for x
    using that assms by (auto simp: in_set_conv_nth list_all2_conv_all_nth) (metis nth_mem)
  show "out_justified ds s \<Longrightarrow> out_justified ds' s"
    using step unfolding out_justified_def dialog_le_def by (fastforce split: if_splits)
  show "in_justified ds t \<Longrightarrow> in_justified ds' t"
    using step unfolding in_justified_def dialog_le_def by fastforce
qed

lemma calls_kept_dialog:
  assumes "dialog_le (ua_dialogs u ! i) (g (ua_dialogs u ! i))"
  shows "calls_kept u (with_dialog i g u)"
  using dialogs_ok_le [OF _ dialogs_le_upd [OF assms]] justified_le [OF dialogs_le_upd [OF assms]]
  by (auto simp: calls_kept_def calls_ok_def with_dialog_def)
lemma set_del_nth: "i < length xs \<Longrightarrow> set xs = insert (xs ! i) (set (take i xs @ drop (Suc i) xs))"
  by (metis Un_insert_right append_take_drop_id Cons_nth_drop_Suc list.set(2) set_append)

lemma dialogs_ok_del:
  assumes "dialogs_ok ds" "i < length ds"
  shows "dialogs_ok (take i ds @ drop (Suc i) ds)"
proof -
  let ?f = "\<lambda>k. if k < i then k else Suc k" and ?ds = "take i ds @ drop (Suc i) ds"
  have n: "?ds ! k = ds ! ?f k" "?f k < length ds" if "k < length ?ds" for k
    using that assms(2) by (auto simp: nth_append)
  have "cd_state d \<noteq> CALL_IDLE" if "d \<in> set ?ds" for d
    using assms(1) that set_del_nth [OF assms(2)] by (auto simp: dialogs_ok_def)
  moreover have "cd_conf_id (?ds ! k) \<noteq> 0 \<and> cd_conf_id (?ds ! j) = cd_conf_id (?ds ! k)"
    if "k < j" "j < length ?ds" "cd_kind (?ds ! k) = cd_kind (?ds ! j)" for k j
  proof -
    have "?f k < ?f j" using that(1) by simp
    with assms(1) that n [of k] n [of j] show ?thesis unfolding dialogs_ok_def by (metis less_trans)
  qed
  moreover have "cd_state (?ds ! j) \<noteq> INCOMING_RINGING" if "j < length ?ds" "0 < j" for j
    using assms(1) that n [OF that(1)] by (simp add: dialogs_ok_def split: if_splits)
  ultimately show ?thesis unfolding dialogs_ok_def by blast
qed

text \<open>A stream of a plain dialog that survives the end of another dialog keeps its own.\<close>

definition conf_survives :: "nat \<Rightarrow> 'a ue_app_scheme \<Rightarrow> bool" where
  "conf_survives i u \<longleftrightarrow> cd_conf_id (ua_dialogs u ! i) \<noteq> 0 \<and>
     (\<exists>d \<in> set (take i (ua_dialogs u) @ drop (Suc i) (ua_dialogs u)). cd_conf_id d = cd_conf_id (ua_dialogs u ! i))"

lemma erase_dialog_fields:
  "ua_dialogs (erase_dialog i u) = take i (ua_dialogs u) @ drop (Suc i) (ua_dialogs u)"
  "ua_out_streams (erase_dialog i u) = filter (\<lambda>s. \<not> out_stream_of (ua_dialogs u ! i) (conf_survives i u) s) (ua_out_streams u)"
  "ua_in_streams (erase_dialog i u) = filter (\<lambda>s. \<not> in_stream_of (ua_dialogs u ! i) (conf_survives i u) s) (ua_in_streams u)"
  by (simp_all add: erase_dialog_def Let_def fold_ua_cancel cancel_dialog_timers_eq has_conf_dialog_def conf_survives_def)

lemma calls_kept_erase:
  assumes i: "i < length (ua_dialogs u)"
  shows "calls_kept u (erase_dialog i u)"
  unfolding calls_kept_def
proof
  assume ok: "calls_ok u"
  let ?d = "ua_dialogs u ! i" and ?ds = "take i (ua_dialogs u) @ drop (Suc i) (ua_dialogs u)"
  have out: "out_justified ?ds s" if "s \<in> set (ua_out_streams u)" "\<not> out_stream_of ?d (conf_survives i u) s" for s
  proof -
    have "out_justified (ua_dialogs u) s" using ok that(1) by (simp add: calls_ok_def)
    then show ?thesis
      using that(2) unfolding out_justified_def out_stream_of_def conf_survives_def set_del_nth [OF i] by (auto split: if_splits)
  qed
  have inn: "in_justified ?ds s" if "s \<in> set (ua_in_streams u)" "\<not> in_stream_of ?d (conf_survives i u) s" for s
  proof -
    have "in_justified (ua_dialogs u) s" using ok that(1) by (simp add: calls_ok_def)
    then show ?thesis
      using that(2) unfolding in_justified_def in_stream_of_def conf_survives_def set_del_nth [OF i] by (auto split: if_splits)
  qed
  show "calls_ok (erase_dialog i u)"
    using ok dialogs_ok_del [OF _ i] out inn by (auto simp: calls_ok_def erase_dialog_fields)
qed
lemma justified_mono:
  "set ds \<subseteq> set ds' \<Longrightarrow> out_justified ds s \<Longrightarrow> out_justified ds' s"
  "set ds \<subseteq> set ds' \<Longrightarrow> in_justified ds t \<Longrightarrow> in_justified ds' t"
  by (auto simp: out_justified_def in_justified_def split: if_splits)

lemma dialogs_ok_snoc:
  assumes "dialogs_ok ds" "cd_state d \<noteq> CALL_IDLE" "ds \<noteq> [] \<Longrightarrow> cd_state d \<noteq> INCOMING_RINGING"
    and "\<And>x. x \<in> set ds \<Longrightarrow> cd_kind x = cd_kind d \<Longrightarrow> cd_conf_id x \<noteq> 0 \<and> cd_conf_id d = cd_conf_id x"
  shows "dialogs_ok (ds @ [d])"
  using assms unfolding dialogs_ok_def by (auto simp: nth_append less_Suc_eq)

lemma invite_fields:
  "ua_dialogs (fst (invite dst kind conf u)) =
     ua_dialogs u @ [(call_dialog_init OUTGOING_RINGING dst kind (ua_next_call_id u) conf)
       \<lparr>cd_first_response_timer := tl_next_id (ua_timers u), cd_noanswer_timer := tl_next_id (ua_timers u) + 1\<rparr>]"
  "ua_out_streams (fst (invite dst kind conf u)) = ua_out_streams u" "ua_in_streams (fst (invite dst kind conf u)) = ua_in_streams u"
  by (simp_all add: invite_def Let_def split_beta send_sig_eq with_dialog_def ua_schedule_def timer_schedule_def list_update_append)

lemma invite_ok:
  assumes ok: "calls_ok u" and k: "\<And>d. d \<in> set (ua_dialogs u) \<Longrightarrow> cd_kind d = kind \<Longrightarrow> cd_conf_id d \<noteq> 0 \<and> conf = cd_conf_id d"
  shows "calls_ok (fst (invite dst kind conf u))"
proof -
  let ?d = "(call_dialog_init OUTGOING_RINGING dst kind (ua_next_call_id u) conf)
       \<lparr>cd_first_response_timer := tl_next_id (ua_timers u), cd_noanswer_timer := tl_next_id (ua_timers u) + 1\<rparr>"
  have "dialogs_ok (ua_dialogs u @ [?d])"
    by (rule dialogs_ok_snoc) (use ok k in \<open>auto simp: calls_ok_def call_dialog_init_def\<close>)
  moreover have "set (ua_dialogs u) \<subseteq> set (ua_dialogs u @ [?d])" by auto
  ultimately show ?thesis
    using ok justified_mono [of "ua_dialogs u" "ua_dialogs u @ [?d]"] unfolding calls_ok_def invite_fields by simp
qed

lemma dial_kept: "calls_kept u (fst (dial kind dst u))"
  using invite_ok [of u kind 0 dst]
  by (auto simp: calls_kept_def dial_def find_dialog_by_kind_def find_index_None split: option.splits)

lemma dial_conf_kept:
  assumes "push_bit 16 (ucast (ua_crnti_cache u)) OR ua_next_conf_seq u \<noteq> 0"
  shows "calls_kept u (fst (dial_conf b c u))"
proof -
  let ?cid = "push_bit 16 (ucast (ua_crnti_cache u)) OR ua_next_conf_seq u :: u32"
  have "calls_ok (fst (invite c VOICE ?cid (fst (invite b VOICE ?cid v))))" if "calls_ok v" "ua_dialogs v = []" for v :: "'a ue_app_scheme"
    using that assms by (intro invite_ok) (auto simp: invite_fields call_dialog_init_def)
  then show ?thesis
    by (simp add: calls_kept_def dial_conf_def Let_def act_seq_def act_upd_def split_beta)
qed

lemma calls_kept_sig: "calls_kept u (fst (send_sig i m u))" "calls_kept u (fst (send_sig_to m dst cid k c u))" "calls_kept u (fst (send_u2u pkt u))"
  by (simp_all add: calls_kept_def send_sig_eq send_sig_to_eq send_u2u_eq)

lemma send_sig_dialogs [simp]: "ua_dialogs (fst (send_sig i m u)) = ua_dialogs u"
  by (simp add: send_sig_eq)

lemma calls_kept_sig_erase:
  "i < length (ua_dialogs u) \<Longrightarrow> calls_kept u (fst (act_seq (send_sig i m) (act_upd (erase_dialog i)) u))"
  "i < length (ua_dialogs u) \<Longrightarrow> calls_kept u (fst (act_seq (send_sig i m) (act_upd (fail_call i r)) u))"
  using calls_kept_erase [of i "fst (send_sig i m u)"] calls_kept_erase [of i "(fst (send_sig i m u))\<lparr>ua_last_call_fail := r\<rparr>"] calls_kept_sig(1) [of u i m]
  by (auto simp: act_seq_def act_upd_def split_beta calls_kept_def fail_call_def)

lemma fail_kept: "i < length (ua_dialogs u) \<Longrightarrow> calls_kept u (fail_call i r u)"
  using calls_kept_erase [of i "u\<lparr>ua_last_call_fail := r\<rparr>"] by (simp add: fail_call_def calls_kept_def)

lemma end_dialog_kept: "i < length (ua_dialogs u) \<Longrightarrow> calls_kept u (fst (end_dialog i u))"
  by (simp add: end_dialog_def calls_kept_sig_erase calls.refl split: option.split)

lemma cancel_timers_kept: "calls_kept u (cancel_dialog_timers i u)"
  unfolding cancel_dialog_timers_def Let_def fold_ua_cancel
  by (rule calls.trans [OF _ calls_kept_dialog]) (simp_all add: calls_kept_def dialog_le_def)

lemma accept_kept: "calls_kept u (fst (accept_call i u))"
proof -
  let ?u = "fst (send_sig i OK_200 (cancel_dialog_timers i u))"
  have "calls_kept u ?u" by (rule calls.trans [OF cancel_timers_kept calls_kept_sig(1)])
  moreover have "calls_kept ?u (with_dialog i (\<lambda>d. d\<lparr>cd_state := ESTABLISHED\<rparr>) ?u)"
    by (rule calls_kept_dialog) (simp add: dialog_le_def)
  ultimately have "calls_kept u (with_dialog i (\<lambda>d. d\<lparr>cd_state := ESTABLISHED\<rparr>) ?u)" by (rule calls.trans)
  then show ?thesis by (simp add: accept_call_def act_seq_def act_upd_def split_beta)
qed

lemma user_actions_kept:
  "calls_kept u (fst (answer u))" "calls_kept u (fst (decline u))" "calls_kept u (fst (end_call u))" "calls_kept u (fst (end_call_kind k u))"
proof -
  have e: "calls_kept u (fst (end_dialog i u))" if "find_index P (ua_dialogs u) = Some i" for P i
    using find_index_Some [OF that] by (intro end_dialog_kept) simp
  have k: "calls_kept u (fst (end_dialog i u))" if "find_dialog_by_kind kd u = Some i" for kd i
    using that e by (auto simp: find_dialog_by_kind_def split: option.splits)
  show "calls_kept u (fst (answer u))"
    by (simp add: answer_def accept_kept calls.refl split: option.split)
  show "calls_kept u (fst (decline u))"
    by (auto simp: decline_def calls.refl find_incoming_ringing_def dest!: find_index_Some intro!: calls_kept_sig_erase split: option.split)
  show "calls_kept u (fst (end_call u))"
    by (auto simp: end_call_def calls.refl Let_def intro: e k split: option.split)
  show "calls_kept u (fst (end_call_kind k u))"
    by (auto simp: end_call_kind_def calls.refl Let_def k end_dialog_kept split: option.split)
qed
text \<open>Streams that come with their dialog.\<close>

lemma calls_kept_stream:
  assumes "out_justified (ua_dialogs u) s" and "ua_dialogs u' = ua_dialogs u" "ua_in_streams u' = ua_in_streams u"
    and "ua_out_streams u' = ua_out_streams u @ [s]"
  shows "calls_kept u u'"
  using assms by (auto simp: calls_kept_def calls_ok_def)

lemma ensure_conf_media_kept:
  assumes "i < length (ua_dialogs u)" "cd_conf_id (ua_dialogs u ! i) \<noteq> 0"
  shows "calls_kept u (ensure_conf_media i u)"
proof (cases "find_conf_out_stream (cd_conf_id (ua_dialogs u ! i)) u")
  case None
  show ?thesis
    by (rule calls_kept_stream [where s = "out_stream_init VOICE (cstr ''conf'') (cd_conf_id (ua_dialogs u ! i))
          (fst (ua_schedule (snd (media_profile VOICE) * 2) True (CONF_MEDIA (cd_conf_id (ua_dialogs u ! i))) (ensure_bearer QCI_VOICE u)))"])
      (use None assms nth_mem [OF assms(1)] in \<open>auto simp: ensure_conf_media_def Let_def split_beta out_justified_def out_stream_init_def\<close>)
qed (simp add: ensure_conf_media_def calls.refl)

lemma on_sig_ack_kept:
  assumes "i < length (ua_dialogs u)"
  shows "calls_kept u (on_sig_ack i u)"
proof -
  let ?u = "with_dialog i (\<lambda>d. d\<lparr>cd_established_log_done := True\<rparr>) u"
  have "calls_kept u ?u" by (rule calls_kept_dialog) (simp add: dialog_le_def)
  moreover have "calls_kept ?u (ensure_conf_media i ?u)" if "cd_conf_id (ua_dialogs u ! i) \<noteq> 0"
    by (rule ensure_conf_media_kept) (use assms that in \<open>simp_all add: with_dialog_def\<close>)
  ultimately show ?thesis by (auto simp: on_sig_ack_def Let_def calls.refl intro: calls.trans)
qed

lemma begin_media_kept:
  assumes i: "i < length (ua_dialogs u)"
  shows "calls_kept u (fst (begin_media i u))"
proof -
  let ?v = "fst (send_sig i ACK u)"
  let ?w = "cancel_dialog_timers i (with_dialog i (\<lambda>d. d\<lparr>cd_state := ESTABLISHED\<rparr>) ?v)"
  let ?x = "with_dialog i (\<lambda>d. d\<lparr>cd_established_log_done := True\<rparr>) ?w"
  have len: "i < length (ua_dialogs ?x)" using i by (simp add: with_dialog_def cancel_dialog_timers_eq)
  have "calls_kept ?v (with_dialog i (\<lambda>d. d\<lparr>cd_state := ESTABLISHED\<rparr>) ?v)" "calls_kept ?w ?x"
    by (rule calls_kept_dialog, simp add: dialog_le_def)+
  then have x: "calls_kept u ?x"
    using calls_kept_sig(1) cancel_timers_kept by (blast intro: calls.trans)
  let ?d = "ua_dialogs ?x ! i"
  have est: "cd_state ?d = ESTABLISHED" using i by (simp add: with_dialog_def cancel_dialog_timers_eq)
  show ?thesis
  proof (cases "cd_conf_id ?d = 0")
    case True
    let ?y = "ensure_bearer (qci_of (cd_kind ?d)) ?x"
    let ?z = "ua_schedule (snd (media_profile (cd_kind ?d))) True (MEDIA (cd_peer ?d) (cd_kind ?d)) ?y"
    have "calls_kept ?x (ensure_stream_timers ((snd ?z)\<lparr>ua_out_streams := ua_out_streams (snd ?z) @ [out_stream_init (cd_kind ?d) (cd_peer ?d) 0 (fst ?z)]\<rparr>))"
      by (rule calls_kept_stream [where s = "out_stream_init (cd_kind ?d) (cd_peer ?d) 0 (fst ?z)"])
        (use True est nth_mem [OF len] in \<open>auto simp: out_justified_def out_stream_init_def\<close>)
    with x True show ?thesis
      by (auto simp: begin_media_def act_seq_def act_upd_def split_beta Let_def intro: calls.trans)
  next
    case False
    with x ensure_conf_media_kept [OF len] show ?thesis
      by (auto simp: begin_media_def act_seq_def act_upd_def split_beta Let_def intro: calls.trans)
  qed
qed

lemma find_dialog_length: "find_dialog peer cid u = Some i \<Longrightarrow> i < length (ua_dialogs u)"
  by (auto simp: find_dialog_def dest: find_index_Some)

lemma on_invite_kept: "calls_kept u (fst (on_invite src msg u))"
proof (cases "find_dialog src (sm_call_id msg) u = None \<and> ua_dialogs u = []")
  case True
  let ?d = "call_dialog_init INCOMING_RINGING src (sm_media msg) (sm_call_id msg) (sm_conf_id msg)"
  let ?u = "fst (send_sig 0 RINGING_180 (u\<lparr>ua_dialogs := [?d]\<rparr>))"
  have 1: "calls_kept u ?u"
    using True justified_mono [of "[]" "[?d]"] by (auto simp: calls_kept_def calls_ok_def send_sig_eq dialogs_ok_def call_dialog_init_def)
  have 2: "calls_kept ?u (with_dialog 0 (\<lambda>d. d\<lparr>cd_autoanswer_timer := t\<rparr>) (snd (ua_schedule x False (AUTO_ANSWER src (sm_call_id msg)) ?u)))" for t x
    by (rule calls.trans [OF _ calls_kept_dialog]) (simp_all add: calls_kept_def ua_schedule_def split_beta dialog_le_def)
  show ?thesis
    using True 1 calls.trans [OF 1 2] by (simp add: on_invite_def Let_def split_beta)
qed (auto simp: on_invite_def calls_kept_sig split: option.split)

lemma handle_sig_kept: "calls_kept u (fst (handle_sig src msg u))"
proof -
  have r: "calls_kept u (on_ringing i u)" for i
    unfolding on_ringing_def by (rule calls.trans [OF _ calls_kept_dialog]) (simp_all add: calls_kept_def ua_cancel_def dialog_le_def)
  show ?thesis
    using find_dialog_length [of src "sm_call_id msg" u]
    by (cases "sm_method msg"; cases "find_dialog src (sm_call_id msg) u")
      (auto simp: handle_sig_def on_invite_kept calls.refl r begin_media_kept on_sig_ack_kept calls_kept_sig calls_kept_sig_erase fail_kept calls_kept_erase)
qed

lemma expired_kept:
  "calls_kept u (fst (first_response_expired peer cid u))" "calls_kept u (fst (no_answer_expired peer cid u))"
  "calls_kept u (fst (auto_answer_expired peer cid u))"
proof -
  have w: "calls_kept u (with_dialog i (\<lambda>d. d\<lparr>cd_first_response_timer := 0\<rparr>) u)" "calls_kept u (with_dialog i (\<lambda>d. d\<lparr>cd_noanswer_timer := 0\<rparr>) u)"
    "calls_kept u (with_dialog i (\<lambda>d. d\<lparr>cd_autoanswer_timer := 0\<rparr>) u)" for i
    by (rule calls_kept_dialog, simp add: dialog_le_def)+
  have l: "length (ua_dialogs (with_dialog i g u)) = length (ua_dialogs u)" for i g by (simp add: with_dialog_def)
  note s = calls.trans [OF w(1) calls_kept_sig_erase(2)] calls.trans [OF w(2) calls_kept_sig_erase(2)] calls.trans [OF w(3) accept_kept]
  show "calls_kept u (fst (first_response_expired peer cid u))" "calls_kept u (fst (no_answer_expired peer cid u))"
    "calls_kept u (fst (auto_answer_expired peer cid u))"
    by (auto simp: first_response_expired_def no_answer_expired_def auto_answer_expired_def Let_def calls.refl w l find_dialog_length intro!: s split: option.split)
qed
text \<open>Accounting changes neither the owner of a stream nor its dialog.\<close>

definition same_owner :: "out_stream \<Rightarrow> out_stream \<Rightarrow> bool" where
  "same_owner s s' \<longleftrightarrow> os_conf_id s' = os_conf_id s \<and> os_peer s' = os_peer s \<and> os_kind s' = os_kind s"

lemma same_owner_ops: "same_owner s (stream_tick now s)" "same_owner s (stream_ack now seq s)" "same_owner s (sweep_stream now s)"
  by (auto simp: same_owner_def stream_tick_def stream_ack_def sweep_stream_def Let_def split: option.split)

lemma out_justified_owner: "same_owner s s' \<Longrightarrow> out_justified ds s' = out_justified ds s"
  by (simp add: same_owner_def out_justified_def)

lemma calls_kept_out:
  assumes "ua_dialogs u' = ua_dialogs u" "ua_in_streams u' = ua_in_streams u" "list_all2 same_owner (ua_out_streams u) (ua_out_streams u')"
  shows "calls_kept u u'"
proof -
  have "out_justified ds s'" if "\<forall>s \<in> set (ua_out_streams u). out_justified ds s" "s' \<in> set (ua_out_streams u')" for ds s'
    using that assms(3) out_justified_owner by (fastforce simp: list_all2_conv_all_nth in_set_conv_nth)
  then show ?thesis using assms by (auto simp: calls_kept_def calls_ok_def)
qed

lemma same_owner_upd: "same_owner (ss ! i) s \<Longrightarrow> list_all2 same_owner ss (ss[i := s])"
  by (cases "i < length ss") (auto simp: list_all2_conv_all_nth nth_list_update same_owner_def)

lemma media_tick_kept: "calls_kept u (fst (send_media_tick i u))"
  by (rule calls_kept_out) (simp_all add: send_media_tick_def Let_def send_u2u_eq same_owner_upd same_owner_ops)

lemma on_stream_ack_kept: "calls_kept u (on_stream_ack pkt u)"
proof -
  have "list_all2 same_owner ss (ss[i := stream_ack now seq (ss ! i)])" "list_all2 same_owner ss ss" for ss i now seq
    by (rule same_owner_upd [OF same_owner_ops(2)]) (simp add: list_all2_same same_owner_def)
  then show ?thesis by (intro calls_kept_out) (simp_all add: on_stream_ack_def split: option.split)
qed

lemma sweep_acks_kept: "calls_kept u (sweep_stream_acks u)"
  by (rule calls_kept_out) (simp_all add: sweep_stream_acks_def list_all2_map2 list_all2_same same_owner_ops)

lemma calls_kept_in:
  assumes "ua_dialogs u' = ua_dialogs u" "ua_out_streams u' = ua_out_streams u"
    and "\<And>s. s \<in> set (ua_in_streams u') \<Longrightarrow> in_justified (ua_dialogs u) s \<or> (\<exists>t \<in> set (ua_in_streams u). is_conf_id t = is_conf_id s)"
  shows "calls_kept u u'"
  using assms by (fastforce simp: calls_kept_def calls_ok_def in_justified_def)

lemma on_stream_end_kept: "calls_kept u (on_stream_end pkt u)"
  by (rule calls_kept_in) (auto simp: on_stream_end_def split: option.split dest: in_set_takeD in_set_dropD split: option.splits)

lemma open_in_stream_kept:
  assumes "i < length (ua_dialogs u)" "up_conf_id pkt = 0 \<or> cd_conf_id (ua_dialogs u ! i) = up_conf_id pkt"
  shows "calls_kept u (open_in_stream i pkt u)"
proof -
  let ?s = "\<lparr>is_kind = up_kind pkt, is_peer = up_src_imsi pkt, is_conf_id = up_conf_id pkt, is_rx = 0, is_loss = 0, is_ack_tx = 0, is_expected_seq = up_seq pkt\<rparr>"
  let ?v = "ensure_bearer (qci_of (up_kind pkt)) (ensure_stream_timers (u\<lparr>ua_in_streams := ua_in_streams u @ [?s]\<rparr>))"
  have "calls_kept u ?v"
    by (rule calls_kept_in) (use assms nth_mem [OF assms(1)] in \<open>auto simp: in_justified_def\<close>)
  moreover have "calls_kept ?v (on_sig_ack i ?v)" by (rule on_sig_ack_kept) (use assms in simp)
  ultimately show ?thesis unfolding open_in_stream_def Let_def by (rule calls.trans)
qed

lemma on_media_kept: "calls_kept u (fst (on_media pkt u))"
proof (cases "if up_conf_id pkt \<noteq> 0 then find_conf_dialog (up_conf_id pkt) u else find_media_dialog (up_src_imsi pkt) (up_kind pkt) u")
  case (Some i)
  have i: "i < length (ua_dialogs u)" "up_conf_id pkt = 0 \<or> cd_conf_id (ua_dialogs u ! i) = up_conf_id pkt"
    using Some by (auto simp: find_conf_dialog_def find_media_dialog_def dest!: find_index_Some split: if_splits)
  let ?v = "if find_in_stream (up_src_imsi pkt) (up_kind pkt) (up_conf_id pkt) u = None then open_in_stream i pkt u else u"
  have v: "calls_kept u ?v" using open_in_stream_kept [OF i] by (simp add: calls.refl)
  have upd: "calls_kept w (w\<lparr>ua_in_streams := (ua_in_streams w)[j := stream_media seq (ua_in_streams w ! j)]\<rparr>)"
    if "j < length (ua_in_streams w)" for w :: "'a ue_app_scheme" and j seq
  proof (rule calls_kept_in)
    fix s
    assume "s \<in> set (ua_in_streams (w\<lparr>ua_in_streams := (ua_in_streams w)[j := stream_media seq (ua_in_streams w ! j)]\<rparr>))"
    then have "s = stream_media seq (ua_in_streams w ! j) \<or> s \<in> set (ua_in_streams w)"
      using set_update_subset_insert by force
    moreover have "is_conf_id (stream_media seq t) = is_conf_id t" for t by (simp add: stream_media_def Let_def)
    ultimately show "in_justified (ua_dialogs w) s \<or> (\<exists>t \<in> set (ua_in_streams w). is_conf_id t = is_conf_id s)"
      using nth_mem [OF that] by auto
  qed simp_all
  have w: "calls_kept u (case find_in_stream (up_src_imsi pkt) (up_kind pkt) (up_conf_id pkt) ?v of None \<Rightarrow> ?v
      | Some j \<Rightarrow> ?v\<lparr>ua_in_streams := (ua_in_streams ?v)[j := stream_media (up_seq pkt) (ua_in_streams ?v ! j)]\<rparr>)"
    using v upd find_index_Some [of _ "ua_in_streams ?v"]
    by (auto simp: find_in_stream_def intro: calls.trans split: option.split)
  show ?thesis
    unfolding on_media_def Some option.case Let_def by (rule calls.trans [OF w calls_kept_sig(3)])
qed (simp add: on_media_def calls.refl)

lemma handle_u2u_kept: "calls_kept u (fst (handle_u2u pkt u))"
proof -
  have "calls_kept u (u\<lparr>ua_msg_rx_count := c, ua_last_msg_src := a, ua_last_msg_text := t\<rparr>)" for c a t
    by (simp add: calls_kept_def calls_ok_def)
  then show ?thesis
    by (simp add: handle_u2u_def on_stream_ack_kept on_stream_end_kept handle_sig_kept on_media_kept calls.refl split: option.split)
qed

lemma handle_app_sdu_kept: "calls_kept u (fst (handle_app_sdu data u))"
proof -
  have "calls_kept u (handle_pong data u)"
    by (auto simp: calls_kept_def calls_ok_def handle_pong_def Let_def split: option.split)
  then show ?thesis by (simp add: handle_app_sdu_def handle_u2u_kept split: option.split)
qed

lemma app_timer_kept: "calls_kept u (fst (app_timer cb u))"
proof -
  have "calls_kept u (sweep_lost_pings u)" by (simp add: calls_kept_def calls_ok_def sweep_lost_pings_def Let_def)
  then show ?thesis
    by (cases cb) (simp_all add: expired_kept media_expired_def media_tick_kept sweep_acks_kept calls.refl split: option.split)
qed
subsection \<open>Streams received\<close>

text \<open>
  Only a media packet opens or counts on a stream received; everything else leaves these
  streams alone or removes some with their dialog.
\<close>

definition in_sub :: "'a ue_app_scheme \<Rightarrow> 'a ue_app_scheme \<Rightarrow> bool" where
  "in_sub u u' \<longleftrightarrow> set (ua_in_streams u') \<subseteq> set (ua_in_streams u)"

interpretation ins: steps in_sub
  by unfold_locales (auto simp: in_sub_def)

lemma in_sub_eq: "ua_in_streams u' = ua_in_streams u \<Longrightarrow> in_sub u u'"
  by (simp add: in_sub_def)

lemma in_sub_erase: "in_sub u (erase_dialog i u)"
  by (auto simp: in_sub_def erase_dialog_fields)

lemma in_streams_same [simp]:
  "ua_in_streams (fst (send_sig i m u)) = ua_in_streams u" "ua_in_streams (with_dialog i g u) = ua_in_streams u"
  "ua_in_streams (cancel_dialog_timers i u) = ua_in_streams u" "ua_in_streams (ensure_conf_media i u) = ua_in_streams u"
  "ua_in_streams (on_sig_ack i u) = ua_in_streams u" "ua_in_streams (fst (accept_call i u)) = ua_in_streams u"
  "ua_in_streams (fst (begin_media i u)) = ua_in_streams u" "ua_in_streams (fst (send_sig_to m dst cid k c u)) = ua_in_streams u"
proof -
  show s: "ua_in_streams (fst (send_sig i m u)) = ua_in_streams u" for u :: "'a ue_app_scheme" and m by (simp add: send_sig_eq)
  show w: "ua_in_streams (with_dialog i g u) = ua_in_streams u" for u :: "'a ue_app_scheme" and g by (simp add: with_dialog_def)
  show c: "ua_in_streams (cancel_dialog_timers i u) = ua_in_streams u" for u :: "'a ue_app_scheme"
    by (simp add: cancel_dialog_timers_eq)
  show e: "ua_in_streams (ensure_conf_media i u) = ua_in_streams u" for u :: "'a ue_app_scheme"
    by (simp add: ensure_conf_media_def Let_def split_beta split: option.split)
  show "ua_in_streams (on_sig_ack i u) = ua_in_streams u" by (simp add: on_sig_ack_def Let_def e w)
  show "ua_in_streams (fst (accept_call i u)) = ua_in_streams u"
    by (simp add: accept_call_def act_seq_def act_upd_def split_beta s w c)
  show "ua_in_streams (fst (begin_media i u)) = ua_in_streams u"
    by (simp add: begin_media_def act_seq_def act_upd_def split_beta Let_def s w c e)
  show "ua_in_streams (fst (send_sig_to m dst cid k c' u)) = ua_in_streams u" for c' by (simp add: send_sig_to_eq)
qed

lemma in_sub_ends:
  "in_sub u (fst (act_seq (send_sig i m) (act_upd (erase_dialog i)) u))" "in_sub u (fail_call i r u)"
  "in_sub u (fst (act_seq (send_sig i m) (act_upd (fail_call i r)) u))"
proof -
  show f: "in_sub u (fail_call i r u)" for u :: "'a ue_app_scheme"
    unfolding fail_call_def by (rule ins.trans [OF in_sub_eq in_sub_erase]) simp
  show "in_sub u (fst (act_seq (send_sig i m) (act_upd (erase_dialog i)) u))"
    "in_sub u (fst (act_seq (send_sig i m) (act_upd (fail_call i r)) u))"
    by (simp_all add: act_seq_def act_upd_def split_beta)
      (rule ins.trans [OF in_sub_eq in_sub_erase], simp, rule ins.trans [OF in_sub_eq f], simp)
qed

lemma in_sub_end: "in_sub u (fst (end_dialog i u))"
  by (simp add: end_dialog_def in_sub_ends ins.refl split: option.split)

lemma in_sub_user:
  "in_sub u (fst (dial kind dst u))" "in_sub u (fst (dial_conf b c u))" "in_sub u (fst (answer u))" "in_sub u (fst (decline u))"
  "in_sub u (fst (end_call u))" "in_sub u (fst (end_call_kind kind u))"
  by (auto simp: dial_def dial_conf_def answer_def decline_def end_call_def end_call_kind_def Let_def act_seq_def [of "invite _ _ _"] act_upd_def
      split_beta invite_fields in_sub_end in_sub_ends intro!: in_sub_eq split: option.split)

lemma in_sub_sig: "in_sub u (fst (handle_sig src msg u))"
proof -
  have "in_sub u (fst (on_invite src msg u))"
    by (rule in_sub_eq) (auto simp: on_invite_def Let_def split_beta ua_schedule_def split: option.split)
  moreover have "in_sub u (on_ringing i u)" for i by (rule in_sub_eq) (simp add: on_ringing_def ua_cancel_def)
  ultimately show ?thesis
    by (cases "sm_method msg"; cases "find_dialog src (sm_call_id msg) u")
      (auto simp: handle_sig_def ins.refl in_sub_erase in_sub_ends intro: in_sub_eq)
qed

lemma in_sub_timer: "in_sub u (fst (app_timer cb u))"
proof -
  have w: "in_sub u v" if "in_sub (with_dialog i g u) v" for i g v
    by (rule ins.trans [OF in_sub_eq that]) simp
  have "in_sub u (fst (first_response_expired peer cid u))" "in_sub u (fst (no_answer_expired peer cid u))"
    "in_sub u (fst (auto_answer_expired peer cid u))" for peer cid
    by (auto simp: first_response_expired_def no_answer_expired_def auto_answer_expired_def Let_def ins.refl
        intro!: in_sub_eq w [OF in_sub_ends(3)] split: option.split)
  then show ?thesis
    by (cases cb) (auto simp: media_expired_def send_media_tick_def Let_def send_u2u_eq sweep_stream_acks_def sweep_lost_pings_def ins.refl
        intro!: in_sub_eq split: option.split)
qed

text \<open>The dialog inside which media of a stream is accepted.\<close>

definition media_allowed :: "call_dialog list \<Rightarrow> in_stream \<Rightarrow> bool" where
  "media_allowed ds s \<longleftrightarrow> (\<exists>d \<in> set ds. cd_state d = ESTABLISHED \<and>
     (if is_conf_id s \<noteq> 0 then cd_conf_id d = is_conf_id s else cd_peer d = is_peer s \<and> cd_kind d = is_kind s))"

lemma on_media_allowed:
  assumes "s \<in> set (ua_in_streams (fst (on_media pkt u)))" "s \<notin> set (ua_in_streams u)"
  shows "media_allowed (ua_dialogs u) s"
proof -
  let ?key = "\<lambda>s. is_peer s = up_src_imsi pkt \<and> is_kind s = up_kind pkt \<and> is_conf_id s = up_conf_id pkt"
  obtain i where i: "(if up_conf_id pkt \<noteq> 0 then find_conf_dialog (up_conf_id pkt) u
      else find_media_dialog (up_src_imsi pkt) (up_kind pkt) u) = Some i"
    using assms by (auto simp: on_media_def split: option.splits)
  define v where "v = (if find_in_stream (up_src_imsi pkt) (up_kind pkt) (up_conf_id pkt) u = None then open_in_stream i pkt u else u)"
  have new: "?key t" if "t \<in> set (ua_in_streams v)" "t \<notin> set (ua_in_streams u)" for t
    using that by (auto simp: v_def open_in_stream_def Let_def split: if_splits)
  have upd: "?key (stream_media (up_seq pkt) (ua_in_streams v ! j))" if "find_in_stream (up_src_imsi pkt) (up_kind pkt) (up_conf_id pkt) v = Some j" for j
    using find_index_Some [OF that [unfolded find_in_stream_def]] by (simp add: stream_media_def Let_def)
  have "?key s"
  proof (cases "find_in_stream (up_src_imsi pkt) (up_kind pkt) (up_conf_id pkt) v")
    case None
    with assms new show ?thesis by (simp add: on_media_def i Let_def send_u2u_eq flip: v_def)
  next
    case (Some j)
    then have "s \<in> set ((ua_in_streams v)[j := stream_media (up_seq pkt) (ua_in_streams v ! j)])"
      using assms(1) by (simp add: on_media_def i Let_def send_u2u_eq flip: v_def)
    then have "s = stream_media (up_seq pkt) (ua_in_streams v ! j) \<or> s \<in> set (ua_in_streams v)"
      using set_update_subset_insert by force
    with upd [OF Some] new assms(2) show ?thesis by blast
  qed
  moreover have "\<exists>d \<in> set (ua_dialogs u). cd_state d = ESTABLISHED \<and>
      (if up_conf_id pkt \<noteq> 0 then cd_conf_id d = up_conf_id pkt else cd_peer d = up_src_imsi pkt \<and> cd_kind d = up_kind pkt)"
    using i by (auto simp: find_conf_dialog_def find_media_dialog_def dest!: find_index_Some split: if_splits)
  ultimately show ?thesis by (auto simp: media_allowed_def)
qed

lemma sdu_media_allowed:
  assumes "s \<in> set (ua_in_streams (fst (handle_app_sdu data u)))" "s \<notin> set (ua_in_streams u)"
  shows "media_allowed (ua_dialogs u) s"
proof -
  have "in_sub u (handle_pong data u)" by (rule in_sub_eq) (simp add: handle_pong_def Let_def split: option.split)
  moreover have "in_sub u (on_stream_ack pkt u)" for pkt by (rule in_sub_eq) (simp add: on_stream_ack_def split: option.split)
  moreover have "in_sub u (on_stream_end pkt u)" for pkt
    by (auto simp: in_sub_def on_stream_end_def dest: in_set_takeD in_set_dropD split: option.splits)
  ultimately have "in_sub u (fst (handle_app_sdu data u)) \<or> (\<exists>pkt. fst (handle_app_sdu data u) = fst (on_media pkt u))"
    using in_sub_sig [of u] ins.refl [of u] in_sub_eq [of "u\<lparr>ua_msg_rx_count := c, ua_last_msg_src := a, ua_last_msg_text := t\<rparr>" u for c a t]
    by (auto simp: handle_app_sdu_def handle_u2u_def split: option.split)
  with assms on_media_allowed show ?thesis by (auto simp: in_sub_def)
qed

subsection \<open>The loops that end dialogs\<close>

text \<open>The loop of \<^verbatim>\<open>stop_streams\<close>; the flush of the bearers that follows it belongs to the node.\<close>

definition stop_method :: "call_state \<Rightarrow> sig_method" where
  "stop_method st = (if st = ESTABLISHED then BYE else if st = OUTGOING_RINGING then CANCEL else DECLINE_603)"

definition stop_signal :: "bool \<Rightarrow> 'a ue_app_act" where
  "stop_signal notify u = (if notify then send_sig 0 (stop_method (cd_state (ua_dialogs u ! 0))) u else (u, []))"

lemma stop_signal_dialogs [simp]: "ua_dialogs (fst (stop_signal notify u)) = ua_dialogs u"
  by (simp add: stop_signal_def send_sig_eq)

lemma stop_signal_kept: "calls_kept u (fst (stop_signal notify u))"
  by (simp add: stop_signal_def calls_kept_sig calls.refl)

function stop_dialogs :: "bool \<Rightarrow> 'a ue_app_act" where
  "stop_dialogs notify u =
     (if ua_dialogs u = [] then (u, [])
      else
        let (u2, outs) = stop_dialogs notify (erase_dialog 0 (fst (stop_signal notify u)))
        in (u2, snd (stop_signal notify u) @ outs))"
  by auto
termination
  by (relation "measure (\<lambda>(_, u). length (ua_dialogs u))") (auto simp: erase_dialog_fields)

declare stop_dialogs.simps [simp del]

lemma stop_dialogs_ok:
  "calls_ok u \<Longrightarrow>
     ua_dialogs (fst (stop_dialogs notify u)) = [] \<and> ua_out_streams (fst (stop_dialogs notify u)) = [] \<and>
     calls_ok (fst (stop_dialogs notify u))"
proof (induction notify u rule: stop_dialogs.induct)
  case (1 notify u)
  show ?case
  proof (cases "ua_dialogs u = []")
    case True
    then have "ua_out_streams u = []"
      using "1.prems" by (cases "ua_out_streams u") (auto simp: calls_ok_def out_justified_def split: if_splits)
    with True "1.prems" show ?thesis by (simp add: stop_dialogs.simps [of notify u])
  next
    case False
    let ?v = "fst (stop_signal notify u)"
    have "calls_kept ?v (erase_dialog 0 ?v)" by (rule calls_kept_erase) (use False in simp)
    then have "calls_ok (erase_dialog 0 ?v)"
      using "1.prems" stop_signal_kept [of u notify] by (simp add: calls_kept_def)
    from "1.IH" [OF False this] False show ?thesis
      by (simp add: stop_dialogs.simps [of notify u] split_beta)
  qed
qed

lemma in_sub_stop: "in_sub u (fst (stop_dialogs notify u))"
proof (induction notify u rule: stop_dialogs.induct)
  case (1 notify u)
  show ?case
  proof (cases "ua_dialogs u = []")
    case True
    then show ?thesis by (simp add: stop_dialogs.simps [of notify u] ins.refl)
  next
    case False
    have "in_sub u (fst (stop_signal notify u))" by (rule in_sub_eq) (simp add: stop_signal_def)
    then have "in_sub u (erase_dialog 0 (fst (stop_signal notify u)))" by (rule ins.trans [OF _ in_sub_erase])
    from ins.trans [OF this "1.IH" [OF False]] False show ?thesis
      by (simp add: stop_dialogs.simps [of notify u] split_beta)
  qed
qed

text \<open>
  Without an idle dialog \<^verbatim>\<open>end_conf\<close> returns, and has ended exactly the dialogs that belong to a
  conference.
\<close>

lemma end_dialog_dialogs:
  assumes "calls_ok u" "i < length (ua_dialogs u)"
  shows "ua_dialogs (fst (end_dialog i u)) = take i (ua_dialogs u) @ drop (Suc i) (ua_dialogs u)"
proof -
  have "ua_dialogs u ! i \<in> set (ua_dialogs u)" using assms(2) by simp
  then obtain m where "hangup_method (cd_state (ua_dialogs u ! i)) = Some m"
    using assms(1) by (cases "cd_state (ua_dialogs u ! i)") (auto simp: calls_ok_def dialogs_ok_def)
  then show ?thesis by (simp add: end_dialog_def act_seq_def act_upd_def split_beta erase_dialog_fields send_sig_eq)
qed

lemma filter_drop_nth:
  "i < length xs \<Longrightarrow> \<not> P (xs ! i) \<Longrightarrow> filter P (take i xs @ drop (Suc i) xs) = filter P xs"
  using arg_cong [OF id_take_nth_drop [of i xs], of "filter P"] by simp

lemma end_conf_returns:
  "calls_ok u \<Longrightarrow> \<exists>u' outs. end_conf u = Some (u', outs) \<and> calls_ok u' \<and>
     ua_dialogs u' = filter (\<lambda>d. cd_conf_id d = 0) (ua_dialogs u) \<and> in_sub u u'"
proof (induction "length (ua_dialogs u)" arbitrary: u rule: less_induct)
  case less
  show ?case
  proof (cases "find_index (\<lambda>d. cd_conf_id d \<noteq> 0) (ua_dialogs u)")
    case None
    then have "filter (\<lambda>d. cd_conf_id d = 0) (ua_dialogs u) = ua_dialogs u"
      by (simp add: find_index_None filter_id_conv)
    with None less.prems show ?thesis by (subst end_conf.simps) (simp add: ins.refl)
  next
    case (Some i)
    note i = find_index_Some [OF Some]
    obtain v outs where v: "end_dialog i u = (v, outs)" by fastforce
    have d: "ua_dialogs v = take i (ua_dialogs u) @ drop (Suc i) (ua_dialogs u)"
      using end_dialog_dialogs [OF less.prems] i v by fastforce
    then have f: "filter (\<lambda>d. cd_conf_id d = 0) (ua_dialogs v) = filter (\<lambda>d. cd_conf_id d = 0) (ua_dialogs u)"
      using i filter_drop_nth [of i "ua_dialogs u" "\<lambda>d. cd_conf_id d = 0"] by simp
    have "calls_ok v" using end_dialog_kept [of i u] i less.prems v by (simp add: calls_kept_def)
    moreover have "length (ua_dialogs v) < length (ua_dialogs u)" using i d by auto
    ultimately obtain w outs' where "end_conf v = Some (w, outs')" "calls_ok w"
      "ua_dialogs w = filter (\<lambda>d. cd_conf_id d = 0) (ua_dialogs v)" "in_sub v w"
      using less.hyps [of v] by blast
    moreover have "in_sub u w" using in_sub_end [of u i] v \<open>in_sub v w\<close> by (auto intro: ins.trans)
    ultimately show ?thesis using Some v f by (subst end_conf.simps) simp
  qed
qed

subsection \<open>Reachable application states\<close>

text \<open>
  One step of the application: an action of the user, a timer of the table, any bytes from the
  network, or whatever the layers below do to clock, timers, bearers and identity. A conference is
  opened with an id other than 0; the id 0 stands for a two-party call (after \<open>2 ^ 32\<close> conferences of
  an idle terminal the counter would give it).
\<close>

inductive app_step :: "ue_app \<Rightarrow> ue_app \<Rightarrow> bool" where
  call: "app_step u (fst (dial kind dst u))"
| conference: "push_bit 16 (ucast (ua_crnti_cache u)) OR ua_next_conf_seq u \<noteq> 0 \<Longrightarrow> app_step u (fst (dial_conf b c u))"
| answered: "app_step u (fst (answer u))"
| declined: "app_step u (fst (decline u))"
| hung_up: "app_step u (fst (end_call u))"
| hung_up_kind: "app_step u (fst (end_call_kind kind u))"
| conference_ended: "end_conf u = Some (u', outs) \<Longrightarrow> app_step u u'"
| stopped: "app_step u (fst (stop_dialogs notify u))"
| received: "app_step u (fst (handle_app_sdu data u))"
| expired: "app_step u (fst (app_timer cb u))"
| below: "ua_dialogs u' = ua_dialogs u \<Longrightarrow> ua_out_streams u' = ua_out_streams u \<Longrightarrow> ua_in_streams u' = ua_in_streams u \<Longrightarrow> app_step u u'"

inductive app_reach :: "ue_app \<Rightarrow> bool" where
  start: "app_reach (ue_app_init cfg)"
| step: "app_reach u \<Longrightarrow> app_step u u' \<Longrightarrow> app_reach u'"

lemma app_step_kept: "app_step u u' \<Longrightarrow> calls_kept u u'"
proof (induction rule: app_step.induct)
  case (conference_ended u u' outs)
  then show ?case using end_conf_returns [of u] by (auto simp: calls_kept_def)
next
  case (stopped u notify)
  then show ?case using stop_dialogs_ok by (auto simp: calls_kept_def)
next
  case (below u' u)
  then show ?case by (simp add: calls_kept_def calls_ok_def)
qed (simp_all add: dial_kept dial_conf_kept user_actions_kept handle_app_sdu_kept app_timer_kept)

lemma app_reach_ok: "app_reach u \<Longrightarrow> calls_ok u"
proof (induction rule: app_reach.induct)
  case (start cfg)
  show ?case by (simp add: calls_ok_def dialogs_ok_def ue_app_init_def)
next
  case (step u u')
  then show ?case using app_step_kept by (simp add: calls_kept_def)
qed

lemma app_step_media:
  assumes "app_step u u'" "calls_ok u" "s \<in> set (ua_in_streams u')" "s \<notin> set (ua_in_streams u)"
  shows "media_allowed (ua_dialogs u) s"
proof -
  have "in_sub u u' \<or> (\<exists>data. u' = fst (handle_app_sdu data u))"
    using assms(1)
  proof cases
    case (conference_ended outs)
    then show ?thesis using end_conf_returns [OF assms(2)] by auto
  next
    case below
    then show ?thesis by (simp add: in_sub_def)
  qed (auto simp: in_sub_user in_sub_stop in_sub_timer)
  with assms(3,4) sdu_media_allowed show ?thesis by (auto simp: in_sub_def)
qed

text \<open>
  C11. Well-formed calls: in every state the application reaches, whatever the user, the timers and
  the network do, no dialog is idle, two dialogs of one kind are legs of the same conference, only
  the first dialog can be ringing in, a terminal sends the media of a two-party call only inside an
  established dialog with that peer and kind, and a stream of a conference, in either direction,
  is kept only while a dialog of that conference is left. In the other direction no step opens a received stream
  or counts a packet on one unless, at that moment, there is an established dialog of its
  conference or, for a two-party stream, with its peer and kind. (A two-party stream once opened may stay
  behind when the dialog that let it in was a leg of a conference.)
\<close>

theorem calls_well_formed:
  assumes "app_reach u"
  shows "(\<forall>d \<in> set (ua_dialogs u). cd_state d \<noteq> CALL_IDLE) \<and>
    (\<forall>i j. i < j \<and> j < length (ua_dialogs u) \<and> cd_kind (ua_dialogs u ! i) = cd_kind (ua_dialogs u ! j) \<longrightarrow>
       cd_conf_id (ua_dialogs u ! i) \<noteq> 0 \<and> cd_conf_id (ua_dialogs u ! j) = cd_conf_id (ua_dialogs u ! i)) \<and>
    (\<forall>j < length (ua_dialogs u). 0 < j \<longrightarrow> cd_state (ua_dialogs u ! j) \<noteq> INCOMING_RINGING) \<and>
    (\<forall>s \<in> set (ua_out_streams u). os_conf_id s = 0 \<longrightarrow>
       (\<exists>d \<in> set (ua_dialogs u). cd_state d = ESTABLISHED \<and> cd_conf_id d = 0 \<and> cd_peer d = os_peer s \<and> cd_kind d = os_kind s)) \<and>
    (\<forall>s \<in> set (ua_out_streams u). os_conf_id s \<noteq> 0 \<longrightarrow> (\<exists>d \<in> set (ua_dialogs u). cd_conf_id d = os_conf_id s)) \<and>
    (\<forall>s \<in> set (ua_in_streams u). is_conf_id s \<noteq> 0 \<longrightarrow> (\<exists>d \<in> set (ua_dialogs u). cd_conf_id d = is_conf_id s)) \<and>
    (\<forall>u' s. app_step u u' \<and> s \<in> set (ua_in_streams u') \<and> s \<notin> set (ua_in_streams u) \<longrightarrow>
       (\<exists>d \<in> set (ua_dialogs u). cd_state d = ESTABLISHED \<and>
          (if is_conf_id s \<noteq> 0 then cd_conf_id d = is_conf_id s else cd_peer d = is_peer s \<and> cd_kind d = is_kind s)))"
proof -
  have ok: "dialogs_ok (ua_dialogs u)" "\<And>s. s \<in> set (ua_out_streams u) \<Longrightarrow> out_justified (ua_dialogs u) s"
    "\<And>s. s \<in> set (ua_in_streams u) \<Longrightarrow> in_justified (ua_dialogs u) s"
    using app_reach_ok [OF assms] by (simp_all add: calls_ok_def)
  have two: "\<exists>d \<in> set (ua_dialogs u). cd_state d = ESTABLISHED \<and> cd_conf_id d = 0 \<and> cd_peer d = os_peer s \<and> cd_kind d = os_kind s"
    if "s \<in> set (ua_out_streams u)" "os_conf_id s = 0" for s
    using ok(2) [OF that(1)] that(2) by (auto simp: out_justified_def)
  have conf: "\<exists>d \<in> set (ua_dialogs u). cd_conf_id d = os_conf_id s" if "s \<in> set (ua_out_streams u)" "os_conf_id s \<noteq> 0" for s
    using ok(2) [OF that(1)] that(2) by (simp add: out_justified_def)
  have inn: "\<exists>d \<in> set (ua_dialogs u). cd_conf_id d = is_conf_id s" if "s \<in> set (ua_in_streams u)" "is_conf_id s \<noteq> 0" for s
    using ok(3) [OF that(1)] that(2) by (simp add: in_justified_def)
  note two conf inn app_step_media [OF _ app_reach_ok [OF assms], unfolded media_allowed_def]
  with ok(1) [unfolded dialogs_ok_def] show ?thesis by blast
qed

theorem calls_well_formed_witness:
  "let u = fst (dial VOICE (cstr ''460001'') (ue_app_init ue_default_config))
   in map cd_state (ua_dialogs u) = [OUTGOING_RINGING] \<and> (\<forall>d \<in> set (ua_dialogs u). cd_state d \<noteq> CALL_IDLE)"
proof -
  let ?u = "fst (dial VOICE (cstr ''460001'') (ue_app_init ue_default_config))"
  have "app_reach ?u" by (rule app_reach.step [OF app_reach.start app_step.call])
  from calls_well_formed [OF this] have "\<forall>d \<in> set (ua_dialogs ?u). cd_state d \<noteq> CALL_IDLE" by (rule conjunct1)
  moreover have "map cd_state (ua_dialogs ?u) = [OUTGOING_RINGING]"
    by (simp add: dial_def find_dialog_by_kind_def find_index.simps ue_app_init_def invite_fields call_dialog_init_def)
  ultimately show ?thesis by (simp add: Let_def)
qed

subsection \<open>The two ledgers of the node\<close>

fun stream_event :: "ledger_event \<Rightarrow> out_stream \<Rightarrow> out_stream" where
  "stream_event (Sent now payload) s = stream_tick now s"
| "stream_event (Answered now seq payload) s = stream_ack now seq s"
| "stream_event (Swept now) s = sweep_stream now s"

fun ping_event :: "ledger_event \<Rightarrow> ue_app \<Rightarrow> ue_app" where
  "ping_event (Sent now payload) u = ping payload (u\<lparr>ua_now_ms := now\<rparr>)"
| "ping_event (Answered now seq payload) u = handle_pong (put32 seq @ payload) (u\<lparr>ua_now_ms := now\<rparr>)"
| "ping_event (Swept now) u = sweep_lost_pings (u\<lparr>ua_now_ms := now\<rparr>)"

lemma partition_length: "length xs = length (filter P (filter Q xs)) + length (filter (\<lambda>x. \<not> P x) (filter Q xs)) + length (filter (\<lambda>x. \<not> Q x) xs)"
  by (induction xs) simp_all

interpretation media: ledger os_seq os_rx_ack os_loss os_ack_pending stream_event
proof unfold_locales
  fix now s
  show "\<exists>a l. length (os_ack_pending s) = a + l + length (os_ack_pending (stream_event (Swept now) s)) \<and>
      os_rx_ack (stream_event (Swept now) s) = os_rx_ack s + word_of_nat a \<and>
      os_loss (stream_event (Swept now) s) = os_loss s + word_of_nat l"
    unfolding stream_event.simps sweep_stream_def Let_def
    using partition_length [of "os_ack_pending s" "\<lambda>e. fst e \<le> os_max_ack_seq s" "ack_overdue now"] by fastforce
  show "\<exists>P. os_ack_pending (stream_event (Swept now) s) = filter P (os_ack_pending s)"
    by (auto simp: sweep_stream_def Let_def)
qed (simp_all add: stream_tick_def stream_ack_def sweep_stream_def Let_def om_erase_absent split: option.split)

lemma submit_am_frame [simp]:
  "ua_app_tx_seq (submit_am q sdu force u) = ua_app_tx_seq u" "ua_app_rx_count (submit_am q sdu force u) = ua_app_rx_count u"
  "ua_app_loss_count (submit_am q sdu force u) = ua_app_loss_count u" "ua_app_tx_time (submit_am q sdu force u) = ua_app_tx_time u"
  using bearers_only_submit(1) [of u q sdu force] by (auto simp: bearers_only_def)

interpretation pings: ledger ua_app_tx_seq ua_app_rx_count ua_app_loss_count ua_app_tx_time ping_event
proof unfold_locales
  fix now u
  show "\<exists>a l. length (ua_app_tx_time u) = a + l + length (ua_app_tx_time (ping_event (Swept now) u)) \<and>
      ua_app_rx_count (ping_event (Swept now) u) = ua_app_rx_count u + word_of_nat a \<and>
      ua_app_loss_count (ping_event (Swept now) u) = ua_app_loss_count u + word_of_nat l"
    using sum_length_filter_compl [of "ack_overdue now" "ua_app_tx_time u"]
    by (intro exI [of _ 0] exI [of _ "length (filter (ack_overdue now) (ua_app_tx_time u))"]) (simp add: sweep_lost_pings_def Let_def)
  show "\<exists>P. ua_app_tx_time (ping_event (Swept now) u) = filter P (ua_app_tx_time u)"
    by (auto simp: sweep_lost_pings_def Let_def)
qed (simp_all add: ping_def handle_pong_def get32_at_put32 sweep_lost_pings_def Let_def om_erase_absent split: option.split)

lemma stream_counts: "os_tx (fold stream_event evs s) - os_seq (fold stream_event evs s) = os_tx s - os_seq s"
proof (induction evs arbitrary: s)
  case (Cons ev evs)
  have "os_tx (stream_event ev s) - os_seq (stream_event ev s) = os_tx s - os_seq s"
    by (cases ev) (simp_all add: stream_tick_def stream_ack_def sweep_stream_def Let_def split: option.split)
  with Cons show ?case by simp
qed simp

text \<open>
  C13. The media ledger: over any life of an outgoing stream, whatever acknowledgements arrive
  (duplicates, forgeries and late ones included) and whenever the sweep runs, as long as fewer than
  \<open>2 ^ 32\<close> packets were sent every one of them is counted exactly once: as acknowledged, as lost, or as
  still waiting.
\<close>

theorem stream_accounting:
  assumes "length (filter is_sent evs) < 2 ^ 32"
    and s_def: "s = fold stream_event evs (out_stream_init kind peer conf_id timer)"
  shows "unat (os_tx s) = length (filter is_sent evs) \<and>
    unat (os_tx s) = unat (os_rx_ack s) + unat (os_loss s) + length (os_ack_pending s)"
proof -
  let ?i = "out_stream_init kind peer conf_id timer"
  have "media.balanced ?i" by (simp add: media.balanced_def out_stream_init_def)
  from media.balanced_run [OF this, of evs] assms(1)
  have "media.balanced s" "unat (os_seq s) = length (filter is_sent evs)"
    by (simp_all add: s_def out_stream_init_def)
  moreover have "os_tx s = os_seq s"
    using stream_counts [of evs ?i] by (simp add: s_def out_stream_init_def)
  ultimately show ?thesis by (simp add: media.balanced_def)
qed

theorem stream_accounting_witness:
  "unat (os_tx (fold stream_event [Sent 0 [], Sent 40 [], Answered 60 2 [], Sent 80 [], Swept 3090, Answered 3100 7 []]
      (out_stream_init VOICE [] 0 1))) = 3"
  using stream_accounting [OF _ refl, of "[Sent 0 [], Sent 40 [], Answered 60 2 [], Sent 80 [], Swept 3090, Answered 3100 7 []]" VOICE "[]" 0 1]
  by simp

text \<open>
  The ping ledger: over any sequence of pings, echoes (unknown and duplicate numbers included)
  and loss sweeps, as long as fewer than \<open>2 ^ 32\<close> pings were sent every ping is answered, lost or
  outstanding, exactly once, and the counters never wrap.
\<close>

theorem ping_accounting:
  assumes "length (filter is_sent evs) < 2 ^ 32"
    and u_def: "u = fold ping_event evs (ue_app_init cfg)"
  shows "unat (ua_app_tx_seq u) = length (filter is_sent evs) \<and>
    unat (ua_app_tx_seq u) = unat (ua_app_rx_count u) + unat (ua_app_loss_count u) + length (ua_app_tx_time u)"
proof -
  have "pings.balanced (ue_app_init cfg)" by (simp add: pings.balanced_def ue_app_init_def)
  from pings.balanced_run [OF this, of evs] assms(1) show ?thesis
    by (simp add: u_def pings.balanced_def ue_app_init_def)
qed

theorem ping_accounting_witness:
  "unat (ua_app_tx_seq (fold ping_event [Sent 0 [7], Sent 1000 [], Answered 1010 1 [7], Swept 4100]
      (ue_app_init ue_default_config))) = 2"
  using ping_accounting [OF _ refl, of "[Sent 0 [7], Sent 1000 [], Answered 1010 1 [7], Swept 4100]" ue_default_config] by simp

subsection \<open>A call from end to end\<close>

text \<open>
  C14. Ending a conference ends: in every state the application reaches the loop of \<^verbatim>\<open>end_conf\<close>
  returns, no dialog and no stream of a conference is left, in either direction, and the dialogs of
  two-party calls are untouched.
\<close>

theorem end_conf_terminates:
  assumes "app_reach u"
  shows "\<exists>u' outs. end_conf u = Some (u', outs) \<and> ua_dialogs u' = filter (\<lambda>d. cd_conf_id d = 0) (ua_dialogs u) \<and>
    (\<forall>s \<in> set (ua_out_streams u'). os_conf_id s = 0) \<and> (\<forall>s \<in> set (ua_in_streams u'). is_conf_id s = 0) \<and> active_conf_id u' = 0"
proof -
  obtain u' outs where r: "end_conf u = Some (u', outs)" "calls_ok u'"
    "ua_dialogs u' = filter (\<lambda>d. cd_conf_id d = 0) (ua_dialogs u)"
    using end_conf_returns [OF app_reach_ok [OF assms]] by blast
  have "os_conf_id s = 0" if "s \<in> set (ua_out_streams u')" for s
    using r(2,3) that by (fastforce simp: calls_ok_def out_justified_def split: if_splits)
  moreover have "is_conf_id s = 0" if "s \<in> set (ua_in_streams u')" for s
    using r(2,3) that by (fastforce simp: calls_ok_def in_justified_def)
  moreover have "find (\<lambda>d. cd_conf_id d \<noteq> 0) (ua_dialogs u') = None"
    by (simp add: r(3) find_None_iff)
  then have "active_conf_id u' = 0" by (simp add: active_conf_id_def)
  ultimately show ?thesis using r by blast
qed

theorem end_conf_terminates_witness:
  "let u = fst (dial_conf (cstr ''460001'') (cstr ''460002'') (ue_app_init ue_default_config))
   in length (ua_dialogs u) = 2 \<and> (\<exists>u' outs. end_conf u = Some (u', outs) \<and> ua_dialogs u' = [])"
proof -
  let ?u = "fst (dial_conf (cstr ''460001'') (cstr ''460002'') (ue_app_init ue_default_config))"
  have "app_reach ?u"
    by (rule app_reach.step [OF app_reach.start app_step.conference]) (simp add: ue_app_init_def)
  from end_conf_terminates [OF this] obtain u' outs where
    "end_conf ?u = Some (u', outs)" "ua_dialogs u' = filter (\<lambda>d. cd_conf_id d = 0) (ua_dialogs ?u)" by blast
  moreover have "map cd_conf_id (ua_dialogs ?u) = [1, 1]"
    by (simp add: dial_conf_def ue_app_init_def effect_defs split_beta Let_def invite_fields call_dialog_init_def)
  then obtain x y where "ua_dialogs ?u = [x, y]" "cd_conf_id x = 1" "cd_conf_id y = 1" by auto
  ultimately show ?thesis by (simp add: Let_def)
qed

text \<open>What a peer does with signalling; the packets a terminal sends reach the other one in order.\<close>

definition deliver :: "u2u_packet list \<Rightarrow> 'a ue_app_act" where
  "deliver = act_for handle_u2u"

definition only_dialog :: "'a ue_app_scheme \<Rightarrow> call_state \<Rightarrow> cstring \<Rightarrow> media_kind \<Rightarrow> u32 \<Rightarrow> bool" where
  "only_dialog u st peer kind cid \<longleftrightarrow>
     (\<exists>d. ua_dialogs u = [d] \<and> cd_state d = st \<and> cd_peer d = peer \<and> cd_kind d = kind \<and> cd_call_id d = cid \<and> cd_conf_id d = 0)"

abbreviation sig_msg :: "sig_method \<Rightarrow> u32 \<Rightarrow> media_kind \<Rightarrow> sig_message" where
  "sig_msg m cid kind \<equiv> \<lparr>sm_method = m, sm_call_id = cid, sm_media = kind, sm_conf_id = 0\<rparr>"

definition carries_sig :: "u2u_packet \<Rightarrow> cstring \<Rightarrow> sig_message \<Rightarrow> bool" where
  "carries_sig pkt src msg \<longleftrightarrow> up_kind pkt = SIG \<and> \<not> up_ack pkt \<and> \<not> up_end pkt \<and> up_src_imsi pkt = src \<and>
     decode_sig (up_payload pkt) = Some msg"

lemma carries_sig_packet: "kind \<noteq> SIG \<Longrightarrow> carries_sig (sig_packet u m dst cid kind 0) (uec_imsi (ua_config u)) (sig_msg m cid kind)"
  by (simp add: carries_sig_def sig_packet_def decode_encode_sig)

lemma deliver_sig: "carries_sig pkt src msg \<Longrightarrow> src \<noteq> uec_imsi (ua_config u) \<Longrightarrow> deliver [pkt] u = handle_sig src msg u"
  by (simp add: deliver_def carries_sig_def handle_u2u_def effect_defs split_beta Let_def)

lemma only_find: "only_dialog u st peer kind cid \<Longrightarrow> find_dialog peer cid u = Some 0 \<and> cd_state (ua_dialogs u ! 0) = st"
  by (auto simp: only_dialog_def find_dialog_def find_index.simps)

lemma only_sig:
  "only_dialog u st peer kind cid \<Longrightarrow> send_sig 0 m u =
     (u\<lparr>ua_bearers := u2u_bearers (sig_packet u m peer cid kind 0) u\<rparr>, [sig_packet u m peer cid kind 0])"
  by (auto simp: only_dialog_def send_sig_eq sig_for_def)

lemma only_erase: "only_dialog u st peer kind cid \<Longrightarrow> ua_dialogs (erase_dialog 0 u) = []"
  by (auto simp: only_dialog_def erase_dialog_fields)

text \<open>One lemma per message of the call.\<close>

lemma with_dialog_config [simp]: "ua_config (with_dialog i f u) = ua_config u"
  by (simp add: with_dialog_def)

lemma config_frame [simp]:
  "ua_config (ensure_stream_timers u) = ua_config u" "ua_config (ensure_bearer q u) = ua_config u" "ua_config (cancel_dialog_timers i u) = ua_config u"
  "ua_config (maybe_stop_stream_timers u) = ua_config u" "ua_config (release_bearer_if_unused q u) = ua_config u"
  by (simp_all add: ensure_stream_timers_def ensure_bearer_def cancel_dialog_timers_def maybe_stop_stream_timers_def release_bearer_if_unused_def
      fold_ua_cancel ua_schedule_def split_beta Let_def del: fold.simps)

lemma erase_dialog_config [simp]: "ua_config (erase_dialog i u) = ua_config u"
  by (simp add: erase_dialog_def Let_def fold_ua_cancel)

lemma dial_step:
  assumes "ua_dialogs u = []" "kind = VOICE \<or> kind = VIDEO" "dial kind dst u = (u', outs)"
  shows "only_dialog u' OUTGOING_RINGING dst kind (ua_next_call_id u) \<and> ua_config u' = ua_config u \<and> ua_out_streams u' = ua_out_streams u \<and>
    (\<exists>pkt. outs = [pkt] \<and> carries_sig pkt (uec_imsi (ua_config u)) (sig_msg INVITE (ua_next_call_id u) kind))"
proof -
  have k: "find_dialog_by_kind kind u = None" using assms(1) by (simp add: find_dialog_by_kind_def find_index.simps)
  have e: "dial kind dst u = invite dst kind 0 u" using assms(2) k by (auto simp: dial_def)
  have "snd (invite dst kind 0 u) = [sig_packet u INVITE dst (ua_next_call_id u) kind 0]"
    using assms(1) by (simp add: invite_def Let_def split_beta send_sig_eq sig_for_def call_dialog_init_def sig_packet_def)
  moreover have "ua_config (fst (invite dst kind 0 u)) = ua_config u"
    by (simp add: invite_def Let_def split_beta send_sig_eq)
  ultimately show ?thesis
    using assms e carries_sig_packet [of kind u INVITE dst "ua_next_call_id u"] invite_fields(1,2) [of dst kind 0 u]
    by (auto simp: only_dialog_def call_dialog_init_def)
qed

lemma invite_step:
  assumes "carries_sig pkt src (sig_msg INVITE cid kind)" "src \<noteq> uec_imsi (ua_config u)" "ua_dialogs u = []" "kind \<noteq> SIG"
    "deliver [pkt] u = (u', outs)"
  shows "only_dialog u' INCOMING_RINGING src kind cid \<and> ua_config u' = ua_config u \<and> ua_out_streams u' = ua_out_streams u \<and>
    (\<exists>p. outs = [p] \<and> carries_sig p (uec_imsi (ua_config u)) (sig_msg RINGING_180 cid kind))"
proof -
  have f: "find_dialog src cid u = None" using assms(3) by (simp add: find_dialog_def find_index.simps)
  have e: "deliver [pkt] u = on_invite src (sig_msg INVITE cid kind) u"
    using deliver_sig [OF assms(1,2)] by (simp add: handle_sig_def f)
  have "outs = [sig_packet u RINGING_180 src cid kind 0]"
    using assms(3,5) e f by (auto simp: on_invite_def Let_def split_beta send_sig_eq sig_for_def call_dialog_init_def sig_packet_def split: if_splits)
  then show ?thesis
    using assms(3,4,5) e f carries_sig_packet [of kind u RINGING_180 src cid]
    by (auto simp: on_invite_def Let_def split_beta send_sig_eq with_dialog_def only_dialog_def call_dialog_init_def split: if_splits)
qed

lemma ringing_step:
  assumes "carries_sig pkt src (sig_msg RINGING_180 cid kind)" "src \<noteq> uec_imsi (ua_config u)" "only_dialog u OUTGOING_RINGING src kind cid"
    "deliver [pkt] u = (u', outs)"
  shows "only_dialog u' OUTGOING_RINGING src kind cid \<and> ua_config u' = ua_config u \<and> ua_out_streams u' = ua_out_streams u \<and> outs = []"
  using assms(3,4) deliver_sig [OF assms(1,2)] only_find [OF assms(3)]
  by (auto simp: handle_sig_def on_ringing_def with_dialog_def ua_cancel_def only_dialog_def)

lemma answer_step:
  assumes "only_dialog u INCOMING_RINGING src kind cid" "kind \<noteq> SIG" "answer u = (u', outs)"
  shows "only_dialog u' ESTABLISHED src kind cid \<and> ua_config u' = ua_config u \<and> ua_out_streams u' = ua_out_streams u \<and>
    (\<exists>p. outs = [p] \<and> carries_sig p (uec_imsi (ua_config u)) (sig_msg OK_200 cid kind))"
proof -
  let ?v = "cancel_dialog_timers 0 u"
  have "find_incoming_ringing u = Some 0" using assms(1) by (auto simp: only_dialog_def find_incoming_ringing_def find_index.simps)
  then have e: "answer u = accept_call 0 u" by (simp add: answer_def)
  have v: "only_dialog ?v INCOMING_RINGING src kind cid"
    using assms(1) by (auto simp: only_dialog_def cancel_dialog_timers_eq)
  have "ua_out_streams ?v = ua_out_streams u" by (simp add: cancel_dialog_timers_eq)
  with v assms(3) e only_sig [OF v, of OK_200] carries_sig_packet [OF assms(2), of ?v OK_200 src cid] show ?thesis
    by (auto simp: accept_call_def effect_defs split_beta Let_def with_dialog_def only_dialog_def)
qed

lemma ok_step:
  assumes "carries_sig pkt src (sig_msg OK_200 cid kind)" "src \<noteq> uec_imsi (ua_config u)" "only_dialog u OUTGOING_RINGING src kind cid"
    "kind \<noteq> SIG" "deliver [pkt] u = (u', outs)"
  shows "only_dialog u' ESTABLISHED src kind cid \<and> ua_config u' = ua_config u \<and>
    (\<exists>t. ua_out_streams u' = ua_out_streams u @ [out_stream_init kind src 0 t]) \<and>
    (\<exists>p. outs = [p] \<and> carries_sig p (uec_imsi (ua_config u)) (sig_msg ACK cid kind))"
proof -
  have e: "deliver [pkt] u = begin_media 0 u"
    using deliver_sig [OF assms(1,2)] only_find [OF assms(3)] by (simp add: handle_sig_def)
  show ?thesis
    using assms(3,5) e only_sig [OF assms(3), of ACK] carries_sig_packet [OF assms(4), of u ACK src cid]
    by (auto simp: begin_media_def effect_defs split_beta Let_def with_dialog_def cancel_dialog_timers_eq only_dialog_def)
qed

lemma ack_step:
  assumes "carries_sig pkt src (sig_msg ACK cid kind)" "src \<noteq> uec_imsi (ua_config u)" "only_dialog u ESTABLISHED src kind cid"
    "deliver [pkt] u = (u', outs)"
  shows "only_dialog u' ESTABLISHED src kind cid \<and> ua_config u' = ua_config u \<and> ua_out_streams u' = ua_out_streams u \<and> outs = []"
  using assms(3,4) deliver_sig [OF assms(1,2)] only_find [OF assms(3)]
  by (auto simp: handle_sig_def on_sig_ack_def with_dialog_def Let_def only_dialog_def)

lemma hangup_step:
  assumes "only_dialog u ESTABLISHED src kind cid" "kind \<noteq> SIG" "end_call u = (u', outs)"
  shows "ua_dialogs u' = [] \<and> ua_config u' = ua_config u \<and>
    (\<exists>p. outs = [p] \<and> carries_sig p (uec_imsi (ua_config u)) (sig_msg BYE cid kind))"
proof -
  have "find_index (\<lambda>d. cd_state d = ESTABLISHED) (ua_dialogs u) = Some 0" "hangup_method (cd_state (ua_dialogs u ! 0)) = Some BYE"
    using assms(1) by (auto simp: only_dialog_def find_index.simps)
  then have "end_call u = act_seq (send_sig 0 BYE) (act_upd (erase_dialog 0)) u"
    by (simp add: end_call_def end_dialog_def Let_def)
  then show ?thesis
    using assms(1,3) only_sig [OF assms(1), of BYE] carries_sig_packet [OF assms(2), of u BYE src cid]
    by (auto simp: effect_defs split_beta Let_def erase_dialog_fields only_dialog_def)
qed

lemma bye_step:
  assumes "carries_sig pkt src (sig_msg BYE cid kind)" "src \<noteq> uec_imsi (ua_config u)" "only_dialog u ESTABLISHED src kind cid"
    "kind \<noteq> SIG" "ua_out_streams u = [out_stream_init kind src 0 t]" "deliver [pkt] u = (u', outs)"
  shows "ua_dialogs u' = [] \<and> ua_out_streams u' = [] \<and> ua_config u' = ua_config u \<and>
    (\<exists>p. outs = [p] \<and> carries_sig p (uec_imsi (ua_config u)) (sig_msg OK_BYE cid kind))"
proof -
  have e: "deliver [pkt] u = act_seq (send_sig 0 OK_BYE) (act_upd (erase_dialog 0)) u"
    using deliver_sig [OF assms(1,2)] only_find [OF assms(3)] by (simp add: handle_sig_def)
  show ?thesis
    using assms(3,5,6) e only_sig [OF assms(3), of OK_BYE] carries_sig_packet [OF assms(4), of u OK_BYE src cid]
    by (auto simp: effect_defs split_beta Let_def erase_dialog_fields only_dialog_def conf_survives_def out_stream_of_def out_stream_init_def)
qed

text \<open>
  C12. A call from end to end: between two idle terminals, the INVITE makes the callee ring, its 180
  is taken in silence, the answer's 200 OK makes the caller acknowledge and open its media stream, and
  the ACK is final; then both sides hold exactly one dialog, established, with the same call id. When the callee hangs up, one BYE
  and its answer leave neither side with a dialog and the caller with no media.
\<close>

theorem call_end_to_end:
  assumes "ua_dialogs a = []" "ua_out_streams a = []" "ua_dialogs b = []" "kind = VOICE \<or> kind = VIDEO"
    and "imsi_a = uec_imsi (ua_config a)" "imsi_b = uec_imsi (ua_config b)" "imsi_a \<noteq> imsi_b"
    and "dial kind imsi_b a = (a1, o1)" "deliver o1 b = (b1, o2)" "deliver o2 a1 = (a2, o3)"
    and "answer b1 = (b2, o4)" "deliver o4 a2 = (a3, o5)" "deliver o5 b2 = (b3, o6)"
    and "end_call b3 = (b4, o7)" "deliver o7 a3 = (a4, o8)" "deliver o8 b4 = (b5, o9)"
  shows "only_dialog a1 OUTGOING_RINGING imsi_b kind (ua_next_call_id a) \<and> only_dialog b1 INCOMING_RINGING imsi_a kind (ua_next_call_id a) \<and>
    only_dialog a3 ESTABLISHED imsi_b kind (ua_next_call_id a) \<and> only_dialog b3 ESTABLISHED imsi_a kind (ua_next_call_id a) \<and>
    map os_peer (ua_out_streams a3) = [imsi_b] \<and> o3 = [] \<and> o6 = [] \<and>
    ua_dialogs a4 = [] \<and> ua_out_streams a4 = [] \<and> ua_dialogs b5 = [] \<and> o9 = []"
proof -
  let ?cid = "ua_next_call_id a"
  have k: "kind \<noteq> SIG" using assms(4) by auto
  have ne: "imsi_a \<noteq> uec_imsi (ua_config b)" "imsi_b \<noteq> uec_imsi (ua_config a)"
    using assms(5-7) by metis+
  obtain p1 where 1: "only_dialog a1 OUTGOING_RINGING imsi_b kind ?cid" "ua_config a1 = ua_config a" "ua_out_streams a1 = []"
    "o1 = [p1]" "carries_sig p1 imsi_a (sig_msg INVITE ?cid kind)"
    using dial_step [OF assms(1,4,8)] by (auto simp: assms(2,5))
  obtain p2 where 2: "only_dialog b1 INCOMING_RINGING imsi_a kind ?cid" "ua_config b1 = ua_config b" "o2 = [p2]"
    "carries_sig p2 imsi_b (sig_msg RINGING_180 ?cid kind)"
    using invite_step [OF 1(5) ne(1) assms(3) k assms(9) [unfolded 1(4)]] by (auto simp: assms(6))
  have 3: "only_dialog a2 OUTGOING_RINGING imsi_b kind ?cid" "ua_config a2 = ua_config a" "ua_out_streams a2 = []" "o3 = []"
    using ringing_step [OF 2(4) ne(2) [folded 1(2)] 1(1) assms(10) [unfolded 2(3)]] by (simp_all add: 1(2,3))
  obtain p4 where 4: "only_dialog b2 ESTABLISHED imsi_a kind ?cid" "ua_config b2 = ua_config b" "o4 = [p4]"
    "carries_sig p4 imsi_b (sig_msg OK_200 ?cid kind)"
    using answer_step [OF 2(1) k assms(11)] by (auto simp: assms(6) 2(2))
  obtain p5 t where 5: "only_dialog a3 ESTABLISHED imsi_b kind ?cid" "ua_config a3 = ua_config a"
    "ua_out_streams a3 = [out_stream_init kind imsi_b 0 t]" "o5 = [p5]" "carries_sig p5 imsi_a (sig_msg ACK ?cid kind)"
    using ok_step [OF 4(4) ne(2) [folded 3(2)] 3(1) k assms(12) [unfolded 4(3)]] by (auto simp: assms(5) 3(2,3))
  have 6: "only_dialog b3 ESTABLISHED imsi_a kind ?cid" "ua_config b3 = ua_config b" "o6 = []"
    using ack_step [OF 5(5) ne(1) [folded 4(2)] 4(1) assms(13) [unfolded 5(4)]] by (simp_all add: 4(2))
  obtain p7 where 7: "ua_dialogs b4 = []" "ua_config b4 = ua_config b" "o7 = [p7]" "carries_sig p7 imsi_b (sig_msg BYE ?cid kind)"
    using hangup_step [OF 6(1) k assms(14)] by (auto simp: assms(6) 6(2))
  obtain p8 where 8: "ua_dialogs a4 = []" "ua_out_streams a4 = []" "o8 = [p8]" "carries_sig p8 imsi_a (sig_msg OK_BYE ?cid kind)"
    using bye_step [OF 7(4) ne(2) [folded 5(2)] 5(1) k 5(3) assms(15) [unfolded 7(3)]] by (auto simp: assms(5) 5(2))
  have "b5 = b4 \<and> o9 = []"
    using deliver_sig [OF 8(4) ne(1) [folded 7(2)]] assms(16) by (simp add: handle_sig_def 8(3))
  then show ?thesis using 1(1) 2(1) 3(4) 5(1,3) 6(1,3) 7(1) 8(1,2) by (simp add: out_stream_init_def)
qed

theorem call_end_to_end_witness:
  "let a = ue_app_init (ue_default_config\<lparr>uec_imsi := cstr ''460001''\<rparr>); b = ue_app_init (ue_default_config\<lparr>uec_imsi := cstr ''460002''\<rparr>);
       (a1, o1) = dial VOICE (cstr ''460002'') a; (b1, o2) = deliver o1 b; (a2, o3) = deliver o2 a1;
       (b2, o4) = answer b1; (a3, o5) = deliver o4 a2; (b3, o6) = deliver o5 b2
   in only_dialog a3 ESTABLISHED (cstr ''460002'') VOICE 1 \<and> only_dialog b3 ESTABLISHED (cstr ''460001'') VOICE 1"
proof -
  let ?a = "ue_app_init (ue_default_config\<lparr>uec_imsi := cstr ''460001''\<rparr>)" and ?b = "ue_app_init (ue_default_config\<lparr>uec_imsi := cstr ''460002''\<rparr>)"
  obtain a1 o1 where 1: "dial VOICE (cstr ''460002'') ?a = (a1, o1)" by fastforce
  obtain b1 o2 where 2: "deliver o1 ?b = (b1, o2)" by fastforce
  obtain a2 o3 where 3: "deliver o2 a1 = (a2, o3)" by fastforce
  obtain b2 o4 where 4: "answer b1 = (b2, o4)" by fastforce
  obtain a3 o5 where 5: "deliver o4 a2 = (a3, o5)" by fastforce
  obtain b3 o6 where 6: "deliver o5 b2 = (b3, o6)" by fastforce
  have i: "ua_dialogs ?a = []" "ua_out_streams ?a = []" "ua_dialogs ?b = []" "VOICE = VOICE \<or> VOICE = VIDEO"
    "cstr ''460001'' = uec_imsi (ua_config ?a)" "cstr ''460002'' = uec_imsi (ua_config ?b)" "cstr ''460001'' \<noteq> cstr ''460002''"
    by (simp_all add: ue_app_init_def cstr_def)
  have "only_dialog a3 ESTABLISHED (cstr ''460002'') VOICE (ua_next_call_id ?a) \<and> only_dialog b3 ESTABLISHED (cstr ''460001'') VOICE (ua_next_call_id ?a)"
    using call_end_to_end [OF i 1 2 3 4 5 6 prod.collapse [symmetric] prod.collapse [symmetric] prod.collapse [symmetric]] by blast
  then show ?thesis using 1 2 3 4 5 6 by (simp add: Let_def ue_app_init_def)
qed

text \<open>
  C38. Call ids collide: a dialog is found by peer and call id, but both ends of a call count their
  ids from 1. When \<open>a\<close> is in a call that \<open>b\<close> placed and now places one of the other kind under the same number, \<open>b\<close>
  takes the INVITE for a repetition and answers 200 OK instead of 486 BUSY; \<open>a\<close> takes that answer, and both
  of its own guard timers, for the established dialog: the new dialog still rings after the answer and after both
  timers have expired, no signal having been sent for it, and a further call of its kind is refused as busy.
\<close>

theorem call_id_collision:
  assumes "only_dialog a ESTABLISHED imsi_b VIDEO (ua_next_call_id a)" "only_dialog b ESTABLISHED imsi_a VIDEO (ua_next_call_id a)"
    and "imsi_a = uec_imsi (ua_config a)" "imsi_b = uec_imsi (ua_config b)" "imsi_a \<noteq> imsi_b"
    and "dial VOICE imsi_b a = (a1, o1)" "deliver o1 b = (b1, o2)" "deliver o2 a1 = (a2, o3)"
    and "app_timer (FIRST_RESPONSE imsi_b (ua_next_call_id a)) a2 = (a3, o4)"
    and "app_timer (NO_ANSWER imsi_b (ua_next_call_id a)) a3 = (a4, o5)" "dial VOICE dst a4 = (a5, o6)"
  shows "o1 = [sig_packet a INVITE imsi_b (ua_next_call_id a) VOICE 0] \<and>
    o2 = [sig_packet b OK_200 imsi_a (ua_next_call_id a) VIDEO 0] \<and>
    b1\<lparr>ua_bearers := ua_bearers b\<rparr> = b \<and> o3 = [] \<and> o4 = [] \<and> o5 = [] \<and>
    map cd_state (ua_dialogs a4) = [ESTABLISHED, OUTGOING_RINGING] \<and>
    ua_last_call_fail a5 = ''busy'' \<and> o6 = [] \<and> ua_dialogs a5 = ua_dialogs a4"
proof -
  let ?cid = "ua_next_call_id a"
  let ?two = "\<lambda>u. \<exists>d e. ua_dialogs u = [d, e] \<and> cd_state d = ESTABLISHED \<and> cd_kind d = VIDEO \<and> cd_peer d = imsi_b \<and> cd_call_id d = ?cid \<and>
    cd_state e = OUTGOING_RINGING \<and> cd_kind e = VOICE"
  have ne: "imsi_a \<noteq> uec_imsi (ua_config b)" "imsi_b \<noteq> uec_imsi (ua_config a)" using assms(3-5) by metis+
  have "find_dialog_by_kind VOICE a = None"
    using assms(1) by (auto simp: only_dialog_def find_dialog_by_kind_def find_index.simps)
  then have e: "dial VOICE imsi_b a = invite imsi_b VOICE 0 a" by (simp add: dial_def)
  have "snd (invite imsi_b VOICE 0 a) = [sig_packet a INVITE imsi_b ?cid VOICE 0]" "ua_config (fst (invite imsi_b VOICE 0 a)) = ua_config a"
    by (simp_all add: invite_def Let_def split_beta send_sig_eq sig_for_def call_dialog_init_def sig_packet_def nth_append)
  then have o1: "o1 = [sig_packet a INVITE imsi_b ?cid VOICE 0]" "ua_config a1 = ua_config a" using assms(6) e by simp_all
  have a1: "?two a1" using assms(1,6) e invite_fields(1) [of imsi_b VOICE 0 a] by (auto simp: only_dialog_def call_dialog_init_def)
  have "carries_sig (sig_packet a INVITE imsi_b ?cid VOICE 0) imsi_a (sig_msg INVITE ?cid VOICE)"
    using carries_sig_packet [of VOICE a] by (simp add: assms(3))
  from deliver_sig [OF this ne(1)] have "deliver o1 b = send_sig 0 OK_200 b"
    using only_find [OF assms(2)] by (simp add: o1(1) handle_sig_def on_invite_def)
  then have b: "b1\<lparr>ua_bearers := ua_bearers b\<rparr> = b" "o2 = [sig_packet b OK_200 imsi_a ?cid VIDEO 0]"
    using assms(7) only_sig [OF assms(2), of OK_200] by auto
  have f: "find_dialog imsi_b ?cid u = Some 0" if "?two u" for u :: "'a ue_app_scheme"
    using that by (auto simp: find_dialog_def find_index.simps)
  have "carries_sig (sig_packet b OK_200 imsi_a ?cid VIDEO 0) imsi_b (sig_msg OK_200 ?cid VIDEO)"
    using carries_sig_packet [of VIDEO b] by (simp add: assms(4))
  from deliver_sig [OF this ne(2) [folded o1(2)]] have a2: "a2 = a1" "o3 = []"
    using assms(8) a1 f [OF a1] by (auto simp: b(2) handle_sig_def)
  have a3: "?two a3" "o4 = []"
    using assms(9) a1 f [OF a1] by (auto simp: a2(1) first_response_expired_def Let_def with_dialog_def split: if_splits)
  have a4: "?two a4" "o5 = []"
    using assms(10) a3(1) f [OF a3(1)] by (auto simp: no_answer_expired_def Let_def with_dialog_def split: if_splits)
  have "find_dialog_by_kind VOICE a4 \<noteq> None" using a4(1) by (auto simp: find_dialog_by_kind_def find_index.simps)
  then have "a5 = a4\<lparr>ua_last_call_fail := ''busy''\<rparr>" "o6 = []" using assms(11) by (auto simp: dial_def)
  then show ?thesis using o1(1) b a2(2) a3(2) a4 by auto
qed

theorem call_id_collision_witness:
  "let a = (ue_app_init (ue_default_config\<lparr>uec_imsi := cstr ''460001''\<rparr>))\<lparr>ua_dialogs := [call_dialog_init ESTABLISHED (cstr ''460002'') VIDEO 1 0]\<rparr>;
       b = (ue_app_init (ue_default_config\<lparr>uec_imsi := cstr ''460002''\<rparr>))\<lparr>ua_dialogs := [call_dialog_init ESTABLISHED (cstr ''460001'') VIDEO 1 0]\<rparr>;
       (a1, o1) = dial VOICE (cstr ''460002'') a; (b1, o2) = deliver o1 b; (a2, o3) = deliver o2 a1;
       (a3, o4) = app_timer (FIRST_RESPONSE (cstr ''460002'') 1) a2; (a4, o5) = app_timer (NO_ANSWER (cstr ''460002'') 1) a3
   in o2 = [sig_packet b OK_200 (cstr ''460001'') 1 VIDEO 0] \<and> map cd_state (ua_dialogs a4) = [ESTABLISHED, OUTGOING_RINGING]"
proof -
  let ?a = "(ue_app_init (ue_default_config\<lparr>uec_imsi := cstr ''460001''\<rparr>))\<lparr>ua_dialogs := [call_dialog_init ESTABLISHED (cstr ''460002'') VIDEO 1 0]\<rparr>"
  let ?b = "(ue_app_init (ue_default_config\<lparr>uec_imsi := cstr ''460002''\<rparr>))\<lparr>ua_dialogs := [call_dialog_init ESTABLISHED (cstr ''460001'') VIDEO 1 0]\<rparr>"
  obtain a1 o1 where 1: "dial VOICE (cstr ''460002'') ?a = (a1, o1)" by fastforce
  obtain b1 o2 where 2: "deliver o1 ?b = (b1, o2)" by fastforce
  obtain a2 o3 where 3: "deliver o2 a1 = (a2, o3)" by fastforce
  obtain a3 o4 where 4: "app_timer (FIRST_RESPONSE (cstr ''460002'') (ua_next_call_id ?a)) a2 = (a3, o4)" by fastforce
  obtain a4 o5 where 5: "app_timer (NO_ANSWER (cstr ''460002'') (ua_next_call_id ?a)) a3 = (a4, o5)" by fastforce
  have n: "ua_next_call_id (ue_app_init cfg) = 1" for cfg by (simp add: ue_app_init_def)
  have i: "only_dialog ?a ESTABLISHED (cstr ''460002'') VIDEO (ua_next_call_id ?a)" "only_dialog ?b ESTABLISHED (cstr ''460001'') VIDEO (ua_next_call_id ?a)"
    "cstr ''460001'' = uec_imsi (ua_config ?a)" "cstr ''460002'' = uec_imsi (ua_config ?b)" "cstr ''460001'' \<noteq> cstr ''460002''"
    by (simp_all add: only_dialog_def call_dialog_init_def ue_app_init_def cstr_def)
  have "o2 = [sig_packet ?b OK_200 (cstr ''460001'') (ua_next_call_id ?a) VIDEO 0]" "map cd_state (ua_dialogs a4) = [ESTABLISHED, OUTGOING_RINGING]"
    using call_id_collision [OF i 1 2 3 4 5 prod.collapse [symmetric]] by blast+
  then show ?thesis using 1 2 3 4 5 by (simp add: Let_def n)
qed

end
