(* ===== verification/UeNode.thy ===== *)
theory UeNode
  imports UeApp Rrc Nas BsFlow
begin

text \<open>
  The terminal node, \<^verbatim>\<open>stack/core/src/ue_node.cpp\<close>: attach and detach, suspension and resumption,
  measurements, handover, radio link failure and re-establishment, the uplink with ciphering and
  HARQ, the dispatch of downlink frames, and the tick. The record extends the application
  state of \<open>UeApp\<close>; the outputs are the air frames handed to \<^verbatim>\<open>air_send_\<close>. The callbacks the
  constructor installs are interpreted in the order in which the layers invoke them. The random
  delays and the iteration order of the cell table are arguments. Power control works on
  floating-point measurements; without them \<^verbatim>\<open>service_link_metrics\<close> does nothing, which is the case modelled.
\<close>

subsection \<open>State\<close>

record neighbor_cell =
  ne_rx_count :: u32
  ne_last_seen_ms :: u32

record ue_node = ue_app +
  un_harq_tx :: harq_tx
  un_harq_rx :: harq_rx
  un_rach :: rach_ue
  un_rrc :: rrc_ue
  un_nas :: nas_ue
  un_mib_ok :: bool
  un_sib1_ok :: bool
  un_attach_requested :: bool
  un_attach_guard_running :: bool
  un_rach_window_timer_running :: bool
  un_rach_window_timer :: u32
  un_pending_ccch :: bytes
  un_suspended_crnti :: u16
  un_detach_after_resume :: bool
  un_resume_guard_running :: bool
  un_cells :: "u16 \<rightharpoonup> neighbor_cell"
  un_serving_cell :: u16
  un_last_dl_ms :: u32
  un_reestablish_pending :: bool
  un_pre_rlf_crnti :: u16
  un_reest_req_pdu :: bytes
  un_meas_timer :: u32
  un_reest_guard :: u32
  un_link_timer :: u32
  un_tpc_accum_db :: int
  un_up_key :: bytes
  un_up_sec_on :: bool
  un_pdcp_seq :: u64
  un_draws :: nat

text \<open>
  \<open>ee_uniform k lo hi\<close> is the \<open>k\<close>-th draw of \<^verbatim>\<open>rng_\<close>, between the two bounds; \<open>ee_cells\<close> lists the cell table
  in iteration order.
\<close>

record ue_env =
  ee_uniform :: "nat \<Rightarrow> u32 \<Rightarrow> u32 \<Rightarrow> u32"
  ee_cells :: "u16 set \<Rightarrow> u16 list"

type_synonym ue_act = "(ue_node, air_frame) act"
type_synonym ue_try = "(ue_node, air_frame) attempt"

definition ue_node_init :: "ue_config \<Rightarrow> ue_node" where
  "ue_node_init cfg = ue_app.extend (ue_app_init cfg)
     (ue_node.fields (harq_tx_init harq_default_config) harq_rx_reset
       (rach_ue_init ((uec_rach cfg)\<lparr>rc_rar_window_ms := ucast (uec_rar_window_ms cfg), rc_content_resolve_window_ms := ucast (uec_cr_window_ms cfg)\<rparr>))
       rrc_ue_init nas_ue_init False False False False False 0 [] 0 False False Map.empty 0 0 False 0 [] 0 0 0 0
       (replicate 32 0) False 0 0)"

definition registered :: "ue_node \<Rightarrow> bool" where
  "registered n \<longleftrightarrow> nu_state (un_nas n) = REGISTERED"

definition has_system_info :: "ue_node \<Rightarrow> bool" where
  "has_system_info n \<longleftrightarrow> un_mib_ok n \<and> un_sib1_ok n"

definition rrc_inactive :: "ue_node \<Rightarrow> bool" where
  "rrc_inactive n \<longleftrightarrow> ur_state (un_rrc n) = UE_INACTIVE"

text \<open>The operations of the application, run by the node: their packets are on the bearers.\<close>

definition app_do :: "(ue_node \<Rightarrow> ue_node \<times> u2u_packet list) \<Rightarrow> ue_act" where
  "app_do a n = (fst (a n), [])"

subsection \<open>Uplink\<close>

definition ue_send_frame :: "air_frame_type \<Rightarrow> u16 \<Rightarrow> bytes \<Rightarrow> ue_act" where
  "ue_send_frame ty rnti payload n = (n, [\<lparr>af_type = ty, af_rnti = rnti, af_payload = payload\<rparr>])"

definition seal_uplink :: "u8 \<Rightarrow> bytes \<Rightarrow> ue_node \<Rightarrow> bytes \<times> ue_node" where
  "seal_uplink lcid sdu n =
     (if un_up_sec_on n \<and> (lcid = LCID_NAS_DCCH \<or> qci_of_lcid lcid \<noteq> None)
      then (protect (un_up_key n) (un_pdcp_seq n) sdu, n\<lparr>un_pdcp_seq := un_pdcp_seq n + 1\<rparr>)
      else (sdu, n))"

definition uplink_send :: "u8 \<Rightarrow> bytes \<Rightarrow> ue_try" where
  "uplink_send lcid sdu_in n =
     (let (sdu, n1) = seal_uplink lcid sdu_in n in
      case harq_send (un_harq_tx n1) (build_pdu [(lcid, sdu)]) of
        Inl e \<Rightarrow> Inl e
      | Inr (tx', None) \<Rightarrow> Inr (n1\<lparr>un_harq_tx := tx'\<rparr>, [])
      | Inr (tx', Some ev) \<Rightarrow> Inr (ue_send_frame DATA (ua_crnti_cache n1) (he_coded ev) (n1\<lparr>un_harq_tx := tx'\<rparr>)))"

lemma uplink_send_bearers: "uplink_send lcid sdu n = Inr (n', outs) \<Longrightarrow> ua_bearers n' = ua_bearers n"
  by (auto simp: uplink_send_def seal_uplink_def ue_send_frame_def split: if_splits sum.splits prod.splits option.splits)

function pump_loop :: ue_try where
  "pump_loop n =
     (if bearers_empty (ua_bearers n) \<or> harq_in_flight (un_harq_tx n) \<ge> length (ht_procs (un_harq_tx n)) then Inr (n, [])
      else
        case pop_next (ua_bearers n) of
          None \<Rightarrow> Inr (n, [])
        | Some ((c, pdu), bearers') \<Rightarrow>
            (case uplink_send (ap_lcid pdu) (ap_bytes pdu) (n\<lparr>ua_bearers := bearers'\<rparr>) of
               Inl e \<Rightarrow> Inl e
             | Inr (n1, o1) \<Rightarrow>
                 (case pump_loop n1 of Inl e \<Rightarrow> Inl e | Inr (n2, o2) \<Rightarrow> Inr (n2, o1 @ o2))))"
  by auto
termination
  by (relation "measure (\<lambda>n. bearers_total (ua_bearers n))")
    (auto dest!: pop_next_total uplink_send_bearers)

declare pump_loop.simps [simp del]

definition pump_app_bearers :: ue_try where
  "pump_app_bearers n = (if rrc_inactive n then Inr (n, []) else pump_loop n)"

definition pump_harq :: ue_act where
  "pump_harq n =
     (let (tx', es) = harq_poll_timeouts (ua_now_ms n) (un_harq_tx n)
      in act_for (\<lambda>e n. ue_send_frame DATA (ua_crnti_cache n) (he_coded e) n) es (n\<lparr>un_harq_tx := tx'\<rparr>))"

definition ue_send_ack :: "u16 \<Rightarrow> harq_result \<Rightarrow> ue_act" where
  "ue_send_ack to res n =
     (if \<not> hr_need_feedback res \<or> to = 0 \<or> to = RNTI_BROADCAST then (n, [])
      else if hr_proc res = 0x7F then (n, [])
      else ue_send_frame DATA to (build_pdu [(LCID_HARQ_ACK, [hr_proc res AND 0x7F, if hr_ack res then 1 else 0])])
             (n\<lparr>un_harq_tx := harq_advance (ua_now_ms n) (un_harq_tx n)\<rparr>))"

text \<open>The send callbacks of RRC and NAS.\<close>

definition rrc_send_cb :: "bytes \<Rightarrow> ue_try" where
  "rrc_send_cb pdu n =
     (if ua_crnti_cache n \<noteq> 0 then uplink_send LCID_CCCH pdu n else Inr (n\<lparr>un_pending_ccch := pdu\<rparr>, []))"

definition nas_send_cb :: "bytes \<Rightarrow> ue_try" where
  "nas_send_cb pdu = uplink_send LCID_NAS_DCCH (pdcp_tx (tm_tx pdu))"

subsection \<open>Random access under the node\<close>

definition schedule_attach_retry :: "ue_env \<Rightarrow> ue_node \<Rightarrow> ue_node" where
  "schedule_attach_retry env n =
     (if \<not> un_attach_requested n \<or> registered n then n
      else snd (ua_schedule (ee_uniform env (un_draws n) 50 200) False ATTACH_RETRY (n\<lparr>un_draws := un_draws n + 1\<rparr>)))"

definition schedule_rach_window_timer :: "ue_node \<Rightarrow> ue_node" where
  "schedule_rach_window_timer n =
     (let n1 = (if un_rach_window_timer_running n then n\<lparr>ua_timers := timer_cancel (un_rach_window_timer n) (ua_timers n)\<rparr> else n);
          window = (if ru_state (un_rach n) = WAIT_CONTENTION_RESOLVE then uec_cr_window_ms (ua_config n) else uec_rar_window_ms (ua_config n));
          (t, n2) = ua_schedule window False RACH_WINDOW (n1\<lparr>un_rach_window_timer_running := True\<rparr>)
      in n2\<lparr>un_rach_window_timer := t\<rparr>)"

definition schedule_backoff_then_retry :: "ue_env \<Rightarrow> ue_node \<Rightarrow> ue_node" where
  "schedule_backoff_then_retry env n =
     snd (ua_schedule (ee_uniform env (un_draws n) (uec_backoff_min_ms (ua_config n)) (uec_backoff_max_ms (ua_config n)))
            False RACH_RETRY (n\<lparr>un_draws := un_draws n + 1\<rparr>))"

fun rach_cb :: "ue_env \<Rightarrow> rach_out \<Rightarrow> ue_act" where
  "rach_cb env (RachSend RACH_MSG1 pdu) n = ue_send_frame MSG1_PRACH 0 pdu n"
| "rach_cb env (RachSend RACH_MSG3 pdu) n = ue_send_frame MSG3_CCCH 0 pdu n"
| "rach_cb env (RachSend _ pdu) n = (n, [])"
| "rach_cb env (RachStateChange _ WAIT_RAR) n = (schedule_rach_window_timer (n\<lparr>ua_crnti_cache := 0\<rparr>), [])"
| "rach_cb env (RachStateChange _ WAIT_CONTENTION_RESOLVE) n = (schedule_rach_window_timer n, [])"
| "rach_cb env (RachStateChange _ RACH_IDLE) n =
     (let n1 = (if un_rach_window_timer_running n
                then n\<lparr>ua_timers := timer_cancel (un_rach_window_timer n) (ua_timers n), un_rach_window_timer_running := False\<rparr> else n)
      in (schedule_attach_retry env n1, []))"
| "rach_cb env (RachStateChange _ RACH_CONNECTED) n = (n, [])"

definition rach_do :: "ue_env \<Rightarrow> (rach_ue \<Rightarrow> rach_ue \<times> rach_out list) \<Rightarrow> ue_act" where
  "rach_do env op n = (let (r, outs) = op (un_rach n) in act_for (rach_cb env) outs (n\<lparr>un_rach := r\<rparr>))"

subsection \<open>Traffic, streams and measurements\<close>

definition stop_traffic :: "ue_node \<Rightarrow> ue_node" where
  "stop_traffic n =
     (fold ua_cancel [ua_traffic_timer n, ua_loss_sweep_timer n, ua_stats_timer n] n)
       \<lparr>ua_traffic_timer := 0, ua_loss_sweep_timer := 0, ua_stats_timer := 0\<rparr>"

definition stop_streams :: "bool \<Rightarrow> ue_try" where
  "stop_streams notify =
     try_seq (try_act (app_do (stop_dialogs notify))) (if notify then pump_app_bearers else try_act (act_upd (\<lambda>n. n)))"

definition start_measurements :: "ue_node \<Rightarrow> ue_node" where
  "start_measurements n =
     (if un_meas_timer n \<noteq> 0 \<or> uec_meas_period_ms (ua_config n) = 0 then n
      else let (t, n1) = ua_schedule (uec_meas_period_ms (ua_config n)) True MEAS n in n1\<lparr>un_meas_timer := t\<rparr>)"

definition stop_measurements :: "ue_node \<Rightarrow> ue_node" where
  "stop_measurements n =
     (if un_meas_timer n \<noteq> 0 then n\<lparr>ua_timers := timer_cancel (un_meas_timer n) (ua_timers n), un_meas_timer := 0\<rparr> else n)"

definition cells_list :: "ue_env \<Rightarrow> ue_node \<Rightarrow> (u16 \<times> neighbor_cell) list" where
  "cells_list env n =
     List.map_filter (\<lambda>c. map_option (Pair c) (un_cells n c)) (ee_cells env (dom (un_cells n)))"

definition meas_value :: "ue_env \<Rightarrow> ue_node \<Rightarrow> bytes" where
  "meas_value env n =
     (let audible = filter (\<lambda>(_, c). ua_now_ms n - ne_last_seen_ms c \<le> 800) (cells_list env n)
      in word_of_nat (length audible) #
         concat (map (\<lambda>(cell, c). put16 cell @ [ucast (min (ne_rx_count c) 255)]) audible))"

definition send_measurement_report :: "ue_env \<Rightarrow> ue_try" where
  "send_measurement_report env n = uplink_send LCID_CCCH (rrc_encode (rrc_msg RRC_MEAS_REPORT (meas_value env n))) n"

fun best_cell :: "(u16 \<times> neighbor_cell) list \<Rightarrow> u16 \<times> u32 \<Rightarrow> u16 \<times> u32" where
  "best_cell [] best = best"
| "best_cell ((cell, c) # cs) (best, best_rx) =
     best_cell cs (if ne_rx_count c > best_rx then (cell, ne_rx_count c) else (best, best_rx))"

definition select_serving_cell :: "ue_env \<Rightarrow> ue_node \<Rightarrow> ue_node" where
  "select_serving_cell env n =
     (let best = fst (best_cell (cells_list env n) (0, 0));
          serving = (if best \<noteq> 0 then best else un_serving_cell n)
      in n\<lparr>un_serving_cell := (if serving = 0 then 1 else serving)\<rparr>)"

subsection \<open>Attach, detach, suspension and resumption\<close>

definition reset_bearers :: "bool \<Rightarrow> bearer_set \<Rightarrow> bearer_set" where
  "reset_bearers teardown s =
     (let am = (\<lambda>b. b\<lparr>b_tx := am_tx_reset (b_tx b), b_rx := am_rx_reset (b_rx b), b_queue := [],
                     b_established := (if teardown then False else b_established b)\<rparr>);
          um = (\<lambda>b. b\<lparr>b_tx := um_tx_reset (b_tx b), b_rx := um_rx_reset (b_rx b), b_queue := [],
                     b_established := (if teardown then False else b_established b)\<rparr>)
      in s\<lparr>bs_sig := am (bs_sig s), bs_be := am (bs_be s), bs_voice := um (bs_voice s), bs_video := um (bs_video s)\<rparr>)"

definition reset_harq :: "ue_node \<Rightarrow> ue_node" where
  "reset_harq n = n\<lparr>un_harq_tx := harq_tx_reset (un_harq_tx n), un_harq_rx := harq_rx_reset\<rparr>"

definition reset_user_plane :: "ue_node \<Rightarrow> ue_node" where
  "reset_user_plane n =
     (reset_harq n)\<lparr>ua_bearers := reset_bearers True (ua_bearers n), un_up_sec_on := False, un_pdcp_seq := 0\<rparr>"

fun rrc_sends :: "rrc_ue_out \<Rightarrow> ue_try" where
  "rrc_sends (RrcSend pdu) n = rrc_send_cb pdu n"
| "rrc_sends _ n = Inr (n, [])"

definition rrc_do :: "(rrc_ue_out \<Rightarrow> ue_try) \<Rightarrow> (rrc_ue \<Rightarrow> rrc_ue \<times> rrc_ue_out list) \<Rightarrow> ue_try" where
  "rrc_do cb op n = (let (r, outs) = op (un_rrc n) in try_for cb outs (n\<lparr>un_rrc := r\<rparr>))"

definition nas_do :: "(nas_ue \<Rightarrow> nas_ue \<times> bytes list) \<Rightarrow> ue_try" where
  "nas_do op n = (let (r, pdus) = op (un_nas n) in try_for nas_send_cb pdus (n\<lparr>un_nas := r\<rparr>))"

definition aim_rach :: "ue_node \<Rightarrow> ue_node" where
  "aim_rach n =
     n\<lparr>un_rach := set_preamble_index (preamble_for_cell (rc_preamble_index (uec_rach (ua_config n))) (un_serving_cell n)) (un_rach n)\<rparr>"

definition start_attach_guard :: "ue_node \<Rightarrow> ue_node" where
  "start_attach_guard n =
     (if un_attach_guard_running n then n
      else snd (ua_schedule (uec_attach_guard_ms (ua_config n)) False ATTACH_GUARD (n\<lparr>un_attach_guard_running := True\<rparr>)))"

definition maybe_start_attach :: "ue_env \<Rightarrow> ue_try" where
  "maybe_start_attach env n =
     (if \<not> un_attach_requested n \<or> \<not> has_system_info n then Inr (n, [])
      else if ru_state (un_rach n) \<noteq> RACH_IDLE \<or> ur_state (un_rrc n) \<noteq> UE_IDLE then Inr (n, [])
      else if un_reestablish_pending n then
        Inr (rach_do env start_rach (n\<lparr>un_pending_ccch := un_reest_req_pdu n\<rparr>))
      else
        let n1 = (aim_rach (select_serving_cell env n))\<lparr>un_pending_ccch := []\<rparr> in
        try_seq (rrc_do rrc_sends (start_connection (un_serving_cell n1)))
          (try_act (act_seq (act_upd start_attach_guard) (rach_do env start_rach))) n1)"

definition attach :: "ue_env \<Rightarrow> ue_try" where
  "attach env n = maybe_start_attach env (n\<lparr>un_attach_requested := True\<rparr>)"

definition abort_attach :: "ue_env \<Rightarrow> ue_try" where
  "abort_attach env n =
     try_seq (try_act (rach_do env rach_force_idle))
       (try_seq (\<lambda>n. stop_streams False
                  (stop_traffic (n\<lparr>un_rrc := rrc_force_idle (un_rrc n), ua_crnti_cache := 0, un_nas := force_deregistered (un_nas n)\<rparr>)))
          (try_act (act_upd (\<lambda>n. reset_user_plane (stop_measurements n)))))
       (n\<lparr>un_attach_requested := False, un_attach_guard_running := False, un_pending_ccch := []\<rparr>)"

definition resume_request :: "u32 \<Rightarrow> bytes" where
  "resume_request rid = rrc_encode (rrc_msg RRC_RESUME_REQUEST (put32 rid))"

definition start_resume_guard :: "ue_node \<Rightarrow> ue_node" where
  "start_resume_guard n =
     (if un_resume_guard_running n then n
      else snd (ua_schedule (4 * uec_attach_guard_ms (ua_config n)) False RESUME_GUARD (n\<lparr>un_resume_guard_running := True\<rparr>)))"

definition wake :: "ue_env \<Rightarrow> ue_act" where
  "wake env n =
     (if \<not> rrc_inactive n then (n, [])
      else
        act_seq (rach_do env rach_force_idle)
          (act_seq (act_upd (\<lambda>n. start_resume_guard (aim_rach n))) (rach_do env start_rach))
          (n\<lparr>un_pending_ccch := resume_request (ur_resume_id (un_rrc n)), un_rrc := start_resume (un_rrc n)\<rparr>))"

definition maybe_wake_for_activity :: "ue_env \<Rightarrow> ue_act" where
  "maybe_wake_for_activity env n = (if rrc_inactive n then wake env n else (n, []))"

definition ue_sleep :: ue_try where
  "ue_sleep n =
     (if \<not> registered n \<or> ur_state (un_rrc n) \<noteq> UE_CONNECTED then Inr (n, [])
      else rrc_do rrc_sends request_suspend n)"

definition detach :: "ue_env \<Rightarrow> ue_try" where
  "detach env n =
     (if \<not> registered n then Inr (n, [])
      else if rrc_inactive n then Inr (wake env (n\<lparr>un_detach_after_resume := True\<rparr>))
      else
        try_seq (stop_streams True)
          (try_seq (nas_do send_detach)
            (try_seq (rrc_do rrc_sends rrc_release)
              (try_act (act_seq (act_seq (act_upd (\<lambda>n. n\<lparr>ua_crnti_cache := 0\<rparr>)) (rach_do env rach_force_idle))
                 (act_upd (\<lambda>n. reset_user_plane (stop_measurements (stop_traffic (n\<lparr>un_pending_ccch := [], un_attach_requested := False\<rparr>))))))))) n)"

text \<open>Without a context in the network: a full attach from scratch, which is the answer to a refused and to a stalled resumption.\<close>

definition full_reattach :: "ue_env \<Rightarrow> ue_try" where
  "full_reattach env =
     try_seq (\<lambda>n. stop_streams False (n\<lparr>un_nas := force_deregistered (un_nas n)\<rparr>)) (attach env)"

fun rrc_cb :: "ue_env \<Rightarrow> rrc_ue_out \<Rightarrow> ue_try" where
  "rrc_cb env (RrcSend pdu) n = rrc_send_cb pdu n"
| "rrc_cb env (RrcSuspended _) n =
     Inr ((reset_harq n)\<lparr>un_suspended_crnti := ua_crnti_cache n, ua_crnti_cache := 0\<rparr>, [])"
| "rrc_cb env (RrcResumed ok new_crnti) n =
     (if ok then
        try_seq pump_app_bearers
          (\<lambda>n. if un_detach_after_resume n then detach env (n\<lparr>un_detach_after_resume := False\<rparr>) else Inr (n, []))
          (reset_harq (n\<lparr>un_resume_guard_running := False, ua_crnti_cache := new_crnti\<rparr>))
      else
        try_seq (try_act (rach_do env rach_force_idle)) (full_reattach env)
          (n\<lparr>un_resume_guard_running := False, un_suspended_crnti := 0, ua_crnti_cache := 0\<rparr>))"

subsection \<open>Commands of the user\<close>

definition when_registered :: "ue_env \<Rightarrow> ue_act \<Rightarrow> ue_act" where
  "when_registered env a n = (if \<not> registered n then (n, []) else act_seq (maybe_wake_for_activity env) a n)"

definition send_app_data :: "ue_env \<Rightarrow> bytes \<Rightarrow> ue_act" where
  "send_app_data env payload = when_registered env (act_upd (ping payload))"

definition send_msg :: "ue_env \<Rightarrow> cstring \<Rightarrow> cstring \<Rightarrow> ue_act" where
  "send_msg env dst txt = when_registered env (app_do (\<lambda>n. send_u2u (text_packet dst txt n) n))"

definition start_call :: "ue_env \<Rightarrow> media_kind \<Rightarrow> cstring \<Rightarrow> ue_act" where
  "start_call env kind dst = when_registered env (app_do (dial kind dst))"

definition start_conf :: "ue_env \<Rightarrow> cstring \<Rightarrow> cstring \<Rightarrow> ue_act" where
  "start_conf env imsi_b imsi_c = when_registered env (app_do (dial_conf imsi_b imsi_c))"

definition traffic_timers :: "u32 \<Rightarrow> ue_node \<Rightarrow> ue_node" where
  "traffic_timers interval_ms n =
     (if ua_traffic_timer n \<noteq> 0 then n
      else
        let (t, n1) = ua_schedule interval_ms True TRAFFIC n;
            n2 = n1\<lparr>ua_traffic_timer := t\<rparr>;
            n3 = (if ua_loss_sweep_timer n2 = 0
                  then let (t, m) = ua_schedule 500 True LOSS_SWEEP n2 in m\<lparr>ua_loss_sweep_timer := t\<rparr> else n2)
        in if ua_stats_timer n3 = 0
           then let (t, m) = ua_schedule 5000 True TRAFFIC_STATS n3 in m\<lparr>ua_stats_timer := t\<rparr> else n3)"

definition start_traffic :: "ue_env \<Rightarrow> u32 \<Rightarrow> ue_act" where
  "start_traffic env interval_ms = when_registered env (act_upd (traffic_timers interval_ms))"

definition traffic_payload :: bytes where
  "traffic_payload = map (\<lambda>i. 65 + word_of_nat (i mod 26)) [0..<32]"

subsection \<open>Mobility\<close>

definition apply_handover :: "u16 \<Rightarrow> u16 \<Rightarrow> ue_try" where
  "apply_handover target_cell new_crnti n =
     uplink_send LCID_CCCH (rrc_encode (rrc_msg RRC_HO_COMPLETE (put16 new_crnti)))
       ((reset_harq (n\<lparr>un_serving_cell := target_cell, ua_crnti_cache := new_crnti, un_rrc := restore_connected new_crnti (un_rrc n)\<rparr>))
          \<lparr>ua_bearers := reset_bearers False (ua_bearers n), un_pdcp_seq := 0\<rparr>)"

definition start_reest_guard :: "ue_node \<Rightarrow> ue_node" where
  "start_reest_guard n =
     (let n1 = (if un_reest_guard n \<noteq> 0 then n\<lparr>ua_timers := timer_cancel (un_reest_guard n) (ua_timers n)\<rparr> else n);
          (t, n2) = ua_schedule (uec_attach_guard_ms (ua_config n)) False REEST_GUARD n1
      in n2\<lparr>un_reest_guard := t\<rparr>)"

definition reest_request :: "ue_node \<Rightarrow> bytes" where
  "reest_request n = rrc_encode (rrc_msg RRC_REESTABLISHMENT_REQUEST (put16 (un_pre_rlf_crnti n) @ put16 (un_serving_cell n)))"

definition declare_rlf :: "ue_env \<Rightarrow> ue_act" where
  "declare_rlf env n =
     act_seq (rach_do env rach_force_idle)
       (act_seq
          (act_upd (\<lambda>n. (start_reest_guard
             (n\<lparr>un_rrc := rrc_force_idle (un_rrc n), ua_crnti_cache := 0, un_reest_req_pdu := reest_request n,
                un_pending_ccch := reest_request n\<rparr>))\<lparr>un_attach_requested := True\<rparr>))
          (rach_do env start_rach))
       ((reset_harq n)\<lparr>un_pre_rlf_crnti := ua_crnti_cache n, un_reestablish_pending := True,
                       ua_bearers := reset_bearers False (ua_bearers n)\<rparr>)"

definition reestablish_failed :: "ue_env \<Rightarrow> ue_try" where
  "reestablish_failed env n =
     try_seq (try_act (rach_do env rach_force_idle))
       (\<lambda>n. maybe_start_attach env (n\<lparr>un_rrc := rrc_force_idle (un_rrc n)\<rparr>))
       (n\<lparr>un_reestablish_pending := False, un_nas := force_deregistered (un_nas n), un_up_sec_on := False, un_pdcp_seq := 0,
          ua_crnti_cache := 0\<rparr>)"

subsection \<open>Downlink\<close>

definition maybe_send_attach_request :: ue_try where
  "maybe_send_attach_request n =
     (if un_attach_requested n \<and> nu_state (un_nas n) = DEREGISTERED \<and> ur_state (un_rrc n) = UE_CONNECTED
      then try_seq (nas_do (send_attach_request (uec_imsi (ua_config n)))) (try_act (act_upd start_measurements)) n
      else Inr (n, []))"

definition ue_on_ccch :: "ue_env \<Rightarrow> bytes \<Rightarrow> ue_try" where
  "ue_on_ccch env sdu n =
     (let msg = rrc_decode sdu; v = rrc_value msg in
      if rrc_type msg = RRC_HO_COMMAND then
        (if length v < 4 then Inr (n, [])
         else if un_cells n (get16 (v ! 0) (v ! 1)) = None then Inr (n, [])
         else apply_handover (get16 (v ! 0) (v ! 1)) (get16 (v ! 2) (v ! 3)) n)
      else if rrc_type msg = RRC_REESTABLISHMENT_OK then
        (if \<not> un_reestablish_pending n \<or> length v < 2 then Inr (n, [])
         else
           let new_crnti = get16 (v ! 0) (v ! 1)
           in Inr (n\<lparr>un_reestablish_pending := False, ua_crnti_cache := new_crnti,
                     un_rrc := restore_connected new_crnti (un_rrc n), un_harq_rx := harq_rx_reset\<rparr>, []))
      else if rrc_type msg = RRC_REESTABLISHMENT_FAILURE then
        (if un_reestablish_pending n then reestablish_failed env n else Inr (n, []))
      else
        try_seq (rrc_do (rrc_cb env) (rrc_ue_on_message sdu))
          (\<lambda>n. maybe_send_attach_request (n\<lparr>un_harq_rx := harq_rx_reset\<rparr>)) n)"

definition note_cell :: "sib1 \<Rightarrow> ue_node \<Rightarrow> ue_node" where
  "note_cell sib n =
     (let c = sib1_cell_id sib;
          old = (case un_cells n c of None \<Rightarrow> \<lparr>ne_rx_count = 0, ne_last_seen_ms = 0\<rparr> | Some x \<Rightarrow> x);
          new = \<lparr>ne_rx_count = ne_rx_count old + 1, ne_last_seen_ms = ua_now_ms n\<rparr>
      in n\<lparr>un_cells := (un_cells n)(c \<mapsto> new), un_serving_cell := (if un_serving_cell n = 0 then c else un_serving_cell n)\<rparr>)"

definition handle_sysinfo_sdu :: "ue_env \<Rightarrow> u8 \<Rightarrow> bytes \<Rightarrow> bool \<Rightarrow> ue_try" where
  "handle_sysinfo_sdu env lcid sdu broadcast n =
     (if lcid = LCID_MIB \<and> length sdu \<ge> 5 then
        maybe_start_attach env (n\<lparr>un_mib_ok := True, un_rrc := on_mib_received (mib_decode sdu) (un_rrc n)\<rparr>)
      else if lcid = LCID_SIB1 \<and> length sdu \<ge> 7 then
        maybe_start_attach env (note_cell (sib1_decode sdu)
          (n\<lparr>un_sib1_ok := True, un_rrc := on_sib1_received (sib1_decode sdu) (un_rrc n)\<rparr>))
      else if lcid = LCID_PAGING \<and> broadcast then
        (if sdu \<noteq> uec_imsi (ua_config n) then Inr (n, [])
         else if rrc_inactive n then Inr (wake env n)
         else if \<not> registered n then attach env n
         else Inr (n, []))
      else Inr (n, []))"

definition ue_open_sdu :: "bytes \<Rightarrow> ue_node \<Rightarrow> bytes option" where
  "ue_open_sdu sdu n =
     (if un_up_sec_on n then map_option (\<lambda>inner. pdcp_rx (tm_rx inner)) (unprotect (un_up_key n) sdu)
      else Some (pdcp_rx (tm_rx sdu)))"

definition arm_security :: "ue_node \<Rightarrow> ue_node" where
  "arm_security n =
     (if nu_state (un_nas n) = REGISTERED \<and> nu_authenticated (un_nas n) \<and> \<not> un_up_sec_on n
      then n\<lparr>un_up_key := nu_session_key (un_nas n), un_up_sec_on := True\<rparr> else n)"

definition ue_on_nas :: "bytes \<Rightarrow> ue_try" where
  "ue_on_nas sdu n =
     (case ue_open_sdu sdu n of
        None \<Rightarrow> Inr (n, [])
      | Some pdu \<Rightarrow>
          try_seq (nas_do (nas_ue_on_message pdu))
            (try_act (act_upd (\<lambda>n. let m = arm_security n in if registered m then start_measurements m else m))) n)"

definition deliver_app :: "bytes list \<Rightarrow> ue_act" where
  "deliver_app = act_for (\<lambda>data. app_do (handle_app_sdu data))"

definition enqueue_status :: "qci \<Rightarrow> ue_node \<Rightarrow> ue_node" where
  "enqueue_status q n = enqueue_app_pdu q (status_lcid_of q) (am_build_status (b_rx (am_of q (ua_bearers n)))) n"

definition am_outcome_do :: "qci \<Rightarrow> am_rx_state \<times> am_outcome \<Rightarrow> ue_act" where
  "am_outcome_do q r n =
     (case r of (rx', out) \<Rightarrow>
        act_seq (deliver_app (ao_delivered out)) (act_upd (\<lambda>n. if ao_status_needed out then enqueue_status q n else n))
          (n\<lparr>ua_bearers := am_of_update q (\<lambda>b. b\<lparr>b_rx := rx'\<rparr>) (ua_bearers n)\<rparr>))"

definition um_outcome_do :: "qci \<Rightarrow> um_rx_state \<Rightarrow> ue_act" where
  "um_outcome_do q rx n =
     (let (rx', delivered) = um_poll rx
      in deliver_app delivered (n\<lparr>ua_bearers := um_of_update q (\<lambda>b. b\<lparr>b_rx := rx'\<rparr>) (ua_bearers n)\<rparr>))"

definition ue_on_app :: "qci \<Rightarrow> bytes \<Rightarrow> ue_act" where
  "ue_on_app q sdu n =
     (case ue_open_sdu sdu n of
        None \<Rightarrow> (n, [])
      | Some pdu \<Rightarrow>
          if q = QCI_SIG \<or> q = QCI_BEST_EFFORT then am_outcome_do q (am_rx pdu (b_rx (am_of q (ua_bearers n)))) n
          else um_outcome_do q (um_rx (ua_now_ms n) pdu (b_rx (um_of q (ua_bearers n)))) n)"

definition ue_on_status :: "qci \<Rightarrow> bytes \<Rightarrow> ue_node \<Rightarrow> ue_node" where
  "ue_on_status q sdu n =
     (let (tx', pdus) = am_on_status (ua_now_ms n) sdu (b_tx (am_of q (ua_bearers n)))
      in enqueue_all q pdus (n\<lparr>ua_bearers := am_of_update q (\<lambda>b. b\<lparr>b_tx := tx'\<rparr>) (ua_bearers n)\<rparr>))"

definition ue_on_harq_ack :: "bytes \<Rightarrow> ue_act" where
  "ue_on_harq_ack sdu n =
     (if length sdu < 2 then (n, [])
      else
        let proc = sdu ! 0 AND 0x7F; tx = harq_advance (ua_now_ms n) (un_harq_tx n) in
        if sdu ! 1 \<noteq> 0 then (n\<lparr>un_harq_tx := harq_on_ack proc tx\<rparr>, [])
        else
          case harq_on_nack proc tx of
            (tx', None) \<Rightarrow> (n\<lparr>un_harq_tx := tx'\<rparr>, [])
          | (tx', Some e) \<Rightarrow> ue_send_frame DATA (ua_crnti_cache n) (he_coded e) (n\<lparr>un_harq_tx := tx'\<rparr>))"

definition handle_dedicated_sdu :: "ue_env \<Rightarrow> u8 \<Rightarrow> bytes \<Rightarrow> ue_try" where
  "handle_dedicated_sdu env lcid sdu n =
     (if lcid = LCID_CCCH then ue_on_ccch env sdu n
      else if lcid = LCID_NAS_DCCH then ue_on_nas sdu n
      else
        case qci_of_lcid lcid of
          Some q \<Rightarrow> Inr (ue_on_app q sdu n)
        | None \<Rightarrow>
            (case qci_of_status_lcid lcid of
               Some q \<Rightarrow> Inr (ue_on_status q sdu n, [])
             | None \<Rightarrow>
                 if lcid = LCID_HARQ_ACK then Inr (ue_on_harq_ack sdu n)
                 else if lcid = LCID_TPC then
                   Inr (if sdu = [] then n
                        else n\<lparr>un_tpc_accum_db := max (- 15) (min 15 (un_tpc_accum_db n + sint (sdu ! 0)))\<rparr>, [])
                 else Inr (n, [])))"

definition ue_on_sdu :: "ue_env \<Rightarrow> u16 \<Rightarrow> u8 \<times> bytes \<Rightarrow> ue_try" where
  "ue_on_sdu env rnti e n =
     (case e of (lcid, sdu) \<Rightarrow>
        if lcid = LCID_MIB \<or> lcid = LCID_SIB1 \<or> lcid = LCID_PAGING then handle_sysinfo_sdu env lcid sdu (rnti = RNTI_BROADCAST) n
        else if rnti \<noteq> RNTI_BROADCAST \<and> sdu \<noteq> [] then handle_dedicated_sdu env lcid sdu n
        else Inr (n, []))"

definition handle_data_pdu :: "ue_env \<Rightarrow> u16 \<Rightarrow> bytes \<Rightarrow> ue_try" where
  "handle_data_pdu env rnti payload n =
     (let n0 = (if rnti \<noteq> RNTI_BROADCAST then n\<lparr>un_last_dl_ms := ua_now_ms n\<rparr> else n) in
      if is_harq_framed payload then
        (case harq_receive (un_harq_rx n0) payload of
           Inl e \<Rightarrow> Inl e
         | Inr (rx', res) \<Rightarrow>
             try_seq (try_act (ue_send_ack rnti res))
               (if hr_delivered res then try_for (ue_on_sdu env rnti) (parse_pdu (hr_mac_pdu res)) else try_act (act_upd (\<lambda>n. n)))
               (n0\<lparr>un_harq_rx := rx'\<rparr>))
      else try_for (ue_on_sdu env rnti) (parse_pdu payload) n0)"

definition ue_on_frame :: "ue_env \<Rightarrow> air_frame \<Rightarrow> ue_try" where
  "ue_on_frame env frame n =
     (let ((r, cache), outs, data) = ue_handle_air_frame (un_pending_ccch n) frame (un_rach n, ua_crnti_cache n)
      in try_seq (try_act (act_for (rach_cb env) outs))
           (case data of None \<Rightarrow> try_act (act_upd (\<lambda>n. n)) | Some (rnti, payload) \<Rightarrow> handle_data_pdu env rnti payload)
           (n\<lparr>un_rach := r, ua_crnti_cache := cache\<rparr>))"

definition ue_on_air_bits :: "ue_env \<Rightarrow> u8 list \<Rightarrow> ue_try" where
  "ue_on_air_bits env bits n =
     (case unpack_air_bits bits of
        None \<Rightarrow> Inr (n, [])
      | Some bs \<Rightarrow> (case decode_frame bs of None \<Rightarrow> Inr (n, []) | Some frame \<Rightarrow> ue_on_frame env frame n))"

subsection \<open>Timers and the tick\<close>

definition attach_retry_expired :: "ue_env \<Rightarrow> ue_try" where
  "attach_retry_expired env n =
     (if \<not> un_attach_requested n \<or> registered n then Inr (n, [])
      else if ru_state (un_rach n) \<noteq> RACH_IDLE then Inr (n, [])
      else maybe_start_attach env (n\<lparr>un_rrc := rrc_force_idle (un_rrc n), ua_crnti_cache := 0\<rparr>))"

definition resume_guard_expired :: "ue_env \<Rightarrow> ue_try" where
  "resume_guard_expired env n =
     (if \<not> un_resume_guard_running n then Inr (n, [])
      else if ur_state (un_rrc n) = UE_CONNECTED then Inr (n\<lparr>un_resume_guard_running := False\<rparr>, [])
      else
        try_seq (try_act (rach_do env rach_force_idle))
          (\<lambda>n. full_reattach env (n\<lparr>un_rrc := rrc_force_idle (un_rrc n), un_suspended_crnti := 0\<rparr>))
          (n\<lparr>un_resume_guard_running := False\<rparr>))"

definition rach_window_expired :: "ue_env \<Rightarrow> ue_act" where
  "rach_window_expired env n =
     (let n1 = n\<lparr>un_rach_window_timer_running := False\<rparr> in
      if ru_state (un_rach n1) = WAIT_RAR then (schedule_backoff_then_retry env n1, [])
      else if ru_state (un_rach n1) = WAIT_CONTENTION_RESOLVE then rach_do env on_contention_resolve_timeout n1
      else (n1, []))"

fun ue_timer_cb :: "ue_env \<Rightarrow> ue_timer \<Rightarrow> ue_try" where
  "ue_timer_cb env RACH_WINDOW n = Inr (rach_window_expired env n)"
| "ue_timer_cb env RACH_RETRY n = Inr (if ru_state (un_rach n) = WAIT_RAR then rach_do env on_rar_timeout n else (n, []))"
| "ue_timer_cb env ATTACH_RETRY n = attach_retry_expired env n"
| "ue_timer_cb env ATTACH_GUARD n =
     (let n1 = n\<lparr>un_attach_guard_running := False\<rparr> in if \<not> registered n1 then abort_attach env n1 else Inr (n1, []))"
| "ue_timer_cb env RESUME_GUARD n = resume_guard_expired env n"
| "ue_timer_cb env REEST_GUARD n =
     (let n1 = n\<lparr>un_reest_guard := 0\<rparr> in if un_reestablish_pending n1 then reestablish_failed env n1 else Inr (n1, []))"
| "ue_timer_cb env MEAS n =
     (if ur_state (un_rrc n) = UE_CONNECTED \<and> un_cells n \<noteq> Map.empty then send_measurement_report env n else Inr (n, []))"
| "ue_timer_cb env TRAFFIC n = Inr (send_app_data env traffic_payload n)"
| "ue_timer_cb env cb n = Inr (app_do (app_timer cb) n)"

text \<open>The loop of \<^verbatim>\<open>TimerList::tick\<close> with callbacks that work on the node.\<close>

definition ue_fire_one :: "ue_env \<Rightarrow> u32 \<Rightarrow> u32 \<Rightarrow> ue_try" where
  "ue_fire_one env now i n =
     (case find (\<lambda>e. te_id e = i) (tl_entries (ua_timers n)) of
        None \<Rightarrow> Inr (n, [])
      | Some e \<Rightarrow>
          let es = (if te_interval e > 0 then update_first (\<lambda>e. te_id e = i) (timer_rearm now) (tl_entries (ua_timers n))
                    else erase_first (\<lambda>e. te_id e = i) (tl_entries (ua_timers n)))
          in ue_timer_cb env (te_cb e) (n\<lparr>ua_timers := (ua_timers n)\<lparr>tl_entries := es\<rparr>\<rparr>))"

definition ue_timers_tick :: "ue_env \<Rightarrow> ue_try" where
  "ue_timers_tick env n =
     (let now = ua_now_ms n; t = ua_timers n;
          t1 = (if sint (now - tl_last_now t) > 0 then t\<lparr>tl_last_now := now\<rparr> else t);
          due = map te_id (filter (\<lambda>e. timer_due now (te_deadline e)) (tl_entries t1))
      in try_for (ue_fire_one env now) due (n\<lparr>ua_timers := t1\<rparr>))"

definition ensure_link_timer :: "ue_node \<Rightarrow> ue_node" where
  "ensure_link_timer n =
     (if registered n \<and> un_link_timer n = 0
      then let (t, n1) = ua_schedule 1000 True LINK_METRICS n in n1\<lparr>un_link_timer := t\<rparr> else n)"

definition service_am_rx :: "qci \<Rightarrow> ue_act" where
  "service_am_rx q n = am_outcome_do q (am_rx_tick (ua_now_ms n) (b_rx (am_of q (ua_bearers n)))) n"

definition service_am :: "qci \<Rightarrow> ue_act" where
  "service_am q n =
     (let (tx', pdus) = am_tx_tick (ua_now_ms n) (b_tx (am_of q (ua_bearers n)))
      in service_am_rx q
           (enqueue_all q pdus (n\<lparr>ua_bearers := am_of_update q (\<lambda>b. b\<lparr>b_tx := tx'\<rparr>) (ua_bearers n)\<rparr>)))"

definition service_um_rx :: "qci \<Rightarrow> ue_act" where
  "service_um_rx q n = um_outcome_do q (um_tick (ua_now_ms n) (b_rx (um_of q (ua_bearers n)))) n"

definition rlf_due :: "ue_node \<Rightarrow> bool" where
  "rlf_due n \<longleftrightarrow> uec_radio_link_failure_ms (ua_config n) \<noteq> 0 \<and> \<not> un_reestablish_pending n \<and>
     ur_state (un_rrc n) = UE_CONNECTED \<and> un_last_dl_ms n \<noteq> 0 \<and>
     ua_now_ms n - un_last_dl_ms n > uec_radio_link_failure_ms (ua_config n)"

definition ue_tick :: "ue_env \<Rightarrow> u32 \<Rightarrow> ue_try" where
  "ue_tick env now n =
     try_seq (ue_timers_tick env)
       (try_seq (try_act (act_seq pump_harq (act_seq (act_upd ensure_link_timer)
                   (act_seq (act_for service_am [QCI_SIG, QCI_BEST_EFFORT]) (act_for service_um_rx [QCI_VOICE, QCI_VIDEO])))))
          (try_seq pump_app_bearers (\<lambda>n. if rlf_due n then Inr (declare_rlf env n) else Inr (n, []))))
       (n\<lparr>ua_now_ms := max now (ua_now_ms n)\<rparr>)"

subsection \<open>What the application leaves to the node\<close>

text \<open>
  The operations of the application know nothing of the fields the node adds, and keep every
  bearer queue within its 64 entries.
\<close>

definition queues_bounded :: "bearer_set \<Rightarrow> bool" where
  "queues_bounded s \<longleftrightarrow> (\<forall>q. length (queue_of q s) \<le> 64)"

definition app_only :: "'a ue_app_scheme \<Rightarrow> 'a ue_app_scheme \<Rightarrow> bool" where
  "app_only u u' \<longleftrightarrow> ue_app.more u' = ue_app.more u \<and> (queues_bounded (ua_bearers u) \<longrightarrow> queues_bounded (ua_bearers u'))"

interpretation app_only: steps app_only
  by unfold_locales (auto simp: app_only_def)

lemma queue_of_established [simp]: "queue_of q (set_established_of k e s) = queue_of q s"
  by (cases q; cases k) simp_all

lemma queue_of_tx [simp]:
  "queue_of q (am_of_update k (\<lambda>b. b\<lparr>b_tx := tx\<rparr>) s) = queue_of q s" "queue_of q (am_of_update k (\<lambda>b. b\<lparr>b_rx := rx\<rparr>) s) = queue_of q s"
  "queue_of q (um_of_update k (\<lambda>b. b\<lparr>b_tx := tx'\<rparr>) s) = queue_of q s" "queue_of q (um_of_update k (\<lambda>b. b\<lparr>b_rx := rx'\<rparr>) s) = queue_of q s"
  by (cases q; simp add: am_of_update_def um_of_update_def)+

lemma queues_bounded_bearers [simp]:
  "queues_bounded (am_of_update k (\<lambda>b. b\<lparr>b_tx := tx\<rparr>) s) = queues_bounded s" "queues_bounded (am_of_update k (\<lambda>b. b\<lparr>b_rx := rx\<rparr>) s) = queues_bounded s"
  "queues_bounded (um_of_update k (\<lambda>b. b\<lparr>b_tx := tx'\<rparr>) s) = queues_bounded s" "queues_bounded (um_of_update k (\<lambda>b. b\<lparr>b_rx := rx'\<rparr>) s) = queues_bounded s"
  "queues_bounded (set_established_of k e s) = queues_bounded s"
  by (simp_all add: queues_bounded_def)

lemma app_only_enqueue: "app_only u (enqueue_app_pdu q lcid pdu u)"
proof -
  have "length (queue_of k (ua_bearers (enqueue_app_pdu q lcid pdu u))) \<le> 64" if "length (queue_of k (ua_bearers u)) \<le> 64" for k
    using that by (auto simp: enqueue_app_pdu_def Let_def queue_of_set)
  then show ?thesis
    unfolding app_only_def queues_bounded_def by (simp add: enqueue_app_pdu_def Let_def)
qed

lemma app_only_enqueue_all: "app_only u (enqueue_all q pdus u)"
  unfolding enqueue_all_def by (rule app_only.fold_steps) (rule app_only_enqueue)

lemma app_only_upd:
  "queues_bounded b = queues_bounded (ua_bearers u) \<Longrightarrow> app_only u (u\<lparr>ua_bearers := b\<rparr>)"
  by (simp add: app_only_def)

lemma app_only_submit: "app_only u (submit_am q sdu force u)" "app_only u (submit_um q sdu u)"
  unfolding submit_am_def submit_um_def
  by (auto simp: split_beta intro!: app_only.trans [OF app_only_upd app_only_enqueue_all])

lemma app_only_bearer: "app_only u (ensure_bearer q u)" "app_only u (release_bearer_if_unused q u)"
  by (auto simp: ensure_bearer_def release_bearer_if_unused_def app_only_def)

lemma app_only_send_u2u: "app_only u (fst (send_u2u pkt u))"
  unfolding send_u2u_def Let_def fst_conv
  by (simp add: app_only.trans [OF app_only_bearer(1) app_only_submit(1)] app_only.trans [OF app_only_bearer(1) app_only_submit(2)])

lemma u2u_bearers_bounded [simp]: "queues_bounded (ua_bearers u) \<Longrightarrow> queues_bounded (u2u_bearers pkt u)"
  using app_only_send_u2u [of u pkt] by (simp add: app_only_def send_u2u_eq)

lemma bearer_bounded [simp]:
  "queues_bounded (ua_bearers u) \<Longrightarrow> queues_bounded (ua_bearers (ensure_bearer q u))"
  "queues_bounded (ua_bearers u) \<Longrightarrow> queues_bounded (ua_bearers (release_bearer_if_unused q u))"
  using app_only_bearer [of u q] by (simp_all add: app_only_def)

lemma more_frame [simp]:
  "ue_app.more (ensure_bearer q u) = ue_app.more u" "ue_app.more (release_bearer_if_unused q u) = ue_app.more u"
  "ue_app.more (with_dialog i f u) = ue_app.more u" "ue_app.more (snd (ua_schedule t p cb u)) = ue_app.more u" "ue_app.more (ua_cancel t u) = ue_app.more u"
  using app_only_bearer [of u q] by (simp_all add: app_only_def with_dialog_def ua_schedule_def ua_cancel_def split_beta)

lemma bearers_frame [simp]:
  "ua_bearers (with_dialog i f u) = ua_bearers u" "ua_bearers (snd (ua_schedule t p cb u)) = ua_bearers u" "ua_bearers (ua_cancel t u) = ua_bearers u"
  by (simp_all add: with_dialog_def ua_schedule_def ua_cancel_def split_beta)

lemma more_frame2 [simp]:
  "ue_app.more (cancel_dialog_timers i u) = ue_app.more u" "ue_app.more (maybe_stop_stream_timers u) = ue_app.more u"
  "ue_app.more (ensure_stream_timers u) = ue_app.more u" "ua_bearers (cancel_dialog_timers i u) = ua_bearers u"
  "ua_bearers (maybe_stop_stream_timers u) = ua_bearers u" "ua_bearers (ensure_stream_timers u) = ua_bearers u"
  by (simp_all add: cancel_dialog_timers_def maybe_stop_stream_timers_def ensure_stream_timers_def fold_ua_cancel split_beta Let_def del: fold.simps)

lemma app_only_erase: "app_only u (erase_dialog i u)" "app_only u (fail_call i r u)"
  by (auto simp: app_only_def erase_dialog_def fail_call_def Let_def fold_ua_cancel)

lemma app_only_invite: "app_only u (fst (invite dst kind conf u))"
  by (simp add: app_only_def invite_def Let_def split_beta send_sig_eq)

lemma app_only_sig: "app_only u (fst (send_sig i m u))" "app_only u (fst (send_sig_to m dst cid k c u))"
  by (simp_all add: app_only_def send_sig_eq send_sig_to_eq)

lemma app_only_sig_erase:
  "app_only u (fst (act_seq (send_sig i m) (act_upd (erase_dialog i)) u))" "app_only u (fst (act_seq (send_sig i m) (act_upd (fail_call i r)) u))"
  by (rule app_only.seq_steps; simp add: app_only_sig act_upd_def app_only_erase)+

lemma app_only_dial: "app_only u (fst (dial kind dst u))"
  by (simp add: dial_def app_only_invite app_only.refl) (simp add: app_only_def)

lemma app_only_dial_conf: "app_only u (fst (dial_conf b c u))"
proof -
  have "app_only u (u\<lparr>ua_next_conf_seq := ua_next_conf_seq u + 1\<rparr>)" "app_only u (u\<lparr>ua_last_call_fail := ''busy''\<rparr>)"
    by (simp_all add: app_only_def)
  then show ?thesis
    by (auto simp: dial_conf_def Let_def simp del: act_for.simps intro: app_only.trans [OF _ app_only.for_steps] app_only_invite)
qed

lemma app_only_accept: "app_only u (fst (accept_call i u))"
  by (simp add: app_only_def accept_call_def effect_defs split_beta Let_def send_sig_eq)

lemma app_only_end_dialog: "app_only u (fst (end_dialog i u))"
  by (simp add: end_dialog_def app_only_sig_erase app_only.refl split: option.split)

lemma app_only_user:
  "app_only u (fst (answer u))" "app_only u (fst (decline u))" "app_only u (fst (end_call u))" "app_only u (fst (end_call_kind k u))"
  by (simp_all add: answer_def decline_def end_call_def end_call_kind_def Let_def app_only_accept app_only_sig_erase
      app_only_end_dialog app_only.refl split: option.split)

lemma app_only_conf_media: "app_only u (ensure_conf_media i u)"
  by (auto simp: app_only_def ensure_conf_media_def Let_def split_beta)

lemma app_only_begin_media: "app_only u (fst (begin_media i u))"
proof -
  have "app_only u (ensure_conf_media i v)" if "app_only u v" for v :: "'a ue_app_scheme"
    using that app_only_conf_media by (rule app_only.trans)
  then show ?thesis
    by (simp add: begin_media_def effect_defs split_beta Let_def send_sig_eq) (simp add: app_only_def)
qed

lemma app_only_sig_ack: "app_only u (on_sig_ack i u)"
proof -
  let ?v = "with_dialog i (\<lambda>d. d\<lparr>cd_established_log_done := True\<rparr>) u"
  have "app_only u ?v" by (simp add: app_only_def)
  then show ?thesis
    by (auto simp: on_sig_ack_def Let_def app_only.refl intro: app_only.trans app_only_conf_media)
qed

lemma app_only_on_invite: "app_only u (fst (on_invite src msg u))"
proof -
  have "app_only u (fst (send_sig i m u))" "app_only u (fst (send_sig_to m src cid k c u))" for i m cid k c
    by (rule app_only_sig)+
  then show ?thesis
    by (simp add: on_invite_def Let_def split_beta send_sig_eq split: option.split) (simp add: app_only_def)
qed

lemma app_only_handle_sig: "app_only u (fst (handle_sig src msg u))"
proof -
  have "app_only u (on_ringing i u)" for i by (simp add: app_only_def on_ringing_def)
  then show ?thesis
    by (cases "sm_method msg")
      (simp_all add: handle_sig_def Let_def app_only_on_invite app_only_begin_media app_only_sig_ack app_only_sig_erase app_only_sig
        app_only_erase app_only.refl)
qed

lemma app_only_streams: "app_only u (on_stream_ack pkt u)" "app_only u (on_stream_end pkt u)"
  by (auto simp: app_only_def on_stream_ack_def on_stream_end_def split: option.splits)

lemma app_only_open: "app_only u (open_in_stream i pkt u)"
  unfolding open_in_stream_def Let_def by (rule app_only.trans [OF _ app_only_sig_ack]) (simp add: app_only_def)

lemma app_only_on_media: "app_only u (fst (on_media pkt u))"
proof -
  have o: "app_only u (if c then open_in_stream i pkt u else u)" for c i by (simp add: app_only_open app_only.refl)
  have s: "app_only v (case r of None \<Rightarrow> v | Some j \<Rightarrow> v\<lparr>ua_in_streams := f j\<rparr>)" for v :: "'a ue_app_scheme" and r f
    by (simp add: app_only_def split: option.split)
  show ?thesis
  proof (cases "if up_conf_id pkt \<noteq> 0 then find_conf_dialog (up_conf_id pkt) u else find_media_dialog (up_src_imsi pkt) (up_kind pkt) u")
    case None
    show ?thesis unfolding on_media_def None option.case fst_conv by (rule app_only.refl)
  next
    case (Some i)
    show ?thesis unfolding on_media_def Some option.case Let_def by (rule app_only.trans [OF app_only.trans [OF o s] app_only_send_u2u])
  qed
qed

lemma app_only_handle_u2u: "app_only u (fst (handle_u2u pkt u))"
  by (simp add: handle_u2u_def app_only.refl app_only_streams app_only_on_media app_only_handle_sig split: option.split)
    (simp add: app_only_def)

lemma app_only_pings: "app_only u (handle_pong data u)" "app_only u (sweep_lost_pings u)" "app_only u (ping payload u)"
proof -
  show "app_only u (handle_pong data u)" "app_only u (sweep_lost_pings u)"
    by (auto simp: app_only_def handle_pong_def sweep_lost_pings_def Let_def split: option.split)
  show "app_only u (ping payload u)"
    unfolding ping_def Let_def by (rule app_only.trans [OF _ app_only_submit(1)]) (simp add: app_only_def)
qed

lemma app_only_app_sdu: "app_only u (fst (handle_app_sdu data u))"
  by (simp add: handle_app_sdu_def app_only_handle_u2u app_only_pings split: option.split)

lemma app_only_media_tick: "app_only u (fst (media_expired i u))"
  by (auto simp: media_expired_def send_media_tick_def Let_def app_only.refl split: option.split intro: app_only.trans [OF _ app_only_send_u2u])
    (simp add: app_only_def send_u2u_eq)

lemma app_only_expired:
  "app_only u (fst (first_response_expired p c u))" "app_only u (fst (no_answer_expired p c u))" "app_only u (fst (auto_answer_expired p c u))"
proof -
  have w: "app_only u (with_dialog i f u)" for i f by (simp add: app_only_def)
  show "app_only u (fst (first_response_expired p c u))" "app_only u (fst (no_answer_expired p c u))" "app_only u (fst (auto_answer_expired p c u))"
    by (auto simp: first_response_expired_def no_answer_expired_def auto_answer_expired_def Let_def app_only.refl w
        intro: app_only.trans [OF w app_only_sig_erase(2)] app_only.trans [OF w app_only_accept] split: option.split)
qed

lemma app_only_timer: "app_only u (fst (app_timer cb u))"
  by (cases cb) (simp_all add: app_only_expired app_only_media_tick app_only_pings app_only.refl,
      simp_all add: app_only_def sweep_stream_acks_def)

lemma app_only_stop: "app_only u (fst (stop_dialogs notify u))"
proof (induction notify u rule: stop_dialogs.induct)
  case (1 notify u)
  show ?case
  proof (cases "ua_dialogs u = []")
    case True
    then show ?thesis by (simp add: stop_dialogs.simps [of notify u] app_only.refl)
  next
    case False
    have "app_only u (fst (stop_signal notify u))" by (simp add: stop_signal_def app_only_sig app_only.refl)
    from app_only.trans [OF app_only.trans [OF this app_only_erase(1)] "1.IH" [OF False]] False show ?thesis
      by (simp add: stop_dialogs.simps [of notify u] split_beta)
  qed
qed

subsection \<open>The invariant of the node\<close>

text \<open>
  The HARQ sender is consistent, every queue is within its bound, the calls are well formed, and the
  identity of RRC agrees with its state. \<open>ue_fine n r\<close>: from a node that satisfies the invariant the
  attempt with result \<open>r\<close> returns, in a state that satisfies it again.
\<close>

definition ue_ok :: "ue_node \<Rightarrow> bool" where
  "ue_ok n \<longleftrightarrow> harq_tx_inv (un_harq_tx n) \<and> queues_bounded (ua_bearers n) \<and> calls_ok n \<and> rrc_ue_ok (un_rrc n)"

definition ue_keeps :: "ue_node \<Rightarrow> ue_node \<Rightarrow> bool" where
  "ue_keeps n n' \<longleftrightarrow> (ue_ok n \<longrightarrow> ue_ok n')"

definition ue_fine :: "ue_node \<Rightarrow> cpp_exception + ue_node \<times> air_frame list \<Rightarrow> bool" where
  "ue_fine n r \<longleftrightarrow> (ue_ok n \<longrightarrow> (\<exists>n' outs. r = Inr (n', outs) \<and> ue_ok n'))"

interpretation ue: guarded_steps ue_keeps ue_ok
  by unfold_locales (auto simp: ue_keeps_def)

lemma returns_fine: "returns_in ue_ok ue_keeps a \<longleftrightarrow> (\<forall>n. ue_fine n (a n))"
  by (auto simp: returns_in_def ue_fine_def ue_keeps_def)

lemma ue_fine_Inr: "ue_fine n (Inr r) \<longleftrightarrow> ue_keeps n (fst r)"
  by (cases r) (simp add: ue_fine_def ue_keeps_def)

lemma ue_fine_after: "ue_keeps n m \<Longrightarrow> ue_fine m r \<Longrightarrow> ue_fine n r"
  by (simp add: ue_fine_def ue_keeps_def)

lemma ue_fine_seq:
  assumes "ue_fine n (a n)" "\<And>m. ue_fine m (b m)"
  shows "ue_fine n (try_seq a b n)"
  using assms by (fastforce simp: ue_fine_def try_seq_def split: sum.splits)

lemma ue_fine_for: "(\<And>x m. ue_fine m (a x m)) \<Longrightarrow> ue_fine n (try_for a xs n)"
  using ue.returns_for [of a xs] by (simp add: returns_fine)

lemma ue_fine_act: "ue_keeps n (fst (a n)) \<Longrightarrow> ue_fine n (try_act a n)"
  by (simp add: try_act_def ue_fine_Inr)

lemma more_cong: "ue_app.more n' = ue_app.more n \<Longrightarrow> un_harq_tx n' = un_harq_tx n \<and> un_rrc n' = un_rrc n" for n n' :: ue_node
  by (cases n; cases n') simp

lemma ue_keeps_app: "app_only n n' \<Longrightarrow> calls_kept n n' \<Longrightarrow> ue_keeps n n'"
  using more_cong [of n' n] by (simp add: ue_keeps_def ue_ok_def app_only_def calls_kept_def)

lemma ue_keeps_frame:
  "un_harq_tx n' = un_harq_tx n \<Longrightarrow> un_rrc n' = un_rrc n \<Longrightarrow> ua_bearers n' = ua_bearers n \<Longrightarrow> ua_dialogs n' = ua_dialogs n \<Longrightarrow>
     ua_out_streams n' = ua_out_streams n \<Longrightarrow> ua_in_streams n' = ua_in_streams n \<Longrightarrow> ue_keeps n n'"
  by (simp add: ue_keeps_def ue_ok_def calls_ok_def)

lemma uplink_fine: "ue_fine n (uplink_send lcid sdu n)"
proof -
  obtain s n1 where s: "seal_uplink lcid sdu n = (s, n1)" by fastforce
  then have n1: "un_harq_tx n1 = un_harq_tx n" "ue_keeps n n1"
    by (auto simp: seal_uplink_def ue_keeps_def ue_ok_def calls_ok_def split: if_splits)
  show ?thesis
  proof (unfold ue_fine_def, intro impI)
    assume ok: "ue_ok n"
    then have "harq_tx_inv (un_harq_tx n1)" using n1 by (simp add: ue_ok_def)
    from harq_send_cases [OF this, of "build_pdu [(lcid, s)]"] ok n1(2)
    show "\<exists>n' outs. uplink_send lcid sdu n = Inr (n', outs) \<and> ue_ok n'"
      by (auto simp: uplink_send_def s ue_send_frame_def ue_keeps_def ue_ok_def calls_ok_def)
  qed
qed

lemma pop_next_queues_bounded: "pop_next s = Some ((c, p), s') \<Longrightarrow> queues_bounded s \<Longrightarrow> queues_bounded s'"
proof -
  assume pop: "pop_next s = Some ((c, p), s')" and b: "queues_bounded s"
  have "length (queue_of q s') \<le> length (queue_of q s)" for q
    using pop_next_split [OF pop] by (cases c) (auto, metis le_SucI length_Cons order_refl)
  with b show ?thesis by (meson order_trans queues_bounded_def)
qed

lemma pump_loop_fine: "ue_fine n (pump_loop n)"
proof (induction "bearers_total (ua_bearers n)" arbitrary: n rule: less_induct)
  case less
  show ?case
  proof (cases "bearers_empty (ua_bearers n) \<or> harq_in_flight (un_harq_tx n) \<ge> length (ht_procs (un_harq_tx n))")
    case True
    then show ?thesis by (subst pump_loop.simps) (simp add: ue_fine_def)
  next
    case False
    show ?thesis
    proof (cases "pop_next (ua_bearers n)")
      case None
      with False show ?thesis by (subst pump_loop.simps) (simp add: ue_fine_def)
    next
      case (Some r)
      then obtain c p b where pop: "pop_next (ua_bearers n) = Some ((c, p), b)" by (metis prod.collapse)
      let ?m = "n\<lparr>ua_bearers := b\<rparr>"
      have m: "ue_keeps n ?m" using pop_next_queues_bounded [OF pop] by (simp add: ue_keeps_def ue_ok_def calls_ok_def)
      show ?thesis
      proof (unfold ue_fine_def, intro impI)
        assume "ue_ok n"
        then obtain n1 o1 where 1: "uplink_send (ap_lcid p) (ap_bytes p) ?m = Inr (n1, o1)" "ue_ok n1"
          using ue_fine_after [OF m uplink_fine, of "ap_lcid p" "ap_bytes p"] by (auto simp: ue_fine_def)
        then have "bearers_total (ua_bearers n1) < bearers_total (ua_bearers n)"
          using uplink_send_bearers [OF 1(1)] pop_next_total [OF pop] by simp
        from less [OF this] 1(2) obtain n2 o2 where "pump_loop n1 = Inr (n2, o2)" "ue_ok n2"
          by (auto simp: ue_fine_def)
        with 1 False pop show "\<exists>n' outs. pump_loop n = Inr (n', outs) \<and> ue_ok n'"
          by (subst pump_loop.simps) simp
      qed
    qed
  qed
qed

lemma pump_fine: "ue_fine n (pump_app_bearers n)"
  by (simp add: pump_app_bearers_def pump_loop_fine ue_fine_Inr ue.refl)

lemma send_frame_id [simp]: "fst (ue_send_frame ty r p n) = n"
  by (simp add: ue_send_frame_def)

lemma keeps_harq:
  "(harq_tx_inv (un_harq_tx n) \<Longrightarrow> harq_tx_inv tx) \<Longrightarrow> ue_keeps n (n\<lparr>un_harq_tx := tx\<rparr>)"
  by (simp add: ue_keeps_def ue_ok_def calls_ok_def)

lemma keeps_pump_harq: "ue_keeps n (fst (pump_harq n))"
proof -
  obtain tx es where p: "harq_poll_timeouts (ua_now_ms n) (un_harq_tx n) = (tx, es)" by fastforce
  have "ue_keeps n (n\<lparr>un_harq_tx := tx\<rparr>)"
    by (rule keeps_harq) (use harq_poll_step [OF _ p] in blast)
  moreover have "ue_keeps m (fst (act_for (\<lambda>e n. ue_send_frame DATA (ua_crnti_cache n) (he_coded e) n) es m))" for m
    by (rule ue.for_steps) (simp add: ue.refl)
  ultimately show ?thesis unfolding pump_harq_def p by (simp add: ue.trans)
qed

lemma keeps_ack: "ue_keeps n (fst (ue_send_ack to res n))"
  by (simp add: ue_send_ack_def ue.refl keeps_harq harq_advance_def)

lemma rrc_send_fine: "ue_fine n (rrc_send_cb pdu n)"
  by (simp add: rrc_send_cb_def uplink_fine ue_fine_Inr ue_keeps_frame)

lemma nas_send_fine: "ue_fine n (nas_send_cb pdu n)"
  by (simp add: nas_send_cb_def uplink_fine)

lemma nas_do_fine: "ue_fine n (nas_do op n)"
  unfolding nas_do_def Let_def split_beta by (rule ue_fine_after [OF _ ue_fine_for]) (simp_all add: ue_keeps_frame nas_send_fine)

lemma keeps_schedule: "ue_keeps n (snd (ua_schedule d p cb n))"
  by (rule ue_keeps_frame) (simp_all add: ua_schedule_def split_beta)

lemma keeps_retry: "ue_keeps n (schedule_attach_retry env n)"
  by (rule ue_keeps_frame) (simp_all add: schedule_attach_retry_def ua_schedule_def split_beta)

lemma keeps_window: "ue_keeps n (schedule_rach_window_timer n)"
  by (rule ue_keeps_frame) (simp_all add: schedule_rach_window_timer_def ua_schedule_def split_beta Let_def)

lemma keeps_backoff: "ue_keeps n (schedule_backoff_then_retry env n)"
  by (rule ue_keeps_frame) (simp_all add: schedule_backoff_then_retry_def ua_schedule_def split_beta Let_def)

lemma keeps_rach_cb: "ue_keeps n (fst (rach_cb env out n))"
proof -
  have c: "ue_keeps n (schedule_rach_window_timer (n\<lparr>ua_crnti_cache := 0\<rparr>))"
    by (rule ue.trans [OF _ keeps_window]) (simp add: ue_keeps_frame)
  have i: "ue_keeps n (schedule_attach_retry env
      (if b then n\<lparr>ua_timers := t, un_rach_window_timer_running := False\<rparr> else n))" for b t
    by (rule ue.trans [OF _ keeps_retry]) (simp add: ue_keeps_frame)
  show ?thesis
    by (cases "(env, out, n)" rule: rach_cb.cases) (simp_all add: ue.refl keeps_window c i Let_def)
qed

lemma keeps_rach: "ue_keeps n (fst (rach_do env op n))"
  unfolding rach_do_def Let_def split_beta
  by (rule ue.trans [OF _ ue.for_steps]) (simp_all add: ue_keeps_frame keeps_rach_cb)

lemma rrc_ops_ok:
  "rrc_ue_ok u \<Longrightarrow> rrc_ue_ok (fst (rrc_ue_on_message pdu u))" "rrc_ue_ok u \<Longrightarrow> rrc_ue_ok (fst (start_connection c u))"
  "rrc_ue_ok u \<Longrightarrow> rrc_ue_ok (fst (rrc_release u))" "rrc_ue_ok u \<Longrightarrow> rrc_ue_ok (fst (request_suspend u))"
  "rrc_ue_ok u \<Longrightarrow> rrc_ue_ok (rrc_force_idle u)" "rrc_ue_ok u \<Longrightarrow> rrc_ue_ok (start_resume u)"
  "rrc_ue_ok u \<Longrightarrow> rrc_ue_ok (restore_connected r u)" "rrc_ue_ok u \<Longrightarrow> rrc_ue_ok (on_mib_received m u)" "rrc_ue_ok u \<Longrightarrow> rrc_ue_ok (on_sib1_received s u)"
  using rrc_ue_step_ok [of u "UeMsg pdu"] rrc_ue_step_ok [of u "UeStart c"] rrc_ue_step_ok [of u UeRelease] rrc_ue_step_ok [of u UeRequestSuspend]
    rrc_ue_step_ok [of u UeForceIdle] rrc_ue_step_ok [of u UeStartResume] rrc_ue_step_ok [of u "UeRestore r"] rrc_ue_step_ok [of u "UeMib m"]
    rrc_ue_step_ok [of u "UeSib1 s"]
  by simp_all

lemma rrc_do_fine:
  assumes "\<And>u. rrc_ue_ok u \<Longrightarrow> rrc_ue_ok (fst (op u))" "\<And>x m. ue_fine m (cb x m)"
  shows "ue_fine n (rrc_do cb op n)"
proof -
  have "ue_keeps n (n\<lparr>un_rrc := fst (op (un_rrc n))\<rparr>)"
    using assms(1) by (simp add: ue_keeps_def ue_ok_def calls_ok_def)
  then show ?thesis
    unfolding rrc_do_def Let_def split_beta by (rule ue_fine_after) (rule ue_fine_for, rule assms(2))
qed

lemma rrc_sends_fine: "ue_fine n (rrc_sends out n)"
  by (cases "(out, n)" rule: rrc_sends.cases) (simp_all add: rrc_send_fine ue_fine_Inr ue.refl)

text \<open>Updates of the fields the invariant looks at.\<close>

lemma reset_bearers_bounded [simp]: "queues_bounded (reset_bearers t s)"
proof -
  have "queue_of q (reset_bearers t s) = []" for q by (cases q) (simp_all add: reset_bearers_def Let_def)
  then show ?thesis by (simp add: queues_bounded_def)
qed

lemma ue_ok_upd:
  "ue_ok n \<Longrightarrow> ue_ok (reset_harq n)" "ue_ok n \<Longrightarrow> ue_ok (reset_user_plane n)" "ue_ok n \<Longrightarrow> ue_ok (n\<lparr>un_rrc := rrc_force_idle (un_rrc n)\<rparr>)"
  by (simp_all add: ue_ok_def reset_harq_def reset_user_plane_def harq_reset_inv rrc_ops_ok calls_ok_def)

lemma ue_ok_frame [simp]:
  "ue_ok (n\<lparr>ua_crnti_cache := a\<rparr>) = ue_ok n" "ue_ok (n\<lparr>un_nas := b\<rparr>) = ue_ok n" "ue_ok (n\<lparr>un_attach_requested := c\<rparr>) = ue_ok n"
  "ue_ok (n\<lparr>un_attach_guard_running := c\<rparr>) = ue_ok n" "ue_ok (n\<lparr>un_pending_ccch := d\<rparr>) = ue_ok n" "ue_ok (n\<lparr>un_suspended_crnti := a\<rparr>) = ue_ok n"
  "ue_ok (n\<lparr>un_detach_after_resume := c\<rparr>) = ue_ok n" "ue_ok (n\<lparr>un_resume_guard_running := c\<rparr>) = ue_ok n" "ue_ok (n\<lparr>un_reestablish_pending := c\<rparr>) = ue_ok n"
  "ue_ok (n\<lparr>un_up_sec_on := c\<rparr>) = ue_ok n" "ue_ok (n\<lparr>un_pdcp_seq := e\<rparr>) = ue_ok n" "ue_ok (n\<lparr>un_harq_rx := f\<rparr>) = ue_ok n"
  "ue_ok (n\<lparr>un_rach := g\<rparr>) = ue_ok n" "ue_ok (n\<lparr>un_serving_cell := a\<rparr>) = ue_ok n" "ue_ok (n\<lparr>un_last_dl_ms := h\<rparr>) = ue_ok n"
  "ue_ok (n\<lparr>ua_timers := t\<rparr>) = ue_ok n" "ue_ok (n\<lparr>un_reest_guard := h\<rparr>) = ue_ok n" "ue_ok (n\<lparr>un_meas_timer := h\<rparr>) = ue_ok n"
  "ue_ok (n\<lparr>un_pre_rlf_crnti := a\<rparr>) = ue_ok n" "ue_ok (n\<lparr>un_reest_req_pdu := d\<rparr>) = ue_ok n" "ue_ok (n\<lparr>un_mib_ok := c\<rparr>) = ue_ok n"
  "ue_ok (n\<lparr>un_sib1_ok := c\<rparr>) = ue_ok n" "ue_ok (n\<lparr>un_cells := i\<rparr>) = ue_ok n" "ue_ok (n\<lparr>un_up_key := d\<rparr>) = ue_ok n"
  "ue_ok (n\<lparr>un_tpc_accum_db := j\<rparr>) = ue_ok n" "ue_ok (n\<lparr>ua_now_ms := h\<rparr>) = ue_ok n" "ue_ok (n\<lparr>un_rach_window_timer_running := c\<rparr>) = ue_ok n"
  "ue_ok (n\<lparr>un_link_timer := h\<rparr>) = ue_ok n" "ue_ok (n\<lparr>un_draws := k\<rparr>) = ue_ok n" "ue_ok (n\<lparr>ua_traffic_timer := h\<rparr>) = ue_ok n"
  "ue_ok (n\<lparr>ua_loss_sweep_timer := h\<rparr>) = ue_ok n" "ue_ok (n\<lparr>ua_stats_timer := h\<rparr>) = ue_ok n"
  by (simp_all add: ue_ok_def calls_ok_def)

lemma ue_ok_schedule [simp]: "ue_ok (snd (ua_schedule d p cb n)) = ue_ok n"
  by (simp add: ua_schedule_def split_beta)

lemma ue_ok_small [simp]:
  "ue_ok (stop_measurements n) = ue_ok n" "ue_ok (start_measurements n) = ue_ok n" "ue_ok (select_serving_cell env n) = ue_ok n"
  "ue_ok (aim_rach n) = ue_ok n" "ue_ok (start_attach_guard n) = ue_ok n" "ue_ok (start_resume_guard n) = ue_ok n" "ue_ok (start_reest_guard n) = ue_ok n"
  "ue_ok (note_cell sib n) = ue_ok n" "ue_ok (arm_security n) = ue_ok n" "ue_ok (ensure_link_timer n) = ue_ok n" "ue_ok (traffic_timers i n) = ue_ok n"
  by (simp_all add: stop_measurements_def start_measurements_def select_serving_cell_def aim_rach_def start_attach_guard_def
      start_resume_guard_def start_reest_guard_def note_cell_def arm_security_def ensure_link_timer_def traffic_timers_def Let_def split_beta)

lemma ue_ok_stop_traffic [simp]: "ue_ok (stop_traffic n) = ue_ok n"
  unfolding stop_traffic_def fold_ua_cancel by simp

lemma ue_keepsI: "(ue_ok n \<Longrightarrow> ue_ok n') \<Longrightarrow> ue_keeps n n'"
  by (simp add: ue_keeps_def)

lemma stop_streams_fine: "ue_fine n (stop_streams notify n)"
proof -
  have "calls_kept n (fst (stop_dialogs notify n))" using stop_dialogs_ok [of n notify] by (simp add: calls_kept_def)
  then have "ue_keeps n (fst (app_do (stop_dialogs notify) n))"
    by (simp add: app_do_def ue_keeps_app app_only_stop)
  then show ?thesis
    unfolding stop_streams_def
    by (intro ue_fine_seq ue_fine_act) (simp_all add: pump_fine ue_fine_Inr ue.refl effect_defs)
qed

lemma rach_fine: "ue_fine n (try_act (rach_do env op) n)"
  by (rule ue_fine_act) (rule keeps_rach)

lemma maybe_start_attach_fine: "ue_fine n (maybe_start_attach env n)"
proof -
  let ?n1 = "(aim_rach (select_serving_cell env n))\<lparr>un_pending_ccch := []\<rparr>"
  let ?run = "try_seq (rrc_do rrc_sends (start_connection (un_serving_cell ?n1)))
          (try_act (act_seq (act_upd start_attach_guard) (rach_do env start_rach)))"
  have g: "ue_keeps m (fst (act_seq (act_upd start_attach_guard) (rach_do env start_rach) m))" for m
    by (intro ue.seq_steps ue.upd_step keeps_rach) (simp add: ue_keeps_def)
  have "ue_fine ?n1 (?run ?n1)"
    by (intro ue_fine_seq rrc_do_fine ue_fine_act) (simp_all add: rrc_ops_ok rrc_sends_fine g)
  then have "ue_fine n (?run ?n1)" by (rule ue_fine_after [rotated]) (simp add: ue_keeps_def)
  moreover have "ue_keeps n (fst (rach_do env start_rach (n\<lparr>un_pending_ccch := c\<rparr>)))" for c
    by (rule ue.trans [OF _ keeps_rach]) (simp add: ue_keeps_def)
  ultimately show ?thesis
    by (simp add: maybe_start_attach_def ue_fine_Inr ue.refl Let_def)
qed

lemma attach_fine: "ue_fine n (attach env n)"
  unfolding attach_def by (rule ue_fine_after [OF _ maybe_start_attach_fine]) (simp add: ue_keeps_def)

lemma abort_attach_fine: "ue_fine n (abort_attach env n)"
  unfolding abort_attach_def
proof (rule ue_fine_after [OF _ ue_fine_seq])
  show "ue_keeps n (n\<lparr>un_attach_requested := False, un_attach_guard_running := False, un_pending_ccch := []\<rparr>)"
    by (simp add: ue_keeps_frame)
  show "ue_fine m (try_seq (\<lambda>n. stop_streams False
                  (stop_traffic (n\<lparr>un_rrc := rrc_force_idle (un_rrc n), ua_crnti_cache := 0, un_nas := force_deregistered (un_nas n)\<rparr>)))
          (try_act (act_upd (\<lambda>n. reset_user_plane (stop_measurements n)))) m)" for m
    by (rule ue_fine_seq, rule ue_fine_after [OF _ stop_streams_fine])
      (simp_all add: ue_keeps_def ue_ok_upd ue_fine_Inr effect_defs)
qed (rule rach_fine)

lemma keeps_wake: "ue_keeps n (fst (wake env n))"
proof -
  have "ue_keeps n (n\<lparr>un_pending_ccch := c, un_rrc := start_resume (un_rrc n)\<rparr>)" for c
    by (simp add: ue_keeps_def ue_ok_def calls_ok_def rrc_ops_ok)
  moreover have "ue_keeps m (fst (act_seq (rach_do env rach_force_idle)
          (act_seq (act_upd (\<lambda>n. start_resume_guard (aim_rach n))) (rach_do env start_rach)) m))" for m
    by (intro ue.seq_steps ue.upd_step keeps_rach) (simp add: ue_keeps_def)
  ultimately show ?thesis by (simp add: wake_def ue.refl) (blast intro: ue.trans)
qed

lemma sleep_fine: "ue_fine n (ue_sleep n)"
  by (simp add: ue_sleep_def ue_fine_Inr ue.refl rrc_do_fine rrc_ops_ok rrc_sends_fine)

lemma detach_fine: "ue_fine n (detach env n)"
proof -
  have "ue_keeps n (fst (wake env (n\<lparr>un_detach_after_resume := True\<rparr>)))"
    by (rule ue.trans [OF _ keeps_wake]) (simp add: ue_keeps_def)
  moreover have "ue_keeps m (fst (act_seq (act_seq (act_upd (\<lambda>n. n\<lparr>ua_crnti_cache := 0\<rparr>)) (rach_do env rach_force_idle))
       (act_upd (\<lambda>n. reset_user_plane (stop_measurements (stop_traffic (n\<lparr>un_pending_ccch := [], un_attach_requested := False\<rparr>))))) m))" for m
    by (intro ue.seq_steps ue.upd_step keeps_rach) (simp_all add: ue_keeps_def ue_ok_upd)
  ultimately show ?thesis
    by (simp add: detach_def ue_fine_Inr ue.refl)
      (intro impI ue_fine_seq stop_streams_fine nas_do_fine rrc_do_fine ue_fine_act rrc_sends_fine, simp_all add: rrc_ops_ok)
qed

lemma full_reattach_fine: "ue_fine n (full_reattach env n)"
  unfolding full_reattach_def
  by (intro ue_fine_seq attach_fine, rule ue_fine_after [OF _ stop_streams_fine]) (simp add: ue_keeps_def)

lemma rrc_cb_fine: "ue_fine n (rrc_cb env out n)"
proof (cases out)
  case (RrcSend pdu)
  then show ?thesis by (simp add: rrc_send_fine)
next
  case (RrcSuspended rid)
  then show ?thesis by (simp add: ue_fine_Inr ue_keeps_def ue_ok_upd)
next
  case (RrcResumed ok r)
  have d: "ue_fine m (if un_detach_after_resume m then detach env (m\<lparr>un_detach_after_resume := False\<rparr>) else Inr (m, []))" for m
    by (auto simp: ue_fine_Inr ue.refl intro!: ue_fine_after [OF _ detach_fine]) (simp add: ue_keeps_def)
  have 1: "ue_fine n (try_seq pump_app_bearers
      (\<lambda>n. if un_detach_after_resume n then detach env (n\<lparr>un_detach_after_resume := False\<rparr>) else Inr (n, []))
      (reset_harq (n\<lparr>un_resume_guard_running := False, ua_crnti_cache := r\<rparr>)))"
    by (rule ue_fine_after [OF _ ue_fine_seq]) (simp_all only: pump_fine d, simp add: ue_keeps_def ue_ok_upd)
  have 2: "ue_fine n (try_seq (try_act (rach_do env rach_force_idle)) (full_reattach env)
          (n\<lparr>un_resume_guard_running := False, un_suspended_crnti := 0, ua_crnti_cache := 0\<rparr>))"
    by (rule ue_fine_after [OF _ ue_fine_seq]) (simp_all add: full_reattach_fine rach_fine ue_keeps_def)
  show ?thesis using RrcResumed 1 2 by simp
qed

lemma handover_fine: "ue_fine n (apply_handover cell r n)"
  unfolding apply_handover_def
  by (rule ue_fine_after [OF _ uplink_fine])
    (simp add: ue_keeps_def ue_ok_def reset_harq_def harq_reset_inv rrc_ops_ok calls_ok_def)

lemma keeps_rlf: "ue_keeps n (fst (declare_rlf env n))"
proof -
  have "ue_keeps n ((reset_harq n)\<lparr>un_pre_rlf_crnti := a, un_reestablish_pending := True, ua_bearers := reset_bearers False (ua_bearers n)\<rparr>)" for a
    by (simp add: ue_keeps_def ue_ok_def reset_harq_def harq_reset_inv calls_ok_def)
  moreover have "ue_keeps m (fst (act_seq (rach_do env rach_force_idle)
       (act_seq (act_upd (\<lambda>n. (start_reest_guard
             (n\<lparr>un_rrc := rrc_force_idle (un_rrc n), ua_crnti_cache := 0, un_reest_req_pdu := reest_request n,
                un_pending_ccch := reest_request n\<rparr>))\<lparr>un_attach_requested := True\<rparr>))
          (rach_do env start_rach)) m))" for m
    by (intro ue.seq_steps ue.upd_step keeps_rach) (simp add: ue_keeps_def ue_ok_upd)
  ultimately show ?thesis unfolding declare_rlf_def by (rule ue.trans)
qed

lemma reestablish_failed_fine: "ue_fine n (reestablish_failed env n)"
  unfolding reestablish_failed_def
  by (rule ue_fine_after [OF _ ue_fine_seq], simp add: ue_keeps_def, rule rach_fine, rule ue_fine_after [OF _ maybe_start_attach_fine])
    (simp add: ue_keeps_def ue_ok_upd)

lemma attach_request_fine: "ue_fine n (maybe_send_attach_request n)"
proof -
  have "ue_fine n (try_seq (nas_do op) (try_act (act_upd start_measurements)) n)" for op
    by (intro ue_fine_seq nas_do_fine ue_fine_act) (simp add: act_upd_def ue_keeps_def)
  then show ?thesis by (simp add: maybe_send_attach_request_def ue_fine_Inr ue.refl)
qed

lemma ccch_fine: "ue_fine n (ue_on_ccch env sdu n)"
proof -
  have "ue_keeps n (n\<lparr>un_reestablish_pending := False, ua_crnti_cache := r, un_rrc := restore_connected r (un_rrc n), un_harq_rx := harq_rx_reset\<rparr>)" for r
    by (simp add: ue_keeps_def ue_ok_def calls_ok_def rrc_ops_ok)
  moreover have "ue_fine n (try_seq (rrc_do (rrc_cb env) (rrc_ue_on_message sdu))
          (\<lambda>n. maybe_send_attach_request (n\<lparr>un_harq_rx := harq_rx_reset\<rparr>)) n)"
    by (intro ue_fine_seq rrc_do_fine rrc_cb_fine, simp add: rrc_ops_ok, rule ue_fine_after [OF _ attach_request_fine])
      (simp add: ue_keeps_def)
  ultimately show ?thesis
    by (simp add: ue_on_ccch_def Let_def ue_fine_Inr ue.refl handover_fine reestablish_failed_fine)
qed

lemma sysinfo_fine: "ue_fine n (handle_sysinfo_sdu env lcid sdu bc n)"
proof -
  have "ue_fine n (maybe_start_attach env (n\<lparr>un_mib_ok := True, un_rrc := on_mib_received m (un_rrc n)\<rparr>))" for m
    by (rule ue_fine_after [OF _ maybe_start_attach_fine]) (simp add: ue_keeps_def ue_ok_def calls_ok_def rrc_ops_ok)
  moreover have "ue_fine n (maybe_start_attach env (note_cell s (n\<lparr>un_sib1_ok := True, un_rrc := on_sib1_received s (un_rrc n)\<rparr>)))" for s
    by (rule ue_fine_after [OF _ maybe_start_attach_fine]) (simp add: ue_keeps_def, simp add: ue_ok_def calls_ok_def rrc_ops_ok)
  ultimately show ?thesis
    by (simp add: handle_sysinfo_sdu_def ue_fine_Inr ue.refl keeps_wake attach_fine)
qed

lemma keeps_deliver: "ue_keeps n (fst (deliver_app datas n))"
  unfolding deliver_app_def
  by (rule ue.for_steps) (simp add: app_do_def ue_keeps_app app_only_app_sdu handle_app_sdu_kept)

lemma keeps_bearers:
  "ua_bearers n' = b \<Longrightarrow> queues_bounded b = queues_bounded (ua_bearers n) \<Longrightarrow> n' = n\<lparr>ua_bearers := b\<rparr> \<Longrightarrow> ue_keeps n n'"
  by (simp add: ue_keeps_def ue_ok_def calls_ok_def)

lemma keeps_enqueue: "ue_keeps n (enqueue_app_pdu q lcid pdu n)" "ue_keeps n (enqueue_all q pdus n)" "ue_keeps n (enqueue_status q n)"
proof -
  have c: "calls_kept n (enqueue_app_pdu q lcid pdu n)" for n :: ue_node and q lcid pdu
    by (simp add: calls_kept_def calls_ok_def enqueue_app_pdu_def Let_def)
  show "ue_keeps n (enqueue_app_pdu q lcid pdu n)" by (rule ue_keeps_app [OF app_only_enqueue c])
  show "ue_keeps n (enqueue_status q n)" unfolding enqueue_status_def by (rule ue_keeps_app [OF app_only_enqueue c])
  show "ue_keeps n (enqueue_all q pdus n)"
    unfolding enqueue_all_def by (rule ue.fold_steps) (rule ue_keeps_app [OF app_only_enqueue c])
qed

lemma keeps_am_outcome: "ue_keeps n (fst (am_outcome_do q r n))"
proof -
  obtain rx out where r: "r = (rx, out)" by (cases r)
  have "ue_keeps n (n\<lparr>ua_bearers := am_of_update q (\<lambda>b. b\<lparr>b_rx := rx\<rparr>) (ua_bearers n)\<rparr>)"
    by (rule keeps_bearers) simp_all
  moreover have "ue_keeps m (fst (act_seq (deliver_app (ao_delivered out)) (act_upd (\<lambda>n. if ao_status_needed out then enqueue_status q n else n)) m))" for m
    by (intro ue.seq_steps ue.upd_step keeps_deliver) (simp add: keeps_enqueue ue.refl)
  ultimately show ?thesis unfolding am_outcome_do_def r prod.case by (rule ue.trans)
qed

lemma keeps_um_outcome: "ue_keeps n (fst (um_outcome_do q rx n))"
proof -
  have "ue_keeps n (n\<lparr>ua_bearers := um_of_update q (\<lambda>b. b\<lparr>b_rx := rx'\<rparr>) (ua_bearers n)\<rparr>)" for rx'
    by (rule keeps_bearers) simp_all
  then show ?thesis unfolding um_outcome_do_def Let_def split_beta by (rule ue.trans) (rule keeps_deliver)
qed

lemma keeps_on_app: "ue_keeps n (fst (ue_on_app q sdu n))"
  by (simp add: ue_on_app_def ue.refl keeps_am_outcome keeps_um_outcome split: option.split)

lemma keeps_ue_status: "ue_keeps n (ue_on_status q sdu n)"
proof -
  have "ue_keeps n (n\<lparr>ua_bearers := am_of_update q (\<lambda>b. b\<lparr>b_tx := tx\<rparr>) (ua_bearers n)\<rparr>)" for tx
    by (rule keeps_bearers) simp_all
  then show ?thesis unfolding ue_on_status_def Let_def split_beta by (rule ue.trans) (rule keeps_enqueue(2))
qed

lemma keeps_on_ack: "ue_keeps n (fst (ue_on_harq_ack sdu n))"
proof -
  have "ue_keeps n (n\<lparr>un_harq_tx := fst (harq_on_nack p (harq_advance t (un_harq_tx n)))\<rparr>)" for p t
    by (rule keeps_harq) (simp add: harq_on_nack_inv harq_advance_def)
  moreover have "ue_keeps n (n\<lparr>un_harq_tx := harq_on_ack p (harq_advance t (un_harq_tx n))\<rparr>)" for p t
    by (rule keeps_harq) (simp add: harq_on_ack_inv harq_advance_def)
  ultimately show ?thesis
    by (auto simp: ue_on_harq_ack_def Let_def ue.refl split: prod.split option.split) (metis fst_conv)+
qed

lemma nas_fine: "ue_fine n (ue_on_nas sdu n)"
proof -
  have "ue_fine n (try_seq (nas_do op) (try_act (act_upd (\<lambda>n. let m = arm_security n in if registered m then start_measurements m else m))) n)" for op
    by (intro ue_fine_seq nas_do_fine ue_fine_act) (simp add: act_upd_def ue_keeps_def Let_def)
  then show ?thesis by (simp add: ue_on_nas_def ue_fine_Inr ue.refl split: option.split)
qed

lemma dedicated_fine: "ue_fine n (handle_dedicated_sdu env lcid sdu n)"
proof -
  have "ue_keeps n (n\<lparr>un_tpc_accum_db := x\<rparr>)" for x by (simp add: ue_keeps_def)
  then show ?thesis
    by (simp add: handle_dedicated_sdu_def ccch_fine nas_fine ue_fine_Inr ue.refl keeps_on_app keeps_ue_status keeps_on_ack split: option.split)
qed

lemma sdu_fine: "ue_fine n (ue_on_sdu env rnti e n)"
  by (simp add: ue_on_sdu_def sysinfo_fine dedicated_fine ue_fine_Inr ue.refl split: prod.split)

text \<open>The one operation of the terminal that can throw is the decoder of HARQ, on a frame it cannot decode.\<close>

definition harq_decodes :: "harq_rx \<Rightarrow> bytes \<Rightarrow> bool" where
  "harq_decodes rx payload \<longleftrightarrow> is_harq_framed payload \<longrightarrow> (\<exists>r. harq_receive rx payload = Inr r)"

lemma data_pdu_fine:
  assumes "harq_decodes (un_harq_rx n) payload"
  shows "ue_fine n (handle_data_pdu env rnti payload n)"
proof -
  let ?n0 = "if rnti \<noteq> RNTI_BROADCAST then n\<lparr>un_last_dl_ms := ua_now_ms n\<rparr> else n"
  have n0: "ue_keeps n ?n0" "un_harq_rx ?n0 = un_harq_rx n" by (simp_all add: ue_keeps_def)
  show ?thesis
  proof (cases "is_harq_framed payload")
    case False
    have "ue_fine ?n0 (try_for (ue_on_sdu env rnti) (parse_pdu payload) ?n0)" by (rule ue_fine_for) (rule sdu_fine)
    with n0(1) have "ue_fine n (try_for (ue_on_sdu env rnti) (parse_pdu payload) ?n0)" by (rule ue_fine_after)
    with False show ?thesis unfolding handle_data_pdu_def Let_def by (simp only: if_False)
  next
    case True
    then obtain rx res where r: "harq_receive (un_harq_rx n) payload = Inr (rx, res)" using assms by (auto simp: harq_decodes_def)
    let ?rest = "if hr_delivered res then try_for (ue_on_sdu env rnti) (parse_pdu (hr_mac_pdu res)) else try_act (act_upd (\<lambda>n. n))"
    have "ue_fine m (?rest m)" for m by (simp add: ue_fine_for sdu_fine effect_defs ue_fine_Inr ue.refl)
    then have "ue_fine m (try_seq (try_act (ue_send_ack rnti res)) ?rest m)" for m
      by (intro ue_fine_seq ue_fine_act keeps_ack)
    moreover have "ue_keeps n (?n0\<lparr>un_harq_rx := rx\<rparr>)" by (simp add: ue_keeps_def)
    ultimately have "ue_fine n (try_seq (try_act (ue_send_ack rnti res)) ?rest (?n0\<lparr>un_harq_rx := rx\<rparr>))"
      by (blast intro: ue_fine_after)
    then show ?thesis
      unfolding handle_data_pdu_def Let_def n0(2) r sum.case prod.case using True by (simp only: if_True)
  qed
qed

lemma data_pdu_ok:
  assumes "ue_ok n" "handle_data_pdu env rnti payload n = Inr (n', outs)"
  shows "ue_ok n'"
proof -
  have "harq_decodes (un_harq_rx n) payload"
    using assms(2) by (cases "harq_receive (un_harq_rx n) payload")
      (simp_all add: harq_decodes_def handle_data_pdu_def Let_def split: if_splits)
  from data_pdu_fine [OF this, of env rnti] assms show ?thesis by (simp add: ue_fine_def)
qed

lemma ue_handle_air_frame_data:
  "snd (snd (ue_handle_air_frame ccch frame st)) = Some (rnti, payload) \<Longrightarrow>
     af_type frame = DATA \<and> payload = af_payload frame \<and> fst (ue_handle_air_frame ccch frame st) = st \<and> fst (snd (ue_handle_air_frame ccch frame st)) = []"
  by (auto simp: ue_handle_air_frame_def split: air_frame_type.splits if_splits prod.splits)

lemma frame_fine:
  assumes "af_type frame = DATA \<Longrightarrow> harq_decodes (un_harq_rx n) (af_payload frame)"
  shows "ue_fine n (ue_on_frame env frame n)"
proof -
  obtain r cache outs data where h: "ue_handle_air_frame (un_pending_ccch n) frame (un_rach n, ua_crnti_cache n) = ((r, cache), outs, data)"
    by (metis prod.collapse)
  let ?m = "n\<lparr>un_rach := r, ua_crnti_cache := cache\<rparr>"
  have m: "ue_keeps n ?m" by (simp add: ue_keeps_def)
  have f: "ue_fine ?m (try_act (act_for (rach_cb env) outs) ?m)"
    by (rule ue_fine_act) (rule ue.for_steps, rule keeps_rach_cb)
  show ?thesis
  proof (cases data)
    case None
    have "ue_fine ?m (try_seq (try_act (act_for (rach_cb env) outs)) (try_act (act_upd (\<lambda>n. n))) ?m)"
      by (rule ue_fine_seq) (rule f, simp add: effect_defs ue_fine_Inr ue.refl)
    with m show ?thesis unfolding ue_on_frame_def Let_def h prod.case None option.case by (rule ue_fine_after)
  next
    case (Some d)
    then obtain rnti where d: "data = Some (rnti, af_payload frame)" "af_type frame = DATA" "outs = []"
      using ue_handle_air_frame_data [of "un_pending_ccch n" frame "(un_rach n, ua_crnti_cache n)" "fst d" "snd d"] h by (cases d) auto
    have "ue_fine ?m (handle_data_pdu env rnti (af_payload frame) ?m)"
      by (rule data_pdu_fine) (use assms d(2) in simp)
    moreover have "try_seq (try_act (act_for (rach_cb env) [])) (handle_data_pdu env rnti (af_payload frame)) ?m = handle_data_pdu env rnti (af_payload frame) ?m"
      by (simp add: effect_defs split: sum.split)
    ultimately show ?thesis
      using m unfolding ue_on_frame_def Let_def h prod.case d(1,3) option.case by (simp add: ue_fine_after)
  qed
qed

lemma ue_on_frame_ok:
  assumes "ue_ok n" "ue_on_frame env frame n = Inr (n', outs)"
  shows "ue_ok n'"
proof (cases "af_type frame = DATA \<and> \<not> harq_decodes (un_harq_rx n) (af_payload frame)")
  case False
  then have "ue_fine n (ue_on_frame env frame n)" by (intro frame_fine) simp
  with assms show ?thesis by (simp add: ue_fine_def)
next
  case True
  have "af_rnti frame \<noteq> ua_crnti_cache n \<and> af_rnti frame \<noteq> RNTI_BROADCAST \<or>
      handle_data_pdu env (af_rnti frame) (af_payload frame) n = Inr (n', outs)"
    using assms(2) True by (auto simp: ue_on_frame_def ue_handle_air_frame_def effect_defs split: sum.splits)
  moreover have "n' = n" if "af_rnti frame \<noteq> ua_crnti_cache n \<and> af_rnti frame \<noteq> RNTI_BROADCAST"
    using assms(2) True that by (auto simp: ue_on_frame_def ue_handle_air_frame_def effect_defs)
  ultimately show ?thesis using assms(1) data_pdu_ok by blast
qed

lemma keeps_when_registered: "(\<And>m. ue_keeps m (fst (a m))) \<Longrightarrow> ue_keeps n (fst (when_registered env a n))"
  unfolding when_registered_def
  by (simp add: ue.refl) (intro impI ue.seq_steps, simp_all add: maybe_wake_for_activity_def keeps_wake ue.refl)

lemma keeps_app_do: "app_only n (fst (a n)) \<Longrightarrow> calls_kept n (fst (a n)) \<Longrightarrow> ue_keeps n (fst (app_do a n))"
  by (simp add: app_do_def ue_keeps_app)

lemma ping_kept: "calls_kept u (ping payload u)"
proof -
  have "calls_kept v (submit_am q sdu force v)" for v :: "'a ue_app_scheme" and q sdu force
    using bearers_only_submit(1) [of v q sdu force] by (auto simp: bearers_only_def calls_kept_def calls_ok_def)
  then show ?thesis
    unfolding ping_def Let_def by (rule calls.trans [rotated]) (simp add: calls_kept_def calls_ok_def)
qed

lemma keeps_ping: "ue_keeps n (fst (send_app_data env payload n))"
  unfolding send_app_data_def
  by (rule keeps_when_registered) (simp add: act_upd_def ue_keeps_app app_only_pings ping_kept)

lemma keeps_msg: "ue_keeps n (fst (send_msg env dst txt n))"
  unfolding send_msg_def
  by (intro keeps_when_registered keeps_app_do) (simp_all add: app_only_send_u2u calls_kept_sig)

lemma keeps_call: "ue_keeps n (fst (start_call env kind dst n))"
  unfolding start_call_def by (intro keeps_when_registered keeps_app_do app_only_dial dial_kept)

lemma keeps_traffic: "ue_keeps n (fst (start_traffic env interval n))"
  unfolding start_traffic_def by (rule keeps_when_registered) (simp add: act_upd_def ue_keeps_def)

lemma attach_retry_fine: "ue_fine n (attach_retry_expired env n)"
proof -
  have "ue_fine n (maybe_start_attach env (n\<lparr>un_rrc := rrc_force_idle (un_rrc n), ua_crnti_cache := 0\<rparr>))"
    by (rule ue_fine_after [OF _ maybe_start_attach_fine]) (simp add: ue_keeps_def ue_ok_upd)
  then show ?thesis by (simp add: attach_retry_expired_def ue_fine_Inr ue.refl)
qed

lemma resume_guard_fine: "ue_fine n (resume_guard_expired env n)"
proof -
  have "ue_fine m (full_reattach env (m\<lparr>un_rrc := rrc_force_idle (un_rrc m), un_suspended_crnti := 0\<rparr>))" for m
    by (rule ue_fine_after [OF _ full_reattach_fine]) (simp add: ue_keeps_def ue_ok_upd)
  then have "ue_fine m (try_seq (try_act (rach_do env rach_force_idle))
          (\<lambda>n. full_reattach env (n\<lparr>un_rrc := rrc_force_idle (un_rrc n), un_suspended_crnti := 0\<rparr>)) m)" for m
    by (intro ue_fine_seq rach_fine)
  moreover have "ue_keeps n (n\<lparr>un_resume_guard_running := False\<rparr>)" by (simp add: ue_keeps_def)
  ultimately have "ue_fine n (try_seq (try_act (rach_do env rach_force_idle))
          (\<lambda>n. full_reattach env (n\<lparr>un_rrc := rrc_force_idle (un_rrc n), un_suspended_crnti := 0\<rparr>)) (n\<lparr>un_resume_guard_running := False\<rparr>))"
    by (blast intro: ue_fine_after)
  then show ?thesis by (simp add: resume_guard_expired_def ue_fine_Inr ue.refl ue_keeps_def)
qed

lemma keeps_rach_window: "ue_keeps n (fst (rach_window_expired env n))"
proof -
  have k: "ue_keeps n (n\<lparr>un_rach_window_timer_running := False\<rparr>)" by (simp add: ue_keeps_def)
  show ?thesis
    using ue.trans [OF k keeps_backoff] ue.trans [OF k keeps_rach] k by (simp add: rach_window_expired_def Let_def)
qed

lemma report_fine: "ue_fine n (send_measurement_report env n)"
  by (simp add: send_measurement_report_def uplink_fine)

lemma timer_cb_fine: "ue_fine n (ue_timer_cb env cb n)"
proof -
  have "ue_fine n (abort_attach env (n\<lparr>un_attach_guard_running := False\<rparr>))" "ue_fine n (reestablish_failed env (n\<lparr>un_reest_guard := 0\<rparr>))"
    by (rule ue_fine_after [OF _ abort_attach_fine] ue_fine_after [OF _ reestablish_failed_fine]; simp add: ue_keeps_def)+
  moreover have "ue_keeps n (n\<lparr>un_attach_guard_running := False\<rparr>)" "ue_keeps n (n\<lparr>un_reest_guard := 0\<rparr>)"
    by (simp_all add: ue_keeps_def)
  moreover have "ue_keeps n (fst (app_do (app_timer c) n))" for c
    by (rule keeps_app_do [OF app_only_timer app_timer_kept])
  ultimately show ?thesis
    by (cases cb) (simp_all add: Let_def ue_fine_Inr ue.refl keeps_rach_window keeps_rach attach_retry_fine resume_guard_fine
        report_fine keeps_ping)
qed

lemma fire_fine: "ue_fine n (ue_fire_one env now i n)"
proof -
  have "ue_fine n (ue_timer_cb env cb (n\<lparr>ua_timers := t\<rparr>))" for cb t
    by (rule ue_fine_after [OF _ timer_cb_fine]) (simp add: ue_keeps_def)
  then show ?thesis by (simp add: ue_fire_one_def Let_def ue_fine_Inr ue.refl split: option.split)
qed

lemma timers_fine: "ue_fine n (ue_timers_tick env n)"
  unfolding ue_timers_tick_def Let_def
  by (rule ue_fine_after [OF _ ue_fine_for]) (rule ue_keepsI, simp, rule fire_fine)

lemma keeps_service: "ue_keeps n (fst (service_am q n))" "ue_keeps n (fst (service_um_rx q n))"
proof -
  have "ue_keeps n (n\<lparr>ua_bearers := am_of_update q (\<lambda>b. b\<lparr>b_tx := tx\<rparr>) (ua_bearers n)\<rparr>)" for tx
    by (rule keeps_bearers) simp_all
  then show "ue_keeps n (fst (service_am q n))"
    unfolding service_am_def service_am_rx_def Let_def split_beta
    by (rule ue.trans [OF ue.trans [OF _ keeps_enqueue(2)] keeps_am_outcome])
  show "ue_keeps n (fst (service_um_rx q n))" unfolding service_um_rx_def by (rule keeps_um_outcome)
qed

lemma tick_fine: "ue_fine n (ue_tick env now n)"
proof -
  have a: "ue_keeps m (fst (act_seq pump_harq (act_seq (act_upd ensure_link_timer)
       (act_seq (act_for service_am [QCI_SIG, QCI_BEST_EFFORT]) (act_for service_um_rx [QCI_VOICE, QCI_VIDEO]))) m))" for m
    by (intro ue.seq_steps ue.upd_step ue.for_steps keeps_pump_harq keeps_service) (simp add: ue_keeps_def)
  have r: "ue_fine m (if rlf_due m then Inr (declare_rlf env m) else Inr (m, []))" for m
    by (simp add: ue_fine_Inr keeps_rlf ue.refl)
  show ?thesis
    unfolding ue_tick_def
    by (rule ue_fine_after [OF _ ue_fine_seq], simp add: ue_keeps_def, rule timers_fine)
      (intro ue_fine_seq ue_fine_act a pump_fine r)
qed

subsection \<open>The terminal under arbitrary inputs\<close>

datatype ue_input =
    UeTick u32 | UeBits "u8 list" | UeAttach | UeDetach | UeSleep | UeWake | UePing bytes | UeTraffic u32 | UeStopTraffic
  | UeText cstring cstring | UeCall media_kind cstring | UeConf cstring cstring | UeAnswer | UeDecline | UeEndCall
  | UeEndCallKind media_kind | UeEndConf | UeAutoAnswer u32 | UeUsim bytes

text \<open>\<open>None\<close>: the input is never done with.\<close>

fun ue_input_do :: "ue_env \<Rightarrow> ue_input \<Rightarrow> ue_node \<Rightarrow> (cpp_exception + ue_node \<times> air_frame list) option" where
  "ue_input_do env (UeTick now) n = Some (ue_tick env now n)"
| "ue_input_do env (UeBits bits) n = Some (ue_on_air_bits env bits n)"
| "ue_input_do env UeAttach n = Some (attach env n)"
| "ue_input_do env UeDetach n = Some (detach env n)"
| "ue_input_do env UeSleep n = Some (ue_sleep n)"
| "ue_input_do env UeWake n = Some (Inr (wake env n))"
| "ue_input_do env (UePing payload) n = Some (Inr (send_app_data env payload n))"
| "ue_input_do env (UeTraffic interval) n = Some (Inr (start_traffic env interval n))"
| "ue_input_do env UeStopTraffic n = Some (Inr (stop_traffic n, []))"
| "ue_input_do env (UeText dst txt) n = Some (Inr (send_msg env dst txt n))"
| "ue_input_do env (UeCall kind dst) n = Some (Inr (start_call env kind dst n))"
| "ue_input_do env (UeConf b c) n = Some (Inr (start_conf env b c n))"
| "ue_input_do env UeAnswer n = Some (Inr (app_do answer n))"
| "ue_input_do env UeDecline n = Some (Inr (app_do decline n))"
| "ue_input_do env UeEndCall n = Some (Inr (app_do end_call n))"
| "ue_input_do env (UeEndCallKind kind) n = Some (Inr (app_do (end_call_kind kind) n))"
| "ue_input_do env UeEndConf n = map_option (\<lambda>(n', _). Inr (n', [])) (end_conf n)"
| "ue_input_do env (UeAutoAnswer ms) n = Some (Inr (n\<lparr>ua_autoanswer_ms := ms\<rparr>, []))"
| "ue_input_do env (UeUsim k) n = Some (Inr (n\<lparr>un_nas := set_usim_key k (un_nas n)\<rparr>, []))"

text \<open>The counter of conferences wraps to 0 after \<open>2 ^ 32\<close> of them; runs stop before.\<close>

inductive ue_run :: "ue_config \<Rightarrow> ue_node \<Rightarrow> bool" for cfg where
  start: "ue_run cfg (ue_node_init cfg)"
| input: "ue_run cfg n \<Longrightarrow> ua_next_conf_seq n \<noteq> 0 \<Longrightarrow> ue_input_do env i n = Some (Inr (n', outs)) \<Longrightarrow> ue_run cfg n'"

lemma ue_ok_init: "ue_ok (ue_node_init cfg)"
proof -
  have "queue_of q bearer_set_init = []" for q
    by (cases q) (simp_all add: bearer_set_init_def make_am_bearer_def make_um_bearer_def Let_def)
  then show ?thesis
    by (simp add: ue_ok_def ue_node_init_def ue_app.defs ue_node.defs ue_app_init_def harq_tx_inv_init queues_bounded_def calls_ok_def
        dialogs_ok_def rrc_ue_ok_def rrc_ue_init_def)
qed

text \<open>Random access touches only its own state, the timers and the C-RNTI.\<close>

definition rach_same :: "ue_node \<Rightarrow> ue_node \<Rightarrow> bool" where
  "rach_same n n' \<longleftrightarrow> ua_next_conf_seq n' = ua_next_conf_seq n \<and> ua_bearers n' = ua_bearers n \<and> un_up_sec_on n' = un_up_sec_on n \<and>
     un_up_key n' = un_up_key n \<and> un_pdcp_seq n' = un_pdcp_seq n \<and> un_nas n' = un_nas n \<and> un_rrc n' = un_rrc n \<and>
     un_attach_requested n' = un_attach_requested n \<and> un_reestablish_pending n' = un_reestablish_pending n"

interpretation rach_same: steps rach_same
  by unfold_locales (simp_all add: rach_same_def)

lemma rach_same_cb: "rach_same n (fst (rach_cb env out n))"
  by (cases "(env, out, n)" rule: rach_cb.cases)
    (simp_all add: rach_same_def ue_send_frame_def schedule_rach_window_timer_def schedule_attach_retry_def ua_schedule_def split_beta Let_def)

lemma rach_same_do: "rach_same n (fst (rach_do env op n))"
  unfolding rach_do_def Let_def split_beta
  by (rule rach_same.trans [OF _ rach_same.for_steps]) (simp_all add: rach_same_cb, simp add: rach_same_def)

lemma conf_seq_wake: "ua_next_conf_seq (fst (maybe_wake_for_activity env n)) = ua_next_conf_seq n"
proof -
  have "rach_same m (fst (act_seq (rach_do env rach_force_idle)
          (act_seq (act_upd (\<lambda>n. start_resume_guard (aim_rach n))) (rach_do env start_rach)) m))" for m
    by (intro rach_same.seq_steps rach_same.upd_step rach_same_do)
      (simp add: rach_same_def start_resume_guard_def aim_rach_def ua_schedule_def split_beta)
  then show ?thesis by (simp add: maybe_wake_for_activity_def wake_def rach_same_def)
qed

lemma keeps_conf:
  assumes "ua_next_conf_seq n \<noteq> 0"
  shows "ue_keeps n (fst (start_conf env b c n))"
proof -
  let ?m = "fst (maybe_wake_for_activity env n)"
  have w: "ue_keeps n ?m" by (simp add: maybe_wake_for_activity_def keeps_wake ue.refl)
  have "push_bit 16 (ucast (ua_crnti_cache ?m)) OR ua_next_conf_seq ?m \<noteq> 0"
    using assms by (simp add: conf_seq_wake or_eq_0_iff)
  then have "ue_keeps ?m (fst (app_do (dial_conf b c) ?m))"
    by (intro keeps_app_do app_only_dial_conf dial_conf_kept)
  with w have "ue_keeps n (fst (app_do (dial_conf b c) ?m))" by (rule ue.trans)
  then show ?thesis by (simp add: start_conf_def when_registered_def act_seq_def split_beta ue.refl)
qed

definition burst_decodes :: "u8 list \<Rightarrow> ue_node \<Rightarrow> bool" where
  "burst_decodes bits n \<longleftrightarrow>
     (\<forall>bs frame. unpack_air_bits bits = Some bs \<and> decode_frame bs = Some frame \<and> af_type frame = DATA \<longrightarrow>
        harq_decodes (un_harq_rx n) (af_payload frame))"

lemma air_bits_fine: "burst_decodes bits n \<Longrightarrow> ue_fine n (ue_on_air_bits env bits n)"
  by (auto simp: ue_on_air_bits_def burst_decodes_def ue_fine_Inr ue.refl intro!: frame_fine split: option.split)

lemma end_conf_app_only:
  assumes "end_conf u = Some r"
  shows "app_only u (fst r)"
proof (rule end_conf.raw_induct [of "\<lambda>u r. app_only u (fst r)", rotated], rule assms, goal_cases)
  case (1 f u r)
  show ?case
  proof (cases "find_index (\<lambda>d. cd_conf_id d \<noteq> 0) (ua_dialogs u)")
    case None
    with 1(2) show ?thesis by (auto simp: app_only.refl)
  next
    case (Some i)
    then obtain r' where r': "f (fst (end_dialog i u)) = Some r'" "fst r = fst r'"
      using 1(2) by (auto simp: bind_eq_Some_conv split_beta)
    then show ?thesis using app_only.trans [OF app_only_end_dialog 1(1)] by metis
  qed
qed

lemma keeps_user:
  "ue_keeps n (fst (app_do answer n))" "ue_keeps n (fst (app_do decline n))" "ue_keeps n (fst (app_do end_call n))"
  "ue_keeps n (fst (app_do (end_call_kind k) n))"
  by (rule keeps_app_do, rule app_only_user, rule user_actions_kept)+

definition input_good :: "(cpp_exception + ue_node \<times> air_frame list) option \<Rightarrow> bool" where
  "input_good r \<longleftrightarrow> (\<exists>n' outs. r = Some (Inr (n', outs)) \<and> ue_ok n')"

lemma input_fine:
  assumes ok: "ue_ok n" and seq: "ua_next_conf_seq n \<noteq> 0" and dec: "\<And>bits. i = UeBits bits \<Longrightarrow> burst_decodes bits n"
  shows "input_good (ue_input_do env i n)"
proof -
  have run: "input_good (Some r)" if "ue_fine n r" for r
    using that ok by (simp add: ue_fine_def input_good_def)
  have act: "input_good (Some (Inr r))" if "ue_keeps n (fst r)" for r
    using that ok by (cases r) (simp add: ue_keeps_def input_good_def)
  have upd: "input_good (Some (Inr (stop_traffic n, [])))" "input_good (Some (Inr (n\<lparr>un_nas := x\<rparr>, [])))"
    "input_good (Some (Inr (n\<lparr>ua_autoanswer_ms := y\<rparr>, [])))" for x y
    by (rule act, rule ue_keepsI, simp)+ (simp add: ue_ok_def calls_ok_def)
  note fine = tick_fine attach_fine detach_fine sleep_fine
  note kept = keeps_wake keeps_ping keeps_traffic keeps_msg keeps_call keeps_conf [OF seq] keeps_user
  show ?thesis
  proof (cases i)
    case (UeBits bits)
    then show ?thesis using run [OF air_bits_fine [OF dec]] by simp
  next
    case UeEndConf
    obtain n' outs where r: "end_conf n = Some (n', outs)" "calls_ok n'"
      using end_conf_returns [of n] ok by (auto simp: ue_ok_def)
    then have "ue_keeps n n'" using end_conf_app_only [OF r(1)] by (intro ue_keeps_app) (simp_all add: calls_kept_def)
    with r ok UeEndConf show ?thesis by (simp add: ue_keeps_def input_good_def)
  qed (simp_all add: run [OF fine(1)] run [OF fine(2)] run [OF fine(3)] run [OF fine(4)] act [OF kept(1)] act [OF kept(2)] act [OF kept(3)]
      act [OF kept(4)] act [OF kept(5)] act [OF kept(6)] act [OF kept(7)] act [OF kept(8)] act [OF kept(9)] act [OF kept(10)] upd)
qed

lemma ue_run_ok: "ue_run cfg n \<Longrightarrow> ue_ok n"
proof (induction rule: ue_run.induct)
  case start
  show ?case by (rule ue_ok_init)
next
  case (input n env i n' outs)
  show ?case
  proof (cases "\<forall>bits. i = UeBits bits \<longrightarrow> burst_decodes bits n")
    case True
    then show ?thesis using input_fine [OF input.IH input.hyps(2), of i env] input.hyps(3) by (auto simp: input_good_def)
  next
    case False
    then obtain bits where i: "i = UeBits bits" "\<not> burst_decodes bits n" by blast
    then obtain bs frame where f: "unpack_air_bits bits = Some bs" "decode_frame bs = Some frame" "af_type frame = DATA"
      by (auto simp: burst_decodes_def)
    with i input.hyps(3) have "ue_on_frame env frame n = Inr (n', outs)" by (simp add: ue_on_air_bits_def)
    then show ?thesis using ue_on_frame_ok [OF input.IH] by blast
  qed
qed

text \<open>
  C6. The terminal under any inputs: in every state it can reach, whatever it receives and whatever its
  user and its timers do, every bearer queue holds at most 64 PDUs, the HARQ sender is consistent, the calls
  are well formed and the identity RRC holds agrees with its state; and every command, every tick, the
  loops that end calls and drain queues included, returns without an exception. So does every
  received burst, unless it is a HARQ frame the decoder throws on.
\<close>

theorem ue_node_invariant:
  assumes "ue_run cfg n" "ua_next_conf_seq n \<noteq> 0"
  shows "(\<forall>q. length (queue_of q (ua_bearers n)) \<le> 64) \<and> harq_tx_inv (un_harq_tx n) \<and> calls_ok n \<and> rrc_ue_ok (un_rrc n) \<and>
    (\<forall>env i. (\<forall>bits. i = UeBits bits \<longrightarrow> burst_decodes bits n) \<longrightarrow> (\<exists>n' outs. ue_input_do env i n = Some (Inr (n', outs))))"
proof -
  have ok: "ue_ok n" by (rule ue_run_ok [OF assms(1)])
  have "\<exists>n' outs. ue_input_do env i n = Some (Inr (n', outs))" if "\<forall>bits. i = UeBits bits \<longrightarrow> burst_decodes bits n" for env i
    using input_fine [OF ok assms(2), of i env] that by (auto simp: input_good_def)
  with ok show ?thesis by (simp add: ue_ok_def queues_bounded_def)
qed

theorem ue_node_invariant_witness:
  "\<exists>n' outs. ue_input_do \<lparr>ee_uniform = \<lambda>_ lo _. lo, ee_cells = \<lambda>_. []\<rparr> (UeTick 40) (ue_node_init ue_default_config) = Some (Inr (n', outs))"
proof -
  have "ua_next_conf_seq (ue_node_init ue_default_config) \<noteq> 0"
    by (simp add: ue_node_init_def ue_app.defs ue_app_init_def)
  from ue_node_invariant [OF ue_run.start this] show ?thesis by blast
qed

subsection \<open>What mobility and resumption leave behind\<close>

lemma declare_rlf_bearers:
  "ua_bearers (fst (declare_rlf env n)) = reset_bearers False (ua_bearers n) \<and> un_reestablish_pending (fst (declare_rlf env n))"
proof -
  let ?start = "(reset_harq n)\<lparr>un_pre_rlf_crnti := ua_crnti_cache n, un_reestablish_pending := True, ua_bearers := reset_bearers False (ua_bearers n)\<rparr>"
  have "ua_bearers (fst (act_seq (act_upd (\<lambda>n. (start_reest_guard
             (n\<lparr>un_rrc := rrc_force_idle (un_rrc n), ua_crnti_cache := 0, un_reest_req_pdu := reest_request n,
                un_pending_ccch := reest_request n\<rparr>))\<lparr>un_attach_requested := True\<rparr>)) (rach_do env start_rach) m)) = ua_bearers m \<and>
       un_reestablish_pending (fst (act_seq (act_upd (\<lambda>n. (start_reest_guard
             (n\<lparr>un_rrc := rrc_force_idle (un_rrc n), ua_crnti_cache := 0, un_reest_req_pdu := reest_request n,
                un_pending_ccch := reest_request n\<rparr>))\<lparr>un_attach_requested := True\<rparr>)) (rach_do env start_rach) m)) = un_reestablish_pending m" for m
    using rach_same_do [of _ env start_rach]
    by (simp add: act_seq_def act_upd_def split_beta rach_same_def start_reest_guard_def ua_schedule_def Let_def)
  then show ?thesis
    using rach_same_do [of ?start env rach_force_idle]
    by (simp add: declare_rlf_def act_seq_def split_beta rach_same_def)
qed

text \<open>The security context, the registration and the connection, as far as an attach that starts over leaves them alone.\<close>

definition sec_same :: "ue_node \<Rightarrow> ue_node \<Rightarrow> bool" where
  "sec_same n n' \<longleftrightarrow> un_up_sec_on n' = un_up_sec_on n \<and> un_up_key n' = un_up_key n \<and> un_pdcp_seq n' = un_pdcp_seq n \<and>
     un_nas n' = un_nas n \<and> un_attach_requested n' = un_attach_requested n \<and>
     (ur_state (un_rrc n') = UE_CONNECTED \<longrightarrow> ur_state (un_rrc n) = UE_CONNECTED)"

interpretation sec_same: steps sec_same
  by unfold_locales (simp_all add: sec_same_def)

lemma sec_same_rach: "sec_same n (fst (rach_do env op n))"
  using rach_same_do [of n env op] by (simp add: sec_same_def rach_same_def)

lemma ccch_in_clear: "qci_of_lcid LCID_CCCH = None" "LCID_CCCH \<noteq> LCID_NAS_DCCH"
  by (simp_all add: qci_of_lcid_def LCID_CCCH_def LCID_NAS_DCCH_def LCID_APP_DTCH_def LCID_APP_SIG_def LCID_APP_VOICE_def LCID_APP_VIDEO_def)

lemma sec_same_ccch: "steps_in sec_same (rrc_sends out)"
proof -
  have "sec_same n n'" if "uplink_send LCID_CCCH pdu n = Inr (n', outs)" for n n' pdu outs
    using that by (auto simp: uplink_send_def seal_uplink_def ccch_in_clear ue_send_frame_def sec_same_def
        split: sum.splits prod.splits option.splits)
  then show ?thesis
    by (cases out) (auto simp: steps_in_def rrc_send_cb_def sec_same.refl split: if_splits, simp add: sec_same_def)
qed

lemma sec_same_attach: "steps_in sec_same (maybe_start_attach env)"
proof -
  have s: "sec_same n ((aim_rach (select_serving_cell env n))\<lparr>un_pending_ccch := []\<rparr>)" for n
    by (simp add: sec_same_def aim_rach_def select_serving_cell_def Let_def)
  have c: "steps_in sec_same (rrc_do rrc_sends (start_connection c))" for c
  proof -
    have u: "sec_same n (n\<lparr>un_rrc := fst (start_connection c (un_rrc n))\<rparr>)" for n
      by (simp add: sec_same_def start_connection_def Let_def)
    show ?thesis
      unfolding steps_in_def rrc_do_def Let_def split_beta
      using sec_same.trans [OF u] steps_inD [OF sec_same.try_for_steps [of rrc_sends, OF sec_same_ccch]] by blast
  qed
  have g: "steps_in sec_same (try_act (act_seq (act_upd start_attach_guard) (rach_do env start_rach)))"
    by (rule sec_same.try_act_steps, intro sec_same.seq_steps sec_same.upd_step sec_same_rach)
      (simp add: sec_same_def start_attach_guard_def ua_schedule_def split_beta)
  have r: "sec_same n (fst (rach_do env start_rach (n\<lparr>un_pending_ccch := un_reest_req_pdu n\<rparr>)))" for n
    by (rule sec_same.trans [OF _ sec_same_rach]) (simp add: sec_same_def)
  show ?thesis
    unfolding steps_in_def
  proof (intro allI impI)
    fix n n' outs
    assume m: "maybe_start_attach env n = Inr (n', outs)"
    let ?n1 = "(aim_rach (select_serving_cell env n))\<lparr>un_pending_ccch := []\<rparr>"
    have "n' = n \<or> n' = fst (rach_do env start_rach (n\<lparr>un_pending_ccch := un_reest_req_pdu n\<rparr>)) \<or>
        try_seq (rrc_do rrc_sends (start_connection (un_serving_cell ?n1)))
          (try_act (act_seq (act_upd start_attach_guard) (rach_do env start_rach))) ?n1 = Inr (n', outs)"
      using m by (auto simp: maybe_start_attach_def Let_def split: if_splits)
    then show "sec_same n n'"
      using r [of n] sec_same.refl sec_same.trans [OF s] steps_inD [OF sec_same.try_seq_steps [OF c g]] by blast
  qed
qed

lemma sec_same_stop: "steps_in sec_same (stop_streams False)"
proof -
  have "sec_same n (fst (app_do (stop_dialogs False) n))" for n
    using app_only_stop [of n False] by (cases n; cases "fst (stop_dialogs False n)") (simp add: app_do_def sec_same_def app_only_def)
  then show ?thesis
    unfolding stop_streams_def if_False
    by (intro sec_same.try_seq_steps sec_same.try_act_steps) (simp_all add: act_upd_def sec_same.refl)
qed

lemma try_seqE:
  assumes "try_seq a b n = Inr (n', outs)"
  obtains m o1 o2 where "a n = Inr (m, o1)" "b m = Inr (n', o2)"
  using assms by (auto simp: try_seq_def split: sum.splits)

lemma full_reattach_state:
  assumes "full_reattach env n = Inr (n', outs)"
  shows "sec_same (n\<lparr>un_nas := force_deregistered (un_nas n), un_attach_requested := True\<rparr>) n'"
proof -
  obtain m o1 o2 where m: "stop_streams False (n\<lparr>un_nas := force_deregistered (un_nas n)\<rparr>) = Inr (m, o1)" "attach env m = Inr (n', o2)"
    using assms unfolding full_reattach_def by (rule try_seqE)
  have "sec_same (n\<lparr>un_nas := force_deregistered (un_nas n)\<rparr>) m" by (rule steps_inD [OF sec_same_stop m(1)])
  moreover have "sec_same (m\<lparr>un_attach_requested := True\<rparr>) n'" by (rule steps_inD [OF sec_same_attach m(2) [unfolded attach_def]])
  ultimately show ?thesis by (simp add: sec_same_def)
qed

lemma resume_failure_state:
  assumes "ur_state (un_rrc n) = UE_CONNECTING" "length v < 65536"
    and "ue_on_ccch env (rrc_encode (rrc_msg RRC_RESUME_FAILURE v)) n = Inr (n1, outs)"
  shows "un_up_sec_on n1 = un_up_sec_on n \<and> un_up_key n1 = un_up_key n \<and> un_pdcp_seq n1 = un_pdcp_seq n \<and>
    nu_state (un_nas n1) = DEREGISTERED \<and> un_attach_requested n1"
proof -
  let ?msg = "rrc_encode (rrc_msg RRC_RESUME_FAILURE v)"
  let ?rrc = "(un_rrc n)\<lparr>ur_crnti := 0, ur_suspended := 0, ur_resume_id := 0, ur_state := UE_IDLE\<rparr>"
  let ?k = "n\<lparr>un_rrc := ?rrc, un_resume_guard_running := False, un_suspended_crnti := 0, ua_crnti_cache := 0\<rparr>"
  have d: "rrc_decode ?msg = rrc_msg RRC_RESUME_FAILURE v" using assms(2) by simp
  have t: "RRC_RESUME_FAILURE \<noteq> RRC_HO_COMMAND" "RRC_RESUME_FAILURE \<noteq> RRC_REESTABLISHMENT_OK" "RRC_RESUME_FAILURE \<noteq> RRC_REESTABLISHMENT_FAILURE"
    "RRC_RESUME_FAILURE \<noteq> RRC_SETUP" "RRC_RESUME_FAILURE \<noteq> RRC_RELEASE" "RRC_RESUME_FAILURE \<noteq> RRC_RESUME_OK"
    by (simp_all add: rrc_type_defs RRC_HO_COMMAND_def)
  have "try_seq (rrc_do (rrc_cb env) (rrc_ue_on_message ?msg)) (\<lambda>n. maybe_send_attach_request (n\<lparr>un_harq_rx := harq_rx_reset\<rparr>)) n = Inr (n1, outs)"
    using assms(3) t by (simp add: ue_on_ccch_def d Let_def)
  then obtain m o1 o2 where m: "rrc_do (rrc_cb env) (rrc_ue_on_message ?msg) n = Inr (m, o1)"
    "maybe_send_attach_request (m\<lparr>un_harq_rx := harq_rx_reset\<rparr>) = Inr (n1, o2)" by (rule try_seqE)
  have "rrc_ue_on_message ?msg (un_rrc n) = (?rrc, [RrcResumed False 0])"
    using assms(1) t by (simp add: rrc_ue_on_message_def d Let_def)
  then obtain o3 where "try_seq (try_act (rach_do env rach_force_idle)) (full_reattach env) ?k = Inr (m, o3)"
    using m(1) by (auto simp: rrc_do_def Let_def try_act_def act_upd_def elim!: try_seqE)
  then have "full_reattach env (fst (rach_do env rach_force_idle ?k)) = Inr (m, o3) \<or>
      (\<exists>o4. full_reattach env (fst (rach_do env rach_force_idle ?k)) = Inr (m, o4))"
    by (auto simp: try_act_def elim!: try_seqE)
  then have "sec_same ((fst (rach_do env rach_force_idle ?k))\<lparr>un_nas := force_deregistered (un_nas (fst (rach_do env rach_force_idle ?k))), un_attach_requested := True\<rparr>) m"
    using full_reattach_state by blast
  then have k: "sec_same (?k\<lparr>un_nas := force_deregistered (un_nas n), un_attach_requested := True\<rparr>) m"
    using sec_same_rach [of ?k env rach_force_idle] by (simp add: sec_same_def)
  then have "ur_state (un_rrc m) \<noteq> UE_CONNECTED" by (simp add: sec_same_def)
  then have "n1 = m\<lparr>un_harq_rx := harq_rx_reset\<rparr>" using m(2) by (simp add: maybe_send_attach_request_def)
  with k show ?thesis by (simp add: sec_same_def force_deregistered_def)
qed

subsection \<open>The uplink is served\<close>

definition uplink_idle :: "ue_node \<Rightarrow> bool" where
  "uplink_idle n \<longleftrightarrow> bearers_empty (ua_bearers n) \<or> harq_in_flight (un_harq_tx n) \<ge> length (ht_procs (un_harq_tx n))"

lemma pump_loop_idle: "pump_loop n = Inr (n', outs) \<Longrightarrow> uplink_idle n'"
proof (induction "bearers_total (ua_bearers n)" arbitrary: n outs rule: less_induct)
  case less
  show ?case
  proof (cases "uplink_idle n")
    case True
    then show ?thesis using less.prems by (subst (asm) pump_loop.simps) (auto simp: uplink_idle_def)
  next
    case False
    then obtain c p b where pop: "pop_next (ua_bearers n) = Some ((c, p), b)"
      using pop_next_frame [of "ua_bearers n"] by (auto simp: uplink_idle_def split: option.splits)
    then obtain n1 o1 o2 where 1: "uplink_send (ap_lcid p) (ap_bytes p) (n\<lparr>ua_bearers := b\<rparr>) = Inr (n1, o1)" "pump_loop n1 = Inr (n', o2)"
      using less.prems False by (subst (asm) pump_loop.simps) (auto simp: uplink_idle_def split: sum.splits)
    have "bearers_total (ua_bearers n1) < bearers_total (ua_bearers n)"
      using uplink_send_bearers [OF 1(1)] pop_next_total [OF pop] by simp
    from less.hyps [OF this 1(2)] show ?thesis .
  qed
qed

text \<open>
  C7. No uplink opportunity is wasted: in every state the terminal reaches a tick returns, and after it no PDU
  waits in a bearer queue beside a free HARQ process, unless the terminal is suspended or the tick has just
  declared the radio link lost.
\<close>

theorem ue_tick_work_conserving:
  assumes "ue_run cfg n"
  shows "\<exists>n' outs. ue_tick env now n = Inr (n', outs) \<and> (uplink_idle n' \<or> rrc_inactive n' \<or> un_reestablish_pending n')"
proof -
  obtain n' outs where t: "ue_tick env now n = Inr (n', outs)"
    using tick_fine [of n env now] ue_run_ok [OF assms] by (auto simp: ue_fine_def)
  then obtain m o1 where "try_seq (try_act (act_seq pump_harq (act_seq (act_upd ensure_link_timer)
                   (act_seq (act_for service_am [QCI_SIG, QCI_BEST_EFFORT]) (act_for service_um_rx [QCI_VOICE, QCI_VIDEO])))))
          (try_seq pump_app_bearers (\<lambda>n. if rlf_due n then Inr (declare_rlf env n) else Inr (n, []))) m = Inr (n', o1)"
    unfolding ue_tick_def by (rule try_seqE)
  then obtain l o2 where "try_seq pump_app_bearers (\<lambda>n. if rlf_due n then Inr (declare_rlf env n) else Inr (n, [])) l = Inr (n', o2)"
    by (rule try_seqE)
  then obtain k o3 o4 where k: "pump_app_bearers l = Inr (k, o3)" "(if rlf_due k then Inr (declare_rlf env k) else Inr (k, [])) = (Inr (n', o4) :: cpp_exception + _)"
    by (rule try_seqE)
  have "uplink_idle k \<or> rrc_inactive k"
    using k(1) pump_loop_idle by (auto simp: pump_app_bearers_def split: if_splits)
  moreover have "n' = k \<or> un_reestablish_pending n'"
    using k(2) declare_rlf_bearers [of env k] by (auto split: if_splits)
  ultimately show ?thesis using t by blast
qed

theorem ue_tick_work_conserving_witness:
  "\<exists>n' outs. ue_tick \<lparr>ee_uniform = \<lambda>_ lo _. lo, ee_cells = \<lambda>_. []\<rparr> 40 (ue_node_init ue_default_config) = Inr (n', outs) \<and>
     (uplink_idle n' \<or> rrc_inactive n' \<or> un_reestablish_pending n')"
  by (rule ue_tick_work_conserving [OF ue_run.start])

subsection \<open>Handover at the terminal\<close>

lemma harq_reset_idle: "p < length (ht_procs tx) \<Longrightarrow> \<not> hp_busy (ht_procs (harq_tx_reset tx) ! p)"
  by (simp add: harq_tx_reset_def)

definition ho_command_sdu :: "u16 \<Rightarrow> u16 \<Rightarrow> bytes" where
  "ho_command_sdu cell r = rrc_encode (rrc_msg RRC_HO_COMMAND (put16 cell @ put16 r))"

lemma ho_command_fields:
  "rrc_decode (ho_command_sdu cell r) = rrc_msg RRC_HO_COMMAND (put16 cell @ put16 r)"
  "get16 ((put16 cell @ put16 r) ! 0) ((put16 cell @ put16 r) ! 1) = cell" "get16 ((put16 cell @ put16 r) ! 2) ((put16 cell @ put16 r) ! 3) = r"
  by (simp_all add: ho_command_sdu_def put16_def wire_simps)

text \<open>
  C8. A handover command is obeyed and confirmed: a terminal that has heard the target cell moves to it under the
  new C-RNTI with its registration, its key and its calls intact and no PDU of the old cell left, and sends exactly one
  frame, whose transport block is the HO\_COMPLETE for the new C-RNTI; whatever was in flight before, a fresh receiver gets it. A command for a cell it has
  never heard changes nothing.
\<close>

theorem ue_handover:
  assumes "harq_tx_inv (un_harq_tx n)" "0 < length (ht_procs (un_harq_tx n))" "length (ht_procs (un_harq_tx n)) \<le> 128"
  shows "if un_cells n cell = None then ue_on_ccch env (ho_command_sdu cell r) n = Inr (n, [])
    else \<exists>n' coded rx.
      ue_on_ccch env (ho_command_sdu cell r) n = Inr (n', [\<lparr>af_type = DATA, af_rnti = r, af_payload = coded\<rparr>]) \<and>
      un_serving_cell n' = cell \<and> ua_crnti_cache n' = r \<and> ur_state (un_rrc n') = UE_CONNECTED \<and> ur_crnti (un_rrc n') = r \<and>
      un_nas n' = un_nas n \<and> un_up_sec_on n' = un_up_sec_on n \<and> un_up_key n' = un_up_key n \<and> ua_dialogs n' = ua_dialogs n \<and>
      (\<forall>q. queue_of q (ua_bearers n') = []) \<and>
      harq_receive harq_rx_reset coded = Inr rx \<and> hr_delivered (snd rx) \<and>
      parse_pdu (hr_mac_pdu (snd rx)) = [(LCID_CCCH, rrc_encode (rrc_msg RRC_HO_COMPLETE (put16 r)))]"
proof (cases "un_cells n cell = None")
  case True
  then show ?thesis using ho_command_fields [of cell r] by (simp add: ue_on_ccch_def Let_def)
next
  case False
  let ?done = "rrc_encode (rrc_msg RRC_HO_COMPLETE (put16 r))" and ?tx = "harq_tx_reset (un_harq_tx n)"
  let ?m = "(reset_harq (n\<lparr>un_serving_cell := cell, ua_crnti_cache := r, un_rrc := restore_connected r (un_rrc n)\<rparr>))
          \<lparr>ua_bearers := reset_bearers False (ua_bearers n), un_pdcp_seq := 0\<rparr>"
  have c: "ue_on_ccch env (ho_command_sdu cell r) n = uplink_send LCID_CCCH ?done ?m"
    using False ho_command_fields [of cell r] by (auto simp: ue_on_ccch_def apply_handover_def Let_def)
  have inv: "harq_tx_inv ?tx" "length (ht_procs ?tx) = length (ht_procs (un_harq_tx n))"
    using assms(1) harq_reset_inv by (simp_all add: harq_tx_reset_def)
  obtain tx' e where e: "harq_send ?tx (build_pdu [(LCID_CCCH, ?done)]) = Inr (tx', Some e)"
    "event_carries tx' e (build_pdu [(LCID_CCCH, ?done)])" "length (ht_procs tx') = length (ht_procs (un_harq_tx n))"
    using harq_send_cases [OF inv(1), of "build_pdu [(LCID_CCCH, ?done)]"] harq_reset_idle [OF assms(2)] assms(2) inv(2) by auto
  have p: "unat (he_proc e) < 128" "he_ndi e \<in> {0, 1}" "link_encode (build_pdu [(LCID_CCCH, ?done)]) (he_proc e) (he_ndi e) = Inr (he_coded e)"
    using e(2,3) assms(3) by (auto simp: event_carries_def)
  have l: "length ?done = 5" by (simp add: rrc_encode_def tlv_fields)
  then have "length (build_pdu [(LCID_CCCH, ?done)]) \<le> 8" by (simp add: mac_subheader_def Let_def)
  then obtain soft where rx: "harq_receive harq_rx_reset (he_coded e) = Inr (soft, \<lparr>hr_delivered = True, hr_need_feedback = True, hr_ack = True,
      hr_proc = he_proc e, hr_mac_pdu = build_pdu [(LCID_CCCH, ?done)]\<rparr>)"
    using harq_receive_intact [OF soft_ok_reset p(3,1,2)] by auto
  have carried: "mac_carries [(LCID_CCCH, ?done)]" using l by (simp add: mac_carries_def LCID_CCCH_def LCID_PADDING_def)
  have "parse_pdu (build_pdu [(LCID_CCCH, ?done)]) = [(LCID_CCCH, ?done)]"
    using mac_codec.dec_enc [OF carried] by simp
  moreover have "queue_of q (reset_bearers False b) = []" for q b by (cases q) (simp_all add: reset_bearers_def Let_def)
  moreover have "uplink_send LCID_CCCH ?done ?m = Inr (?m\<lparr>un_harq_tx := tx'\<rparr>, [\<lparr>af_type = DATA, af_rnti = r, af_payload = he_coded e\<rparr>])"
    using e(1) by (simp add: uplink_send_def seal_uplink_def ccch_in_clear reset_harq_def ue_send_frame_def)
  ultimately show ?thesis
    using False c rx by (simp add: reset_harq_def restore_connected_def Let_def)
qed

theorem ue_handover_witness:
  "let n = (ue_node_init ue_default_config)\<lparr>un_cells := [2 \<mapsto> \<lparr>ne_rx_count = 3, ne_last_seen_ms = 0\<rparr>]\<rparr> in
   \<exists>n' outs. ue_on_ccch \<lparr>ee_uniform = \<lambda>_ lo _. lo, ee_cells = \<lambda>_. [2]\<rparr> (ho_command_sdu 2 0x1101) n = Inr (n', outs) \<and> ua_crnti_cache n' = 0x1101"
proof -
  let ?n = "(ue_node_init ue_default_config)\<lparr>un_cells := [2 \<mapsto> \<lparr>ne_rx_count = 3, ne_last_seen_ms = 0\<rparr>]\<rparr>"
  have tx: "un_harq_tx ?n = harq_tx_init harq_default_config" by (simp add: ue_node_init_def ue_app.defs ue_node.defs)
  have i: "harq_tx_inv (un_harq_tx ?n)" "0 < length (ht_procs (un_harq_tx ?n))" "length (ht_procs (un_harq_tx ?n)) \<le> 128"
    unfolding tx by (rule harq_tx_inv_init, simp_all add: harq_tx_init_def harq_default_config_def)
  show ?thesis
    using ue_handover [OF i, of 2 "\<lparr>ee_uniform = \<lambda>_ lo _. lo, ee_cells = \<lambda>_. [2]\<rparr>" "0x1101"] by (auto simp: Let_def)
qed

end
