(* ===== verification/Cell.thy ===== *)
theory Cell
  imports BsNode UeNode
begin

text \<open>
  A terminal and a base station together: the two nodes of \<open>UeNode\<close> and \<open>BsNode\<close> on what they share, the
  user-plane key with its counts, the security context after a refused resumption, and the sequence
  numbers of the acknowledged mode after a re-establishment.
\<close>

subsection \<open>One key in two directions\<close>

text \<open>
  C35. Uplink and downlink share a keystream: after an authenticated attach both ends cipher with the session key and
  count their frames from zero, and the nonce is the count alone. The first ciphered uplink SDU and the first ciphered downlink
  PDU are therefore enciphered with the same keystream, and whoever hears both frames learns the exclusive-or
  of the two clear texts.
\<close>

theorem uplink_downlink_share_keystream:
  assumes "registered m" "nu_authenticated (un_nas m)" "\<not> un_up_sec_on m" "un_pdcp_seq m = 0"
    and "n = arm_security m" "df_dl_seq g = 0" "f = flow_arm_security (nu_session_key (un_nas m)) g"
    and "qci_of_lcid lcid \<noteq> None" "ap_cipher p" "length sdu = length (ap_bytes p)"
  shows "map2 (XOR) (pdcp_ciphertext (fst (seal_uplink lcid sdu n))) (pdcp_ciphertext (fst (flow_seal p f))) = map2 (XOR) sdu (ap_bytes p)"
proof -
  have "un_up_sec_on n" "un_up_key n = nu_session_key (un_nas m)" "un_pdcp_seq n = 0"
    using assms(1-5) by (simp_all add: arm_security_def registered_def)
  moreover have "df_up_key f = nu_session_key (un_nas m)" "df_dl_seq f = 0" by (simp_all add: assms(6,7) flow_arm_security_def)
  ultimately show ?thesis using assms(8-10) by (simp add: seal_uplink_def flow_seal_def pdcp_count_reuse)
qed

theorem uplink_downlink_share_keystream_witness:
  "let m = (ue_node_init ue_default_config)\<lparr>un_nas := nas_ue_init\<lparr>nu_state := REGISTERED, nu_authenticated := True\<rparr>\<rparr> in
   map2 (XOR) (pdcp_ciphertext (fst (seal_uplink LCID_APP_DTCH [1, 2] (arm_security m))))
     (pdcp_ciphertext (fst (flow_seal \<lparr>ap_lcid = 2, ap_cipher = True, ap_bytes = [4, 4]\<rparr>
        (flow_arm_security (nu_session_key (un_nas m)) dl_flow_init)))) = [5, 6]"
proof -
  let ?m = "(ue_node_init ue_default_config)\<lparr>un_nas := nas_ue_init\<lparr>nu_state := REGISTERED, nu_authenticated := True\<rparr>\<rparr>"
  have i: "registered ?m" "nu_authenticated (un_nas ?m)" "\<not> un_up_sec_on ?m" "un_pdcp_seq ?m = 0"
    by (simp_all add: registered_def ue_node_init_def ue_app.defs ue_node.defs)
  have "qci_of_lcid LCID_APP_DTCH \<noteq> None" "df_dl_seq dl_flow_init = 0" by (simp_all add: qci_of_lcid_def dl_flow_init_def)
  with uplink_downlink_share_keystream [OF i refl _ refl, of dl_flow_init LCID_APP_DTCH "\<lparr>ap_lcid = 2, ap_cipher = True, ap_bytes = [4, 4]\<rparr>" "[1, 2]"]
  show ?thesis by (simp add: Let_def)
qed

subsection \<open>A refused resumption\<close>





subsection \<open>Re-establishment\<close>






end
