(* ===== verification/Qam.thy ===== *)
theory Qam
  imports Complex_Main Prelude
begin

text \<open>
  Modulation, \<^verbatim>\<open>stack/phy/src/qam.cpp\<close>: a group of bits selects a level of a square constellation in each of
  two dimensions, and the demodulator slices a received amplitude back to a level. The floating-point
  arithmetic is an argument: \<open>ar_amp bps k\<close> is the product of a level with the normalisation of the
  constellation, and \<open>ar_quot bps a\<close> the number which the quotient of a received
  amplitude by it denotes (a finite one, within the range of \<^verbatim>\<open>int\<close>). All decisions are made on integers and are modelled.
\<close>

unbundle bit_operations_syntax

datatype mcs = QPSK | QAM16 | QAM64

fun mcs_code :: "mcs \<Rightarrow> u8" where
  "mcs_code QPSK = 0"
| "mcs_code QAM16 = 1"
| "mcs_code QAM64 = 2"

fun mcs_bits_per_symbol :: "mcs \<Rightarrow> nat" where
  "mcs_bits_per_symbol QPSK = 2"
| "mcs_bits_per_symbol QAM16 = 4"
| "mcs_bits_per_symbol QAM64 = 6"

record 'f arith =
  ar_amp :: "nat \<Rightarrow> int \<Rightarrow> 'f"
  ar_quot :: "nat \<Rightarrow> 'f \<Rightarrow> rat"

subsection \<open>Gray code\<close>

definition gray_encode :: "u32 \<Rightarrow> u32" where
  "gray_encode v = v XOR drop_bit 1 v"

function gray_loop :: "u32 \<Rightarrow> u32 \<Rightarrow> u32" where
  "gray_loop g v = (let g' = drop_bit 1 g in if g' = 0 then v else gray_loop g' (v XOR g'))"
  by auto
termination
proof (relation "measure (\<lambda>(g, _). unat g)", simp)
  fix g v x :: u32
  assume x: "x = drop_bit 1 g" "x \<noteq> 0"
  have "unat x = unat g div 2" unfolding x(1) unat_drop_bit_eq by (simp add: drop_bit_eq_div)
  moreover have "unat x \<noteq> 0" using x(2) by (simp add: unat_eq_zero)
  ultimately have "unat x < unat g" by linarith
  then show "((x, v XOR x), g, v) \<in> measure (\<lambda>(g, _). unat g)" by simp
qed

declare gray_loop.simps [simp del]

definition gray_decode :: "u32 \<Rightarrow> u32" where
  "gray_decode g = gray_loop g g"

subsection \<open>Mapping and slicing\<close>

text \<open>A dimension has \<open>l = 2^m\<close> levels, the odd numbers from \<open>1 - l\<close> to \<open>l - 1\<close>.\<close>

definition bits_value :: "u8 list \<Rightarrow> u32" where
  "bits_value bs = fold (\<lambda>b v. push_bit 1 v OR (ucast b AND 1)) bs 0"

definition pam_level :: "nat \<Rightarrow> u32 \<Rightarrow> int" where
  "pam_level m v = 2 * uint (gray_encode v) - (2 ^ m - 1)"

definition qam_levels :: "u8 list \<Rightarrow> nat \<Rightarrow> (int \<times> int) list" where
  "qam_levels bits bps =
     (if bps = 0 \<or> odd bps \<or> length bits mod bps \<noteq> 0 then []
      else
        let m = bps div 2 in
        map (\<lambda>i. (pam_level m (bits_value (take m (drop (i * bps) bits))),
                  pam_level m (bits_value (take m (drop (i * bps + m) bits)))))
          [0..<length bits div bps])"

definition qam_modulate :: "('f, 'm) arith_scheme \<Rightarrow> u8 list \<Rightarrow> nat \<Rightarrow> ('f \<times> 'f) list" where
  "qam_modulate A bits bps = map (\<lambda>(i, q). (ar_amp A bps i, ar_amp A bps q)) (qam_levels bits bps)"

text \<open>\<^verbatim>\<open>std::lround\<close>: to the nearest integer, halfway cases away from zero.\<close>

definition lround :: "rat \<Rightarrow> int" where
  "lround x = (if x \<ge> 0 then \<lfloor>x + 1 / 2\<rfloor> else - \<lfloor>1 / 2 - x\<rfloor>)"

definition slice_level :: "nat \<Rightarrow> rat \<Rightarrow> int" where
  "slice_level m x =
     (let top = 2 ^ m - 1; lvl = max (- top) (min top (lround x))
      in if even lvl then lvl + (if lvl < 0 then 1 else - 1) else lvl)"

definition qam_slice :: "nat \<Rightarrow> rat \<Rightarrow> u32" where
  "qam_slice m x = word_of_int ((slice_level m x + (2 ^ m - 1)) div 2)"

definition value_bits :: "nat \<Rightarrow> u32 \<Rightarrow> u8 list" where
  "value_bits m v = map (\<lambda>b. ucast (drop_bit b v) AND 1) (rev [0..<m])"

definition qam_demodulate :: "('f, 'm) arith_scheme \<Rightarrow> ('f \<times> 'f) list \<Rightarrow> nat \<Rightarrow> u8 list" where
  "qam_demodulate A symbols bps =
     (if bps = 0 \<or> odd bps then []
      else
        let m = bps div 2 in
        concat (map (\<lambda>(a, b). value_bits m (gray_decode (qam_slice m (ar_quot A bps a))) @
                              value_bits m (gray_decode (qam_slice m (ar_quot A bps b)))) symbols))"

subsection \<open>The slicer\<close>

lemma lround_near: "\<bar>x - of_int k\<bar> < 1 / 2 \<Longrightarrow> lround x = k"
proof -
  assume "\<bar>x - of_int k\<bar> < 1 / 2"
  then have x: "of_int k - 1 / 2 < x" "x < of_int k + 1 / 2" unfolding abs_less_iff by linarith+
  have "\<lfloor>x + 1 / 2\<rfloor> = k" "\<lfloor>1 / 2 - x\<rfloor> = - k" using x by (simp_all add: floor_eq_iff)
  then show ?thesis by (simp add: lround_def)
qed

lemma slice_level_near:
  assumes "odd k" "\<bar>k\<bar> \<le> 2 ^ m - 1" "\<bar>x - of_int k\<bar> < 1 / 2"
  shows "slice_level m x = k"
proof -
  have "max (- (2 ^ m - 1)) (min (2 ^ m - 1) k) = k" using assms(2) by linarith
  then show ?thesis unfolding slice_level_def Let_def lround_near [OF assms(3)] using assms(1) by simp
qed

text \<open>The values of at most three bits, which is all a dimension carries.\<close>

lemma small_value_cases:
  fixes v :: u32
  assumes "unat v < 2 ^ m" "m \<le> 3"
  obtains "v = 0" | "v = 1" "m \<ge> 1" | "v = 2" "m \<ge> 2" | "v = 3" "m \<ge> 2" | "v = 4" "m = 3" | "v = 5" "m = 3" | "v = 6" "m = 3" | "v = 7" "m = 3"
proof -
  have "unat v < 8" using assms power_increasing [of m 3 "2::nat"] by simp
  then have "unat v \<in> {0, 1, 2, 3, 4, 5, 6, 7}" by auto
  then have "word_of_nat (unat v) \<in> (word_of_nat ` {0, 1, 2, 3, 4, 5, 6, 7} :: u32 set)" by (rule imageI)
  then have "v \<in> {0, 1, 2, 3, 4, 5, 6, 7}" by simp
  moreover have "m = 0 \<or> m = 1 \<or> m = 2 \<or> m = 3" using assms(2) by linarith
  ultimately show ?thesis using assms(1) that by auto
qed

lemma gray_table:
  "gray_decode 0 = 0" "gray_decode 1 = 1" "gray_decode 3 = 2" "gray_decode 2 = 3"
  "gray_decode 6 = 4" "gray_decode 7 = 5" "gray_decode 5 = 6" "gray_decode 4 = 7"
  "gray_encode 0 = 0" "gray_encode 1 = 1" "gray_encode 2 = 3" "gray_encode 3 = 2"
  "gray_encode 4 = 6" "gray_encode 5 = 7" "gray_encode 6 = 5" "gray_encode 7 = 4"
  by code_simp+

lemma gray_small:
  assumes "unat v < 2 ^ m" "m \<le> 3"
  shows "gray_decode (gray_encode v) = v" "uint (gray_encode v) < 2 ^ m"
proof -
  show "gray_decode (gray_encode v) = v" by (cases rule: small_value_cases [OF assms]; simp only: gray_table)
  have p: "m \<ge> 2 \<Longrightarrow> (4 :: int) \<le> 2 ^ m" "m \<ge> 1 \<Longrightarrow> (2 :: int) \<le> 2 ^ m"
    using power_increasing [of 2 m "2 :: int"] power_increasing [of 1 m "2 :: int"] by simp_all
  show "uint (gray_encode v) < 2 ^ m"
    by (cases rule: small_value_cases [OF assms]) (use p in \<open>simp_all add: gray_table\<close>)
qed

lemma pam_level_props:
  assumes "unat v < 2 ^ m" "m \<le> 3" "0 < m"
  shows "odd (pam_level m v)" "\<bar>pam_level m v\<bar> \<le> 2 ^ m - 1"
    "word_of_int ((pam_level m v + (2 ^ m - 1)) div 2) = gray_encode v"
proof -
  have g: "0 \<le> uint (gray_encode v)" "uint (gray_encode v) < 2 ^ m" using gray_small(2) [OF assms(1,2)] by simp_all
  show "odd (pam_level m v)" using assms(3) by (simp add: pam_level_def)
  show "\<bar>pam_level m v\<bar> \<le> 2 ^ m - 1" unfolding pam_level_def using g by linarith
qed (simp add: pam_level_def)

lemma slice_sent:
  assumes "unat v < 2 ^ m" "m \<le> 3" "0 < m" "\<bar>x - of_int (pam_level m v)\<bar> < 1 / 2"
  shows "gray_decode (qam_slice m x) = v"
  unfolding qam_slice_def slice_level_near [OF pam_level_props(1,2) [OF assms(1-3)] assms(4)]
    pam_level_props(3) [OF assms(1-3)] by (rule gray_small(1) [OF assms(1,2)])

subsection \<open>Values and bits\<close>

lemma bits_value_snoc: "bits_value (bs @ [b]) = push_bit 1 (bits_value bs) OR (ucast b AND 1)"
  by (simp add: bits_value_def)

lemma bit_bits_value: "bit (bits_value bs) n \<longleftrightarrow> n < length bs \<and> n < 32 \<and> bit (bs ! (length bs - Suc n)) 0"
proof (induction bs arbitrary: n rule: rev_induct)
  case Nil
  then show ?case by (simp add: bits_value_def)
next
  case (snoc b bs)
  have "bit (ucast b AND 1 :: u32) n \<longleftrightarrow> n = 0 \<and> bit b 0" by (auto simp: bit_and_iff bit_1_iff bit_ucast_iff)
  then have "bit (bits_value (bs @ [b])) n \<longleftrightarrow> 1 \<le> n \<and> n < 32 \<and> bit (bits_value bs) (n - 1) \<or> n = 0 \<and> bit b 0"
    unfolding bits_value_snoc bit_or_iff bit_push_bit_iff by auto
  then show ?case using snoc [of "n - 1"] by (cases n) (auto simp: nth_append)
qed

lemma bits_value_bound: "length bs \<le> m \<Longrightarrow> m < 32 \<Longrightarrow> unat (bits_value bs) < 2 ^ m"
proof -
  assume "length bs \<le> m" "m < 32"
  then have "bits_value bs = take_bit m (bits_value bs)"
    by (intro bit_word_eqI) (auto simp: bit_take_bit_iff bit_bits_value)
  then show ?thesis by (metis take_bit_nat_less_exp unsigned_take_bit_eq)
qed

lemma value_bits_value:
  assumes "length bs = m" "m < 32" "set bs \<subseteq> {0, 1}"
  shows "value_bits m (bits_value bs) = bs"
proof (rule nth_equalityI)
  show "length (value_bits m (bits_value bs)) = length bs" by (simp add: value_bits_def assms(1))
  fix i assume "i < length (value_bits m (bits_value bs))"
  then have i: "i < m" by (simp add: value_bits_def)
  have "ucast (drop_bit k v) AND 1 = (of_bool (bit v k) :: u8)" for v :: u32 and k
    by (rule bit_word_eqI) (auto simp: bit_and_iff bit_1_iff bit_ucast_iff bit_drop_bit_eq intro: gr0I)
  then have "value_bits m (bits_value bs) ! i = of_bool (bit (bits_value bs) (m - Suc i))"
    using i by (simp add: value_bits_def rev_nth)
  moreover have "bit (bits_value bs) (m - Suc i) \<longleftrightarrow> bit (bs ! i) 0" using i assms(1) less_trans [OF _ assms(2), of "m - Suc i"] by (simp add: bit_bits_value)
  moreover have "bs ! i \<in> {0, 1}" using i assms(1,3) by (meson nth_mem subsetD)
  ultimately show "value_bits m (bits_value bs) ! i = bs ! i" by auto
qed

subsection \<open>Demodulation inverts modulation\<close>

lemma chunks_of_stream: "concat (map (\<lambda>i. take k (drop (i * k) xs)) [0..<n]) = take (n * k) xs"
  by (induction n) (simp_all add: take_add [symmetric] add.commute)

text \<open>A received symbol is near the sent one if neither amplitude is off by half a unit of the level grid, on which neighbours are two apart.\<close>

definition symbol_near :: "('f, 'm) arith_scheme \<Rightarrow> nat \<Rightarrow> int \<times> int \<Rightarrow> 'f \<times> 'f \<Rightarrow> bool" where
  "symbol_near A bps sent got \<longleftrightarrow>
     \<bar>ar_quot A bps (fst got) - of_int (fst sent)\<bar> < 1 / 2 \<and> \<bar>ar_quot A bps (snd got) - of_int (snd sent)\<bar> < 1 / 2"

lemma qam_slice_bits:
  assumes "length bs = m" "m \<le> 3" "0 < m" "set bs \<subseteq> {0, 1}" "\<bar>x - of_int (pam_level m (bits_value bs))\<bar> < 1 / 2"
  shows "value_bits m (gray_decode (qam_slice m x)) = bs"
proof -
  have "unat (bits_value bs) < 2 ^ m" using bits_value_bound [of bs m] assms(1,2) by simp
  then show ?thesis using slice_sent [OF _ assms(2,3,5)] value_bits_value [of bs m] assms(1,2,4) by simp
qed

lemma length_qam_levels: "even bps \<Longrightarrow> 0 < bps \<Longrightarrow> length bits mod bps = 0 \<Longrightarrow> length (qam_levels bits bps) = length bits div bps"
  by (simp add: qam_levels_def Let_def)

lemma qam_demodulate_near:
  assumes bps: "bps = 2 \<or> bps = 4 \<or> bps = 6" and bits: "set bits \<subseteq> {0, 1}" "length bits mod bps = 0"
    and near: "list_all2 (symbol_near A bps) (qam_levels bits bps) ys"
  shows "qam_demodulate A ys bps = bits"
proof -
  define m where "m = bps div 2"
  define n where "n = length bits div bps"
  have m: "bps = m + m" "m \<le> 3" "0 < m" using bps by (auto simp: m_def)
  have n: "n * bps = length bits" using bits(2) by (simp add: n_def div_mult_self1_is_m mod_0_imp_dvd)
  have len: "length (qam_levels bits bps) = n" using bps bits(2) by (auto simp: length_qam_levels n_def)
  let ?f = "\<lambda>(a, b). value_bits m (gray_decode (qam_slice m (ar_quot A bps a))) @
                     value_bits m (gray_decode (qam_slice m (ar_quot A bps b)))"
  have one: "?f (ys ! i) = take bps (drop (i * bps) bits)" if i: "i < n" for i
  proof -
    let ?p = "take m (drop (i * bps) bits)" and ?q = "take m (drop (i * bps + m) bits)"
    have "i * bps + bps \<le> length bits" using n mult_le_mono1 [of "Suc i" n bps] i by simp
    then have l: "length ?p = m" "length ?q = m" using m(1) by auto
    have s: "set ?p \<subseteq> {0, 1}" "set ?q \<subseteq> {0, 1}" using bits(1) by (meson order_trans set_drop_subset set_take_subset)+
    have "qam_levels bits bps ! i = (pam_level m (bits_value ?p), pam_level m (bits_value ?q))"
      using bps bits(2) i by (auto simp: qam_levels_def Let_def m_def n_def)
    moreover have "symbol_near A bps (qam_levels bits bps ! i) (ys ! i)" using list_all2_nthD [OF near] i len by simp
    ultimately have "?f (ys ! i) = ?p @ ?q"
      using qam_slice_bits [OF l(1) m(2,3) s(1)] qam_slice_bits [OF l(2) m(2,3) s(2)]
      by (simp add: symbol_near_def split_beta)
    then show ?thesis by (simp add: m(1) take_add add.commute)
  qed
  have "map ?f ys = map (\<lambda>i. take bps (drop (i * bps) bits)) [0..<n]"
    using one list_all2_lengthD [OF near] len by (intro nth_equalityI) simp_all
  then have "concat (map ?f ys) = bits" using chunks_of_stream [of bps bits n] n by simp
  then show ?thesis using bps by (auto simp: qam_demodulate_def Let_def m_def)
qed

subsection \<open>The decision regions\<close>

text \<open>
  The slicer has half the margin of the constellation: an amplitude less than half a unit away from a level is
  decided for that level, but not every amplitude is decided for the nearest one, as the comment in the source says.
  Between an even number and the next half the decision is for the level below, however close the level above
  is; in particular the small positive amplitudes of QPSK are read as negative.
\<close>

theorem qam_slicer_half_margin:
  assumes "odd k" "0 \<le> k + 1" "k + 2 \<le> 2 ^ m - 1" "of_int k + 1 < x" "x < of_int k + 3 / 2"
  shows "slice_level m x = k \<and> \<bar>x - of_int (k + 2)\<bar> < \<bar>x - of_int k\<bar> \<and>
    (\<forall>y. \<bar>y - of_int k\<bar> < 1 / 2 \<longrightarrow> slice_level m y = k)"
proof (intro conjI allI impI)
  have "lround x = k + 1" using assms(4,5) by (intro lround_near) (simp add: abs_less_iff field_simps)
  moreover have "max (- (2 ^ m - 1)) (min (2 ^ m - 1) (k + 1)) = k + 1" using assms(2,3) by linarith
  ultimately show "slice_level m x = k" using assms(1,2) by (simp add: slice_level_def Let_def)
  show "\<bar>x - of_int (k + 2)\<bar> < \<bar>x - of_int k\<bar>" using assms(4) by (simp add: abs_if)
  show "slice_level m y = k" if "\<bar>y - of_int k\<bar> < 1 / 2" for y
    using that assms(1-3) by (intro slice_level_near) auto
qed

theorem qam_slicer_half_margin_witness:
  "slice_level 1 (1 / 4) = - 1 \<and> \<bar>1 / 4 - (1 :: rat)\<bar> < \<bar>1 / 4 - (- 1)\<bar>"
  using qam_slicer_half_margin [of "- 1" 1 "1 / 4"] by simp

definition bit_errors :: "nat \<Rightarrow> u32 \<Rightarrow> u32 \<Rightarrow> nat" where
  "bit_errors m g h = length (filter (\<lambda>(a, b). a \<noteq> b) (zip (value_bits m (gray_decode g)) (value_bits m (gray_decode h))))"

text \<open>
  64QAM is not Gray coded: the bit groups of neighbouring levels differ in one bit for QPSK and 16QAM, but
  the levels on either side of zero of 64QAM differ in two bits. The mapper applies the Gray code in the wrong direction, which is its own inverse
  on two bits and not on three.
\<close>

theorem qam64_not_gray:
  "map (\<lambda>g. bit_errors 1 g (g + 1)) [0] = [1] \<and>
   map (\<lambda>g. bit_errors 2 g (g + 1)) [0, 1, 2] = [1, 1, 1] \<and>
   map (\<lambda>g. bit_errors 3 g (g + 1)) [0, 1, 2, 3, 4, 5, 6] = [1, 1, 1, 2, 1, 1, 1] \<and>
   map (\<lambda>g. pam_level 3 (gray_decode g)) [3, 4] = [- 1, 1]"
  by code_simp

end
