(* ===== verification/PhyFrame.thy ===== *)
theory PhyFrame
  imports Qam MacPdu RadioFrames Harq Pdcp RlcAm
begin

text \<open>
  Bursts of the physical layer, \<^verbatim>\<open>stack/phy/src/frame.cpp\<close>: the bit stream with its modulation tag cut into data
  symbols, cyclic prefixes, the preamble, and the receiver from the detected start of a burst to the bits.
  The floating-point kernels (\<^verbatim>\<open>fft_inplace\<close>, the reference sequences, the correlations, the channel
  estimate) are fields of the record \<open>radio\<close>; what a channel has to provide is the predicate \<open>burst_received\<close>.
  The measurements \<^verbatim>\<open>snr_db\<close> and \<^verbatim>\<open>cfo_rad\<close> that the receiver also reports are left out.
  Reading outside the sample buffer, which is undefined in the source, gives \<open>None\<close>.
\<close>

subsection \<open>Transmitter\<close>

record 'f radio = "'f arith" +
  ra_fft :: "bool \<Rightarrow> ('f \<times> 'f) list \<Rightarrow> ('f \<times> 'f) list"
  ra_pss :: "int \<Rightarrow> nat \<Rightarrow> ('f \<times> 'f) list"
  ra_sss :: "int \<Rightarrow> nat \<Rightarrow> ('f \<times> 'f) list"
  ra_dmrs :: "int \<Rightarrow> nat \<Rightarrow> ('f \<times> 'f) list"
  ra_pss_detect :: "('f \<times> 'f) list \<Rightarrow> nat \<Rightarrow> nat \<Rightarrow> nat \<Rightarrow> (nat \<times> int) option"
  ra_pci_verify :: "('f \<times> 'f) list \<Rightarrow> ('f \<times> 'f) list \<Rightarrow> int \<Rightarrow> nat \<Rightarrow> rat"
  ra_equalise :: "int \<Rightarrow> nat \<Rightarrow> ('f \<times> 'f) list \<Rightarrow> ('f \<times> 'f) list \<Rightarrow> ('f \<times> 'f) list"

record frame_tx_config =
  fc_n_fft :: nat
  fc_cp_len :: nat
  fc_pci :: int

definition frame_tx_default :: frame_tx_config where
  "frame_tx_default = \<lparr>fc_n_fft = 64, fc_cp_len = 16, fc_pci = 0\<rparr>"

definition kFrameDataMaxSymbols :: nat where "kFrameDataMaxSymbols = 40"

definition kPreambleSymbols :: nat where "kPreambleSymbols = 3"

definition make_pci :: "int \<Rightarrow> int \<Rightarrow> int" where "make_pci nid1 nid2 = nid1 * 3 + nid2"

text \<open>Division and remainder of C++ truncate towards zero.\<close>

definition pci_nid1 :: "int \<Rightarrow> int" where "pci_nid1 pci = sgn pci * (\<bar>pci\<bar> div 3)"

definition pci_nid2 :: "int \<Rightarrow> int" where "pci_nid2 pci = sgn pci * (\<bar>pci\<bar> mod 3)"

definition add_symbol :: "nat \<Rightarrow> 'c list \<Rightarrow> 'c list" where
  "add_symbol cp_len time_sym = drop (length time_sym - cp_len) time_sym @ time_sym"

definition tag_mcs :: "u8 list \<Rightarrow> mcs \<Rightarrow> u8 list" where
  "tag_mcs bits mcs = take 16 bits @ append_byte_bits (mcs_code mcs) @ drop 16 bits"

text \<open>The \<^verbatim>\<open>int\<close> result is converted to \<^verbatim>\<open>size_t\<close>.\<close>

definition frame_bits_capacity :: "nat \<Rightarrow> mcs \<Rightarrow> nat" where
  "frame_bits_capacity n_fft mcs =
     nat ((int (2 * n_fft + (kFrameDataMaxSymbols - 1) * mcs_bits_per_symbol mcs * n_fft) - 8) mod 2 ^ 64)"

definition frame_data_symbols :: "nat \<Rightarrow> nat \<Rightarrow> mcs \<Rightarrow> nat" where
  "frame_data_symbols n_bits n_fft mcs =
     (let bps = mcs_bits_per_symbol mcs; total = n_bits + 8 in
      if total \<le> 2 * n_fft then 1 else 1 + (total - 2 * n_fft + bps * n_fft - 1) div (bps * n_fft))"

definition resize_bits :: "nat \<Rightarrow> u8 list \<Rightarrow> u8 list" where
  "resize_bits k xs = take k xs @ replicate (k - length xs) 0"

text \<open>The bits of each data symbol with its bits per subcarrier: symbol 0 in QPSK, the others at the rate of the burst.\<close>

definition symbol_bits :: "u8 list \<Rightarrow> nat \<Rightarrow> mcs \<Rightarrow> nat \<Rightarrow> u8 list \<times> nat" where
  "symbol_bits tagged n mcs s =
     (let bps = mcs_bits_per_symbol mcs in
      if s = 0 then (resize_bits (2 * n) (take (2 * n) tagged), 2)
      else (resize_bits (bps * n) (take (bps * n) (drop (2 * n + (s - 1) * (bps * n)) tagged)), bps))"

definition map_data_symbols :: "('f, 'm) arith_scheme \<Rightarrow> u8 list \<Rightarrow> nat \<Rightarrow> mcs \<Rightarrow> ('f \<times> 'f) list list" where
  "map_data_symbols K bits n mcs =
     map (\<lambda>s. case symbol_bits (tag_mcs bits mcs) n mcs s of (c, bps) \<Rightarrow> qam_modulate K c bps)
       [0..<frame_data_symbols (length bits) n mcs]"

definition phy_preamble_burst :: "'f radio \<Rightarrow> frame_tx_config \<Rightarrow> ('f \<times> 'f) list" where
  "phy_preamble_burst K cfg =
     concat (map (\<lambda>row. add_symbol (fc_cp_len cfg) (ra_fft K True row))
       [ra_pss K (pci_nid2 (fc_pci cfg)) (fc_n_fft cfg), ra_sss K (pci_nid1 (fc_pci cfg)) (fc_n_fft cfg),
        ra_dmrs K (fc_pci cfg) (fc_n_fft cfg)])"

definition phy_tx_data :: "'f radio \<Rightarrow> u8 list \<Rightarrow> frame_tx_config \<Rightarrow> mcs \<Rightarrow> cpp_exception + ('f \<times> 'f) list" where
  "phy_tx_data K bits cfg mcs =
     (if length bits > frame_bits_capacity (fc_n_fft cfg) mcs then Inl invalid_argument
      else Inr (concat (map (\<lambda>row. add_symbol (fc_cp_len cfg) (ra_fft K True row)) (map_data_symbols K bits (fc_n_fft cfg) mcs))))"

definition phy_tx_frame :: "'f radio \<Rightarrow> u8 list \<Rightarrow> frame_tx_config \<Rightarrow> mcs \<Rightarrow> cpp_exception + ('f \<times> 'f) list" where
  "phy_tx_frame K bits cfg mcs =
     (if length bits > frame_bits_capacity (fc_n_fft cfg) mcs then Inl invalid_argument
      else
        let rows = [ra_pss K (pci_nid2 (fc_pci cfg)) (fc_n_fft cfg), ra_sss K (pci_nid1 (fc_pci cfg)) (fc_n_fft cfg),
                    ra_dmrs K (fc_pci cfg) (fc_n_fft cfg)] @ map_data_symbols K bits (fc_n_fft cfg) mcs
        in Inr (concat (map (\<lambda>row. add_symbol (fc_cp_len cfg) (ra_fft K True row)) rows)))"

subsection \<open>Receiver\<close>

record frame_rx_result =
  fr_synced :: bool
  fr_pci_confirmed :: bool
  fr_pci :: int
  fr_timing :: int
  fr_mcs :: mcs

definition frame_rx_init :: frame_rx_result where
  "frame_rx_init = \<lparr>fr_synced = False, fr_pci_confirmed = False, fr_pci = - 1, fr_timing = - 999, fr_mcs = QPSK\<rparr>"

definition slice_fd :: "'f radio \<Rightarrow> frame_tx_config \<Rightarrow> ('f \<times> 'f) list \<Rightarrow> nat \<Rightarrow> ('f \<times> 'f) list" where
  "slice_fd K cfg work sym_index =
     ra_fft K False (take (fc_n_fft cfg) (drop (sym_index * (fc_n_fft cfg + fc_cp_len cfg) + fc_cp_len cfg) work))"

definition pci_search :: "'f radio \<Rightarrow> nat \<Rightarrow> ('f \<times> 'f) list \<Rightarrow> ('f \<times> 'f) list \<Rightarrow> int \<Rightarrow> int \<times> rat" where
  "pci_search K n rx_sss rx_dmrs nid2 =
     fold (\<lambda>nid1 (best_pci, best_corr).
             let cand = make_pci nid1 nid2; corr = ra_pci_verify K rx_sss rx_dmrs cand n
             in if corr > best_corr then (cand, corr) else (best_pci, best_corr)) [0, 1] (- 1, - 1)"

definition avail_symbols :: "frame_tx_config \<Rightarrow> nat \<Rightarrow> nat" where
  "avail_symbols cfg work_len =
     (let stride = fc_n_fft cfg + fc_cp_len cfg; preamble_total = kPreambleSymbols * stride
      in if work_len \<ge> preamble_total + fc_cp_len cfg + fc_n_fft cfg
         then min (1 + (work_len - preamble_total - fc_cp_len cfg - fc_n_fft cfg) div stride) kFrameDataMaxSymbols else 0)"

definition rx_field :: "u8 list \<Rightarrow> nat \<Rightarrow> nat \<Rightarrow> u32" where
  "rx_field b off n = fold (\<lambda>i v. v OR push_bit i (ucast (b ! (off + i)) AND 1)) [0..<n] 0"

definition mcs_of_field :: "u32 \<Rightarrow> mcs option" where
  "mcs_of_field v = (if v > 2 then None else Some (if v = 0 then QPSK else if v = 1 then QAM16 else QAM64))"

definition foreign_unicast :: "u16 \<Rightarrow> u8 list \<Rightarrow> bool" where
  "foreign_unicast own_rnti tagged \<longleftrightarrow>
     own_rnti \<noteq> 0 \<and> rx_field tagged 24 8 = 0xA5 \<and> rx_field tagged 32 16 \<noteq> ucast own_rnti \<and> rx_field tagged 32 16 \<noteq> 0xFFFF"

definition rx_symbols :: "'f radio \<Rightarrow> frame_tx_config \<Rightarrow> u16 \<Rightarrow> (nat \<Rightarrow> ('f \<times> 'f) list) \<Rightarrow> nat \<Rightarrow> frame_rx_result \<Rightarrow> frame_rx_result \<times> u8 list" where
  "rx_symbols K cfg own_rnti equalised avail out =
     (let head_bits = qam_demodulate K (equalised 0) 2 in
      if length head_bits < 48 then (out, [])
      else
        case mcs_of_field (rx_field head_bits 16 8) of
          None \<Rightarrow> (out, [])
        | Some mcs \<Rightarrow>
            let out = out\<lparr>fr_mcs := mcs\<rparr> in
            if foreign_unicast own_rnti head_bits then (out, [])
            else
              let tagged = head_bits @ concat (map (\<lambda>s. qam_demodulate K (equalised s) (mcs_bits_per_symbol mcs)) [1..<avail])
              in (out, take 16 tagged @ drop 24 tagged))"

definition phy_rx_frame :: "'f radio \<Rightarrow> ('f \<times> 'f) list \<Rightarrow> frame_tx_config \<Rightarrow> u16 \<Rightarrow> (frame_rx_result \<times> u8 list) option" where
  "phy_rx_frame K samples cfg own_rnti =
     (let n = fc_n_fft cfg; cp = fc_cp_len cfg; stride = n + cp in
      case ra_pss_detect K samples n cp (4 * stride) of
        None \<Rightarrow> Some (frame_rx_init, [])
      | Some (timing, nid2) \<Rightarrow>
          let out = frame_rx_init\<lparr>fr_timing := int timing\<rparr> in
          if int (length samples) - (int timing - int cp) \<le> 0 then Some (out, [])
          else if timing < cp then None
          else
            let work = take (stride * (kPreambleSymbols + kFrameDataMaxSymbols)) (drop (timing - cp) samples) in
            if length work < 2 * stride + cp + n then None
            else
              let rx_sss = slice_fd K cfg work 1; rx_dmrs = slice_fd K cfg work 2;
                  (best_pci, best_corr) = pci_search K n rx_sss rx_dmrs nid2;
                  out = out\<lparr>fr_synced := True, fr_pci := best_pci\<rparr>
              in if best_pci < 0 \<or> best_corr < 1 / 2 \<or> (fc_pci cfg \<ge> 0 \<and> best_pci \<noteq> fc_pci cfg) then Some (out, [])
                 else
                   let out = out\<lparr>fr_pci_confirmed := True\<rparr>; avail = avail_symbols cfg (length work) in
                   if avail = 0 then Some (out, [])
                   else Some (rx_symbols K cfg own_rnti
                          (\<lambda>s. ra_equalise K best_pci n rx_dmrs (slice_fd K cfg work (kPreambleSymbols + s))) avail out))"

subsection \<open>Symbols and bits\<close>

lemma length_tag_mcs [simp]: "16 \<le> length bits \<Longrightarrow> length (tag_mcs bits mcs) = length bits + 8"
  by (simp add: tag_mcs_def)

lemma resize_chunk:
  assumes "off + k \<le> length (xs @ replicate pad 0)"
  shows "resize_bits k (take k (drop off xs)) = take k (drop off (xs @ replicate pad 0))"
proof -
  have "min (k - (length xs - off)) (pad - (off - length xs)) = k - (length xs - off)" using assms by auto
  moreover have "k - min (length xs - off) k = k - (length xs - off)" by (simp add: min_def)
  ultimately show ?thesis by (simp add: resize_bits_def)
qed

lemma bps_cases: "mcs_bits_per_symbol mcs = 2 \<or> mcs_bits_per_symbol mcs = 4 \<or> mcs_bits_per_symbol mcs = 6"
  by (cases mcs) simp_all

lemma symbol_bits_chunk:
  assumes "length (tagged @ replicate pad 0) = 2 * n + (k - 1) * (mcs_bits_per_symbol mcs * n)" "s < k"
  shows "symbol_bits tagged n mcs s =
    (let bps = mcs_bits_per_symbol mcs in
     if s = 0 then (take (2 * n) (tagged @ replicate pad 0), 2)
     else (take (bps * n) (drop ((s - 1) * (bps * n)) (drop (2 * n) (tagged @ replicate pad 0))), bps))"
proof (cases s)
  case 0
  then show ?thesis using resize_chunk [of 0 "2 * n" tagged pad] assms(1) by (simp add: symbol_bits_def Let_def)
next
  case (Suc j)
  let ?w = "mcs_bits_per_symbol mcs * n"
  have "Suc j * ?w \<le> (k - 1) * ?w" using assms(2) Suc by (intro mult_le_mono1) simp
  then have "2 * n + j * ?w + ?w \<le> length (tagged @ replicate pad 0)" unfolding assms(1) by simp
  then show ?thesis using resize_chunk [of "2 * n + j * ?w" ?w tagged pad] Suc
    by (simp add: symbol_bits_def Let_def add.commute)
qed

lemma symbols_hold_stream:
  assumes "length (tagged @ replicate pad 0) = 2 * n + (k - 1) * (mcs_bits_per_symbol mcs * n)" "0 < k"
  shows "concat (map (\<lambda>s. fst (symbol_bits tagged n mcs s)) [0..<k]) = tagged @ replicate pad 0"
proof -
  define T where "T = tagged @ replicate pad 0"
  let ?w = "mcs_bits_per_symbol mcs * n"
  note chunk = symbol_bits_chunk [OF assms(1), folded T_def]
  have "map (\<lambda>s. fst (symbol_bits tagged n mcs s)) [1..<k] = map (\<lambda>j. take ?w (drop (j * ?w) (drop (2 * n) T))) [0..<k - 1]"
    by (intro nth_equalityI) (simp_all add: Let_def chunk)
  moreover have "[0..<k] = 0 # [1..<k]" using assms(2) upt_conv_Cons [of 0 k] by simp
  ultimately have "concat (map (\<lambda>s. fst (symbol_bits tagged n mcs s)) [0..<k]) = take (2 * n) T @ take ((k - 1) * ?w) (drop (2 * n) T)"
    using chunks_of_stream [of ?w "drop (2 * n) T" "k - 1"] by (simp only: list.map concat.simps chunk [OF assms(2)] Let_def refl if_True fst_conv)
  also have "\<dots> = take (2 * n + (k - 1) * ?w) T" by (simp only: take_add)
  also have "\<dots> = T" using assms(1) by (simp add: T_def)
  finally show ?thesis by (simp add: T_def)
qed

lemma ceiling_div: "0 < w \<Longrightarrow> x \<le> (x + w - 1) div w * (w :: nat)"
  using dividend_less_times_div [of w "x + w - 1"] by (simp add: mult.commute)

text \<open>The data symbols of a burst hold the tagged stream, and a stream within the capacity needs at most forty of them.\<close>

lemma data_symbols_suffice:
  assumes "0 < n"
  shows "n_bits + 8 \<le> 2 * n + (frame_data_symbols n_bits n mcs - 1) * (mcs_bits_per_symbol mcs * n)"
    and "0 < frame_data_symbols n_bits n mcs"
proof -
  let ?w = "mcs_bits_per_symbol mcs * n"
  have w: "0 < ?w" using assms bps_cases [of mcs] by auto
  show "n_bits + 8 \<le> 2 * n + (frame_data_symbols n_bits n mcs - 1) * ?w"
    using ceiling_div [OF w, of "n_bits + 8 - 2 * n"] unfolding frame_data_symbols_def Let_def by (cases "n_bits + 8 \<le> 2 * n") simp_all
qed (simp add: frame_data_symbols_def Let_def)

lemma capacity_eq:
  assumes "0 < n" "n < 2 ^ 32"
  shows "frame_bits_capacity n mcs + 8 = 2 * n + 39 * (mcs_bits_per_symbol mcs * n)"
proof -
  let ?c = "int (2 * n + 39 * (mcs_bits_per_symbol mcs * n)) - 8"
  have "0 \<le> ?c" "?c < 2 ^ 64" using assms bps_cases [of mcs] by auto
  then have "int (frame_bits_capacity n mcs) = ?c" by (simp add: frame_bits_capacity_def kFrameDataMaxSymbols_def mult.assoc)
  then show ?thesis by linarith
qed

lemma capacity_symbols:
  assumes "0 < n" "n < 2 ^ 32" "n_bits \<le> frame_bits_capacity n mcs"
  shows "frame_data_symbols n_bits n mcs \<le> 40"
proof -
  define w where "w = mcs_bits_per_symbol mcs * n"
  have w: "0 < w" using assms(1) bps_cases [of mcs] by (auto simp: w_def)
  have "n_bits + 8 - 2 * n + w - 1 < 40 * w" using capacity_eq [OF assms(1,2), of mcs, folded w_def] assms(3) w by linarith
  then have "(n_bits + 8 - 2 * n + w - 1) div w < 40" using w by (simp add: div_less_iff_less_mult)
  moreover have "x \<le> 40" if "x = (if b then 1 else 1 + y)" "y < 40" for x y :: nat and b using that by simp
  ultimately show ?thesis unfolding frame_data_symbols_def Let_def w_def by blast
qed

subsection \<open>What the receiver reads\<close>

lemma bit_rx_field: "bit (rx_field b off m) j \<longleftrightarrow> j < m \<and> j < 32 \<and> bit (b ! (off + j)) 0"
  by (simp only: rx_field_def bit_fold_bits) (simp add: bit_ucast_iff)

lemma rx_field_cong: "(\<And>i. i < m \<Longrightarrow> b ! (off + i) = c ! (off + i)) \<Longrightarrow> rx_field b off m = rx_field c off m"
  by (rule bit_word_eqI) (auto simp: bit_rx_field)

lemma rx_field_byte: "i < length bs \<Longrightarrow> rx_field (concat (map append_byte_bits bs)) (8 * i) 8 = ucast (bs ! i)"
proof (rule bit_word_eqI)
  fix j assume i: "i < length bs" and "j < LENGTH(32)"
  then show "bit (rx_field (concat (map append_byte_bits bs)) (8 * i) 8) j \<longleftrightarrow> bit (ucast (bs ! i) :: u32) j"
    using bit_imp_le_length [of "bs ! i" j]
    by (cases "j < 8") (auto simp: bit_rx_field nth_concat_byte_bits bit_append_byte_bits bit_ucast_iff)
qed

lemma rx_field_word:
  assumes "Suc i < length bs"
  shows "rx_field (concat (map append_byte_bits bs)) (8 * i) 16 = ucast (get16 (bs ! i) (bs ! Suc i))"
proof (rule bit_word_eqI)
  fix j assume "j < LENGTH(32)"
  have "bit (concat (map append_byte_bits bs) ! (8 * i + j)) 0 \<longleftrightarrow> bit (bs ! i) j" if "j < 8"
    using that assms by (simp add: nth_concat_byte_bits bit_append_byte_bits)
  moreover have "bit (concat (map append_byte_bits bs) ! (8 * i + j)) 0 \<longleftrightarrow> bit (bs ! Suc i) (j - 8)" if "8 \<le> j" "j < 16"
    using that assms nth_concat_byte_bits [of "Suc i" bs "j - 8"] by (simp add: bit_append_byte_bits)
  ultimately show "bit (rx_field (concat (map append_byte_bits bs)) (8 * i) 16) j \<longleftrightarrow> bit (ucast (get16 (bs ! i) (bs ! Suc i)) :: u32) j"
    by (cases "j < 8"; cases "j < 16") (auto simp: bit_rx_field bit_ucast_iff bit_get16 dest: bit_imp_le_length)
qed

lemma mcs_of_field_code: "mcs_of_field (ucast (mcs_code mcs)) = Some mcs"
  by (cases mcs) (simp_all add: mcs_of_field_def)

subsection \<open>Demodulating the data symbols\<close>

definition near_symbols :: "('f, 'm) arith_scheme \<Rightarrow> u8 list \<Rightarrow> nat \<Rightarrow> mcs \<Rightarrow> (nat \<Rightarrow> ('f \<times> 'f) list) \<Rightarrow> bool" where
  "near_symbols K bits n mcs equalised \<longleftrightarrow>
     (\<forall>s < frame_data_symbols (length bits) n mcs. case symbol_bits (tag_mcs bits mcs) n mcs s of
        (c, bps) \<Rightarrow> list_all2 (symbol_near K bps) (qam_levels c bps) (equalised s))"

lemma length_resize [simp]: "length (resize_bits k xs) = k"
  by (simp add: resize_bits_def)

lemma set_resize: "set xs \<subseteq> {0, 1} \<Longrightarrow> set (resize_bits k xs) \<subseteq> {0, 1}"
  unfolding resize_bits_def by (auto dest: in_set_takeD)

lemma symbol_bits_ok:
  assumes "set tagged \<subseteq> {0, 1}" "symbol_bits tagged n mcs s = (c, bps)"
  shows "set c \<subseteq> {0, 1}" "length c mod bps = 0" "bps = 2 \<or> bps = 4 \<or> bps = 6" "bps = (if s = 0 then 2 else mcs_bits_per_symbol mcs)"
proof -
  obtain k l where "c = resize_bits k (take k (drop l tagged))"
  proof (cases "s = 0")
    case True
    then show ?thesis using that [of "2 * n" 0] assms(2) by (simp add: symbol_bits_def Let_def)
  next
    case False
    then show ?thesis using that [of "mcs_bits_per_symbol mcs * n" "2 * n + (s - 1) * (mcs_bits_per_symbol mcs * n)"] assms(2)
      by (auto simp: symbol_bits_def Let_def)
  qed
  moreover have "set (take k (drop l tagged)) \<subseteq> {0, 1}" using assms(1) by (meson order_trans set_drop_subset set_take_subset)
  ultimately show "set c \<subseteq> {0, 1}" by (simp add: set_resize)
qed (use assms(2) bps_cases [of mcs] in \<open>auto simp: symbol_bits_def Let_def split: if_splits\<close>)

lemma demodulate_symbol:
  assumes "near_symbols K bits n mcs equalised" "set (tag_mcs bits mcs) \<subseteq> {0, 1}" "s < frame_data_symbols (length bits) n mcs"
  shows "qam_demodulate K (equalised s) (if s = 0 then 2 else mcs_bits_per_symbol mcs) = fst (symbol_bits (tag_mcs bits mcs) n mcs s)"
proof -
  obtain c bps where c: "symbol_bits (tag_mcs bits mcs) n mcs s = (c, bps)" by fastforce
  note ok = symbol_bits_ok [OF assms(2) c]
  have "list_all2 (symbol_near K bps) (qam_levels c bps) (equalised s)" using assms(1,3) c by (auto simp: near_symbols_def)
  then have "qam_demodulate K (equalised s) bps = c" by (rule qam_demodulate_near [OF ok(3,1,2)])
  then show ?thesis using c ok(4) by simp
qed

text \<open>From symbols near the sent ones the receiver recovers the bits, unless the early drop takes the burst for one that is addressed to another terminal.\<close>

lemma head_symbol:
  assumes "24 \<le> n" "j < 2 * n" "j < length tagged"
  shows "fst (symbol_bits tagged n mcs 0) ! j = tagged ! j"
  using assms by (simp add: symbol_bits_def Let_def resize_bits_def nth_append)

lemma rx_head:
  assumes n: "24 \<le> n" and bits: "40 \<le> length bits" and h: "h = fst (symbol_bits (tag_mcs bits mcs) n mcs 0)"
  shows "length h = 2 * n" "mcs_of_field (rx_field h 16 8) = Some mcs" "foreign_unicast own h = foreign_unicast own (tag_mcs bits mcs)"
proof -
  show "length h = 2 * n" by (simp add: h symbol_bits_def Let_def)
  have hd: "h ! j = tag_mcs bits mcs ! j" if "j < 48" for j using head_symbol [OF n, of j "tag_mcs bits mcs" mcs] that n bits by (simp add: h)
  have "rx_field h 16 8 = ucast (mcs_code mcs)"
  proof (rule bit_word_eqI)
    fix j assume "j < LENGTH(32)"
    have "h ! (16 + j) = append_byte_bits (mcs_code mcs) ! j" if "j < 8"
      using that hd [of "16 + j"] bits by (simp add: tag_mcs_def nth_append)
    then show "bit (rx_field h 16 8) j \<longleftrightarrow> bit (ucast (mcs_code mcs) :: u32) j"
      using bit_imp_le_length [of "mcs_code mcs" j]
      by (cases "j < 8") (auto simp: bit_rx_field bit_append_byte_bits bit_ucast_iff)
  qed
  then show "mcs_of_field (rx_field h 16 8) = Some mcs" by (simp add: mcs_of_field_code)
  show "foreign_unicast own h = foreign_unicast own (tag_mcs bits mcs)"
    unfolding foreign_unicast_def
    using rx_field_cong [of 8 h 24 "tag_mcs bits mcs"] rx_field_cong [of 16 h 32 "tag_mcs bits mcs"] hd by simp
qed

lemma rx_stream:
  assumes n: "0 < n" and bits: "16 \<le> length bits" "set (tag_mcs bits mcs) \<subseteq> {0, 1}"
    and near: "near_symbols K bits n mcs equalised" and avail: "frame_data_symbols (length bits) n mcs \<le> avail"
  shows "\<exists>rest. qam_demodulate K (equalised 0) 2 @ concat (map (\<lambda>s. qam_demodulate K (equalised s) (mcs_bits_per_symbol mcs)) [1..<avail]) =
    tag_mcs bits mcs @ rest"
proof -
  define k where "k = frame_data_symbols (length bits) n mcs"
  have k: "0 < k" "length bits + 8 \<le> 2 * n + (k - 1) * (mcs_bits_per_symbol mcs * n)"
    using data_symbols_suffice [OF n] by (simp_all add: k_def)
  define pad where "pad = 2 * n + (k - 1) * (mcs_bits_per_symbol mcs * n) - length (tag_mcs bits mcs)"
  have "length (tag_mcs bits mcs @ replicate pad 0) = 2 * n + (k - 1) * (mcs_bits_per_symbol mcs * n)" using k(2) bits(1) by (simp add: pad_def)
  note all = symbols_hold_stream [OF this k(1)]
  note demod = demodulate_symbol [OF near bits(2), folded k_def]
  have "qam_demodulate K (equalised s) (mcs_bits_per_symbol mcs) = fst (symbol_bits (tag_mcs bits mcs) n mcs s)" if "s \<in> set [1..<k]" for s
    using that demod [of s] by simp
  then have e: "map (\<lambda>s. qam_demodulate K (equalised s) (mcs_bits_per_symbol mcs)) [1..<k] = map (\<lambda>s. fst (symbol_bits (tag_mcs bits mcs) n mcs s)) [1..<k]"
    by (intro map_cong refl)
  have u: "[0..<k] = 0 # [1..<k]" using k(1) upt_conv_Cons [of 0 k] by simp
  have "qam_demodulate K (equalised 0) 2 @ concat (map (\<lambda>s. qam_demodulate K (equalised s) (mcs_bits_per_symbol mcs)) [1..<k]) =
      tag_mcs bits mcs @ replicate pad 0"
    unfolding e using all demod [OF k(1)] by (simp add: u)
  moreover have "[1..<avail] = [1..<k] @ [k..<avail]" using avail k(1) upt_add_eq_append [of 1 k "avail - k"] by (simp add: k_def)
  ultimately show ?thesis by (metis append.assoc concat_append map_append)
qed

lemma rx_symbols_received:
  assumes n: "24 \<le> n" and bits: "40 \<le> length bits" "set (tag_mcs bits mcs) \<subseteq> {0, 1}"
    and near: "near_symbols K bits n mcs equalised" and avail: "frame_data_symbols (length bits) n mcs \<le> avail"
  shows "\<exists>rest. rx_symbols K cfg own equalised avail out =
    (out\<lparr>fr_mcs := mcs\<rparr>, if foreign_unicast own (tag_mcs bits mcs) then [] else bits @ rest)"
proof -
  have "0 < frame_data_symbols (length bits) n mcs" by (simp add: frame_data_symbols_def Let_def)
  then have h: "qam_demodulate K (equalised 0) 2 = fst (symbol_bits (tag_mcs bits mcs) n mcs 0)" using demodulate_symbol [OF near bits(2), of 0] by simp
  obtain rest where r: "qam_demodulate K (equalised 0) 2 @ concat (map (\<lambda>s. qam_demodulate K (equalised s) (mcs_bits_per_symbol mcs)) [1..<avail]) =
      tag_mcs bits mcs @ rest"
    using rx_stream [OF _ _ bits(2) near avail] n bits(1) by auto
  have "take 16 (tag_mcs bits mcs @ rest) @ drop 24 (tag_mcs bits mcs @ rest) = bits @ rest" using bits(1) by (simp add: tag_mcs_def)
  then show ?thesis using rx_head [OF n bits(1) h] n r by (auto simp: rx_symbols_def Let_def)
qed

subsection \<open>A burst with an air frame\<close>

lemma byte_bits_01: "set (concat (map append_byte_bits bs)) \<subseteq> {0, 1}"
proof -
  have "drop_bit i v AND 1 \<in> {0, 1 :: u8}" for i and v :: u8 by (simp add: and_one_eq mod_2_eq_odd)
  then show ?thesis by (auto simp: append_byte_bits_def)
qed

definition framed_bytes :: "air_frame \<Rightarrow> mcs \<Rightarrow> bytes" where
  "framed_bytes f mcs =
     (let d = encode_frame f in byte_at 0 (size16 d) # byte_at 1 (size16 d) # mcs_code mcs # d)"

lemma tagged_frame: "tag_mcs (pack_air_bits (encode_frame f)) mcs = concat (map append_byte_bits (framed_bytes f mcs))"
  by (simp add: tag_mcs_def pack_air_bits_eq framed_bytes_def Let_def)

lemma ucast_u16_inj:
  fixes x y :: u16
  assumes "(ucast x :: u32) = ucast y"
  shows "x = y"
proof (rule bit_word_eqI)
  fix n assume "n < LENGTH(16)"
  moreover from assms have "bit (ucast x :: u32) n = bit (ucast y :: u32) n" by simp
  ultimately show "bit x n = bit y n" by (simp add: bit_ucast_iff)
qed

lemma foreign_frame:
  "foreign_unicast own (tag_mcs (pack_air_bits (encode_frame f)) mcs) \<longleftrightarrow>
     own \<noteq> 0 \<and> af_type f = DATA \<and> af_rnti f \<noteq> own \<and> af_rnti f \<noteq> 0xFFFF"
proof -
  let ?t = "concat (map append_byte_bits (framed_bytes f mcs))"
  have "rx_field ?t (8 * 3) 8 = ucast (air_code (af_type f))"
    by (subst rx_field_byte) (simp_all add: framed_bytes_def encode_frame_def Let_def)
  then have ty: "rx_field ?t 24 8 = 0xA5 \<longleftrightarrow> af_type f = DATA" by (cases "af_type f") simp_all
  have "rx_field ?t (8 * 4) 16 = ucast (af_rnti f)"
    by (subst rx_field_word) (simp_all add: framed_bytes_def encode_frame_def Let_def put16_def wire_simps)
  then have r: "rx_field ?t 32 16 = ucast (af_rnti f)" by simp
  have "(ucast (0xFFFF :: u16) :: u32) = 0xFFFF" by simp
  then have "(ucast (af_rnti f) :: u32) = ucast own \<longleftrightarrow> af_rnti f = own" "(ucast (af_rnti f) :: u32) = 0xFFFF \<longleftrightarrow> af_rnti f = 0xFFFF"
    using ucast_u16_inj by metis+
  then show ?thesis unfolding foreign_unicast_def tagged_frame ty r by blast
qed

text \<open>
  What the channel has to provide: the preamble is found at its place, the search prefers the cell that sent
  the burst, and the equalised data symbols are near the sent ones.
\<close>

definition burst_received :: "'f radio \<Rightarrow> frame_tx_config \<Rightarrow> int \<Rightarrow> mcs \<Rightarrow> u8 list \<Rightarrow> ('f \<times> 'f) list \<Rightarrow> bool" where
  "burst_received K cfg pci mcs bits samples \<longleftrightarrow>
     (let n = fc_n_fft cfg; cp = fc_cp_len cfg in
      \<exists>t. ra_pss_detect K samples n cp (4 * (n + cp)) = Some (t, pci_nid2 pci) \<and> cp \<le> t \<and>
        t - cp + (kPreambleSymbols + frame_data_symbols (length bits) n mcs) * (n + cp) \<le> length samples \<and>
        (let row = slice_fd K cfg (drop (t - cp) samples); match = (\<lambda>cand. ra_pci_verify K (row 1) (row 2) cand n) in
         1 / 2 \<le> match pci \<and>
         (\<forall>nid1 \<in> {0, 1}. make_pci nid1 (pci_nid2 pci) \<noteq> pci \<longrightarrow> match (make_pci nid1 (pci_nid2 pci)) < match pci) \<and>
         near_symbols K bits n mcs (\<lambda>s. ra_equalise K pci n (row 2) (row (kPreambleSymbols + s)))))"

lemma pci_search_finds:
  assumes "0 \<le> pci" "pci < 6" "1 / 2 \<le> ra_pci_verify K a b pci n"
    and "\<forall>nid1 \<in> {0, 1}. make_pci nid1 (pci_nid2 pci) \<noteq> pci \<longrightarrow> ra_pci_verify K a b (make_pci nid1 (pci_nid2 pci)) n < ra_pci_verify K a b pci n"
  shows "pci_search K n a b (pci_nid2 pci) = (pci, ra_pci_verify K a b pci n)"
proof -
  have "pci = make_pci 0 (pci_nid2 pci) \<or> pci = make_pci 1 (pci_nid2 pci)" 
    using assms(1,2) by (cases "pci = 0") (simp add: make_pci_def pci_nid2_def, simp add: make_pci_def pci_nid2_def, presburger)
  then show ?thesis using assms(3,4) by (auto simp: pci_search_def Let_def make_pci_def)
qed

lemma slice_fd_take:
  assumes "(i + 1) * (fc_n_fft cfg + fc_cp_len cfg) \<le> len"
  shows "slice_fd K cfg (take len xs) i = slice_fd K cfg xs i"
proof -
  let ?o = "i * (fc_n_fft cfg + fc_cp_len cfg) + fc_cp_len cfg"
  have "?o + fc_n_fft cfg \<le> len" using assms by simp
  then have "take (fc_n_fft cfg) (drop ?o (take len xs)) = take (fc_n_fft cfg) (drop ?o xs)" by (simp add: drop_take min_def)
  then show ?thesis by (simp only: slice_fd_def)
qed

lemma avail_enough:
  assumes "(kPreambleSymbols + k) * (fc_n_fft cfg + fc_cp_len cfg) \<le> len" "0 < k" "k \<le> 40" "0 < fc_n_fft cfg"
  shows "k \<le> avail_symbols cfg len"
proof -
  define w where "w = fc_n_fft cfg + fc_cp_len cfg"
  obtain j where j: "k = Suc j" using assms(2) by (cases k) auto
  have l: "3 * w + w + j * w \<le> len" using assms(1) by (simp add: w_def j kPreambleSymbols_def algebra_simps)
  then have "j * w \<le> len - 3 * w - fc_cp_len cfg - fc_n_fft cfg" by (simp add: w_def)
  then have "j \<le> (len - 3 * w - fc_cp_len cfg - fc_n_fft cfg) div w"
    using assms(4) by (simp add: less_eq_div_iff_mult_less_eq w_def)
  moreover have "3 * w + fc_cp_len cfg + fc_n_fft cfg \<le> len" using l by (simp add: w_def)
  ultimately show ?thesis using assms(3) by (simp add: avail_symbols_def Let_def j kPreambleSymbols_def kFrameDataMaxSymbols_def w_def)
qed

lemma rx_reaches_symbols:
  fixes K :: "'f radio" and cfg :: frame_tx_config and samples :: "('f \<times> 'f) list" and t :: nat
  defines "w \<equiv> fc_n_fft cfg + fc_cp_len cfg"
  defines "work \<equiv> take (w * (kPreambleSymbols + kFrameDataMaxSymbols)) (drop (t - fc_cp_len cfg) samples)"
  defines "row \<equiv> slice_fd K cfg work"
  assumes t: "ra_pss_detect K samples (fc_n_fft cfg) (fc_cp_len cfg) (4 * w) = Some (t, pci_nid2 pci)" "fc_cp_len cfg \<le> t"
      "t - fc_cp_len cfg + (kPreambleSymbols + k) * w \<le> length samples"
    and k: "0 < k" "k \<le> 40" "0 < fc_n_fft cfg"
    and found: "pci_search K (fc_n_fft cfg) (row 1) (row 2) (pci_nid2 pci) = (pci, corr)" "1 / 2 \<le> corr" "0 \<le> pci" "fc_pci cfg < 0 \<or> fc_pci cfg = pci"
  shows "phy_rx_frame K samples cfg own =
      Some (rx_symbols K cfg own (\<lambda>s. ra_equalise K pci (fc_n_fft cfg) (row 2) (row (kPreambleSymbols + s))) (avail_symbols cfg (length work))
        (frame_rx_init\<lparr>fr_timing := int t, fr_synced := True, fr_pci := pci, fr_pci_confirmed := True\<rparr>))"
    and "k \<le> avail_symbols cfg (length work)"
proof -
  have w: "0 < w" "w = fc_n_fft cfg + fc_cp_len cfg" using k(3) by (simp_all add: w_def)
  have "(kPreambleSymbols + k) * w \<le> w * (kPreambleSymbols + kFrameDataMaxSymbols)" using k(2) by (simp add: kPreambleSymbols_def kFrameDataMaxSymbols_def)
  then have l: "(kPreambleSymbols + k) * w \<le> length work" using t(2,3) by (simp add: work_def)
  then show a: "k \<le> avail_symbols cfg (length work)" using avail_enough [OF _ k] by (simp add: w_def)
  have "4 * w \<le> (kPreambleSymbols + k) * w" using k(1) by (simp add: kPreambleSymbols_def)
  then have "4 * w \<le> length work" using l by linarith
  then have 1: "\<not> length work < 2 * w + fc_cp_len cfg + fc_n_fft cfg" using w by linarith
  have "0 < (kPreambleSymbols + k) * w" using w(1) k(1) by simp
  then have 2: "\<not> int (length samples) - (int t - int (fc_cp_len cfg)) \<le> 0" "\<not> t < fc_cp_len cfg" using t(2,3) by linarith+
  show "phy_rx_frame K samples cfg own = Some (rx_symbols K cfg own (\<lambda>s. ra_equalise K pci (fc_n_fft cfg) (row 2) (row (kPreambleSymbols + s)))
      (avail_symbols cfg (length work)) (frame_rx_init\<lparr>fr_timing := int t, fr_synced := True, fr_pci := pci, fr_pci_confirmed := True\<rparr>))"
    unfolding phy_rx_frame_def Let_def w_def [symmetric] t(1) option.case prod.case if_not_P [OF 2(1)] if_not_P [OF 2(2)] work_def [symmetric]
      if_not_P [OF 1] row_def [symmetric] found(1)
    using found(2-4) a k(1) by (auto simp: not_less)
qed

text \<open>
  Over the air: a burst whose samples the channel spoils by less than half a unit of the constellation's grid delivers its air frame.
  For any floating-point kernel, any of the three modulations and any frame that fits one burst, the receiver confirms
  the cell, reads the modulation from the header symbol, and returns bits from which the node decodes the frame. With
  an address of its own it drops the burst after the header exactly if the frame is unicast data for another terminal.
\<close>

theorem phy_burst_delivers:
  fixes f :: air_frame and K :: "'f radio" and cfg :: frame_tx_config
  defines "bits \<equiv> pack_air_bits (encode_frame f)"
  assumes n: "24 \<le> fc_n_fft cfg" "fc_n_fft cfg < 2 ^ 32"
    and pci: "0 \<le> pci" "pci < 6" "fc_pci cfg < 0 \<or> fc_pci cfg = pci"
    and fits: "length bits \<le> frame_bits_capacity (fc_n_fft cfg) mcs" "length (af_payload f) \<le> 65532"
    and rx: "burst_received K cfg pci mcs bits samples"
  shows "\<exists>r out. phy_rx_frame K samples cfg own = Some (r, out) \<and> fr_pci_confirmed r \<and> fr_pci r = pci \<and> fr_mcs r = mcs \<and>
    Option.bind (unpack_air_bits out) decode_frame =
      (if own \<noteq> 0 \<and> af_type f = DATA \<and> af_rnti f \<noteq> own \<and> af_rnti f \<noteq> 0xFFFF then None else Some f)"
proof -
  define w where "w = fc_n_fft cfg + fc_cp_len cfg"
  define k where "k = frame_data_symbols (length bits) (fc_n_fft cfg) mcs"
  have k: "0 < k" "k \<le> 40"
    using data_symbols_suffice(2) [of "fc_n_fft cfg" "length bits" mcs] capacity_symbols [OF _ n(2) fits(1)] n(1) by (simp_all add: k_def)
  obtain t where t: "ra_pss_detect K samples (fc_n_fft cfg) (fc_cp_len cfg) (4 * w) = Some (t, pci_nid2 pci)" "fc_cp_len cfg \<le> t"
      "t - fc_cp_len cfg + (kPreambleSymbols + k) * w \<le> length samples"
    and row: "let row = slice_fd K cfg (drop (t - fc_cp_len cfg) samples); match = (\<lambda>cand. ra_pci_verify K (row 1) (row 2) cand (fc_n_fft cfg)) in
         1 / 2 \<le> match pci \<and>
         (\<forall>nid1 \<in> {0, 1}. make_pci nid1 (pci_nid2 pci) \<noteq> pci \<longrightarrow> match (make_pci nid1 (pci_nid2 pci)) < match pci) \<and>
         near_symbols K bits (fc_n_fft cfg) mcs (\<lambda>s. ra_equalise K pci (fc_n_fft cfg) (row 2) (row (kPreambleSymbols + s)))"
    using rx unfolding burst_received_def Let_def w_def k_def by auto
  define row where "row = slice_fd K cfg (drop (t - fc_cp_len cfg) samples)"
  define work where "work = take (w * (kPreambleSymbols + kFrameDataMaxSymbols)) (drop (t - fc_cp_len cfg) samples)"
  have same: "slice_fd K cfg work i = row i" if "i < 43" for i
    unfolding work_def row_def using that mult_le_mono2 [of "Suc i" 43 w]
    by (intro slice_fd_take) (simp add: w_def kPreambleSymbols_def kFrameDataMaxSymbols_def mult.commute)
  have near: "near_symbols K bits (fc_n_fft cfg) mcs (\<lambda>s. ra_equalise K pci (fc_n_fft cfg) (slice_fd K cfg work 2) (slice_fd K cfg work (kPreambleSymbols + s)))"
    using row k(2) by (auto simp: near_symbols_def Let_def same kPreambleSymbols_def k_def [symmetric] row_def [symmetric] split: prod.splits)
  have "pci_search K (fc_n_fft cfg) (slice_fd K cfg work 1) (slice_fd K cfg work 2) (pci_nid2 pci) = (pci, ra_pci_verify K (row 1) (row 2) pci (fc_n_fft cfg))"
    using pci_search_finds [OF pci(1,2), of K "row 1" "row 2" "fc_n_fft cfg"] row by (simp add: same Let_def row_def [symmetric])
  note r = rx_reaches_symbols [where samples = samples, OF t(1) [unfolded w_def] t(2) t(3) [unfolded w_def] k _ this [unfolded work_def w_def] _ pci(1,3), folded w_def, folded work_def]
  have "0 < fc_n_fft cfg" "1 / 2 \<le> ra_pci_verify K (row 1) (row 2) pci (fc_n_fft cfg)" using n(1) row by (simp_all add: Let_def row_def [symmetric])
  note r = r [OF this]
  have "40 \<le> length bits" by (simp add: bits_def pack_air_bits_eq encode_frame_def)
  moreover have "set (tag_mcs bits mcs) \<subseteq> {0, 1}" unfolding bits_def tagged_frame by (rule byte_bits_01)
  ultimately have b: "40 \<le> length bits" "set (tag_mcs bits mcs) \<subseteq> {0, 1}" .
  from rx_symbols_received [OF n(1) b near r(2) [unfolded k_def], of cfg own "frame_rx_init\<lparr>fr_timing := int t, fr_synced := True, fr_pci := pci, fr_pci_confirmed := True\<rparr>"] obtain rest where
    "phy_rx_frame K samples cfg own = Some (frame_rx_init\<lparr>fr_timing := int t, fr_synced := True, fr_pci := pci, fr_pci_confirmed := True, fr_mcs := mcs\<rparr>,
       if foreign_unicast own (tag_mcs bits mcs) then [] else bits @ rest)"
    unfolding r(1) by auto
  moreover have "Option.bind (unpack_air_bits (bits @ rest)) decode_frame = Some f"
    using unpack_pack_append [of "encode_frame f" rest] fits(2) by (simp add: bits_def encode_frame_def decode_encode_frame [unfolded encode_frame_def])
  moreover have "unpack_air_bits [] = None" by (simp add: unpack_air_bits_def)
  ultimately show ?thesis using foreign_frame [of own f mcs] by (auto simp: bits_def)
qed

text \<open>A noiseless radio with exact arithmetic and a transform that is the identity: what it transmits is received.\<close>

definition ideal_radio :: "int \<Rightarrow> rat radio" where
  "ideal_radio pci =
     \<lparr>ar_amp = (\<lambda>_ k. of_int k / 4), ar_quot = (\<lambda>_ a. a * 4), ra_fft = (\<lambda>_ x. x),
      ra_pss = (\<lambda>_ n. replicate n (0, 0)), ra_sss = (\<lambda>_ n. replicate n (0, 0)), ra_dmrs = (\<lambda>_ n. replicate n (0, 0)),
      ra_pss_detect = (\<lambda>_ _ cp _. Some (cp, pci_nid2 pci)), ra_pci_verify = (\<lambda>_ _ cand _. if cand = pci then 1 else 0),
      ra_equalise = (\<lambda>_ _ _ x. x)\<rparr>"

lemma drop_uniform: "\<forall>x \<in> set xss. length x = L \<Longrightarrow> drop (i * L) (concat xss) = concat (drop i xss)"
proof (induction xss arbitrary: i)
  case (Cons x xss)
  then show ?case by (cases i) simp_all
qed simp

lemma length_uniform: "\<forall>x \<in> set xss. length x = L \<Longrightarrow> length (concat xss) = length xss * L"
  by (induction xss) simp_all

lemma slice_ideal:
  assumes "\<forall>r \<in> set rows. length r = fc_n_fft cfg" "fc_cp_len cfg \<le> fc_n_fft cfg" "i < length rows"
  shows "slice_fd (ideal_radio pci) cfg (concat (map (add_symbol (fc_cp_len cfg)) rows)) i = rows ! i"
proof -
  let ?w = "fc_n_fft cfg + fc_cp_len cfg"
  have "\<forall>x \<in> set (map (add_symbol (fc_cp_len cfg)) rows). length x = ?w" using assms(1,2) by (auto simp: add_symbol_def)
  from drop_uniform [OF this, of i]
  have "drop (i * ?w + fc_cp_len cfg) (concat (map (add_symbol (fc_cp_len cfg)) rows)) =
      drop (fc_cp_len cfg) (add_symbol (fc_cp_len cfg) (rows ! i) @ concat (map (add_symbol (fc_cp_len cfg)) (drop (Suc i) rows)))"
    using assms(3) by (simp add: drop_map Cons_nth_drop_Suc [symmetric] add.commute del: drop_append flip: drop_drop)
  moreover have "length (rows ! i) = fc_n_fft cfg" using assms(1,3) by simp
  ultimately show ?thesis using assms(2) by (simp add: slice_fd_def ideal_radio_def add_symbol_def)
qed

lemma near_ideal: "list_all2 (symbol_near (ideal_radio pci) bps) (qam_levels c bps) (qam_modulate (ideal_radio pci) c bps)"
  by (auto simp: qam_modulate_def list_all2_map2 list.rel_refl symbol_near_def ideal_radio_def intro!: list.rel_refl_strong)

lemma ideal_received:
  assumes "phy_tx_frame (ideal_radio pci) bits cfg mcs = Inr samples" "fc_cp_len cfg \<le> fc_n_fft cfg"
  shows "burst_received (ideal_radio pci) cfg pci mcs bits samples"
proof -
  let ?n = "fc_n_fft cfg" and ?z = "replicate (fc_n_fft cfg) (0, 0) :: (rat \<times> rat) list"
  define rows where "rows = [?z, ?z, ?z] @ map_data_symbols (ideal_radio pci) bits ?n mcs"
  have s: "samples = concat (map (add_symbol (fc_cp_len cfg)) rows)"
    using assms(1) by (simp add: phy_tx_frame_def Let_def rows_def ideal_radio_def split: if_splits)
  have l: "\<forall>r \<in> set rows. length r = ?n"
    using bps_cases [of mcs]
    by (auto simp: rows_def map_data_symbols_def qam_modulate_def qam_levels_def symbol_bits_def Let_def split: if_splits)
  have w: "\<forall>x \<in> set (map (add_symbol (fc_cp_len cfg)) rows). length x = ?n + fc_cp_len cfg" using l assms(2) by (auto simp: add_symbol_def)
  have len: "length samples = (kPreambleSymbols + frame_data_symbols (length bits) ?n mcs) * (?n + fc_cp_len cfg)"
    unfolding s length_uniform [OF w] by (simp add: rows_def map_data_symbols_def kPreambleSymbols_def algebra_simps)
  have row: "slice_fd (ideal_radio pci) cfg samples (kPreambleSymbols + i) = map_data_symbols (ideal_radio pci) bits ?n mcs ! i"
    if "i < frame_data_symbols (length bits) ?n mcs" for i
    using that slice_ideal [OF l assms(2), of "3 + i" pci] by (simp add: s rows_def map_data_symbols_def kPreambleSymbols_def)
  have near: "near_symbols (ideal_radio pci) bits ?n mcs (\<lambda>i. slice_fd (ideal_radio pci) cfg samples (kPreambleSymbols + i))"
    unfolding near_symbols_def using near_ideal by (auto simp: row map_data_symbols_def split: prod.splits)
  have i: "ra_pss_detect (ideal_radio pci) xs n cp m = Some (cp, pci_nid2 pci)" "ra_equalise (ideal_radio pci) c n a b = b"
    "ra_pci_verify (ideal_radio pci) a b c n = (if c = pci then 1 else 0)" for xs n cp m a b c
    by (simp_all add: ideal_radio_def)
  show ?thesis unfolding burst_received_def Let_def i by (rule exI [of _ "fc_cp_len cfg"]) (simp add: len near)
qed

theorem phy_burst_delivers_witness:
  "let f = \<lparr>af_type = DATA, af_rnti = 0x101, af_payload = [1, 2, 3]\<rparr>; cfg = frame_tx_default; K = ideal_radio 0 in
   \<exists>samples r out. phy_tx_frame K (pack_air_bits (encode_frame f)) cfg QAM16 = Inr samples \<and>
     phy_rx_frame K samples cfg 0x101 = Some (r, out) \<and> fr_mcs r = QAM16 \<and> Option.bind (unpack_air_bits out) decode_frame = Some f"
proof -
  let ?f = "\<lparr>af_type = DATA, af_rnti = 0x101, af_payload = [1, 2, 3]\<rparr>" and ?cfg = frame_tx_default and ?K = "ideal_radio 0"
  have n: "24 \<le> fc_n_fft ?cfg" "fc_n_fft ?cfg < 2 ^ 32" "fc_cp_len ?cfg \<le> fc_n_fft ?cfg" "fc_pci ?cfg < 0 \<or> fc_pci ?cfg = 0"
    by (simp_all add: frame_tx_default_def)
  have fits: "length (pack_air_bits (encode_frame ?f)) \<le> frame_bits_capacity (fc_n_fft ?cfg) QAM16" "length (af_payload ?f) \<le> 65532"
    using capacity_eq [of 64 QAM16] by (simp_all add: pack_air_bits_eq encode_frame_def frame_tx_default_def)
  obtain samples where s: "phy_tx_frame ?K (pack_air_bits (encode_frame ?f)) ?cfg QAM16 = Inr samples"
    using fits(1) by (simp add: phy_tx_frame_def Let_def)
  show ?thesis
    using phy_burst_delivers [OF n(1,2) order_refl _ n(4) fits ideal_received [OF s n(3)], of "0x101"] s by (auto simp: Let_def)
qed

subsection \<open>What fits a burst\<close>

lemma coded_air_bits:
  assumes "link_encode pdu proc ndi = Inr coded"
  shows "length (pack_air_bits (encode_frame \<lparr>af_type = ty, af_rnti = r, af_payload = coded\<rparr>)) = 16 * length pdu + 144"
proof -
  have "length coded = 2 * length pdu + 13" using link_encode_frame [of pdu proc ndi] assms by (auto simp: harq_pack_def)
  then show ?thesis by (simp add: pack_air_bits_eq encode_frame_def)
qed

text \<open>With the default grid of 64 subcarriers a QPSK burst takes a transport block of up to 310 bytes.\<close>

lemma transport_block_fits:
  assumes "link_encode pdu proc ndi = Inr coded"
  shows "phy_tx_data K (pack_air_bits (encode_frame \<lparr>af_type = ty, af_rnti = r, af_payload = coded\<rparr>)) frame_tx_default QPSK = Inl invalid_argument
    \<longleftrightarrow> 310 < length pdu"
  using coded_air_bits [OF assms, of ty r] capacity_eq [of 64 QPSK] by (auto simp: phy_tx_data_def frame_tx_default_def)

lemma am_tx_fold_sizes:
  "p \<in> set (snd (fold am_tx_segment ss (tx, out))) \<Longrightarrow> p \<in> set out \<or> (\<exists>s \<in> set ss. length p = 3 + length (snd s))"
proof (induction ss arbitrary: tx out)
  case (Cons s ss)
  obtain tx' q where q: "am_tx_segment s (tx, out) = (tx', out @ [q])" "length q = 3 + length (snd s)"
    by (cases s) (simp add: am_tx_segment_def Let_def am_build_pdu_def)
  then show ?case using Cons.IH [of tx' "out @ [q]"] Cons.prems by (auto simp: q(1))
qed simp

lemma am_tx_sizes:
  assumes "p \<in> set (snd (am_tx now sdu force tx))" "0 < ac_max_pdu_payload (at_cfg tx)"
  shows "length p \<le> ac_max_pdu_payload (at_cfg tx) + 3"
proof -
  have "sdu \<noteq> []" "p \<in> set (snd (fold am_tx_segment (rlc_segments (ac_max_pdu_payload (at_cfg tx)) sdu) (tx\<lparr>at_last_progress_ms := uint now\<rparr>, [])))"
    using assms(1) by (auto simp: am_tx_def Let_def split: if_splits)
  then obtain fi pl where "(fi, pl) \<in> set (rlc_segments (ac_max_pdu_payload (at_cfg tx)) sdu)" "length p = 3 + length pl"
    using am_tx_fold_sizes [of p _ _ "[]"] by fastforce
  then show ?thesis using rlc_segments_shape(2) [OF assms(2) \<open>sdu \<noteq> []\<close>] by force
qed

text \<open>
  Every data PDU of the acknowledged mode fits one burst: whatever SDU is submitted to a bearer, each PDU it is cut into, with its PDCP
  header, protected under the session key, multiplexed, coded and framed, is within the capacity of a QPSK
  burst on the default grid, so that the transmitter never throws for it.
\<close>

theorem am_pdu_fits_burst:
  assumes "at_cfg tx = am_node_bearer_config" "p \<in> set (snd (am_tx now sdu force tx))"
    and "link_encode (build_pdu [(lcid, protect key seq (pdcp_tx (tm_tx p)))]) proc ndi = Inr coded"
  shows "\<exists>samples. phy_tx_data K (pack_air_bits (encode_frame \<lparr>af_type = DATA, af_rnti = r, af_payload = coded\<rparr>)) frame_tx_default QPSK = Inr samples"
proof -
  have "length p \<le> 259" using am_tx_sizes [OF assms(2)] assms(1) by (simp add: am_node_bearer_config_def am_default_config_def)
  moreover have "length (protect key seq (pdcp_tx (tm_tx p))) \<le> length p + 15" by (simp add: protect_eq Let_def pdcp_tx_def tm_tx_def)
  ultimately have "length (build_pdu [(lcid, protect key seq (pdcp_tx (tm_tx p)))]) \<le> 277" by (simp add: mac_subheader_def Let_def)
  then have "\<not> 310 < length (build_pdu [(lcid, protect key seq (pdcp_tx (tm_tx p)))])" by linarith
  then show ?thesis using transport_block_fits [OF assms(3), of K DATA r] by (auto simp: phy_tx_data_def split: if_splits)
qed

text \<open>
  A long STATUS terminates its sender: an AM receiver whose first PDU carries a number from 152 on records a hole for
  every number before it and asks for them in one STATUS. That PDU exceeds the capacity of a QPSK
  burst, the transmitter throws, and nothing between it and the main loop of the process catches the exception.
\<close>

theorem long_status_exceeds_burst:
  assumes "152 \<le> sn" "sn \<le> 254" "am_rx (am_build_pdu (word_of_nat sn) fi payload) (am_rx_init cfg) = (rx, out)" "fi \<in> {0x00, 0x10, 0x20, 0x30}"
    and "link_encode (build_pdu [(lcid, am_build_status rx)]) proc ndi = Inr coded"
  shows "ao_status_needed out \<and> card (ar_holes rx) = sn \<and>
    phy_tx_data K (pack_air_bits (encode_frame \<lparr>af_type = DATA, af_rnti = r, af_payload = coded\<rparr>)) frame_tx_default QPSK = Inl invalid_argument"
proof -
  have "\<forall>x \<in> {} \<union> word_of_nat ` {0..<sn}. 0 \<le> unat (x :: u16) \<and> unat x < 0 + 255" using assms(2) by (auto simp: unat_of_nat)
  from am_record_holes_all [OF this] assms(2) have h: "am_record_holes 0 sn {} = (word_of_nat ` {0..<sn}, sn)" by simp
  have s: "unat (word_of_nat sn :: u16) = sn" "(0 :: u16) < word_of_nat sn" using assms(1,2) by (simp_all add: unat_of_nat word_less_nat_alt)
  let ?segs = "replicate (Suc sn) (fi, payload)"
  have "am_build_pdu (word_of_nat sn) fi payload = am_stream ?segs (\<lambda>_. False) sn" by (simp add: am_stream_def del: replicate_Suc)
  moreover note am_stream_fields [of ?segs sn "\<lambda>_. False"]
  ultimately have rx: "ar_holes rx = word_of_nat ` {0..<sn}" "ao_status_needed out"
    using assms(1,3,4) s h by (auto simp: am_rx_def am_rx_init_def Let_def not_less word_less_nat_alt simp del: replicate_Suc)
  have "inj_on (word_of_nat :: nat \<Rightarrow> u16) {0..<sn}"
    by (rule inj_onI, drule arg_cong [of _ _ unat]) (use assms(2) in \<open>simp add: unat_of_nat\<close>)
  then have c: "card (ar_holes rx) = sn" by (simp add: rx(1) card_image)
  have "length (concat (map put16 xs)) = 2 * length xs" for xs by (induction xs) simp_all
  then have "length (am_build_status rx) = 4 + 2 * sn" by (simp add: am_build_status_def c)
  moreover from this have "\<not> size16 (am_build_status rx) \<le> 255" using assms(1,2) by (simp add: word_le_nat_alt)
  ultimately have "310 < length (build_pdu [(lcid, am_build_status rx)])" using assms(1) by (simp add: mac_subheader_def Let_def)
  then show ?thesis using transport_block_fits [OF assms(5), of K DATA r] rx(2) c by simp
qed

theorem long_status_exceeds_burst_witness:
  "let rx = fst (am_rx (am_build_pdu (word_of_nat 152) 0x30 [7]) (am_rx_init am_node_bearer_config)) in
   \<exists>coded. link_encode (build_pdu [(9, am_build_status rx)]) 0 1 = Inr coded \<and>
     phy_tx_data (ideal_radio 0) (pack_air_bits (encode_frame \<lparr>af_type = DATA, af_rnti = 0x101, af_payload = coded\<rparr>)) frame_tx_default QPSK = Inl invalid_argument"
proof -
  let ?r = "am_rx (am_build_pdu (word_of_nat 152) 0x30 [7]) (am_rx_init am_node_bearer_config)"
  obtain coded where c: "link_encode (build_pdu [(9, am_build_status (fst ?r))]) 0 1 = Inr coded"
    using link_encode_frame by blast
  show ?thesis
    using long_status_exceeds_burst [of 152 "0x30" "[7]" am_node_bearer_config "fst ?r" "snd ?r" 9 0 1 coded "ideal_radio 0" "0x101"] c
    by (auto simp: Let_def)
qed

theorem am_pdu_fits_burst_witness:
  "\<exists>coded samples. link_encode (build_pdu [(2, protect (replicate 32 0) 0 (pdcp_tx (tm_tx (am_build_pdu 0 0 [7]))))]) 0 1 = Inr coded \<and>
     phy_tx_data (ideal_radio 0) (pack_air_bits (encode_frame \<lparr>af_type = DATA, af_rnti = 0x101, af_payload = coded\<rparr>)) frame_tx_default QPSK = Inr samples"
proof -
  let ?tx = "am_tx_init am_node_bearer_config"
  have "snd (am_tx 0 [7] False ?tx) = [am_build_pdu 0 0 [7]]" by code_simp
  then have "am_build_pdu 0 0 [7] \<in> set (snd (am_tx 0 [7] False ?tx))" by simp
  moreover obtain coded where "link_encode (build_pdu [(2, protect (replicate 32 0) 0 (pdcp_tx (tm_tx (am_build_pdu 0 0 [7]))))]) 0 1 = Inr coded"
    using link_encode_frame by blast
  ultimately show ?thesis using am_pdu_fits_burst [of ?tx _ 0 "[7]" False 2 "replicate 32 0" 0 0 1 coded "ideal_radio 0" "0x101"]
    by (auto simp: am_tx_init_def)
qed

subsection \<open>Short buffers\<close>

text \<open>
  A short or early burst makes the receiver read outside its buffer, and nothing else does: that happens exactly if the
  correlation finds the preamble closer to the start of the buffer than the length of a cyclic prefix, or with less than
  the three preamble symbols from there to its end. The samples come from a datagram of any length.
\<close>

theorem phy_rx_out_of_bounds:
  "phy_rx_frame K samples cfg own = None \<longleftrightarrow>
     (\<exists>t nid2. ra_pss_detect K samples (fc_n_fft cfg) (fc_cp_len cfg) (4 * (fc_n_fft cfg + fc_cp_len cfg)) = Some (t, nid2) \<and>
        t < length samples + fc_cp_len cfg \<and>
        (t < fc_cp_len cfg \<or> length samples < t - fc_cp_len cfg + 3 * (fc_n_fft cfg + fc_cp_len cfg)))"
proof (cases "ra_pss_detect K samples (fc_n_fft cfg) (fc_cp_len cfg) (4 * (fc_n_fft cfg + fc_cp_len cfg))")
  case None
  then show ?thesis by (simp add: phy_rx_frame_def Let_def)
next
  case (Some p)
  obtain t nid2 where p: "p = (t, nid2)" by fastforce
  define w where "w = fc_n_fft cfg + fc_cp_len cfg"
  have d: "ra_pss_detect K samples (fc_n_fft cfg) (fc_cp_len cfg) (4 * w) = Some (t, nid2)" using Some p by (simp add: w_def)
  have 1: "int (length samples) - (int t - int (fc_cp_len cfg)) \<le> 0 \<longleftrightarrow> \<not> t < length samples + fc_cp_len cfg" by linarith
  have 2: "length (take (w * (kPreambleSymbols + kFrameDataMaxSymbols)) (drop (t - fc_cp_len cfg) samples)) < 2 * w + fc_cp_len cfg + fc_n_fft cfg \<longleftrightarrow>
      length samples - (t - fc_cp_len cfg) < 3 * w"
    by (simp add: w_def kPreambleSymbols_def kFrameDataMaxSymbols_def min_less_iff_disj)
  have "phy_rx_frame K samples cfg own = None \<longleftrightarrow> t < length samples + fc_cp_len cfg \<and> (t < fc_cp_len cfg \<or> length samples - (t - fc_cp_len cfg) < 3 * w)"
    unfolding phy_rx_frame_def Let_def w_def [symmetric] d option.case prod.case 1 2 by (simp split: prod.split)
  moreover have "length samples - (t - fc_cp_len cfg) < 3 * w \<longleftrightarrow> length samples < t - fc_cp_len cfg + 3 * w"
    if "t < length samples + fc_cp_len cfg" using that by linarith
  ultimately show ?thesis unfolding w_def [symmetric] d by auto
qed

end
