(* ===== verification/Spec2Isabelle.thy ===== *)
theory Spec2Isabelle
  imports MacPdu RrcMessages NasMessages CnMessages U2u RlcUm RlcAm Harq Pdcp Rach Rrc Nas CoreNet Qos Timers Conf BsNode UeApp UeNode Cell Qam PhyFrame
begin

text \<open>
  AetherStack is a cellular protocol stack in C++: a terminal (UE) and a base station (BS),
  each a stack PHY, MAC, RLC, PDCP, RRC, NAS, application, and a core network of an AMF
  (control plane) and a UPF (user plane). This library models the protocol logic under
  \<^verbatim>\<open>src/stack\<close> and proves what each layer promises to the next one.

  \<^bold>\<open>Conventions.\<close> \<^verbatim>\<open>uintN_t\<close> is an \<open>N\<close>-bit word and arithmetic wraps; a \<^verbatim>\<open>std::vector<uint8_t>\<close> and
  a \<^verbatim>\<open>std::string\<close> are byte lists; a \<^verbatim>\<open>std::map\<close> is an ordered association list, a
  \<^verbatim>\<open>std::unordered_map\<close> a partial function, and where the source iterates over one the iteration
  order is an argument. A class is a record with one function per method; callbacks are
  outputs, in the order in which they are invoked. An \<^verbatim>\<open>enum class\<close> read from the wire by
  \<^verbatim>\<open>static_cast\<close> is a byte with named constants, a closed state enumeration is a datatype.
  Random challenges, clocks and the effects of callbacks on the caller are arguments.
  Logging has no effect in the model.

  \<^bold>\<open>Theories.\<close>

  \<^item> \<open>Prelude\<close>: words, bytes, little-endian fields, ordered maps; the interfaces \<open>wire_codec\<close>
    (an encoder with its decoder), \<open>keyed_store\<close> and \<open>simulation\<close> (a step function against an
    abstract one), with what their clients may conclude.

  \<^item> \<open>MacPdu\<close> (\<^verbatim>\<open>mac/src/mac_pdu.cpp\<close>), \<open>RrcMessages\<close>, \<open>NasMessages\<close>, \<open>CnMessages\<close>, \<open>RadioFrames\<close>
    (\<^verbatim>\<open>core/src/radio_frames.cpp\<close>), \<open>U2u\<close> (\<^verbatim>\<open>app/src/u2u.cpp\<close>): the wire formats. Each is shown to
    decode what it encodes, and the parsers never to read past their input.

  \<^item> \<open>Fec\<close> (\<^verbatim>\<open>phy/src/fec.cpp\<close>): CRC16, the convolutional code and its Viterbi decoder, shown to
    be a maximum-likelihood decoder, and the CRC to detect every change of one byte.

  \<^item> \<open>Qam\<close> (\<^verbatim>\<open>phy/src/qam.cpp\<close>) and \<open>PhyFrame\<close> (\<^verbatim>\<open>phy/src/frame.cpp\<close>): modulation on integer levels and
    the layout of a burst, with the floating-point kernels as arguments (record \<open>radio\<close>). A burst received
    within half a unit of the grid is shown to deliver its air frame, every AM data PDU to fit a burst, and
    the inputs on which the receiver reads outside its buffer are characterised.

  \<^item> \<open>Harq\<close> (\<^verbatim>\<open>core/src/harq.cpp\<close>): link framing, stop-and-wait sender processes with a
    retransmission budget, receiver with stored attempts.

  \<^item> \<open>Rlc\<close>, \<open>RlcUm\<close>, \<open>RlcAm\<close> (\<^verbatim>\<open>rlc/src\<close>): segmentation and reassembly, the unacknowledged and the
    acknowledged mode. \<open>Rlc\<close> states the contract of an in-order receiver as a locale that both
    modes interpret. For AM, \<open>am_run\<close> is the step relation of sender, receiver and a network
    that loses, duplicates and reorders, the ticks of both ends included: delivery is a subsequence of
    what was accepted, and a prefix as long as the reordering timer has given nothing up.

  \<^item> \<open>Crypto\<close> (\<^verbatim>\<open>common/src/crypto.cpp\<close>), \<open>Pdcp\<close> (\<^verbatim>\<open>pdcp/src\<close>), \<open>Aka\<close> (\<^verbatim>\<open>nas/src/aka.cpp\<close>): SHA-256 shown
    equal to the block-wise definition of the standard, HMAC, ChaCha20, the protection of
    user-plane frames, and authentication vectors. \<open>Aka\<close> states the contract of an
    authentication scheme as the locale \<open>auth_scheme\<close>.

  \<^item> \<open>Rach\<close> (\<^verbatim>\<open>mac/src/rach_*.cpp\<close> and the frame dispatch of \<^verbatim>\<open>core/src/ue_node.cpp\<close>, \<^verbatim>\<open>bs_node.cpp\<close>):
    random access, end to end over air frames, and the terminal under arbitrary inputs.

  \<^item> \<open>Rrc\<close> (\<^verbatim>\<open>rrc/src\<close>): setup, release, suspension and resumption, re-establishment; invariants of
    terminal and cell under arbitrary operations.

  \<^item> \<open>Nas\<close> (\<^verbatim>\<open>nas/src\<close>) and \<open>CoreNet\<close> (\<^verbatim>\<open>cn/src/amf.cpp\<close>, \<^verbatim>\<open>upf.cpp\<close>): attach with mutual
    authentication, freshness, resynchronisation, what gets registered; the AMF refines an
    abstract registration service \<open>reg_step\<close>; the UPF routes to the place announced last.

  \<^item> \<open>Qos\<close> (\<^verbatim>\<open>core/include/core/qos.h\<close>): service classes, bearers and the priority scheduler with
    its minimum share for best effort.

  \<^item> \<open>Timers\<close> (\<^verbatim>\<open>core/src/timer_list.cpp\<close>): timers on a 32-bit clock that wraps.

  \<^item> \<open>Conf\<close> (\<^verbatim>\<open>core/src/bs_node.cpp\<close>, the conference bridge): membership spliced from forwarded
    signalling, shown to refine an abstract conference of host, members and ringing parties.

  \<^item> \<open>BsFlow\<close> (\<^verbatim>\<open>BsNode::DlFlow\<close>): the downlink of one terminal, that is queues with backpressure, the
    drain loop with ciphering and HARQ, suspension. What a drain sends is shown to reach the
    application of the terminal, and the nonces of the ciphered frames to be all different.

  \<^item> \<open>BsNode\<close> (\<^verbatim>\<open>core/src/bs_node.cpp\<close>): the base station composed of all of these, with its
    handlers of air, core-network and Xn messages and its tick; an invariant of every reachable
    state, that a tick leaves no sendable PDU beside a free HARQ process, the handover policy
    and a handover over Xn end to end between two nodes.

  \<^item> \<open>Effects\<close>: actions on a node state with outputs and with exceptions, and the interfaces \<open>steps\<close>
    and \<open>guarded_steps\<close>: a relation kept by composed actions. \<open>Ledger\<close>: the interface \<open>ledger\<close> of a
    sender that accounts for what it sent.

  \<^item> \<open>UeApp\<close> (\<^verbatim>\<open>core/src/ue_node.cpp\<close>, the application of the terminal): pings, call dialogs,
    conferences, media streams and their bearers. In every reachable state the dialogs are well
    formed, sent media has the dialog that justifies it, and received media is taken only inside an
    established one; pings and media packets are
    accounted for (two interpretations of \<open>ledger\<close>); a call is followed from the INVITE to the BYE.

  \<^item> \<open>UeNode\<close> (the rest of \<^verbatim>\<open>core/src/ue_node.cpp\<close>): the terminal composed of random access, RRC, NAS, HARQ,
    bearers and application, whose record it extends: attach with its guards and retries, detach,
    suspension and resumption, measurements, handover, link failure and re-establishment, the
    uplink, the dispatch of the downlink, the timer callbacks and the tick. \<open>ue_run\<close> is the step relation of the
    node under bursts, ticks and commands; in every reachable state the invariant holds and every
    input returns, unless it is a HARQ frame whose decoding throws. A tick leaves no sendable PDU
    beside a free HARQ process, and a handover command is obeyed and confirmed.

  \<^item> \<open>Cell\<close>: terminal and base station together on the state they share, with three defects of the
    composition: one keystream for both directions, the key that survives a refused resumption,
    and sequence numbers that disagree after a re-establishment.

  \<^bold>\<open>Bounds.\<close> Every loop of the model is structurally recursive or has a measure, but the one of
  \<^verbatim>\<open>end_conf\<close>, which is a partial function shown to return from every reachable state; no fuel is
  used. Hypotheses on sizes are the ranges of the wire fields (values below 65536 bytes, an
  IMSI below 256 bytes in a failure report), the number of events before a counter wraps
  (sequence numbers of RLC, 65536 suspensions of a cell, $2^{48}$ challenges), and the half
  range of the signed clock comparison ($2^{31}$ ms). The theorems about defects state runs
  in which such a bound is passed or a guard is missing.

  \<^bold>\<open>Not modelled.\<close> The numerical signal processing of the PHY (\<^verbatim>\<open>phy/src/ofdm.cpp\<close>, \<^verbatim>\<open>sync.cpp\<close>,
  \<^verbatim>\<open>qpsk.cpp\<close>: floating-point FFT, reference sequences and correlation); sockets,
  logging and the process mains; in both nodes the power control and the
  reports of channel quality, which work on floating-point measurements and are inert without
  them (\<^verbatim>\<open>BsNode\<close>: uplink power control; \<^verbatim>\<open>UeNode\<close>: \<^verbatim>\<open>on_air_bits_with_metrics\<close>, \<^verbatim>\<open>service_link_metrics\<close>), and the
  aggregation of events for the log. The delays drawn from \<^verbatim>\<open>std::mt19937\<close> are arguments of the model.
\<close>

end
